(* ===== verification/Prelude.thy ===== *)
theory Prelude
  imports Main "HOL-Library.Multiset"
begin

text \<open>
  Shared vocabulary of the development: addresses, coroutine handles and threads as
  numbers, the reachability predicate of a transition system, the contract \<open>inv_system\<close>
  that turns an inductive invariant into a fact about every reachable state, and list
  lemmas that several components use.

  All concurrent components are modelled the same way.  Every access to a shared atomic
  variable (load, store, exchange, compare-exchange, fetch-add) is one step; steps of
  different threads interleave in any order.  Memory orders are not modelled: the
  interleaving is sequentially consistent.
\<close>

type_synonym addr = nat
type_synonym handle = nat
type_synonym tid = nat

text \<open>Facts that evaluate the steps of a component, and facts that unfold its invariant.\<close>

named_theorems step_simps
named_theorems inv_defs

section \<open>Reachable states\<close>

inductive reach :: "('s \<Rightarrow> bool) \<Rightarrow> ('s \<Rightarrow> 's \<Rightarrow> bool) \<Rightarrow> 's \<Rightarrow> bool"
  for init :: "'s \<Rightarrow> bool" and step :: "'s \<Rightarrow> 's \<Rightarrow> bool" where
  reach_init: "init s \<Longrightarrow> reach init step s"
| reach_step: "reach init step s \<Longrightarrow> step s t \<Longrightarrow> reach init step t"

text \<open>Executing a list of steps given as partial functions, for concrete runs.\<close>

fun follow :: "('s \<Rightarrow> 's \<Rightarrow> bool) \<Rightarrow> 's \<Rightarrow> 's list \<Rightarrow> bool" where
  "follow step s [] = True"
| "follow step s (t # ts) = (step s t \<and> follow step t ts)"

lemma reach_follow:
  "reach init step s \<Longrightarrow> follow step s ts \<Longrightarrow> t \<in> set (s # ts) \<Longrightarrow> reach init step t"
  by (induction ts arbitrary: s) (auto intro: reach_step)

lemma reach_last:
  "reach init step s \<Longrightarrow> follow step s ts \<Longrightarrow> reach init step (last (s # ts))"
  using reach_follow last_in_set by (metis list.distinct(1))

locale inv_system =
  fixes init :: "'s \<Rightarrow> bool"
    and step :: "'s \<Rightarrow> 's \<Rightarrow> bool"
    and inv :: "'s \<Rightarrow> bool"
  assumes init_inv: "init s \<Longrightarrow> inv s"
    and step_inv: "inv s \<Longrightarrow> step s t \<Longrightarrow> inv t"
begin

lemma reach_inv: "reach init step s \<Longrightarrow> inv s"
  by (induction rule: reach.induct) (auto intro: init_inv step_inv)

lemma reach_safe:
  assumes "reach init step s" and "\<And>t. inv t \<Longrightarrow> P t"
  shows "P s"
  using reach_inv assms by blast

lemma reach_step_safe:
  assumes "reach init step s" and "step s t" and "\<And>u v. inv u \<Longrightarrow> inv v \<Longrightarrow> step u v \<Longrightarrow> P u v"
  shows "P s t"
  using reach_inv [OF assms(1)] reach_inv [OF reach_step [OF assms(1,2)]] assms(2,3) by blast

end

section \<open>Lists\<close>

lemma filter_tl_neq [simp]: "xs \<noteq> [] \<Longrightarrow> hd xs = a \<Longrightarrow> filter (\<lambda>x. x \<noteq> a) (tl xs) = filter (\<lambda>x. x \<noteq> a) xs"
  by (cases xs) auto

lemma length_le_1_cases: "length xs \<le> 1 \<Longrightarrow> xs = [] \<or> (\<exists>x. xs = [x])"
  by (cases xs) auto

lemma single_eq_append_cons [simp]: "[x] = ys @ y # zs \<longleftrightarrow> ys = [] \<and> y = x \<and> zs = []"
  by (cases ys) auto

lemma append_cons_eq_single [simp]: "ys @ y # zs = [x] \<longleftrightarrow> ys = [] \<and> y = x \<and> zs = []"
  by (cases ys) auto

lemma distinct_last_not_butlast:
  "distinct xs \<Longrightarrow> xs \<noteq> [] \<Longrightarrow> last xs \<notin> set (butlast xs)"
  by (metis append_butlast_last_id distinct_append disjoint_iff list.set_intros(1))

lemma mset_split_remove: "mset (xs @ y # ys) = add_mset y (mset (xs @ ys))"
  by simp

lemma mset_split:
  assumes "mset xs = add_mset x M"
  obtains us vs where "xs = us @ x # vs" "mset (us @ vs) = M"
proof -
  have "x \<in> set xs" using assms by (metis union_single_eq_member set_mset_mset)
  then obtain us vs where "xs = us @ x # vs" by (meson split_list)
  then show thesis using that assms by simp
qed

section \<open>Linked lists\<close>

text \<open>\<open>path nx p xs\<close>: following \<open>nx\<close> from \<open>p\<close> visits exactly the nodes \<open>xs\<close>.\<close>

fun path :: "(addr \<Rightarrow> addr option) \<Rightarrow> addr option \<Rightarrow> addr list \<Rightarrow> bool" where
  "path nx p [] = (p = None)"
| "path nx p (a # xs) = (p = Some a \<and> path nx (nx a) xs)"

lemma path_unique: "path nx p xs \<Longrightarrow> path nx p ys \<Longrightarrow> xs = ys"
proof (induction xs arbitrary: p ys)
  case Nil
  then show ?case by (cases ys) auto
next
  case (Cons a xs)
  then show ?case by (cases ys) auto
qed

lemma path_None [simp]: "path nx None xs = (xs = [])"
  by (cases xs) auto

lemma path_upd [simp]: "a \<notin> set xs \<Longrightarrow> path (nx(a := q)) p xs = path nx p xs"
  by (induction xs arbitrary: p) auto

lemma path_Some: "path nx (Some a) xs \<longleftrightarrow> (\<exists>zs. xs = a # zs \<and> path nx (nx a) zs)"
  by (cases xs) auto

end
