(* ===== verification/Mailbox_Contract.thy ===== *)
theory Mailbox_Contract
  imports Prelude
begin

text \<open>
  What the two mailboxes of \<open>coroactors/detail\<close> promise to the code that uses them, as a
  contract on whole operations: a mailbox is a queue of items together with a lock, a push
  into an unlocked mailbox locks it, a pop from an empty mailbox unlocks it.
  \<open>rep m xs l\<close> relates a mailbox to its items and its lock; a result \<open>None\<close> is a failed
  \<open>assert\<close>.  The lemmas below are what clients use.
\<close>

fun push_all :: "('m \<Rightarrow> 'a \<Rightarrow> (bool \<times> 'm) option) \<Rightarrow> 'm \<Rightarrow> 'a list \<Rightarrow> (bool list \<times> 'm) option" where
  "push_all push m [] = Some ([], m)"
| "push_all push m (x # xs) = Option.bind (push m x)
     (\<lambda>(b, m'). map_option (\<lambda>(bs, m''). (b # bs, m'')) (push_all push m' xs))"

fun drain :: "('m \<Rightarrow> ('a option \<times> 'm) option) \<Rightarrow> nat \<Rightarrow> 'm \<Rightarrow> ('a list \<times> 'm) option" where
  "drain pop 0 m = Some ([], m)"
| "drain pop (Suc n) m = Option.bind (pop m)
     (\<lambda>(x, m'). case x of
        None \<Rightarrow> Some ([], m')
      | Some a \<Rightarrow> map_option (\<lambda>(as, m''). (a # as, m'')) (drain pop n m'))"

locale mpsc_mailbox =
  fixes rep :: "'m \<Rightarrow> 'a list \<Rightarrow> bool \<Rightarrow> bool"
    and fresh :: "'a list \<Rightarrow> 'a \<Rightarrow> bool"
    and push :: "'m \<Rightarrow> 'a \<Rightarrow> (bool \<times> 'm) option"
    and pop :: "'m \<Rightarrow> ('a option \<times> 'm) option"
    and try_unlock :: "'m \<Rightarrow> (bool \<times> 'm) option"
  assumes push_rep: "rep m xs l \<Longrightarrow> fresh xs x \<Longrightarrow>
      \<exists>m'. push m x = Some (\<not> l, m') \<and> rep m' (xs @ [x]) True"
    and pop_rep: "rep m xs True \<Longrightarrow>
      \<exists>m'. pop m = Some (case xs of [] \<Rightarrow> None | x # _ \<Rightarrow> Some x, m') \<and> rep m' (tl xs) (xs \<noteq> [])"
    and try_unlock_rep: "rep m xs True \<Longrightarrow>
      \<exists>m'. try_unlock m = Some (xs = [], m') \<and> rep m' xs (xs \<noteq> [])"
begin

lemma push_pop_unlocked:
  assumes "rep m [] False" "fresh [] x"
  shows "\<exists>m1 m2. push m x = Some (True, m1) \<and> rep m1 [x] True \<and> pop m1 = Some (Some x, m2) \<and> rep m2 [] True"
  using push_rep [OF assms] pop_rep by fastforce

lemma push_all_rep:
  assumes "rep m xs l" "\<And>us v vs. ys = us @ v # vs \<Longrightarrow> fresh (xs @ us) v"
  shows "\<exists>bs m'. push_all push m ys = Some (bs, m') \<and> rep m' (xs @ ys) (l \<or> ys \<noteq> []) \<and>
    bs = (if ys = [] then [] else (\<not> l) # replicate (length ys - 1) False)"
  using assms
proof (induction ys arbitrary: m xs l)
  case (Cons y ys)
  obtain m1 where m1: "push m y = Some (\<not> l, m1)" "rep m1 (xs @ [y]) True"
    using push_rep [OF Cons.prems(1)] Cons.prems(2) [of "[]" y ys] by auto
  have "fresh ((xs @ [y]) @ us) v" if "ys = us @ v # vs" for us v vs
    using Cons.prems(2) [of "y # us" v vs] that by simp
  then obtain bs m2 where "push_all push m1 ys = Some (bs, m2)" "rep m2 (xs @ [y] @ ys) True"
    "bs = replicate (length ys) False"
    using Cons.IH [OF m1(2)] by (cases ys) auto
  then show ?case using m1 by auto
qed auto

lemma drain_rep:
  assumes "rep m xs True"
  shows "\<exists>m'. drain pop n m = Some (take n xs, m') \<and> rep m' (drop n xs) (n \<le> length xs)"
  using assms
proof (induction n arbitrary: m xs)
  case (Suc n)
  show ?case
  proof (cases xs)
    case Nil
    then show ?thesis using pop_rep [OF Suc.prems] by auto
  next
    case (Cons x ys)
    then obtain m1 where m1: "pop m = Some (Some x, m1)" "rep m1 ys True"
      using pop_rep [OF Suc.prems] by auto
    then show ?thesis using Suc.IH [OF m1(2)] Cons by auto
  qed
qed auto

text \<open>Items pushed into an empty mailbox come out in the same order, then the mailbox unlocks.\<close>

lemma push_all_drain:
  assumes "rep m [] l" "ys \<noteq> []" "\<And>us v vs. ys = us @ v # vs \<Longrightarrow> fresh us v"
  shows "\<exists>bs m1 m2. push_all push m ys = Some (bs, m1) \<and> drain pop (Suc (length ys)) m1 = Some (ys, m2) \<and>
    rep m2 [] False \<and> (hd bs \<longleftrightarrow> \<not> l) \<and> True \<notin> set (tl bs)"
proof -
  obtain bs m1 where m1: "push_all push m ys = Some (bs, m1)" "rep m1 ys True"
    "bs = (\<not> l) # replicate (length ys - 1) False"
    using push_all_rep [OF assms(1), of ys] assms(2,3) by auto
  then show ?thesis
    using drain_rep [OF m1(2), of "Suc (length ys)"] by (auto simp del: drain.simps)
qed

end

end
