(* ===== verification/Link_Chain.thy ===== *)
theory Link_Chain
  imports Prelude
begin

text \<open>
  Chains of nodes linked through an atomic \<open>next\<close> word, as both mailboxes of
  \<open>coroactors/detail\<close> build them.  The word is \<open>nullptr\<close>, the marker
  \<open>MarkerUnlocked\<close> or a node.  The predicate \<open>linked\<close> describes a chain some of whose
  links are still owed by pushes in flight; the lemmas say what every kind of write to the
  chain does to it.
\<close>

datatype link = Null | Unlocked | Ptr addr

text \<open>
  \<open>linked nx P c\<close>: along the chain \<open>c\<close> every node either points to its successor or
  waits for the pending push in \<open>P\<close> that will publish it; the last node points nowhere.
\<close>

fun linked :: "(addr \<Rightarrow> link) \<Rightarrow> (addr \<times> addr) set \<Rightarrow> addr list \<Rightarrow> bool" where
  "linked nx P [] = True"
| "linked nx P [a] = (nx a = Null \<or> nx a = Unlocked)"
| "linked nx P (a # b # c) =
     ((nx a = Ptr b \<and> (a, b) \<notin> P \<or> (nx a = Null \<or> nx a = Unlocked) \<and> (a, b) \<in> P) \<and>
      linked nx P (b # c))"

definition adj :: "addr list \<Rightarrow> (addr \<times> addr) set" where
  "adj c = set (zip c (tl c))"

section \<open>Lemmas on linked chains\<close>

lemma adj_simps [simp]:
  "adj [] = {}" "adj [a] = {}" "adj (a # b # c) = insert (a, b) (adj (b # c))"
  by (auto simp: adj_def)

lemma adj_in_set: "(a, b) \<in> adj c \<Longrightarrow> a \<in> set c \<and> b \<in> set c"
  by (induction c rule: induct_list012) auto

lemma adj_notin: "a \<notin> set c \<Longrightarrow> (a, b) \<notin> adj c" "b \<notin> set c \<Longrightarrow> (a, b) \<notin> adj c"
  using adj_in_set by blast+

lemma adj_snoc: "c \<noteq> [] \<Longrightarrow> adj (c @ [x]) = insert (last c, x) (adj c)"
  by (induction c rule: induct_list012) auto

lemma adj_fun: "distinct c \<Longrightarrow> (a, b) \<in> adj c \<Longrightarrow> (a, b') \<in> adj c \<Longrightarrow> b = b'"
  by (induction c rule: induct_list012) (auto dest: adj_in_set)

lemma adj_last: "distinct c \<Longrightarrow> (last c, b) \<notin> adj c"
  by (induction c rule: induct_list012) (auto dest: adj_in_set)

lemma linked_notin [simp]: "a \<notin> set c \<Longrightarrow> linked (nx(a := v)) P c = linked nx P c"
  by (induction c rule: induct_list012) auto

lemma linked_cong:
  "(\<And>a b. (a, b) \<in> adj c \<Longrightarrow> (a, b) \<in> P \<longleftrightarrow> (a, b) \<in> Q) \<Longrightarrow> linked nx P c = linked nx Q c"
  by (induction c rule: induct_list012) auto

lemma linked_last: "c \<noteq> [] \<Longrightarrow> linked nx P c \<Longrightarrow> nx (last c) = Null \<or> nx (last c) = Unlocked"
  by (induction c rule: induct_list012) auto

lemma linked_snoc:
  "c \<noteq> [] \<Longrightarrow> linked nx P c \<Longrightarrow> distinct c \<Longrightarrow> i \<notin> set c \<Longrightarrow> v = Null \<Longrightarrow>
   linked (nx(i := v)) (insert (last c, i) P) (c @ [i])"
  by (induction c rule: induct_list012) auto

lemma linked_waiting:
  "linked nx P c \<Longrightarrow> (a, b) \<in> P \<Longrightarrow> (a, b) \<in> adj c \<Longrightarrow> nx a = Null \<or> nx a = Unlocked"
  by (induction c rule: induct_list012) auto

lemma linked_not_waiting:
  "linked nx P c \<Longrightarrow> (a, b) \<notin> P \<Longrightarrow> (a, b) \<in> adj c \<Longrightarrow> nx a = Ptr b"
  by (induction c rule: induct_list012) auto

lemma linked_publish:
  "linked nx P c \<Longrightarrow> distinct c \<Longrightarrow> (a, b) \<in> adj c \<Longrightarrow> linked (nx(a := Ptr b)) (P - {(a, b)}) c"
proof (induction c rule: induct_list012)
  case (3 x y c)
  show ?case
  proof (cases "a = x")
    case True
    then have "b = y" using 3 by (auto dest: adj_in_set)
    moreover have "linked nx (P - {(x, y)}) (y # c) = linked nx P (y # c)"
      using 3(4) by (intro linked_cong) (auto dest: adj_in_set)
    then have "linked (nx(x := Ptr y)) (P - {(x, y)}) (y # c)"
      using 3(3,4) linked_notin [of x "y # c" nx] by simp
    ultimately show ?thesis using True by (simp add: fun_upd_def)
  next
    case False
    then have "(a, b) \<in> adj (y # c)" using 3 by simp
    then show ?thesis using 3 False by auto
  qed
qed auto

lemma linked_head_marker:
  "linked nx P c \<Longrightarrow> distinct c \<Longrightarrow> c \<noteq> [] \<Longrightarrow> a = hd c \<Longrightarrow> nx a = Null \<or> nx a = Unlocked \<Longrightarrow>
   v = Null \<or> v = Unlocked \<Longrightarrow> linked (nx(a := v)) P c"
  by (cases "(nx, P, c)" rule: linked.cases) auto

lemma linked_tl: "linked nx P c \<Longrightarrow> linked nx P (tl c)"
  by (cases "(nx, P, c)" rule: linked.cases) auto

lemma adj_tl: "c \<noteq> [] \<Longrightarrow> distinct c \<Longrightarrow> adj (tl c) = {(a, b) \<in> adj c. a \<noteq> hd c}"
  by (cases c; cases "tl c") (auto dest: adj_in_set)

end
