(* ===== verification/Mailbox.thy ===== *)
theory Mailbox
  imports Mailbox_Contract Link_Chain
begin

text \<open>
  The multiple-producer single-consumer mailbox of \<open>coroactors/detail/mailbox.h\<close>, which
  allocates a node per item.  Same protocol as the intrusive mailbox, but the chain always
  starts with a node whose item was already taken, so removing an item frees the node before
  it.  The model therefore also tracks which nodes are allocated: an access to a freed node
  is a failure, like a failed \<open>assert\<close>.
\<close>

section \<open>Memory and operations\<close>

record 'a mailbox =
  mnext :: "addr \<Rightarrow> link"
  mitem :: "addr \<Rightarrow> 'a option"
  mhead :: addr
  mtail :: addr
  mlive :: "addr list"

definition mailbox_locked :: "addr \<Rightarrow> 'a mailbox" where
  "mailbox_locked n = \<lparr>mnext = (\<lambda>_. Null), mitem = (\<lambda>_. None), mhead = n, mtail = n, mlive = [n]\<rparr>"

definition mailbox_unlocked :: "addr \<Rightarrow> 'a mailbox" where
  "mailbox_unlocked n = (mailbox_locked n)\<lparr>mnext := (\<lambda>_. Null)(n := Unlocked)\<rparr>"

text \<open>
  The two atomic exchanges of \<open>push\<close>; the first includes the construction of the new node
  at an address \<open>n\<close> chosen by the allocator.
\<close>

definition mailbox_exchange_tail :: "'a mailbox \<Rightarrow> addr \<Rightarrow> 'a \<Rightarrow> addr \<times> 'a mailbox" where
  "mailbox_exchange_tail m n x =
     (mtail m, m\<lparr>mnext := (mnext m)(n := Null), mitem := (mitem m)(n := Some x), mtail := n,
                 mlive := n # mlive m\<rparr>)"

definition mailbox_exchange_next :: "'a mailbox \<Rightarrow> addr \<Rightarrow> addr \<Rightarrow> (bool \<times> 'a mailbox) option" where
  "mailbox_exchange_next m prev n =
     (if prev \<in> set (mlive m) then Some (mnext m prev = Unlocked, m\<lparr>mnext := (mnext m)(prev := Ptr n)\<rparr>)
      else None)"

definition mailbox_push :: "addr \<Rightarrow> 'a mailbox \<Rightarrow> 'a \<Rightarrow> (bool \<times> 'a mailbox) option" where
  "mailbox_push n m x = (let (prev, m') = mailbox_exchange_tail m n x in mailbox_exchange_next m' prev n)"

definition mailbox_empty :: "'a mailbox \<Rightarrow> bool" where
  "mailbox_empty m \<longleftrightarrow> mhead m = mtail m"

text \<open>
  The consumer operations make one load of \<open>head_->next\<close> and, when it is null, one
  compare-exchange.  \<open>mailbox_take\<close> is the private tail of a successful pop.
\<close>

datatype mailbox_op = MPop | MPeek | MTryUnlock
datatype mailbox_pc = MLoad | MCas
datatype 'a mailbox_ret = RItem "'a option" | RBool bool
datatype 'a mailbox_out = Next mailbox_pc | Return "'a mailbox_ret" bool | Fail

definition mailbox_take :: "addr \<Rightarrow> 'a mailbox \<Rightarrow> 'a mailbox_out \<times> 'a mailbox" where
  "mailbox_take n m =
     (if n \<in> set (mlive m) then
        (Return (RItem (mitem m n)) False,
         m\<lparr>mhead := n, mlive := remove1 (mhead m) (mlive m), mitem := (mitem m)(n := None)\<rparr>)
      else (Fail, m))"

fun mailbox_access :: "mailbox_op \<Rightarrow> mailbox_pc \<Rightarrow> 'a mailbox \<Rightarrow> 'a mailbox_out \<times> 'a mailbox" where
  "mailbox_access MPop MLoad m = (case mnext m (mhead m) of
       Null \<Rightarrow> (Next MCas, m)
     | Unlocked \<Rightarrow> (Fail, m)
     | Ptr n \<Rightarrow> mailbox_take n m)"
| "mailbox_access MPop MCas m = (case mnext m (mhead m) of
       Null \<Rightarrow> (Return (RItem None) True, m\<lparr>mnext := (mnext m)(mhead m := Unlocked)\<rparr>)
     | Unlocked \<Rightarrow> (Fail, m)
     | Ptr n \<Rightarrow> mailbox_take n m)"
| "mailbox_access MPeek pc m = (case mnext m (mhead m) of
       Null \<Rightarrow> (Return (RItem None) False, m)
     | Unlocked \<Rightarrow> (Fail, m)
     | Ptr n \<Rightarrow> (if n \<in> set (mlive m) then (Return (RItem (mitem m n)) False, m) else (Fail, m)))"
| "mailbox_access MTryUnlock MLoad m = (case mnext m (mhead m) of
       Null \<Rightarrow> (Next MCas, m)
     | Unlocked \<Rightarrow> (Fail, m)
     | Ptr n \<Rightarrow> (Return (RBool False) False, m))"
| "mailbox_access MTryUnlock MCas m = (case mnext m (mhead m) of
       Null \<Rightarrow> (Return (RBool True) True, m\<lparr>mnext := (mnext m)(mhead m := Unlocked)\<rparr>)
     | _ \<Rightarrow> (Return (RBool False) False, m))"

text \<open>Whole operations, run alone; reading through a freed head is a failure.\<close>

definition mailbox_guard :: "mailbox_op \<Rightarrow> mailbox_pc \<Rightarrow> 'a mailbox \<Rightarrow> 'a mailbox_out \<times> 'a mailbox" where
  "mailbox_guard op pc m = (if mhead m \<in> set (mlive m) then mailbox_access op pc m else (Fail, m))"

definition mailbox_run :: "mailbox_op \<Rightarrow> 'a mailbox \<Rightarrow> 'a mailbox_out \<times> 'a mailbox" where
  "mailbox_run op m = (case mailbox_guard op MLoad m of
       (Next pc, m') \<Rightarrow> mailbox_guard op pc m'
     | r \<Rightarrow> r)"

definition pop_optional :: "'a mailbox \<Rightarrow> ('a option \<times> 'a mailbox) option" where
  "pop_optional m = (case mailbox_run MPop m of (Return (RItem x) _, m') \<Rightarrow> Some (x, m') | _ \<Rightarrow> None)"

definition pop_default :: "'a \<Rightarrow> 'a mailbox \<Rightarrow> ('a \<times> 'a mailbox) option" where
  "pop_default d m = (case mailbox_run MPop m of
       (Return (RItem (Some x)) _, m') \<Rightarrow> Some (x, m')
     | (Return (RItem None) _, m') \<Rightarrow> Some (d, m')
     | _ \<Rightarrow> None)"

definition mailbox_peek :: "'a mailbox \<Rightarrow> ('a option \<times> 'a mailbox) option" where
  "mailbox_peek m = (case mailbox_run MPeek m of (Return (RItem x) _, m') \<Rightarrow> Some (x, m') | _ \<Rightarrow> None)"

definition mailbox_try_unlock :: "'a mailbox \<Rightarrow> (bool \<times> 'a mailbox) option" where
  "mailbox_try_unlock m = (case mailbox_run MTryUnlock m of (Return (RBool b) _, m') \<Rightarrow> Some (b, m') | _ \<Rightarrow> None)"

text \<open>
  The destructor walks the chain and deletes every node; \<open>None\<close> is a visit to a freed node.
  The fuel bounds the walk; one unit per live node is enough (\<open>mailbox_destroy_all\<close>).
\<close>

fun mailbox_destroy :: "nat \<Rightarrow> addr \<Rightarrow> 'a mailbox \<Rightarrow> 'a mailbox option" where
  "mailbox_destroy 0 n m = None"
| "mailbox_destroy (Suc k) n m =
     (if n \<notin> set (mlive m) then None
      else let m' = m\<lparr>mlive := remove1 n (mlive m)\<rparr>
           in (case mnext m n of Ptr n' \<Rightarrow> mailbox_destroy k n' m' | _ \<Rightarrow> Some m'))"

section \<open>Interleaved executions\<close>

datatype mailbox_holder = MIdle | MRunning mailbox_op mailbox_pc

record 'a mailbox_sys =
  mmem :: "'a mailbox"
  mpend :: "(addr \<times> addr) list"
  mholders :: "mailbox_holder list"
  mchain :: "addr list"
  mpushed :: "'a list"
  mpopped :: "'a list"
  mfailed :: bool

definition mailbox_init :: "'a mailbox_sys \<Rightarrow> bool" where
  "mailbox_init s \<longleftrightarrow> (\<exists>n.
     s = \<lparr>mmem = mailbox_locked n, mpend = [], mholders = [MIdle], mchain = [n],
          mpushed = [], mpopped = [], mfailed = False\<rparr> \<or>
     s = \<lparr>mmem = mailbox_unlocked n, mpend = [], mholders = [], mchain = [n],
          mpushed = [], mpopped = [], mfailed = False\<rparr>)"

definition mailbox_advance :: "mailbox_op \<Rightarrow> mailbox_pc \<Rightarrow> 'a mailbox_sys \<Rightarrow> mailbox_holder list \<times> 'a mailbox_sys" where
  "mailbox_advance op pc s =
     (let (out, m') = mailbox_guard op pc (mmem s); s' = s\<lparr>mmem := m'\<rparr>
      in case out of
           Next pc' \<Rightarrow> ([MRunning op pc'], s')
         | Return r rel \<Rightarrow>
             (if rel then [] else [MIdle],
              case (op, r) of
                (MPop, RItem (Some x)) \<Rightarrow> s'\<lparr>mchain := tl (mchain s), mpopped := mpopped s @ [x]\<rparr>
              | _ \<Rightarrow> s')
         | Fail \<Rightarrow> ([MIdle], s'\<lparr>mfailed := True\<rparr>))"

inductive mailbox_step :: "'a mailbox_sys \<Rightarrow> 'a mailbox_sys \<Rightarrow> bool" where
  m_exchange_tail: "n \<notin> set (mlive (mmem s)) \<Longrightarrow> mailbox_exchange_tail (mmem s) n x = (prev, m') \<Longrightarrow>
     mailbox_step s (s\<lparr>mmem := m', mpend := (prev, n) # mpend s, mchain := mchain s @ [n],
                       mpushed := mpushed s @ [x]\<rparr>)"
| m_exchange_next: "mpend s = ps @ (prev, n) # qs \<Longrightarrow> mailbox_exchange_next (mmem s) prev n = Some (locks, m') \<Longrightarrow>
     mailbox_step s (s\<lparr>mmem := m', mpend := ps @ qs,
                       mholders := (if locks then mholders s @ [MIdle] else mholders s)\<rparr>)"
| m_exchange_next_fail: "mpend s = ps @ (prev, n) # qs \<Longrightarrow> mailbox_exchange_next (mmem s) prev n = None \<Longrightarrow>
     mailbox_step s (s\<lparr>mfailed := True\<rparr>)"
| m_start: "mholders s = hs @ MIdle # ks \<Longrightarrow>
     mailbox_step s (s\<lparr>mholders := hs @ MRunning op MLoad # ks\<rparr>)"
| m_advance: "mholders s = hs @ MRunning op pc # ks \<Longrightarrow> mailbox_advance op pc s = (h', s') \<Longrightarrow>
     mailbox_step s (s'\<lparr>mholders := hs @ h' @ ks\<rparr>)"

definition mailbox_items :: "'a mailbox_sys \<Rightarrow> 'a list" where
  "mailbox_items s = map (\<lambda>n. the (mitem (mmem s) n)) (tl (mchain s))"

section \<open>The invariant\<close>

definition mailbox_inv :: "'a mailbox_sys \<Rightarrow> bool" where
  "mailbox_inv s \<longleftrightarrow> \<not> mfailed s \<and>
     mchain s \<noteq> [] \<and> hd (mchain s) = mhead (mmem s) \<and> last (mchain s) = mtail (mmem s) \<and>
     distinct (mchain s) \<and> distinct (mlive (mmem s)) \<and> set (mlive (mmem s)) = set (mchain s) \<and>
     distinct (mpend s) \<and> set (mpend s) \<subseteq> adj (mchain s) \<and>
     linked (mnext (mmem s)) (set (mpend s)) (mchain s) \<and>
     (\<forall>n \<in> set (tl (mchain s)). mitem (mmem s) n \<noteq> None) \<and>
     mpushed s = mpopped s @ mailbox_items s \<and>
     (\<forall>n \<in> set (tl (mchain s)). mnext (mmem s) n \<noteq> Unlocked) \<and>
     (if mnext (mmem s) (mhead (mmem s)) = Unlocked then mholders s = [] else length (mholders s) = 1)"

lemma mailbox_inv_init: "mailbox_init s \<Longrightarrow> mailbox_inv s"
  by (auto simp: mailbox_init_def mailbox_inv_def mailbox_locked_def mailbox_unlocked_def mailbox_items_def)

lemma mailbox_invD:
  assumes "mailbox_inv s"
  shows "mchain s \<noteq> []" "hd (mchain s) = mhead (mmem s)" "last (mchain s) = mtail (mmem s)"
    "distinct (mchain s)" "distinct (mlive (mmem s))" "set (mlive (mmem s)) = set (mchain s)"
    "set (mpend s) \<subseteq> adj (mchain s)" "linked (mnext (mmem s)) (set (mpend s)) (mchain s)"
    "mhead (mmem s) \<in> set (mchain s)" "mpushed s = mpopped s @ mailbox_items s"
  using assms by (auto simp: mailbox_inv_def) (metis list.set_sel(1))

lemma mailbox_unlocked_head:
  assumes "mailbox_inv s" "n \<in> set (mchain s)" "mnext (mmem s) n = Unlocked"
  shows "n = mhead (mmem s)" "mholders s = []"
proof -
  show n: "n = mhead (mmem s)"
    using assms by (cases "mchain s") (auto simp: mailbox_inv_def)
  then show "mholders s = []" using assms by (simp add: mailbox_inv_def)
qed

lemma mailbox_exchange_tail_inv:
  assumes "mailbox_inv s" "n \<notin> set (mlive (mmem s))" "mailbox_exchange_tail (mmem s) n x = (prev, m')"
  shows "mailbox_inv (s\<lparr>mmem := m', mpend := (prev, n) # mpend s, mchain := mchain s @ [n],
                       mpushed := mpushed s @ [x]\<rparr>)"
proof -
  note d = mailbox_invD [OF assms(1)]
  have n: "n \<notin> set (mchain s)" using assms(2) d(6) by simp
  have nh: "n \<noteq> mhead (mmem s)" using n d(9) by auto
  have "linked ((mnext (mmem s))(n := Null)) (insert (last (mchain s), n) (set (mpend s))) (mchain s @ [n])"
    using d n by (intro linked_snoc) auto
  moreover have "(mtail (mmem s), n) \<notin> set (mpend s)" using d(7) n by (auto dest: adj_in_set)
  moreover have "\<And>a. a \<in> set (tl (mchain s)) \<Longrightarrow> a \<noteq> n" using n by (auto dest: list.set_sel(2) [OF d(1)])
  moreover have "map (\<lambda>a. the (((mitem (mmem s))(n := Some x)) a)) (tl (mchain s)) = mailbox_items s"
    using calculation(3) by (auto simp: mailbox_items_def)
  ultimately show ?thesis
    using assms(1,3) d n nh
    by (auto simp: mailbox_inv_def mailbox_exchange_tail_def mailbox_items_def adj_snoc)
qed

lemma mailbox_publish_ok:
  assumes "mailbox_inv s" "mpend s = ps @ (prev, n) # qs"
  shows "prev \<in> set (mlive (mmem s))" "(prev, n) \<in> adj (mchain s)"
    "mnext (mmem s) prev = Null \<or> mnext (mmem s) prev = Unlocked"
    "mailbox_exchange_next (mmem s) prev n =
       Some (mnext (mmem s) prev = Unlocked, (mmem s)\<lparr>mnext := (mnext (mmem s))(prev := Ptr n)\<rparr>)"
proof -
  note d = mailbox_invD [OF assms(1)]
  show a: "(prev, n) \<in> adj (mchain s)" using d(7) assms(2) by auto
  then show l: "prev \<in> set (mlive (mmem s))" using d(6) by (auto dest: adj_in_set)
  show "mnext (mmem s) prev = Null \<or> mnext (mmem s) prev = Unlocked"
    using linked_waiting [OF d(8) _ a] assms(2) by auto
  show "mailbox_exchange_next (mmem s) prev n =
       Some (mnext (mmem s) prev = Unlocked, (mmem s)\<lparr>mnext := (mnext (mmem s))(prev := Ptr n)\<rparr>)"
    using l by (simp add: mailbox_exchange_next_def)
qed

lemma mailbox_exchange_next_inv:
  assumes "mailbox_inv s" "mpend s = ps @ (prev, n) # qs"
    and "mailbox_exchange_next (mmem s) prev n = Some (locks, m')"
  shows "mailbox_inv (s\<lparr>mmem := m', mpend := ps @ qs,
                       mholders := (if locks then mholders s @ [MIdle] else mholders s)\<rparr>)"
proof -
  note d = mailbox_invD [OF assms(1)] and p = mailbox_publish_ok [OF assms(1,2)]
  have eq: "locks = (mnext (mmem s) prev = Unlocked)" "m' = (mmem s)\<lparr>mnext := (mnext (mmem s))(prev := Ptr n)\<rparr>"
    using assms(3) p(4) by auto
  have "linked ((mnext (mmem s))(prev := Ptr n)) (set (mpend s) - {(prev, n)}) (mchain s)"
    using d p by (intro linked_publish) auto
  moreover have "set (mpend s) - {(prev, n)} = set (ps @ qs)"
    using assms(1,2) by (auto simp: mailbox_inv_def)
  moreover have "prev \<in> set (mchain s)" using p(2) by (auto dest: adj_in_set)
  then have "locks \<Longrightarrow> prev = mhead (mmem s) \<and> mholders s = []"
    using mailbox_unlocked_head [OF assms(1), of prev] eq by auto
  ultimately show ?thesis
    using assms(1,2) d eq p(3) by (auto simp: mailbox_inv_def mailbox_items_def)
qed

lemma mailbox_holder:
  assumes "mailbox_inv s" "mholders s = hs @ h # ks"
  shows "hs = []" "ks = []" "\<And>n. n \<in> set (mchain s) \<Longrightarrow> mnext (mmem s) n \<noteq> Unlocked"
  using assms mailbox_unlocked_head(2) [OF assms(1)]
  by (auto simp: mailbox_inv_def split: if_splits)

lemma mailbox_set_holder:
  "mailbox_inv s \<Longrightarrow> mholders s = [h] \<Longrightarrow> mailbox_inv (s\<lparr>mholders := [h']\<rparr>)"
  by (auto simp: mailbox_inv_def mailbox_items_def split: if_splits)

lemma mailbox_head_next:
  assumes "mailbox_inv s" "mnext (mmem s) (mhead (mmem s)) = Ptr n"
  shows "\<exists>r. mchain s = mhead (mmem s) # n # r" "set (mpend s) \<subseteq> adj (tl (mchain s))"
proof -
  note d = mailbox_invD [OF assms(1)]
  obtain r where c: "mchain s = mhead (mmem s) # r" using d(1,2) by (cases "mchain s") auto
  then obtain r' where r: "r = n # r'" using d(8) assms(2) by (cases r) auto
  with c show "\<exists>r. mchain s = mhead (mmem s) # n # r" by simp
  have "(mhead (mmem s), n) \<notin> set (mpend s)" using d(8) c r assms(2) by auto
  then show "set (mpend s) \<subseteq> adj (tl (mchain s))" using d(7) c r by auto
qed

lemma mailbox_take_inv:
  assumes "mailbox_inv s" "mholders s = [h]" "mnext (mmem s) (mhead (mmem s)) = Ptr n"
  shows "\<exists>x m'. mailbox_take n (mmem s) = (Return (RItem (Some x)) False, m') \<and>
    mailbox_items s = x # tl (mailbox_items s) \<and>
    mailbox_inv (s\<lparr>mmem := m', mchain := tl (mchain s), mpopped := mpopped s @ [x], mholders := [MIdle]\<rparr>) \<and>
    mailbox_items (s\<lparr>mmem := m', mchain := tl (mchain s), mpopped := mpopped s @ [x], mholders := [MIdle]\<rparr>)
      = tl (mailbox_items s)"
proof -
  note d = mailbox_invD [OF assms(1)]
  obtain r where c: "mchain s = mhead (mmem s) # n # r" using mailbox_head_next(1) [OF assms(1,3)] by blast
  obtain x where x: "mitem (mmem s) n = Some x" using assms(1) c by (auto simp: mailbox_inv_def)
  have dist: "n \<noteq> mhead (mmem s)" "n \<notin> set r" "mhead (mmem s) \<notin> set r" "distinct r" using d(4) c by auto
  have live: "set (remove1 (mhead (mmem s)) (mlive (mmem s))) = set (n # r)"
    using d(5,6) c dist by auto
  have it: "mailbox_items s = x # map (\<lambda>n. the (mitem (mmem s) n)) r"
    using c x by (simp add: mailbox_items_def)
  have pend: "set (mpend s) \<subseteq> adj (n # r)" using mailbox_head_next(2) [OF assms(1,3)] c by simp
  have "map (\<lambda>a. the (if a = n then None else mitem (mmem s) a)) r = map (\<lambda>n. the (mitem (mmem s) n)) r"
    using dist by auto
  moreover have "mnext (mmem s) n \<noteq> Unlocked"
    using mailbox_holder(3) [OF assms(1), of "[]" h "[]" n] assms(2) c by simp
  ultimately show ?thesis
    using assms(1,2) d x c dist live it pend
    by (auto simp: mailbox_take_def mailbox_inv_def mailbox_items_def distinct_remove1)
qed

lemma mailbox_unlock_inv:
  assumes "mailbox_inv s" "mholders s = [h]" "mnext (mmem s) (mhead (mmem s)) = Null"
  shows "mailbox_inv (s\<lparr>mmem := (mmem s)\<lparr>mnext := (mnext (mmem s))(mhead (mmem s) := Unlocked)\<rparr>, mholders := []\<rparr>)"
proof -
  note d = mailbox_invD [OF assms(1)]
  have "linked ((mnext (mmem s))(mhead (mmem s) := Unlocked)) (set (mpend s)) (mchain s)"
    using d assms(3) by (intro linked_head_marker) auto
  moreover have "mhead (mmem s) \<notin> set (tl (mchain s))" using d(1,2,4) by (cases "mchain s") auto
  ultimately show ?thesis using assms(1) by (auto simp: mailbox_inv_def mailbox_items_def)
qed

lemma mailbox_advance_inv:
  assumes "mailbox_inv s" "mholders s = [MRunning op pc]" "mailbox_advance op pc s = (h', s')"
  shows "mailbox_inv (s'\<lparr>mholders := h'\<rparr>)"
proof -
  note d = mailbox_invD [OF assms(1)]
  have live: "mhead (mmem s) \<in> set (mlive (mmem s))" using d by simp
  have nu: "mnext (mmem s) (mhead (mmem s)) \<noteq> Unlocked"
    using mailbox_holder(3) [OF assms(1), of "[]" _ "[]"] assms(2) d(9) by simp
  note idle = mailbox_set_holder [OF assms(1,2)]
  show ?thesis
  proof (cases "mnext (mmem s) (mhead (mmem s))")
    case Null
    note u = mailbox_unlock_inv [OF assms(1,2) Null]
    show ?thesis using assms(3) live Null idle u
      by (cases "(op, pc, mmem s)" rule: mailbox_access.cases) (auto simp: mailbox_advance_def mailbox_guard_def)
  next
    case (Ptr n)
    obtain r where "mchain s = mhead (mmem s) # n # r" using mailbox_head_next(1) [OF assms(1) Ptr] by blast
    then have "n \<in> set (mlive (mmem s))" using d(6) by simp
    moreover obtain x m' where "mailbox_take n (mmem s) = (Return (RItem (Some x)) False, m')"
      "mailbox_inv (s\<lparr>mmem := m', mchain := tl (mchain s), mpopped := mpopped s @ [x], mholders := [MIdle]\<rparr>)"
      using mailbox_take_inv [OF assms(1,2) Ptr] by blast
    ultimately show ?thesis using assms(3) live Ptr idle
      by (cases "(op, pc, mmem s)" rule: mailbox_access.cases) (auto simp: mailbox_advance_def mailbox_guard_def)
  qed (use nu in auto)
qed

lemma mailbox_step_inv:
  assumes "mailbox_inv s" "mailbox_step s t"
  shows "mailbox_inv t"
  using assms(2)
proof cases
  case (m_exchange_tail n x prev m')
  then show ?thesis using mailbox_exchange_tail_inv [OF assms(1)] by simp
next
  case (m_exchange_next ps prev n qs locks m')
  then show ?thesis using mailbox_exchange_next_inv [OF assms(1)] by simp
next
  case (m_exchange_next_fail ps prev n qs)
  then show ?thesis using mailbox_publish_ok(4) [OF assms(1)] by simp
next
  case (m_start hs ks op)
  then show ?thesis using mailbox_holder [OF assms(1) m_start(2)] mailbox_set_holder [OF assms(1)] by simp
next
  case (m_advance hs op pc ks h' s')
  then show ?thesis using mailbox_holder [OF assms(1) m_advance(2)] mailbox_advance_inv [OF assms(1)] by simp
qed

interpretation mbx: inv_system mailbox_init mailbox_step mailbox_inv
  by unfold_locales (auto intro: mailbox_inv_init mailbox_step_inv)

section \<open>The mailbox contract\<close>

definition mailbox_rep :: "'a mailbox \<Rightarrow> 'a list \<Rightarrow> bool \<Rightarrow> bool" where
  "mailbox_rep m xs l \<longleftrightarrow> (\<exists>c. mailbox_inv \<lparr>mmem = m, mpend = [], mholders = (if l then [MIdle] else []),
     mchain = c, mpushed = xs, mpopped = [], mfailed = False\<rparr>)"

text \<open>An allocator that returns an address no live node has.\<close>

definition new_node :: "'a mailbox \<Rightarrow> addr" where
  "new_node m = Suc (foldr max (mlive m) 0)"

lemma new_node_fresh: "new_node m \<notin> set (mlive m)"
proof -
  have "n \<in> set ns \<Longrightarrow> n \<le> foldr max ns 0" for n :: nat and ns
    by (induction ns) auto
  then show ?thesis by (force simp: new_node_def)
qed

lemma mailbox_rep_of_inv:
  assumes "mailbox_inv s" "mpend s = []" "mholders s = (if l then [h] else [])"
  shows "mailbox_rep (mmem s) (mailbox_items s) l"
  using assms unfolding mailbox_rep_def
  by (intro exI [of _ "mchain s"]) (auto simp: mailbox_inv_def mailbox_items_def split: if_splits)

lemma mailbox_rep_state:
  assumes "mailbox_rep m xs l"
  obtains s where "mailbox_inv s" "mmem s = m" "mpend s = []" "mholders s = (if l then [MIdle] else [])"
    "mailbox_items s = xs"
proof -
  obtain c where i: "mailbox_inv \<lparr>mmem = m, mpend = [], mholders = (if l then [MIdle] else []),
     mchain = c, mpushed = xs, mpopped = [], mfailed = False\<rparr>" (is "mailbox_inv ?s")
    using assms by (auto simp: mailbox_rep_def)
  then have "mailbox_items ?s = xs" using mailbox_invD(10) by fastforce
  then show ?thesis using i that [of ?s] by simp
qed

lemma mailbox_push_rep:
  assumes "mailbox_rep m xs l" "n \<notin> set (mlive m)"
  shows "\<exists>m'. mailbox_push n m x = Some (\<not> l, m') \<and> mailbox_rep m' (xs @ [x]) True"
proof -
  obtain s where s: "mailbox_inv s" "mmem s = m" "mpend s = []" "mholders s = (if l then [MIdle] else [])"
    "mailbox_items s = xs"
    using mailbox_rep_state [OF assms(1)] by blast
  obtain prev m1 where p: "mailbox_exchange_tail (mmem s) n x = (prev, m1)" by fastforce
  define s1 where "s1 = s\<lparr>mmem := m1, mpend := (prev, n) # mpend s, mchain := mchain s @ [n],
                       mpushed := mpushed s @ [x]\<rparr>"
  have s1: "mailbox_inv s1" using mailbox_exchange_tail_inv [OF s(1) _ p] assms(2) s(2) by (simp add: s1_def)
  have d: "mpend s1 = [] @ (prev, n) # []" using s(3) by (simp add: s1_def)
  define b where "b = (mnext m1 prev = Unlocked)"
  obtain m2 where q: "mailbox_exchange_next m1 prev n = Some (b, m2)"
    using mailbox_publish_ok(4) [OF s1 d] by (simp add: s1_def b_def)
  define s2 where "s2 = s1\<lparr>mmem := m2, mpend := [], mholders := (if b then mholders s1 @ [MIdle] else mholders s1)\<rparr>"
  have s2: "mailbox_inv s2" using mailbox_exchange_next_inv [OF s1 d, of b m2] q by (simp add: s1_def s2_def)
  have prev: "prev = mtail m" using p s(2) by (simp add: mailbox_exchange_tail_def)
  have t: "mchain s1 = mchain s @ [n]" by (simp add: s1_def)
  have head: "mnext (mmem s2) (mhead (mmem s2)) \<noteq> Unlocked"
  proof
    assume u: "mnext (mmem s2) (mhead (mmem s2)) = Unlocked"
    note d2 = mailbox_invD [OF s2]
    have "mchain s2 = mchain s @ [n]" "mpend s2 = []" by (simp_all add: s2_def t)
    then show False using d2(1,2,8) u mailbox_invD(1) [OF s(1)]
      by (cases "mchain s"; cases "tl (mchain s)") auto
  qed
  then have "length (mholders s2) = 1" using s2 by (simp add: mailbox_inv_def)
  then have "b = (\<not> l)" "mholders s2 = [MIdle]" using s by (auto simp: s2_def s1_def split: if_splits)
  moreover have "mailbox_items s2 = xs @ [x]"
    using mailbox_invD(10) [OF s2] mailbox_invD(10) [OF s(1)] s(5) by (simp add: s2_def s1_def)
  ultimately show ?thesis
    using mailbox_rep_of_inv [OF s2, of True MIdle] p q s(2) by (auto simp: mailbox_push_def s2_def s1_def)
qed

lemma mailbox_quiet_head:
  assumes "mailbox_inv s" "mpend s = []" "mholders s = [h]"
  shows "mailbox_items s = [] \<Longrightarrow> mnext (mmem s) (mhead (mmem s)) = Null"
    and "mailbox_items s \<noteq> [] \<Longrightarrow> \<exists>n. mnext (mmem s) (mhead (mmem s)) = Ptr n"
proof -
  note d = mailbox_invD [OF assms(1)]
  obtain r where c: "mchain s = mhead (mmem s) # r" using d(1,2) by (cases "mchain s") auto
  have u: "mnext (mmem s) (mhead (mmem s)) \<noteq> Unlocked"
    using mailbox_holder(3) [OF assms(1), of "[]" h "[]"] assms(3) d(9) by simp
  show "mailbox_items s = [] \<Longrightarrow> mnext (mmem s) (mhead (mmem s)) = Null"
    and "mailbox_items s \<noteq> [] \<Longrightarrow> \<exists>n. mnext (mmem s) (mhead (mmem s)) = Ptr n"
    using c u d(8) assms(2) by (cases r; auto simp: mailbox_items_def)+
qed

lemma mailbox_pop_rep:
  assumes "mailbox_rep m xs True"
  shows "\<exists>m'. pop_optional m = Some (case xs of [] \<Rightarrow> None | x # _ \<Rightarrow> Some x, m') \<and>
    mailbox_rep m' (tl xs) (xs \<noteq> [])"
proof -
  obtain s where s: "mailbox_inv s" "mmem s = m" "mpend s = []" "mholders s = [MIdle]" "mailbox_items s = xs"
    using mailbox_rep_state [OF assms] by auto
  have live: "mhead m \<in> set (mlive m)" using mailbox_invD(6,9) [OF s(1)] s(2) by simp
  note q = mailbox_quiet_head [OF s(1,3,4)]
  show ?thesis
  proof (cases xs)
    case Nil
    then have n: "mnext m (mhead m) = Null" using q(1) s(2,5) by simp
    have "mailbox_rep (m\<lparr>mnext := (mnext m)(mhead m := Unlocked)\<rparr>) [] False"
      using mailbox_rep_of_inv [OF mailbox_unlock_inv [OF s(1,4)], of False] s n Nil
      by (simp add: mailbox_items_def)
    then show ?thesis using n live Nil by (auto simp: pop_optional_def mailbox_run_def mailbox_guard_def)
  next
    case (Cons x ys)
    then obtain n where n: "mnext (mmem s) (mhead (mmem s)) = Ptr n" using q(2) s(5) by auto
    obtain y m' where t: "mailbox_take n (mmem s) = (Return (RItem (Some y)) False, m')" "mailbox_items s = y # tl (mailbox_items s)"
      "mailbox_inv (s\<lparr>mmem := m', mchain := tl (mchain s), mpopped := mpopped s @ [y], mholders := [MIdle]\<rparr>)"
      "mailbox_items (s\<lparr>mmem := m', mchain := tl (mchain s), mpopped := mpopped s @ [y], mholders := [MIdle]\<rparr>)
        = tl (mailbox_items s)"
      using mailbox_take_inv [OF s(1,4) n] by blast
    have "y = x" using t(2) s(5) Cons by simp
    moreover have "mailbox_rep m' ys True"
      using mailbox_rep_of_inv [OF t(3), of True] t(4) s(3,5) Cons by simp
    ultimately show ?thesis using n live t(1) s(2) Cons
      by (auto simp: pop_optional_def mailbox_run_def mailbox_guard_def)
  qed
qed

lemma mailbox_try_unlock_rep:
  assumes "mailbox_rep m xs True"
  shows "\<exists>m'. mailbox_try_unlock m = Some (xs = [], m') \<and> mailbox_rep m' xs (xs \<noteq> [])"
proof -
  obtain s where s: "mailbox_inv s" "mmem s = m" "mpend s = []" "mholders s = [MIdle]" "mailbox_items s = xs"
    using mailbox_rep_state [OF assms] by auto
  have live: "mhead m \<in> set (mlive m)" using mailbox_invD(6,9) [OF s(1)] s(2) by simp
  note q = mailbox_quiet_head [OF s(1,3,4)]
  show ?thesis
  proof (cases xs)
    case Nil
    then have n: "mnext m (mhead m) = Null" using q(1) s(2,5) by simp
    have "mailbox_rep (m\<lparr>mnext := (mnext m)(mhead m := Unlocked)\<rparr>) [] False"
      using mailbox_rep_of_inv [OF mailbox_unlock_inv [OF s(1,4)], of False] s n Nil
      by (simp add: mailbox_items_def)
    then show ?thesis using n live Nil by (auto simp: mailbox_try_unlock_def mailbox_run_def mailbox_guard_def)
  next
    case (Cons x ys)
    then show ?thesis using q(2) s live assms
      by (auto simp: mailbox_try_unlock_def mailbox_run_def mailbox_guard_def)
  qed
qed

lemma mailbox_peek_rep:
  assumes "mailbox_rep m xs True"
  shows "mailbox_peek m = Some (case xs of [] \<Rightarrow> None | x # _ \<Rightarrow> Some x, m)"
proof -
  obtain s where s: "mailbox_inv s" "mmem s = m" "mpend s = []" "mholders s = [MIdle]" "mailbox_items s = xs"
    using mailbox_rep_state [OF assms] by auto
  have live: "mhead m \<in> set (mlive m)" using mailbox_invD(6,9) [OF s(1)] s(2) by simp
  note q = mailbox_quiet_head [OF s(1,3,4)]
  show ?thesis
  proof (cases xs)
    case Nil
    then show ?thesis using q(1) s live by (auto simp: mailbox_peek_def mailbox_run_def mailbox_guard_def)
  next
    case (Cons x ys)
    then obtain n where n: "mnext (mmem s) (mhead (mmem s)) = Ptr n" using q(2) s(5) by auto
    obtain r where c: "mchain s = mhead (mmem s) # n # r" using mailbox_head_next(1) [OF s(1) n] by blast
    then have "mitem m n = Some x" "n \<in> set (mlive m)"
      using s Cons mailbox_invD(6) [OF s(1)] by (auto simp: mailbox_inv_def mailbox_items_def)
    then show ?thesis using n live s Cons by (auto simp: mailbox_peek_def mailbox_run_def mailbox_guard_def)
  qed
qed

lemma mailbox_new_rep: "mailbox_rep (mailbox_locked n) [] True" "mailbox_rep (mailbox_unlocked n) [] False"
  using mailbox_inv_init unfolding mailbox_rep_def mailbox_init_def by (auto intro!: exI [of _ "[n]"])

interpretation cmb: mpsc_mailbox mailbox_rep "\<lambda>_ _. True" "\<lambda>m x. mailbox_push (new_node m) m x"
  pop_optional mailbox_try_unlock
  by unfold_locales (simp_all add: mailbox_push_rep new_node_fresh mailbox_pop_rep mailbox_try_unlock_rep)

lemma mailbox_destroy_chain:
  assumes "linked (mnext m) {} (n # c)" "distinct (n # c)" "mset (mlive m) = mset (n # c)"
  shows "\<exists>m'. mailbox_destroy (length (n # c)) n m = Some m' \<and> mlive m' = []"
  using assms
proof (induction c arbitrary: n m)
  case Nil
  then have "mlive m = [n]" by simp
  then show ?case using Nil by auto
next
  case (Cons b c)
  let ?m = "m\<lparr>mlive := remove1 n (mlive m)\<rparr>"
  have n: "n \<in> set (mlive m)" using Cons.prems(3) by (metis list.set_intros(1) set_mset_mset)
  have "mset (mlive ?m) = mset (b # c)" using Cons.prems(3) by simp
  then have "\<exists>m'. mailbox_destroy (length (b # c)) b ?m = Some m' \<and> mlive m' = []"
    using Cons.prems by (intro Cons.IH) auto
  then show ?case using Cons.prems(1) n by auto
qed

section \<open>Properties of the mailbox\<close>

text \<open>
  C40. In every interleaving of pushes and consumer operations at most one thread holds the
  lock, no \<open>assert\<close> fails and no thread touches a node after it was deleted.  Items leave the mailbox in the
  order in which their pushes exchanged \<open>tail_\<close>, none is lost and none is returned twice.
\<close>

theorem mailbox_node_safety:
  assumes "reach mailbox_init mailbox_step s"
  shows "length (mholders s) \<le> 1 \<and> \<not> mfailed s \<and> mpushed s = mpopped s @ mailbox_items s"
  by (rule mbx.reach_safe [OF assms]) (auto simp: mailbox_inv_def split: if_splits)

text \<open>A run: two threads push into an unlocked mailbox, and the first of them has locked it.\<close>

definition mailbox_start :: "nat mailbox_sys" where
  "mailbox_start = \<lparr>mmem = mailbox_unlocked 2, mpend = [], mholders = [], mchain = [2],
     mpushed = [], mpopped = [], mfailed = False\<rparr>"

definition mailbox_tail :: "addr \<Rightarrow> nat \<Rightarrow> nat mailbox_sys \<Rightarrow> nat mailbox_sys" where
  "mailbox_tail n x s = s\<lparr>mmem := snd (mailbox_exchange_tail (mmem s) n x), mpend := (mtail (mmem s), n) # mpend s,
     mchain := mchain s @ [n], mpushed := mpushed s @ [x]\<rparr>"

definition mailbox_two :: "nat mailbox_sys" where
  "mailbox_two = mailbox_tail 4 9 (mailbox_tail 3 8 mailbox_start)"

definition mailbox_owned :: "nat mailbox_sys" where
  "mailbox_owned = mailbox_two\<lparr>mmem := (mmem mailbox_two)\<lparr>mnext := (mnext (mmem mailbox_two))(2 := Ptr 3)\<rparr>, mpend := [(3, 4)], mholders := [MIdle]\<rparr>"

lemma mailbox_tail_step: "n \<notin> set (mlive (mmem s)) \<Longrightarrow> mailbox_step s (mailbox_tail n x s)"
  unfolding mailbox_tail_def by (rule m_exchange_tail) (simp_all add: mailbox_exchange_tail_def)

lemmas mailbox_run_defs = mailbox_owned_def mailbox_two_def mailbox_tail_def mailbox_start_def mailbox_unlocked_def mailbox_locked_def
  mailbox_exchange_tail_def

lemma mailbox_owned_reach: "reach mailbox_init mailbox_step mailbox_owned"
proof -
  have "reach mailbox_init mailbox_step mailbox_start" by (rule reach_init) (auto simp: mailbox_init_def mailbox_start_def)
  moreover have "mailbox_step mailbox_start (mailbox_tail 3 8 mailbox_start)" by (rule mailbox_tail_step) (simp add: mailbox_run_defs)
  moreover have "mailbox_step (mailbox_tail 3 8 mailbox_start) mailbox_two"
    unfolding mailbox_two_def by (rule mailbox_tail_step) (simp add: mailbox_run_defs)
  ultimately have "reach mailbox_init mailbox_step mailbox_two" by (blast intro: reach_step)
  moreover have "mailbox_step mailbox_two mailbox_owned"
    using m_exchange_next [of mailbox_two "[(3, 4)]" 2 3 "[]" True "(mmem mailbox_two)\<lparr>mnext := (mnext (mmem mailbox_two))(2 := Ptr 3)\<rparr>"]
    by (simp add: mailbox_run_defs mailbox_exchange_next_def)
  ultimately show ?thesis by (rule reach_step)
qed

theorem mailbox_node_safety_witness: "length (mholders mailbox_owned) = 1 \<and> \<not> mfailed mailbox_owned \<and> mailbox_items mailbox_owned = [8, 9]"
  using mailbox_node_safety [OF mailbox_owned_reach] by (simp add: mailbox_run_defs)

text \<open>
  Without interference the mailbox is a locked FIFO queue (any allocator that returns
  fresh nodes), the first push of a batch reports that it locked the mailbox and no other
  does, and the pop after the last item unlocks it.
\<close>

theorem mailbox_fifo_queue:
  assumes "mailbox_rep m [] l" "ys \<noteq> []"
  shows "\<exists>bs m1 m2. push_all (\<lambda>m x. mailbox_push (new_node m) m x) m ys = Some (bs, m1) \<and>
    drain pop_optional (Suc (length ys)) m1 = Some (ys, m2) \<and>
    mailbox_rep m2 [] False \<and> (hd bs \<longleftrightarrow> \<not> l) \<and> True \<notin> set (tl bs)"
  by (rule cmb.push_all_drain [OF assms]) simp

theorem mailbox_fifo_queue_witness:
  "\<exists>bs m1 m2. push_all (\<lambda>m x. mailbox_push (new_node m) m x) (mailbox_locked 0) [5, 6 :: nat] = Some (bs, m1) \<and>
    drain pop_optional (Suc (length [5, 6 :: nat])) m1 = Some ([5, 6], m2)"
  using mailbox_fifo_queue [OF mailbox_new_rep(1) [of 0], of "[5, 6 :: nat]"] by blast

text \<open>The destructor deletes every node of the mailbox exactly once.\<close>

theorem mailbox_destroy_all:
  assumes "mailbox_rep m xs l"
  shows "\<exists>m'. mailbox_destroy (length (mlive m)) (mhead m) m = Some m' \<and> mlive m' = []"
proof -
  obtain s where s: "mailbox_inv s" "mmem s = m" "mpend s = []"
    using mailbox_rep_state [OF assms] by blast
  note d = mailbox_invD [OF s(1)]
  obtain c where c: "mchain s = mhead m # c" using d(1,2) s(2) by (cases "mchain s") auto
  have "mset (mlive m) = mset (mhead m # c)"
    using d(4-6) c s(2) set_eq_iff_mset_eq_distinct by metis
  then show ?thesis
    using mailbox_destroy_chain [of m "mhead m" c] d(4,8) c s(2,3) mset_eq_length by fastforce
qed

theorem mailbox_destroy_all_witness:
  "\<exists>m'. mailbox_destroy 1 0 (mailbox_locked 0 :: nat mailbox) = Some m' \<and> mlive m' = []"
  using mailbox_destroy_all [of "mailbox_locked 0 :: nat mailbox" "[]" True] mailbox_new_rep(1) [of 0]
  by (simp add: mailbox_locked_def)

end
