(* ===== verification/Mailbox_Check.thy ===== *)
theory Mailbox_Check
  imports Mailbox
begin

text \<open>
  The test program \<open>src/tools/checks-relacy/check_mailbox.cpp\<close>: threads push items into a mailbox,
  and a thread whose push locks the mailbox pops until it is unlocked again.  The tool samples
  interleavings of three threads with three items each; here every interleaving of any number of
  threads with any items is covered.  The mailbox of the program is that of \<open>Mailbox\<close>.
\<close>

section \<open>The program\<close>

text \<open>
  A thread has items left to push, is between the exchanges of a push, or is in \<open>pop\<close> or
  \<open>try_unlock\<close> of \<open>run_pop_loop\<close>.
\<close>

datatype check_pc =
    Pushing "nat list"
  | Linking addr addr "nat list"
  | Looping mailbox_op mailbox_pc "nat list"

record check_sys =
  cmem :: "nat mailbox"
  cthreads :: "check_pc list"
  observed :: "nat list"
  cpushed :: "nat list"
  cfailed :: bool

text \<open>
  One atomic access of a thread: \<open>tr\<close> is \<open>with_try_unlock\<close>, \<open>N\<close> is \<open>items_total\<close>, \<open>n\<close> the address
  of a new node; \<open>None\<close> is a failed \<open>RL_ASSERT\<close> or an access to a deleted node.
\<close>

definition observe :: "nat \<Rightarrow> nat \<Rightarrow> check_sys \<Rightarrow> check_sys option" where
  "observe N x s = (if 0 < x \<and> x \<le> N \<and> x \<notin> set (observed s) then Some (s\<lparr>observed := observed s @ [x]\<rparr>) else None)"

fun check_access :: "bool \<Rightarrow> nat \<Rightarrow> addr \<Rightarrow> check_pc \<Rightarrow> check_sys \<Rightarrow> (check_pc \<times> check_sys) option" where
  "check_access tr N n (Pushing []) s = Some (Pushing [], s)"
| "check_access tr N n (Pushing (x # xs)) s =
     (let (prev, m) = mailbox_exchange_tail (cmem s) n x in Some (Linking prev n xs, s\<lparr>cmem := m, cpushed := cpushed s @ [x]\<rparr>))"
| "check_access tr N n (Linking prev k xs) s =
     (if mnext (cmem s) prev \<noteq> Null \<and> mnext (cmem s) prev \<noteq> Unlocked then None
      else case mailbox_exchange_next (cmem s) prev k of
          None \<Rightarrow> None
        | Some (locks, m) \<Rightarrow> Some (if locks then Looping MPop MLoad xs else Pushing xs, s\<lparr>cmem := m\<rparr>))"
| "check_access tr N n (Looping op pc xs) s =
     (case mailbox_guard op pc (cmem s) of
        (Fail, m) \<Rightarrow> None
      | (Next pc', m) \<Rightarrow> Some (Looping op pc' xs, s\<lparr>cmem := m\<rparr>)
      | (Return (RItem None) rel, m) \<Rightarrow> Some (Pushing xs, s\<lparr>cmem := m\<rparr>)
      | (Return (RItem (Some x)) rel, m) \<Rightarrow>
          map_option (\<lambda>s. (Looping (if tr then MTryUnlock else MPop) MLoad xs, s)) (observe N x (s\<lparr>cmem := m\<rparr>))
      | (Return (RBool True) rel, m) \<Rightarrow> Some (Pushing xs, s\<lparr>cmem := m\<rparr>)
      | (Return (RBool False) rel, m) \<Rightarrow> Some (Looping MPop MLoad xs, s\<lparr>cmem := m\<rparr>))"

inductive check_step :: "bool \<Rightarrow> nat \<Rightarrow> check_sys \<Rightarrow> check_sys \<Rightarrow> bool" for tr :: bool and N :: nat where
  check_runs: "cthreads s = us @ pc # vs \<Longrightarrow> pc \<noteq> Pushing [] \<Longrightarrow> n \<notin> set (mlive (cmem s)) \<Longrightarrow>
     check_access tr N n pc s = Some (pc', s') \<Longrightarrow> check_step tr N s (s'\<lparr>cthreads := us @ pc' # vs\<rparr>)"
| check_fails: "cthreads s = us @ pc # vs \<Longrightarrow> pc \<noteq> Pushing [] \<Longrightarrow> n \<notin> set (mlive (cmem s)) \<Longrightarrow>
     check_access tr N n pc s = None \<Longrightarrow> check_step tr N s (s\<lparr>cfailed := True\<rparr>)"

text \<open>
  \<open>before\<close> unlocks the mailbox unless \<open>start_locked\<close>, in which case the first thread starts in the
  loop.  Thread \<open>i\<close> pushes \<open>per\<close> items from \<open>1 + i * per\<close> on.
\<close>

definition thread_items :: "nat \<Rightarrow> nat \<Rightarrow> nat list" where
  "thread_items per i = map (\<lambda>j. 1 + i * per + j) [0..<per]"

definition check_before :: "bool \<Rightarrow> nat mailbox \<Rightarrow> nat mailbox option" where
  "check_before start_locked m =
     (if start_locked then Some m else case mailbox_try_unlock m of Some (True, m') \<Rightarrow> Some m' | _ \<Rightarrow> None)"

definition after_observed :: "nat \<Rightarrow> check_sys \<Rightarrow> bool" where
  "after_observed N s \<longleftrightarrow> list_all (\<lambda>i. i + 1 \<in> set (observed s)) [0..<N]"

definition check_init :: "bool \<Rightarrow> nat \<Rightarrow> nat \<Rightarrow> check_sys \<Rightarrow> bool" where
  "check_init start_locked threads per s \<longleftrightarrow> (\<exists>n. check_before start_locked (mailbox_locked n) = Some (cmem s)) \<and>
     0 < threads \<and>
     cthreads s = (if start_locked then Looping MPop MLoad (thread_items per 0) else Pushing (thread_items per 0)) #
       map (\<lambda>i. Pushing (thread_items per i)) [1..<threads] \<and>
     observed s = [] \<and> cpushed s = [] \<and> \<not> cfailed s"

section \<open>What threads hold\<close>

fun check_holds :: "check_pc \<Rightarrow> mailbox_holder list" where
  "check_holds (Looping op pc xs) = [MRunning op pc]"
| "check_holds pc = []"

fun check_links :: "check_pc \<Rightarrow> (addr \<times> addr) list" where
  "check_links (Linking prev n xs) = [(prev, n)]"
| "check_links pc = []"

fun check_todo :: "check_pc \<Rightarrow> nat list" where
  "check_todo (Pushing xs) = xs"
| "check_todo (Linking prev n xs) = xs"
| "check_todo (Looping op pc xs) = xs"

definition mbx_ok :: "'a mailbox \<Rightarrow> mailbox_holder multiset \<Rightarrow> (addr \<times> addr) multiset \<Rightarrow> 'a list \<Rightarrow> 'a list \<Rightarrow> bool" where
  "mbx_ok m hs ps il ol \<longleftrightarrow> (\<exists>b. mailbox_inv b \<and> mmem b = m \<and> mset (mholders b) = hs \<and> mset (mpend b) = ps \<and> mpushed b = il \<and> mpopped b = ol)"

lemma mbx_okE:
  assumes "mbx_ok m hs ps il ol"
  obtains b where "mailbox_inv b" "mmem b = m" "mset (mholders b) = hs" "mset (mpend b) = ps" "mpushed b = il" "mpopped b = ol"
  using assms by (auto simp: mbx_ok_def)

lemma mbx_step:
  assumes "mailbox_inv b" "mailbox_step b b'" "mmem b' = m" "mset (mholders b') = hs" "mset (mpend b') = ps" "mpushed b' = il" "mpopped b' = ol"
  shows "mbx_ok m hs ps il ol"
  using mailbox_step_inv [OF assms(1,2)] assms(3-7) by (auto simp: mbx_ok_def)

lemma mbx_push:
  assumes "mbx_ok m hs ps il ol" "n \<notin> set (mlive m)" "mailbox_exchange_tail m n x = (prev, m')"
  shows "mbx_ok m' hs (add_mset (prev, n) ps) (il @ [x]) ol"
proof -
  obtain b where b: "mailbox_inv b" "mmem b = m" "mset (mholders b) = hs" "mset (mpend b) = ps" "mpushed b = il" "mpopped b = ol" by (rule mbx_okE [OF assms(1)])
  from m_exchange_tail [of n b x prev m'] show ?thesis by (rule mbx_step [OF b(1)]) (use b assms(2,3) in auto)
qed

lemma mbx_link:
  assumes "mbx_ok m hs (add_mset (prev, n) ps) il ol"
  shows "\<exists>locks m'. (mnext m prev = Null \<or> mnext m prev = Unlocked) \<and> mailbox_exchange_next m prev n = Some (locks, m') \<and>
    mbx_ok m' (if locks then add_mset (MRunning op MLoad) hs else hs) ps il ol"
proof -
  obtain b where b: "mailbox_inv b" "mmem b = m" "mset (mholders b) = hs" "mset (mpend b) = add_mset (prev, n) ps" "mpushed b = il" "mpopped b = ol"
    by (rule mbx_okE [OF assms])
  obtain us vs where p: "mpend b = us @ (prev, n) # vs" "mset (us @ vs) = ps" by (rule mset_split [OF b(4)])
  note ok = mailbox_publish_ok [OF b(1) p(1)]
  let ?l = "mnext (mmem b) prev = Unlocked"
  let ?b = "b\<lparr>mmem := (mmem b)\<lparr>mnext := (mnext (mmem b))(prev := Ptr n)\<rparr>, mpend := us @ vs, mholders := (if ?l then mholders b @ [MIdle] else mholders b)\<rparr>"
  have i: "mailbox_inv ?b" by (rule mailbox_step_inv [OF b(1) m_exchange_next [OF p(1) ok(4)]])
  have "mbx_ok (mmem ?b) (if ?l then add_mset (MRunning op MLoad) hs else hs) ps il ol"
  proof (cases ?l)
    case True
    from m_start [of ?b "mholders b" "[]" op] show ?thesis by (rule mbx_step [OF i]) (use True b p(2) in auto)
  next
    case False
    then show ?thesis using i b p(2) unfolding mbx_ok_def by (intro exI [of _ ?b]) auto
  qed
  then show ?thesis using ok(3,4) b(2) by (intro exI [of _ ?l]) auto
qed

text \<open>An access inside \<open>pop\<close> or \<open>try_unlock\<close>; afterwards the thread may start the next operation.\<close>

lemma mbx_access:
  assumes "mbx_ok m (add_mset (MRunning op pc) hs) ps il ol" "mailbox_guard op pc m = (out, m')" "op \<noteq> MPeek"
  shows "out \<noteq> Fail" "out = Next pc' \<Longrightarrow> mbx_ok m' (add_mset (MRunning op pc') hs) ps il ol"
    "out = Return (RItem (Some x)) rel \<Longrightarrow> mbx_ok m' (add_mset (MRunning op' MLoad) hs) ps il (ol @ [x])"
    "out = Return (RItem None) rel \<or> out = Return (RBool True) rel \<Longrightarrow> mbx_ok m' hs ps il ol"
    "out = Return (RBool False) rel \<Longrightarrow> mbx_ok m' (add_mset (MRunning op' MLoad) hs) ps il ol"
proof -
  obtain b where b: "mailbox_inv b" "mmem b = m" "mset (mholders b) = add_mset (MRunning op pc) hs" "mset (mpend b) = ps" "mpushed b = il" "mpopped b = ol"
    by (rule mbx_okE [OF assms(1)])
  obtain us vs where p: "mholders b = us @ MRunning op pc # vs" "mset (us @ vs) = hs" by (rule mset_split [OF b(3)])
  obtain h' b' where a: "mailbox_advance op pc b = (h', b')" by fastforce
  note i = mailbox_step_inv [OF b(1) m_advance [OF p(1) a]] and st = mbx_step [OF b(1) m_advance [OF p(1) a]]
  have "\<not> mfailed (b'\<lparr>mholders := us @ h' @ vs\<rparr>)" using i by (simp add: mailbox_inv_def)
  then show f: "out \<noteq> Fail" using a assms(2) b(2) by (auto simp: mailbox_advance_def)
  have item: "mitem m n \<noteq> None" if ptr: "mnext m (mhead m) = Ptr n" for n
  proof -
    obtain r where "mchain b = mhead m # n # r" using mailbox_head_next(1) [OF b(1), of n] ptr unfolding b(2) by blast
    then show ?thesis using b(1,2) by (simp add: mailbox_inv_def)
  qed
  have rel: "out = Return r rel \<Longrightarrow> rel = (r = RItem None \<or> r = RBool True) \<and> (r = RBool c \<longrightarrow> op = MTryUnlock) \<and> (r = RItem y \<longrightarrow> op = MPop)" for r c y
    using assms(2,3) by (cases "(op, pc, m)" rule: mailbox_access.cases) (auto simp: mailbox_guard_def mailbox_take_def dest: item split: if_splits link.splits)
  have restart: "mbx_ok m' (add_mset (MRunning op' MLoad) hs) ps il ol2" if "h' = [MIdle]" "mmem b' = m'" "mpend b' = mpend b" "mpushed b' = il" "mpopped b' = ol2" for ol2
    using mbx_step [OF i m_start [of _ us vs op']] that b p(2) by simp
  show "mbx_ok m' (add_mset (MRunning op pc') hs) ps il ol" if "out = Next pc'"
    by (rule st) (use that a assms(2) b p(2) in \<open>auto simp: mailbox_advance_def\<close>)
  have adv: "h' = (if rel then [] else [MIdle])" "b' = (case (op, r) of (MPop, RItem (Some x)) \<Rightarrow> b\<lparr>mmem := m', mchain := tl (mchain b), mpopped := mpopped b @ [x]\<rparr> | _ \<Rightarrow> b\<lparr>mmem := m'\<rparr>)"
    if o: "out = Return r rel" for r rel
    using a assms(2) b(2) o by (simp_all add: mailbox_advance_def Let_def)
  show "mbx_ok m' hs ps il ol" if o: "out = Return (RItem None) rel \<or> out = Return (RBool True) rel"
    using o
  proof
    assume o: "out = Return (RItem None) rel"
    show ?thesis by (rule st) (use adv [OF o] rel [OF o] b p(2) in \<open>auto split: mailbox_op.splits\<close>)
  next
    assume o: "out = Return (RBool True) rel"
    show ?thesis by (rule st) (use adv [OF o] rel [OF o] b p(2) in \<open>auto split: mailbox_op.splits\<close>)
  qed
  show "mbx_ok m' (add_mset (MRunning op' MLoad) hs) ps il ol" if o: "out = Return (RBool False) rel"
    by (rule restart) (use adv [OF o] rel [OF o, of False] b in simp_all)
  show "mbx_ok m' (add_mset (MRunning op' MLoad) hs) ps il (ol @ [x])" if o: "out = Return (RItem (Some x)) rel"
    by (rule restart) (use adv [OF o] rel [OF o, of _ "Some x"] b in simp_all)
qed

section \<open>The invariant\<close>

text \<open>\<open>T\<close>: all items of the run.\<close>

definition check_inv :: "nat list \<Rightarrow> check_sys \<Rightarrow> bool" where
  "check_inv T s \<longleftrightarrow> \<not> cfailed s \<and>
     mbx_ok (cmem s) (mset (concat (map check_holds (cthreads s)))) (mset (concat (map check_links (cthreads s)))) (cpushed s) (observed s) \<and>
     mset (cpushed s @ concat (map check_todo (cthreads s))) = mset T \<and> (\<forall>op pc xs. Looping op pc xs \<in> set (cthreads s) \<longrightarrow> op \<noteq> MPeek)"

text \<open>The acting thread set apart.\<close>

definition check_rest :: "nat list \<Rightarrow> check_pc \<Rightarrow> check_pc list \<Rightarrow> check_sys \<Rightarrow> bool" where
  "check_rest T pc ts s \<longleftrightarrow> \<not> cfailed s \<and>
     mbx_ok (cmem s) (mset (check_holds pc) + mset (concat (map check_holds ts))) (mset (check_links pc) + mset (concat (map check_links ts))) (cpushed s) (observed s) \<and>
     mset (cpushed s) + mset (check_todo pc) + mset (concat (map check_todo ts)) = mset T \<and> (\<forall>op q xs. Looping op q xs \<in> set (pc # ts) \<longrightarrow> op \<noteq> MPeek)"

lemma check_inv_rest:
  assumes "cthreads s = us @ pc # vs"
  shows "check_inv T s \<longleftrightarrow> check_rest T pc (us @ vs) s"
  using assms by (simp add: check_inv_def check_rest_def ac_simps)

lemma observed_new:
  assumes "mbx_ok m hs ps il (ol @ [x])" "distinct T" "mset il + A = mset T"
  shows "x \<notin> set ol \<and> x \<in> set T"
proof -
  obtain b where b: "mailbox_inv b" "mpushed b = il" "mpopped b = ol @ [x]" by (rule mbx_okE [OF assms(1)])
  have il: "il = ol @ [x] @ mailbox_items b" using mailbox_invD(10) [OF b(1)] b(2,3) by simp
  have "mset il \<subseteq># mset T" using assms(3) by (metis mset_subset_eq_add_left)
  then obtain B where "mset T = mset il + B" by (metis subset_mset.add_diff_inverse)
  moreover obtain bs where "mset bs = B" by (metis ex_mset)
  ultimately have e: "mset T = mset (il @ bs)" by simp
  then have "distinct (il @ bs)" using assms(2) mset_eq_imp_distinct_iff by blast
  moreover have "set T = set (il @ bs)" by (rule mset_eq_setD [OF e])
  ultimately show ?thesis using il by auto
qed

lemma check_access_ok:
  assumes "check_rest T pc ts s" "pc \<noteq> Pushing []" "n \<notin> set (mlive (cmem s))" "distinct T" "\<And>x. x \<in> set T \<Longrightarrow> 0 < x \<and> x \<le> N"
  shows "\<exists>pc' s'. check_access tr N n pc s = Some (pc', s') \<and> check_rest T pc' ts s' \<and> cthreads s' = cthreads s"
proof -
  let ?H = "mset (concat (map check_holds ts))" and ?L = "mset (concat (map check_links ts))" and ?R = "mset (concat (map check_todo ts))"
  have ok: "\<not> cfailed s" "mbx_ok (cmem s) (mset (check_holds pc) + ?H) (mset (check_links pc) + ?L) (cpushed s) (observed s)"
    "mset (cpushed s) + mset (check_todo pc) + ?R = mset T" "\<forall>op q xs. Looping op q xs \<in> set (pc # ts) \<longrightarrow> op \<noteq> MPeek"
    using assms(1) by (simp_all add: check_rest_def)
  show ?thesis
  proof (cases pc)
    case (Pushing xs)
    then obtain x ys where x: "xs = x # ys" using assms(2) by (cases xs) auto
    obtain prev m where p: "mailbox_exchange_tail (cmem s) n x = (prev, m)" by fastforce
    have "mbx_ok m ?H (add_mset (prev, n) ?L) (cpushed s @ [x]) (observed s)" using mbx_push [OF _ assms(3) p] ok(2) Pushing by simp
    then show ?thesis using Pushing x p ok by (auto simp: check_rest_def)
  next
    case (Linking prev k xs)
    have "mbx_ok (cmem s) ?H (add_mset (prev, k) ?L) (cpushed s) (observed s)" using ok(2) Linking by simp
    from mbx_link [OF this, of MPop] obtain locks m where l: "mnext (cmem s) prev = Null \<or> mnext (cmem s) prev = Unlocked"
      "mailbox_exchange_next (cmem s) prev k = Some (locks, m)" "mbx_ok m (if locks then add_mset (MRunning MPop MLoad) ?H else ?H) ?L (cpushed s) (observed s)" by blast
    let ?pc = "if locks then Looping MPop MLoad xs else Pushing xs"
    have "check_rest T ?pc ts (s\<lparr>cmem := m\<rparr>)" using l(3) ok(1,3,4) Linking by (auto simp: check_rest_def)
    then show ?thesis using Linking l(1,2) by auto
  next
    case (Looping op q xs)
    then have np: "op \<noteq> MPeek" using ok(4) by simp
    have b: "mbx_ok (cmem s) (add_mset (MRunning op q) ?H) ?L (cpushed s) (observed s)" using ok(2) Looping by simp
    obtain out m where g: "mailbox_guard op q (cmem s) = (out, m)" by fastforce
    note a = mbx_access [OF b g np]
    have todo: "mset (cpushed s) + mset xs + ?R = mset T" using ok(3) Looping by simp
    consider (goes) q' where "out = Next q'" | (item) x rel where "out = Return (RItem (Some x)) rel" | (none) rel where "out = Return (RItem None) rel"
      | (yes) rel where "out = Return (RBool True) rel" | (no) rel where "out = Return (RBool False) rel"
      using a(1) by (cases out rule: mailbox_out.exhaust) (metis mailbox_ret.exhaust option.exhaust bool.exhaust)+
    then show ?thesis
    proof cases
      case goes
      have "check_rest T (Looping op q' xs) ts (s\<lparr>cmem := m\<rparr>)" using a(2) [OF goes] ok(1,4) todo np Looping by (simp add: check_rest_def)
      then show ?thesis using Looping g goes by simp
    next
      case item
      let ?op = "if tr then MTryUnlock else MPop"
      note o = a(3) [OF item, of ?op]
      have "x \<notin> set (observed s) \<and> x \<in> set T" by (rule observed_new [OF o assms(4), of "mset xs + ?R"]) (use todo in \<open>simp add: ac_simps\<close>)
      then have ob: "observe N x (s\<lparr>cmem := m\<rparr>) = Some (s\<lparr>cmem := m, observed := observed s @ [x]\<rparr>)" using assms(5) by (simp add: observe_def)
      have "check_rest T (Looping ?op MLoad xs) ts (s\<lparr>cmem := m, observed := observed s @ [x]\<rparr>)" using o ok(1,4) todo by (auto simp: check_rest_def)
      then show ?thesis using Looping g item ob by simp
    next
      case none
      have "check_rest T (Pushing xs) ts (s\<lparr>cmem := m\<rparr>)" using a(4) none ok(1,4) todo by (simp add: check_rest_def)
      then show ?thesis using Looping g none by simp
    next
      case yes
      have "check_rest T (Pushing xs) ts (s\<lparr>cmem := m\<rparr>)" using a(4) yes ok(1,4) todo by (simp add: check_rest_def)
      then show ?thesis using Looping g yes by simp
    next
      case no
      have "check_rest T (Looping MPop MLoad xs) ts (s\<lparr>cmem := m\<rparr>)" using a(5) [OF no, of MPop] ok(1,4) todo by (simp add: check_rest_def)
      then show ?thesis using Looping g no by simp
    qed
  qed
qed

lemma check_step_ok:
  assumes "check_inv T s" "cthreads s = us @ pc # vs" "pc \<noteq> Pushing []" "n \<notin> set (mlive (cmem s))" "distinct T" "\<And>x. x \<in> set T \<Longrightarrow> 0 < x \<and> x \<le> N"
  shows "\<exists>pc' s'. check_access tr N n pc s = Some (pc', s') \<and> check_inv T (s'\<lparr>cthreads := us @ pc' # vs\<rparr>)"
proof -
  have "check_rest T pc (us @ vs) s" using check_inv_rest [OF assms(2)] assms(1) by blast
  from check_access_ok [OF this assms(3-6), of tr] obtain pc' s' where a: "check_access tr N n pc s = Some (pc', s')" "check_rest T pc' (us @ vs) s'" by blast
  have "check_rest T pc' (us @ vs) (s'\<lparr>cthreads := us @ pc' # vs\<rparr>)" using a(2) by (simp add: check_rest_def)
  then show ?thesis using a(1) check_inv_rest [of "s'\<lparr>cthreads := us @ pc' # vs\<rparr>" us pc' vs T] by auto
qed

lemma thread_items_upt: "thread_items per i = [1 + i * per..<1 + i * per + per]"
  by (rule nth_equalityI) (simp_all add: thread_items_def del: upt_Suc)

lemma all_items: "concat (map (thread_items per) [0..<k]) = [1..<1 + k * per]"
proof (induction k)
  case (Suc k)
  have "[1..<1 + k * per] @ [1 + k * per..<1 + k * per + per] = [1..<1 + k * per + per]" by (rule upt_add_eq_append [symmetric]) simp
  then show ?case using Suc by (simp add: thread_items_upt ac_simps)
qed simp

definition run_items :: "nat \<Rightarrow> nat \<Rightarrow> nat list" where
  "run_items threads per = [1..<1 + threads * per]"

lemma run_items_ok: "distinct (run_items threads per)" "x \<in> set (run_items threads per) \<Longrightarrow> 0 < x \<and> x \<le> threads * per"
  by (auto simp: run_items_def)

lemma check_before_ok: "check_before l (mailbox_locked n) = Some (if l then mailbox_locked n else mailbox_unlocked n)"
  by (simp add: check_before_def mailbox_try_unlock_def mailbox_run_def mailbox_guard_def mailbox_locked_def mailbox_unlocked_def)

lemma check_inv_init:
  assumes "check_init start_locked threads per s"
  shows "check_inv (run_items threads per) s"
proof -
  let ?ts = "map (\<lambda>i. Pushing (thread_items per i)) [1..<threads]"
  let ?pc = "if start_locked then Looping MPop MLoad (thread_items per 0) else Pushing (thread_items per 0)"
  obtain n where i: "cmem s = (if start_locked then mailbox_locked n else mailbox_unlocked n)" "0 < threads" "cthreads s = ?pc # ?ts"
    "observed s = []" "cpushed s = []" "\<not> cfailed s" using assms unfolding check_init_def check_before_ok by (metis option.inject)
  let ?b = "\<lparr>mmem = cmem s, mpend = [], mholders = (if start_locked then [MIdle] else []), mchain = [n], mpushed = [], mpopped = [], mfailed = False\<rparr>"
  have b: "mailbox_inv ?b" by (rule mailbox_inv_init) (use i(1) in \<open>auto simp: mailbox_init_def\<close>)
  have "mbx_ok (cmem s) (if start_locked then {#MRunning MPop MLoad#} else {#}) {#} [] []"
  proof (cases start_locked)
    case True
    from m_start [of ?b "[]" "[]" MPop] show ?thesis by (rule mbx_step [OF b]) (use True in auto)
  next
    case False
    then show ?thesis using b unfolding mbx_ok_def by (intro exI [of _ ?b]) simp
  qed
  moreover have e: "concat (map check_holds ?ts) = []" "concat (map check_links ?ts) = []" "map check_todo ?ts = map (thread_items per) [1..<threads]"
    by (simp_all add: comp_def)
  moreover have "[0..<threads] = 0 # [1..<threads]" using i(2) by (simp add: upt_conv_Cons)
  then have "thread_items per 0 @ concat (map (thread_items per) [1..<threads]) = run_items threads per"
    using all_items [of per threads] by (simp add: run_items_def)
  then have "mset (thread_items per 0) + mset (concat (map check_todo ?ts)) = mset (run_items threads per)" unfolding e(3) by (metis mset_append)
  moreover have "check_todo ?pc = thread_items per 0" by simp
  ultimately have "check_rest (run_items threads per) ?pc ?ts s" using i by (simp only: check_rest_def) (auto simp: comp_def)
  then show ?thesis using check_inv_rest [of s "[]" ?pc ?ts] i(3) by simp
qed

lemma run_step_ok:
  assumes "check_inv (run_items threads per) s" "cthreads s = us @ pc # vs" "pc \<noteq> Pushing []" "n \<notin> set (mlive (cmem s))"
  shows "\<exists>pc' s'. check_access tr (threads * per) n pc s = Some (pc', s') \<and> check_inv (run_items threads per) (s'\<lparr>cthreads := us @ pc' # vs\<rparr>)"
  by (rule check_step_ok [OF assms run_items_ok(1)]) (rule run_items_ok(2))

lemma check_step_inv:
  assumes "check_inv (run_items threads per) s" "check_step tr (threads * per) s t"
  shows "check_inv (run_items threads per) t"
  using assms(2)
proof cases
  case (check_runs us pc vs n pc' s')
  then show ?thesis using run_step_ok [OF assms(1) check_runs(2-4), of tr] by auto
next
  case (check_fails us pc vs n)
  then show ?thesis using run_step_ok [OF assms(1) check_fails(2-4), of tr] by auto
qed

interpretation mailbox_check: inv_system "check_init start_locked threads per" "check_step tr (threads * per)" "check_inv (run_items threads per)"
  by unfold_locales (auto intro: check_inv_init check_step_inv)

section \<open>Termination\<close>

fun check_rank :: "check_pc \<Rightarrow> nat" where
  "check_rank (Pushing xs) = 12 * length xs"
| "check_rank (Linking prev n xs) = 12 * length xs + 3"
| "check_rank (Looping op pc xs) = 12 * length xs + (if op = MPop then 0 else 2) + (if pc = MLoad then 2 else 1)"

definition check_measure :: "check_sys \<Rightarrow> nat" where
  "check_measure s = sum_list (map check_rank (cthreads s)) + 6 * (length (cpushed s) - length (observed s))"

lemma guard_next: "mailbox_guard op pc m = (Next pc', m') \<Longrightarrow> pc = MLoad \<and> pc' = MCas"
  by (cases "(op, pc, m)" rule: mailbox_access.cases) (auto simp: mailbox_guard_def mailbox_take_def split: if_splits link.splits)

lemma guard_bool: "mailbox_guard op pc m = (Return (RBool b) rel, m') \<Longrightarrow> op = MTryUnlock"
  by (cases "(op, pc, m)" rule: mailbox_access.cases) (auto simp: mailbox_guard_def mailbox_take_def split: if_splits link.splits)

lemma check_access_rank:
  assumes "check_access tr N n pc s = Some (pc', s')" "pc \<noteq> Pushing []" "length (observed s') \<le> length (cpushed s')" "length (observed s) \<le> length (cpushed s)"
  shows "check_rank pc' + 6 * (length (cpushed s') - length (observed s')) < check_rank pc + 6 * (length (cpushed s) - length (observed s))"
  using assms
proof (cases pc)
  case (Pushing xs)
  then show ?thesis using assms by (cases xs) (auto simp: Let_def split: prod.splits)
next
  case (Linking prev k xs)
  then show ?thesis using assms by (auto split: if_splits option.splits)
next
  case (Looping op q xs)
  obtain out m where g: "mailbox_guard op q (cmem s) = (out, m)" by fastforce
  show ?thesis
  proof (cases out)
    case (Next q')
    then show ?thesis using guard_next [of op q "cmem s" q' m] g Looping assms(1) by auto
  next
    case (Return r rel)
    show ?thesis
    proof (cases r)
      case (RItem y)
      then show ?thesis using Return g Looping assms by (cases y) (auto simp: observe_def split: if_splits)
    next
      case (RBool b)
      then have "op = MTryUnlock" using guard_bool [of op q "cmem s" b rel m] Return g by simp
      then show ?thesis using RBool Return g Looping assms by (cases b) auto
    qed
  next
    case Fail
    then show ?thesis using g Looping assms(1) by simp
  qed
qed

lemma check_inv_lengths:
  assumes "check_inv T s"
  shows "length (observed s) \<le> length (cpushed s)"
proof -
  have "mbx_ok (cmem s) (mset (concat (map check_holds (cthreads s)))) (mset (concat (map check_links (cthreads s)))) (cpushed s) (observed s)"
    using assms by (simp add: check_inv_def)
  then obtain b where b: "mailbox_inv b" "mpushed b = cpushed s" "mpopped b = observed s" by (rule mbx_okE)
  have "cpushed s = observed s @ mailbox_items b" using mailbox_invD(10) [OF b(1)] b(2,3) by simp
  then show ?thesis by (metis length_append le_add1)
qed

lemma check_step_measure:
  assumes "check_inv (run_items threads per) s" "check_step tr (threads * per) s t"
  shows "check_measure t < check_measure s"
proof -
  note i = check_step_inv [OF assms]
  from assms(2) show ?thesis
  proof cases
    case (check_runs us pc vs n pc' s')
    have "length (observed s') \<le> length (cpushed s')" using check_inv_lengths [OF i] check_runs(1) by simp
    from check_access_rank [OF check_runs(5,3) this check_inv_lengths [OF assms(1)]] show ?thesis
      using check_runs(1,2) by (simp add: check_measure_def)
  next
    case (check_fails us pc vs n)
    then show ?thesis using i by (simp add: check_inv_def)
  qed
qed

text \<open>When no thread can move, all have finished: the mailbox is unlocked and empty.\<close>

lemma no_holder_no_items:
  assumes "mailbox_inv b" "mholders b = []" "mpend b = []"
  shows "mailbox_items b = []"
proof -
  note d = mailbox_invD [OF assms(1)]
  have u: "mnext (mmem b) (mhead (mmem b)) = Unlocked" using assms(1,2) by (auto simp: mailbox_inv_def split: if_splits)
  obtain r where c: "mchain b = mhead (mmem b) # r" using d(1,2) by (cases "mchain b") auto
  have "r = []" using d(8) u assms(3) unfolding c by (cases r) auto
  then show ?thesis using c by (simp add: mailbox_items_def)
qed

lemma check_finished:
  assumes "check_inv (run_items threads per) s" "\<And>t. \<not> check_step tr (threads * per) s t"
  shows "mset (observed s) = mset (run_items threads per)"
proof -
  have fin: "pc = Pushing []" if pc: "pc \<in> set (cthreads s)" for pc
  proof (rule ccontr)
    assume ne: "pc \<noteq> Pushing []"
    obtain us vs where u: "cthreads s = us @ pc # vs" using split_list [OF pc] by blast
    obtain pc' s' where "check_access tr (threads * per) (new_node (cmem s)) pc s = Some (pc', s')"
      using run_step_ok [OF assms(1) u ne new_node_fresh] by blast
    from check_runs [OF u ne new_node_fresh this] show False using assms(2) by blast
  qed
  have z: "concat (map check_holds (cthreads s)) = []" "concat (map check_links (cthreads s)) = []" "concat (map check_todo (cthreads s)) = []"
    using fin by (auto simp: concat_eq_Nil_conv dest!: fin)
  have m: "mbx_ok (cmem s) {#} {#} (cpushed s) (observed s)" "mset (cpushed s) = mset (run_items threads per)"
    using assms(1) z by (simp_all add: check_inv_def)
  obtain b where b: "mailbox_inv b" "mset (mholders b) = {#}" "mset (mpend b) = {#}" "mpushed b = cpushed s" "mpopped b = observed s"
    by (rule mbx_okE [OF m(1)])
  have "mailbox_items b = []" by (rule no_holder_no_items [OF b(1)]) (use b(2,3) in simp_all)
  then show ?thesis using mailbox_invD(10) [OF b(1)] b(4,5) m(2) by simp
qed

section \<open>Properties\<close>

text \<open>
  C25. However the accesses of the threads of \<open>check_mailbox\<close> interleave, for any number of threads
  and items per thread, no \<open>RL_ASSERT\<close> fails and no deleted node is touched, every access brings the
  program closer to its end, and at the end every item was observed: \<open>after\<close> succeeds.
\<close>

theorem check_mailbox_passes:
  assumes "reach (check_init start_locked threads per) (check_step tr (threads * per)) s"
  shows "\<not> cfailed s \<and> (\<forall>t. check_step tr (threads * per) s t \<longrightarrow> check_measure t < check_measure s) \<and>
    ((\<forall>t. \<not> check_step tr (threads * per) s t) \<longrightarrow> after_observed (threads * per) s \<and> length (observed s) = threads * per)"
proof -
  have i: "check_inv (run_items threads per) s" using mailbox_check.reach_inv assms by blast
  then have "\<not> cfailed s" by (simp add: check_inv_def)
  moreover have "after_observed (threads * per) s \<and> length (observed s) = threads * per" if n: "\<And>t. \<not> check_step tr (threads * per) s t"
  proof -
    note e = check_finished [OF i n]
    have "set (observed s) = {1..<1 + threads * per}" using mset_eq_setD [OF e] unfolding run_items_def set_upt .
    moreover have "length (observed s) = threads * per" using mset_eq_length [OF e] unfolding run_items_def length_upt by simp
    ultimately show ?thesis unfolding after_observed_def list_all_iff by simp
  qed
  ultimately show ?thesis using check_step_measure [OF i] by blast
qed

text \<open>Two threads with an item each, before the first access.\<close>

definition check_start :: check_sys where
  "check_start = \<lparr>cmem = mailbox_unlocked 5, cthreads = [Pushing [1], Pushing [2]], observed = [], cpushed = [], cfailed = False\<rparr>"

theorem check_mailbox_passes_witness:
  "\<not> cfailed check_start \<and> \<not> after_observed 2 check_start \<and> (\<exists>t. check_step True 2 check_start t \<and> check_measure t < check_measure check_start)"
proof -
  have "check_init False 2 1 check_start" 
    by (auto simp: check_init_def check_start_def thread_items_def check_before_def mailbox_unlocked_def mailbox_locked_def
      mailbox_try_unlock_def mailbox_run_def mailbox_guard_def upt_rec)
  then have "reach (check_init False 2 1) (check_step True (2 * 1)) check_start" by (rule reach_init)
  note p = check_mailbox_passes [OF this]
  moreover have "\<not> after_observed 2 check_start" by (simp add: after_observed_def check_start_def upt_rec)
  ultimately show ?thesis by auto
qed

end
