(* ===== verification/Result.thy ===== *)
theory Result
  imports Prelude
begin

text \<open>
  \<open>result<T>\<close> of \<open>coroactors/result.h\<close>: an empty cell, a value or an exception.

  A C++ call that may throw returns an \<open>outcome\<close>: a value, a thrown exception, a failed
  \<open>assert\<close> (\<open>Abort\<close>) or behaviour the language leaves undefined (\<open>Undefined\<close>).
  \<open>Value None\<close> is the value alternative holding a moved-from object; for \<open>T = void\<close> there is
  nothing to move, and \<open>take_value\<close> leaves the result as it is, which nobody can tell from \<open>Value None\<close>.
\<close>

datatype exn =
    Null_exn
  | Result_error string
  | With_continuation_error string
  | Task_group_error string
  | Packaged_awaitable_error string
  | Invalid_argument string
  | Runtime_error string
  | User_exn nat

datatype 'a outcome = Ret 'a | Throw exn | Abort | Undefined

datatype 'a result = Empty | Value "'a option" | Exception exn

definition set_value :: "'a \<Rightarrow> 'a result \<Rightarrow> 'a result" where
  "set_value x r = Value (Some x)"

definition set_exception :: "exn \<Rightarrow> 'a result \<Rightarrow> 'a result" where
  "set_exception e r = Exception e"

definition has_result :: "'a result \<Rightarrow> bool" where
  "has_result r \<longleftrightarrow> r \<noteq> Empty"

fun has_value :: "'a result \<Rightarrow> bool" where
  "has_value (Value _) = True"
| "has_value _ = False"

fun has_exception :: "'a result \<Rightarrow> bool" where
  "has_exception (Exception _) = True"
| "has_exception _ = False"

text \<open>\<open>std::rethrow_exception\<close>: the argument must not be null.\<close>

fun rethrow :: "exn \<Rightarrow> 'a outcome" where
  "rethrow Null_exn = Undefined"
| "rethrow e = Throw e"

definition no_result :: "'a outcome" where
  "no_result = Throw (Result_error ''result has neither value nor exception'')"

definition no_exception :: "'a outcome" where
  "no_exception = Throw (Result_error ''result does not have an exception'')"

fun get_value :: "'a result \<Rightarrow> 'a option outcome" where
  "get_value (Value x) = Ret x"
| "get_value (Exception e) = rethrow e"
| "get_value Empty = no_result"

fun take_value :: "'a result \<Rightarrow> 'a option outcome \<times> 'a result" where
  "take_value (Value x) = (Ret x, Value None)"
| "take_value (Exception e) = (rethrow e, Exception Null_exn)"
| "take_value Empty = (no_result, Empty)"

fun get_exception :: "'a result \<Rightarrow> exn outcome" where
  "get_exception (Exception e) = Ret e"
| "get_exception _ = no_exception"

fun take_exception :: "'a result \<Rightarrow> exn outcome \<times> 'a result" where
  "take_exception (Exception e) = (Ret e, Exception Null_exn)"
| "take_exception r = (no_exception, r)"

text \<open>The result of a coroutine body that returns or throws, an exception that is not null; the other outcomes are not an end.\<close>

fun ends :: "'a outcome \<Rightarrow> bool" where
  "ends (Ret v) = True"
| "ends (Throw e) = (e \<noteq> Null_exn)"
| "ends _ = False"

fun outcome_result :: "'a outcome \<Rightarrow> 'a result" where
  "outcome_result (Ret v) = Value (Some v)"
| "outcome_result (Throw e) = Exception e"
| "outcome_result _ = Empty"

lemma has_result_cases: "has_result r \<longleftrightarrow> has_value r \<or> has_exception r"
  by (cases r) (auto simp: has_result_def)

lemma has_result_simps [simp]:
  "has_result (Value x)" "has_result (Exception e)" "\<not> has_result Empty"
  "has_result (set_value y r)" "has_result (set_exception e r)" "has_result (snd (take_value r)) = has_result r"
  by (cases r; simp add: has_result_def set_value_def set_exception_def)+

lemma take_value_get: "fst (take_value r) = get_value r"
  by (cases r) simp_all

end
