(* ===== verification/Continuation.thy ===== *)
theory Continuation
  imports Result
begin

text \<open>
  \<open>with_continuation\<close>: \<open>coroactors/detail/with_continuation.h\<close> (\<open>continuation_state\<close> and
  its awaiter) and \<open>coroactors/with_continuation.h\<close> (\<open>continuation\<close>).

  The shared word \<open>continuation\<close> is null, one of the two markers or the address of the
  awaiting coroutine.  \<open>cont_step\<close> interleaves the atomic accesses of the coroutine that
  awaits and of the thread that owns the \<open>continuation\<close> object; the object is moved between
  threads but used by one at a time, since its result cell is not atomic.
\<close>

section \<open>The shared state and its operations\<close>

datatype cword = CNull | CFinished | CDestroyed | CHandle handle

record 'a cstate =
  caddr :: cword
  cresult :: "'a result"

definition continuation_state :: "'a cstate" where
  "continuation_state = \<lparr>caddr = CNull, cresult = Empty\<rparr>"

datatype status = Success | Finished | Destroyed

definition ready :: "'a cstate \<Rightarrow> bool" where
  "ready s \<longleftrightarrow> caddr s = CFinished"

definition set_continuation :: "'a cstate \<Rightarrow> handle \<Rightarrow> (status \<times> 'a cstate) option" where
  "set_continuation s h = (case caddr s of
       CNull \<Rightarrow> Some (Success, s\<lparr>caddr := CHandle h\<rparr>)
     | CFinished \<Rightarrow> Some (Finished, s)
     | CDestroyed \<Rightarrow> Some (Destroyed, s)
     | CHandle _ \<Rightarrow> None)"

definition used_error :: exn where
  "used_error = With_continuation_error ''continuation was resumed or destroyed already''"

definition not_resumed :: exn where
  "not_resumed = With_continuation_error ''continuation was not resumed''"

definition state_set_value :: "'a \<Rightarrow> 'a cstate \<Rightarrow> exn + 'a cstate" where
  "state_set_value x s = (if has_result (cresult s) then Inl used_error
                          else Inr (s\<lparr>cresult := set_value x (cresult s)\<rparr>))"

definition state_set_exception :: "exn \<Rightarrow> 'a cstate \<Rightarrow> exn + 'a cstate" where
  "state_set_exception e s = (if has_result (cresult s) then Inl used_error
                              else Inr (s\<lparr>cresult := set_exception e (cresult s)\<rparr>))"

definition finish :: "'a cstate \<Rightarrow> (handle option \<times> 'a cstate) option" where
  "finish s = (case caddr s of
       CNull \<Rightarrow> Some (None, s\<lparr>caddr := CFinished\<rparr>)
     | CHandle h \<Rightarrow> Some (Some h, s\<lparr>caddr := CFinished\<rparr>)
     | _ \<Rightarrow> None)"

definition cancel :: "'a cstate \<Rightarrow> 'a cstate" where
  "cancel s = s\<lparr>cresult := (if has_result (cresult s) then cresult s else set_exception Null_exn (cresult s)),
                caddr := CDestroyed\<rparr>"

text \<open>
  One turn of the loop of \<open>destroy\<close>, with \<open>addr\<close> the expected word: it returns, or its
  compare-exchange succeeds, or it fails (also spuriously) and reads the word again.
\<close>

datatype destroy_turn = DReturn bool "handle option" | DRetry cword

definition destroy_try :: "cword \<Rightarrow> bool \<Rightarrow> 'a cstate \<Rightarrow> destroy_turn \<times> 'a cstate" where
  "destroy_try addr spurious s =
     (if addr = CFinished \<or> addr = CDestroyed then (DReturn False None, s)
      else if caddr s = addr \<and> \<not> spurious then
        (DReturn True (case addr of CHandle h \<Rightarrow> Some h | _ \<Rightarrow> None), s\<lparr>caddr := CDestroyed\<rparr>)
      else (DRetry (caddr s), s))"

text \<open>\<open>destroy\<close> without interference: the handle is the coroutine that it resumes.\<close>

definition destroy :: "'a cstate \<Rightarrow> bool \<times> handle option \<times> 'a cstate" where
  "destroy s = (case destroy_try (caddr s) False s of
       (DReturn b (Some h), s') \<Rightarrow> (b, Some h, s'\<lparr>cresult := set_exception not_resumed (cresult s')\<rparr>)
     | (DReturn b None, s') \<Rightarrow> (b, None, s')
     | (DRetry _, s') \<Rightarrow> (False, None, s'))"

definition destroy_explicit :: "'a cstate \<Rightarrow> handle option outcome \<times> 'a cstate" where
  "destroy_explicit s = (case destroy s of (b, h, s') \<Rightarrow> (if b then Ret h else Throw used_error, s'))"

section \<open>The continuation object\<close>

text \<open>
  Whole calls without interference.  \<open>Ret (b, h)\<close>: the call returns \<open>b\<close> and resumes the
  coroutine \<open>h\<close> on the way (or, for \<open>release_with_result\<close>, hands it to the caller).
\<close>

definition finish_with :: "exn + 'a cstate \<Rightarrow> 'a cstate \<Rightarrow> (bool \<times> handle option) outcome \<times> 'a cstate" where
  "finish_with r s = (case r of
       Inl e \<Rightarrow> (Throw e, s)
     | Inr s' \<Rightarrow> (case finish s' of
           None \<Rightarrow> (Abort, s')
         | Some (h, s'') \<Rightarrow> (Ret (h \<noteq> None, h), s'')))"

definition resume :: "'a \<Rightarrow> 'a cstate \<Rightarrow> (bool \<times> handle option) outcome \<times> 'a cstate" where
  "resume x s = finish_with (state_set_value x s) s"

definition resume_with_exception :: "exn \<Rightarrow> 'a cstate \<Rightarrow> (bool \<times> handle option) outcome \<times> 'a cstate" where
  "resume_with_exception e s = finish_with (state_set_exception e s) s"

definition noop_coroutine :: handle where
  "noop_coroutine = 0"

definition release_handle :: "(bool \<times> handle option) outcome \<Rightarrow> handle outcome" where
  "release_handle r = (case r of
       Ret (b, Some h) \<Rightarrow> Ret h
     | Ret (b, None) \<Rightarrow> Ret noop_coroutine
     | Throw e \<Rightarrow> Throw e | Abort \<Rightarrow> Abort | Undefined \<Rightarrow> Undefined)"

definition release_with_result :: "'a \<Rightarrow> 'a cstate \<Rightarrow> handle outcome \<times> 'a cstate" where
  "release_with_result x s = apfst release_handle (finish_with (state_set_value x s) s)"

definition release_with_exception :: "exn \<Rightarrow> 'a cstate \<Rightarrow> handle outcome \<times> 'a cstate" where
  "release_with_exception e s = apfst release_handle (finish_with (state_set_exception e s) s)"

section \<open>The awaiter\<close>

definition await_ready :: "'a cstate \<Rightarrow> bool" where
  "await_ready s = ready s"

definition await_suspend :: "'a cstate \<Rightarrow> handle \<Rightarrow> bool outcome \<times> 'a cstate" where
  "await_suspend s h = (case set_continuation s h of
       None \<Rightarrow> (Abort, s)
     | Some (Success, s') \<Rightarrow> (Ret True, s')
     | Some (Finished, s') \<Rightarrow> (Ret False, s')
     | Some (Destroyed, s') \<Rightarrow> (Throw not_resumed, s'))"

definition await_resume :: "'a cstate \<Rightarrow> 'a option outcome \<times> 'a cstate" where
  "await_resume s = (case take_value (cresult s) of (v, r) \<Rightarrow> (v, s\<lparr>cresult := r\<rparr>))"

section \<open>Interleaved executions\<close>

text \<open>
  \<open>given\<close> records what was stored for the coroutine, \<open>early\<close> that a \<open>destroy\<close> came
  before the coroutine suspended, \<open>resumes\<close> how often the coroutine was resumed, and
  \<open>cfailed\<close> a failed assertion or the resumption of a coroutine that is not suspended.
\<close>

datatype owner_pc = OIdle | OFinish | OResume handle | ODestroy cword | ODestroyed handle

datatype 'a awaiter_pc =
  ACreated | ACheck | ASuspended | AResumed | ADone "'a option outcome" | AThrown exn | ADead

record 'a cont_sys =
  cst :: "'a cstate"
  co :: handle
  owner :: owner_pc
  awaiter :: "'a awaiter_pc"
  given :: "'a result"
  early :: bool
  resumes :: nat
  cfailed :: bool

definition cont_init :: "'a cont_sys \<Rightarrow> bool" where
  "cont_init s \<longleftrightarrow> cst s = continuation_state \<and> owner s = OIdle \<and> awaiter s = ACreated \<and>
     given s = Empty \<and> \<not> early s \<and> resumes s = 0 \<and> \<not> cfailed s"

definition owner_after :: "handle option \<Rightarrow> owner_pc" where
  "owner_after h = (case h of Some h \<Rightarrow> OResume h | None \<Rightarrow> OIdle)"

inductive cont_step :: "'a cont_sys \<Rightarrow> 'a cont_sys \<Rightarrow> bool" where
  o_set_value: "\<not> cfailed s \<Longrightarrow> owner s = OIdle \<Longrightarrow> state_set_value x (cst s) = Inr c \<Longrightarrow>
     cont_step s (s\<lparr>cst := c, owner := OFinish, given := cresult c\<rparr>)"
| o_set_exception: "\<not> cfailed s \<Longrightarrow> owner s = OIdle \<Longrightarrow> state_set_exception e (cst s) = Inr c \<Longrightarrow>
     cont_step s (s\<lparr>cst := c, owner := OFinish, given := cresult c\<rparr>)"
| o_finish: "\<not> cfailed s \<Longrightarrow> owner s = OFinish \<Longrightarrow> finish (cst s) = Some (h, c) \<Longrightarrow>
     cont_step s (s\<lparr>cst := c, owner := owner_after h\<rparr>)"
| o_finish_fails: "\<not> cfailed s \<Longrightarrow> owner s = OFinish \<Longrightarrow> finish (cst s) = None \<Longrightarrow>
     cont_step s (s\<lparr>cfailed := True\<rparr>)"
| o_resume: "\<not> cfailed s \<Longrightarrow> owner s = OResume h \<Longrightarrow>
     cont_step s (s\<lparr>owner := OIdle, resumes := resumes s + 1, awaiter := AResumed,
                   cfailed := (h \<noteq> co s \<or> awaiter s \<noteq> ASuspended)\<rparr>)"
| o_destroy: "\<not> cfailed s \<Longrightarrow> owner s = OIdle \<Longrightarrow> cont_step s (s\<lparr>owner := ODestroy (caddr (cst s))\<rparr>)"
| o_destroy_none: "\<not> cfailed s \<Longrightarrow> owner s = ODestroy a \<Longrightarrow> destroy_try a spurious (cst s) = (DReturn b None, c) \<Longrightarrow>
     cont_step s (s\<lparr>cst := c, owner := OIdle, early := early s \<or> b\<rparr>)"
| o_destroy_some: "\<not> cfailed s \<Longrightarrow> owner s = ODestroy a \<Longrightarrow> destroy_try a spurious (cst s) = (DReturn b (Some h), c) \<Longrightarrow>
     cont_step s (s\<lparr>cst := c, owner := ODestroyed h\<rparr>)"
| o_destroy_retry: "\<not> cfailed s \<Longrightarrow> owner s = ODestroy a \<Longrightarrow> destroy_try a spurious (cst s) = (DRetry a', c) \<Longrightarrow>
     cont_step s (s\<lparr>cst := c, owner := ODestroy a'\<rparr>)"
| o_destroyed: "\<not> cfailed s \<Longrightarrow> owner s = ODestroyed h \<Longrightarrow> r = set_exception not_resumed (cresult (cst s)) \<Longrightarrow>
     cont_step s (s\<lparr>cst := (cst s)\<lparr>cresult := r\<rparr>, owner := OResume h, given := r\<rparr>)"
| a_ready: "\<not> cfailed s \<Longrightarrow> awaiter s = ACreated \<Longrightarrow>
     cont_step s (s\<lparr>awaiter := (if await_ready (cst s) then AResumed else ACheck)\<rparr>)"
| a_suspend: "\<not> cfailed s \<Longrightarrow> awaiter s = ACheck \<Longrightarrow> await_suspend (cst s) (co s) = (Ret b, c) \<Longrightarrow>
     cont_step s (s\<lparr>cst := c, awaiter := (if b then ASuspended else AResumed)\<rparr>)"
| a_suspend_throws: "\<not> cfailed s \<Longrightarrow> awaiter s = ACheck \<Longrightarrow> await_suspend (cst s) (co s) = (Throw e, c) \<Longrightarrow>
     cont_step s (s\<lparr>cst := c, awaiter := AThrown e\<rparr>)"
| a_suspend_fails: "\<not> cfailed s \<Longrightarrow> awaiter s = ACheck \<Longrightarrow> await_suspend (cst s) (co s) = (Abort, c) \<Longrightarrow>
     cont_step s (s\<lparr>cfailed := True\<rparr>)"
| a_resume: "\<not> cfailed s \<Longrightarrow> awaiter s = AResumed \<Longrightarrow> await_resume (cst s) = (v, c) \<Longrightarrow>
     cont_step s (s\<lparr>cst := c, awaiter := ADone v\<rparr>)"
| a_cancel: "\<not> cfailed s \<Longrightarrow> awaiter s \<in> {ACreated, ACheck, ASuspended} \<Longrightarrow> owner s = OIdle \<Longrightarrow>
     cont_step s (s\<lparr>cst := cancel (cst s), awaiter := ADead\<rparr>)"
| a_cancel_thrown: "\<not> cfailed s \<Longrightarrow> awaiter s = AThrown e \<Longrightarrow>
     cont_step s (s\<lparr>cst := cancel (cst s), awaiter := ADead\<rparr>)"

section \<open>Invariant\<close>

fun owner_ok :: "owner_pc \<Rightarrow> 'a cont_sys \<Rightarrow> bool" where
  "owner_ok OIdle s = True"
| "owner_ok OFinish s = (has_result (cresult (cst s)) \<and> given s = cresult (cst s) \<and>
     caddr (cst s) \<noteq> CFinished \<and> (caddr (cst s) = CDestroyed \<longrightarrow> early s))"
| "owner_ok (OResume h) s = (h = co s \<and> awaiter s = ASuspended \<and> caddr (cst s) \<in> {CFinished, CDestroyed} \<and>
     has_result (cresult (cst s)) \<and> given s = cresult (cst s))"
| "owner_ok (ODestroy a) s = (a \<in> {CNull, CFinished, CDestroyed, CHandle (co s)})"
| "owner_ok (ODestroyed h) s = (h = co s \<and> awaiter s = ASuspended \<and> caddr (cst s) = CDestroyed)"

fun awaiter_ok :: "'a awaiter_pc \<Rightarrow> 'a cont_sys \<Rightarrow> bool" where
  "awaiter_ok ACreated s = (resumes s = 0 \<and> caddr (cst s) \<in> {CNull, CFinished, CDestroyed} \<and>
     (caddr (cst s) = CDestroyed \<longrightarrow> early s))"
| "awaiter_ok ACheck s = (resumes s = 0 \<and> caddr (cst s) \<in> {CNull, CFinished, CDestroyed} \<and>
     (caddr (cst s) = CDestroyed \<longrightarrow> early s))"
| "awaiter_ok ASuspended s = (resumes s = 0 \<and>
     (caddr (cst s) = CHandle (co s) \<or> owner s \<in> {OResume (co s), ODestroyed (co s)}))"
| "awaiter_ok AResumed s = (has_result (cresult (cst s)) \<and> given s = cresult (cst s) \<and>
     caddr (cst s) \<in> {CFinished, CDestroyed} \<and> owner s \<noteq> OFinish)"
| "awaiter_ok (ADone v) s = (v = get_value (given s) \<and> has_result (given s) \<and> has_result (cresult (cst s)) \<and>
     caddr (cst s) \<in> {CFinished, CDestroyed} \<and> owner s \<noteq> OFinish)"
| "awaiter_ok (AThrown e) s = (e = not_resumed \<and> early s)"
| "awaiter_ok ADead s = (caddr (cst s) = CDestroyed \<and> has_result (cresult (cst s)))"

fun word_ok :: "cword \<Rightarrow> 'a cont_sys \<Rightarrow> bool" where
  "word_ok CNull s = (awaiter s \<in> {ACreated, ACheck} \<and> (has_result (cresult (cst s)) \<longrightarrow> owner s = OFinish))"
| "word_ok (CHandle h) s = (h = co s \<and> awaiter s = ASuspended \<and> (has_result (cresult (cst s)) \<longrightarrow> owner s = OFinish))"
| "word_ok CFinished s = (has_result (cresult (cst s)) \<and>
     (awaiter s \<in> {ACreated, ACheck, ASuspended} \<longrightarrow> given s = cresult (cst s)))"
| "word_ok CDestroyed s = (has_result (cresult (cst s)) \<or> early s \<or> owner s = ODestroyed (co s))"

definition cont_live :: "'a cont_sys \<Rightarrow> bool" where
  "cont_live s \<longleftrightarrow> owner_ok (owner s) s \<and> awaiter_ok (awaiter s) s \<and> word_ok (caddr (cst s)) s \<and>
     resumes s \<le> 1 \<and> (early s \<longrightarrow> caddr (cst s) = CDestroyed)"

definition cont_inv :: "'a cont_sys \<Rightarrow> bool" where
  "cont_inv s \<longleftrightarrow> (if cfailed s then early s \<and> resumes s \<le> 1 else cont_live s)"

lemmas cont_op_defs = state_set_value_def state_set_exception_def finish_def owner_after_def destroy_try_def
  await_ready_def ready_def await_suspend_def set_continuation_def await_resume_def cancel_def

lemma cont_inv_init: "cont_init s \<Longrightarrow> cont_inv s"
  by (simp add: cont_init_def cont_inv_def cont_live_def continuation_state_def)

lemma cont_step_inv:
  assumes "cont_inv s" "cont_step s t"
  shows "cont_inv t"
  using assms(2,1)
proof cases
  case (o_set_value x c)
  then show ?thesis using assms(1)
    by (cases "awaiter s"; cases "caddr (cst s)") (auto simp: cont_inv_def cont_live_def cont_op_defs split: if_splits)
next
  case (o_set_exception e c)
  then show ?thesis using assms(1)
    by (cases "awaiter s"; cases "caddr (cst s)") (auto simp: cont_inv_def cont_live_def cont_op_defs split: if_splits)
next
  case (o_finish h c)
  then show ?thesis using assms(1)
    by (cases "awaiter s"; cases "caddr (cst s)") (auto simp: cont_inv_def cont_live_def cont_op_defs split: if_splits)
next
  case o_finish_fails
  then show ?thesis using assms(1)
    by (cases "caddr (cst s)") (auto simp: cont_inv_def cont_live_def cont_op_defs)
next
  case (o_resume h)
  then show ?thesis using assms(1)
    by (auto simp: cont_inv_def cont_live_def)
next
  case o_destroy
  then show ?thesis using assms(1)
    by (cases "awaiter s"; cases "caddr (cst s)") (auto simp: cont_inv_def cont_live_def)
next
  case (o_destroy_none a spurious b c)
  then have "c = cst s \<and> \<not> b \<or> caddr (cst s) = CNull \<and> c = (cst s)\<lparr>caddr := CDestroyed\<rparr> \<and> b"
    using assms(1) by (auto simp: destroy_try_def cont_inv_def cont_live_def split: if_splits)
  then show ?thesis using assms(1) o_destroy_none(1-3)
    by (cases "awaiter s"; cases "caddr (cst s)") (auto simp: cont_inv_def cont_live_def)
next
  case (o_destroy_some a spurious b h c)
  then have "caddr (cst s) = CHandle h" "c = (cst s)\<lparr>caddr := CDestroyed\<rparr>"
    using assms(1) by (auto simp: destroy_try_def split: if_splits cword.splits)
  then show ?thesis using assms(1) o_destroy_some(1-3)
    by (auto simp: cont_inv_def cont_live_def)
next
  case (o_destroy_retry a spurious a' c)
  then have "t = s\<lparr>owner := ODestroy (caddr (cst s))\<rparr>"
    by (auto simp: destroy_try_def split: if_splits)
  then show ?thesis using assms(1) o_destroy_retry(2,3)
    by (cases "awaiter s"; cases "caddr (cst s)") (auto simp: cont_inv_def cont_live_def)
next
  case (o_destroyed h r)
  then show ?thesis using assms(1)
    by (auto simp: cont_inv_def cont_live_def set_exception_def)
next
  case a_ready
  then show ?thesis using assms(1)
    by (cases "owner s"; cases "caddr (cst s)") (auto simp: cont_inv_def cont_live_def cont_op_defs split: if_splits)
next
  case (a_suspend b c)
  then show ?thesis using assms(1)
    by (cases "owner s"; cases "caddr (cst s)") (auto simp: cont_inv_def cont_live_def cont_op_defs split: if_splits)
next
  case (a_suspend_throws e c)
  then show ?thesis using assms(1)
    by (cases "owner s"; cases "caddr (cst s)") (auto simp: cont_inv_def cont_live_def cont_op_defs split: if_splits)
next
  case (a_suspend_fails c)
  then show ?thesis using assms(1)
    by (cases "owner s"; cases "caddr (cst s)") (auto simp: cont_inv_def cont_live_def cont_op_defs split: if_splits)
next
  case (a_resume v c)
  then have "v = get_value (cresult (cst s))" "c = (cst s)\<lparr>cresult := snd (take_value (cresult (cst s)))\<rparr>"
    by (auto simp: await_resume_def take_value_get [symmetric] split: prod.splits)
  then show ?thesis using assms(1) a_resume(1-3)
    by (cases "owner s"; cases "caddr (cst s)") (auto simp: cont_inv_def cont_live_def)
next
  case a_cancel
  then show ?thesis using assms(1)
    by (cases "caddr (cst s)") (auto simp: cont_inv_def cont_live_def cont_op_defs split: if_splits)
next
  case (a_cancel_thrown e)
  then show ?thesis using assms(1)
    by (cases "owner s"; cases "caddr (cst s)") (auto simp: cont_inv_def cont_live_def cont_op_defs split: if_splits)
qed

interpretation cont: inv_system cont_init cont_step cont_inv
  by unfold_locales (auto intro: cont_inv_init cont_step_inv)

section \<open>Properties\<close>

text \<open>
  C15. In every interleaving of the awaiting coroutine with the owner of the continuation, the
  coroutine is resumed at most once.  An assertion fails, or a coroutine that is not suspended
  is resumed, only if the owner destroyed the continuation before the coroutine suspended and
  used it again.
\<close>

theorem continuation_resume_once:
  assumes "reach cont_init cont_step s"
  shows "resumes s \<le> 1 \<and> (cfailed s \<longrightarrow> early s)"
  using cont.reach_inv [OF assms] by (auto simp: cont_inv_def cont_live_def split: if_splits)

definition cont0 :: "nat cont_sys" where
  "cont0 = \<lparr>cst = continuation_state, co = 7, owner = OIdle, awaiter = ACreated, given = Empty,
            early = False, resumes = 0, cfailed = False\<rparr>"

text \<open>The coroutine suspends, the owner resumes it with 42, and it takes the value.\<close>

definition cont_suspended :: "nat cont_sys" where
  "cont_suspended = cont0\<lparr>cst := \<lparr>caddr = CHandle 7, cresult = Empty\<rparr>, awaiter := ASuspended\<rparr>"

definition cont_finished :: "nat cont_sys" where
  "cont_finished = cont_suspended\<lparr>cst := \<lparr>caddr = CFinished, cresult = Value (Some 42)\<rparr>,
     given := Value (Some 42), owner := OResume 7\<rparr>"

definition cont_done :: "nat cont_sys" where
  "cont_done = cont_finished\<lparr>cst := \<lparr>caddr = CFinished, cresult = Value None\<rparr>,
     owner := OIdle, resumes := 1, awaiter := ADone (Ret (Some 42))\<rparr>"

lemma cont_suspended_reach: "reach cont_init cont_step cont_suspended"
proof -
  have "reach cont_init cont_step cont0" by (rule reach_init) (simp add: cont_init_def cont0_def)
  moreover have "cont_step cont0 (cont0\<lparr>awaiter := ACheck\<rparr>)"
    using a_ready [of cont0] by (simp add: cont0_def cont_op_defs continuation_state_def)
  moreover have "cont_step (cont0\<lparr>awaiter := ACheck\<rparr>) cont_suspended"
    using a_suspend [of "cont0\<lparr>awaiter := ACheck\<rparr>" True]
    by (simp add: cont0_def cont_op_defs continuation_state_def cont_suspended_def)
  ultimately show ?thesis by (blast intro: reach_step)
qed

lemma cont_done_reach: "reach cont_init cont_step cont_done" "reach cont_init cont_step cont_finished"
proof -
  let ?s = "cont_suspended\<lparr>cst := \<lparr>caddr = CHandle 7, cresult = Value (Some 42)\<rparr>, owner := OFinish, given := Value (Some 42)\<rparr>"
  let ?r = "cont_finished\<lparr>owner := OIdle, resumes := 1, awaiter := AResumed\<rparr>"
  have "cont_step cont_suspended ?s"
    using o_set_value [of cont_suspended 42] by (simp add: cont_suspended_def cont0_def cont_op_defs set_value_def)
  moreover have "cont_step ?s cont_finished"
    using o_finish [of ?s "Some 7"] by (simp add: cont_finished_def cont_suspended_def cont0_def cont_op_defs)
  ultimately show f: "reach cont_init cont_step cont_finished" using cont_suspended_reach by (blast intro: reach_step)
  have "cont_step cont_finished ?r"
    using o_resume [of cont_finished 7] by (simp add: cont_finished_def cont_suspended_def cont0_def)
  moreover have "cont_step ?r cont_done"
    using a_resume [of ?r "Ret (Some 42)"]
    by (simp add: cont_done_def cont_finished_def cont_suspended_def cont0_def cont_op_defs)
  ultimately show "reach cont_init cont_step cont_done" using f by (blast intro: reach_step)
qed

theorem continuation_resume_once_witness: "resumes cont_done = 1 \<and> resumes cont_done \<le> 1 \<and> \<not> cfailed cont_done"
  using continuation_resume_once [OF cont_done_reach(1)]
  by (auto simp: cont_done_def cont_finished_def cont_suspended_def cont0_def)

text \<open>
  C16. No wakeup is lost: while the coroutine is suspended and the owner is between two calls, the
  coroutine's handle is in the shared word, so that the next \<open>resume\<close> or \<open>destroy\<close>
  resumes exactly this coroutine.
\<close>

theorem continuation_no_lost_resume:
  assumes "reach cont_init cont_step s" "\<not> cfailed s" "awaiter s = ASuspended" "owner s = OIdle"
  shows "fst (resume x (cst s)) = Ret (True, Some (co s)) \<and>
    fst (destroy_explicit (cst s)) = Ret (Some (co s))"
  using cont.reach_inv [OF assms(1)] assms(2-4)
  by (auto simp: cont_inv_def cont_live_def resume_def finish_with_def destroy_explicit_def destroy_def cont_op_defs)

theorem continuation_no_lost_resume_witness:
  "fst (resume 5 (cst cont_suspended)) = Ret (True, Some 7)"
  using continuation_no_lost_resume [OF cont_suspended_reach, of 5]
  by (simp add: cont_suspended_def cont0_def)

text \<open>
  The coroutine receives exactly what the owner stored for it: the value or exception of
  the one \<open>resume\<close> that succeeded, or \<open>with_continuation_error\<close> when the continuation was
  destroyed instead; \<open>await_suspend\<close> throws the same error when the destruction came first.
\<close>

theorem continuation_delivers:
  assumes "reach cont_init cont_step s" "\<not> cfailed s"
  shows "(\<forall>v. awaiter s = ADone v \<longrightarrow> v = get_value (given s) \<and> has_result (given s)) \<and>
    (\<forall>e. awaiter s = AThrown e \<longrightarrow> e = not_resumed \<and> early s)"
  using cont.reach_inv [OF assms(1)] assms(2) by (auto simp: cont_inv_def cont_live_def)

theorem continuation_delivers_witness: "get_value (given cont_done) = Ret (Some 42) \<and> has_result (given cont_done)"
  using continuation_delivers [OF cont_done_reach(1)]
  by (auto simp: cont_done_def cont_finished_def cont_suspended_def cont0_def)

text \<open>
  A continuation is used at most once: when its result is set, every further call to resume it
  throws \<open>with_continuation_error\<close> and leaves the state as it is, and so does an explicit
  \<open>destroy\<close> when the word holds a marker.
\<close>

theorem continuation_second_use:
  assumes "has_result (cresult s)" "caddr s = CFinished \<or> caddr s = CDestroyed"
  shows "resume x s = (Throw used_error, s) \<and> resume_with_exception e s = (Throw used_error, s) \<and>
    release_with_result x s = (Throw used_error, s) \<and> release_with_exception e s = (Throw used_error, s) \<and>
    destroy_explicit s = (Throw used_error, s)"
  using assms
  by (auto simp: resume_def resume_with_exception_def release_with_result_def release_with_exception_def
      finish_with_def release_handle_def destroy_explicit_def destroy_def cont_op_defs)

theorem continuation_second_use_witness:
  "resume 5 (snd (resume 4 (continuation_state :: nat cstate))) =
    (Throw used_error, snd (resume 4 continuation_state))"
  using continuation_second_use [of "snd (resume 4 (continuation_state :: nat cstate))" 5]
  by (simp add: resume_def finish_with_def continuation_state_def cont_op_defs)

text \<open>
  A continuation that is destroyed before the coroutine suspends keeps an empty result, so a
  following \<open>resume\<close> does not throw \<open>with_continuation_error\<close> but fails the assertion of
  \<open>finish\<close> on the marker of the destruction; destroyed after the suspension, it throws.
\<close>

theorem continuation_early_destroy_aborts:
  shows "fst (resume x (snd (destroy_explicit continuation_state))) = Abort \<and>
    fst (resume x (snd (destroy_explicit (continuation_state\<lparr>caddr := CHandle h\<rparr>)))) = Throw used_error"
  by (simp add: resume_def finish_with_def continuation_state_def destroy_explicit_def destroy_def cont_op_defs)

end
