(* ===== verification/Continuation_Handle.thy ===== *)
theory Continuation_Handle
  imports Continuation
begin

text \<open>
  The object \<open>continuation\<close> of \<open>coroactors/with_continuation.h\<close> as an owner of its shared state:
  construction, moves, destruction and calls, for programs with any number of continuations and
  awaiting coroutines.  \<open>Continuation\<close> covers the interleavings of one of them.
\<close>

section \<open>Objects and shared states\<close>

text \<open>
  \<open>cholder\<close>: the shared state of each continuation object.  \<open>went\<close>: the coroutines that went on
  after their await, with the state they awaited, in order; \<open>cmade\<close> and \<open>cawaited\<close> are ghosts: the
  states made so far and the coroutines that awaited them.
\<close>

record 'a conts =
  cholder :: "addr \<Rightarrow> addr option"
  cstates :: "addr \<Rightarrow> 'a cstate"
  went :: "(addr \<times> handle) list"
  cmade :: "addr list"
  cawaited :: "addr \<Rightarrow> handle option"

definition goes_on :: "addr \<Rightarrow> handle option \<Rightarrow> 'a conts \<Rightarrow> 'a conts" where
  "goes_on a x s = (case x of None \<Rightarrow> s | Some h \<Rightarrow> s\<lparr>went := went s @ [(a, h)]\<rparr>)"

definition put_state :: "addr \<Rightarrow> 'a cstate \<Rightarrow> 'a conts \<Rightarrow> 'a conts" where
  "put_state a c s = s\<lparr>cstates := (cstates s)(a := c)\<rparr>"

text \<open>\<open>with_continuation_awaitable::operator co_await\<close> makes the state and gives a continuation to the callback.\<close>

definition continuation_new :: "addr \<Rightarrow> addr \<Rightarrow> 'a conts \<Rightarrow> 'a conts" where
  "continuation_new x a s = (put_state a continuation_state s)\<lparr>cholder := (cholder s)(x := Some a), cmade := a # cmade s\<rparr>"

definition continuation_move :: "addr \<Rightarrow> addr \<Rightarrow> 'a conts \<Rightarrow> 'a conts" where
  "continuation_move x y s = s\<lparr>cholder := (cholder s)(x := cholder s y, y := None)\<rparr>"

definition drop_state :: "addr option \<Rightarrow> 'a conts \<Rightarrow> 'a conts" where
  "drop_state p s = (case p of
       None \<Rightarrow> s
     | Some a \<Rightarrow> (case destroy (cstates s a) of (_, h, c) \<Rightarrow> goes_on a h (put_state a c s)))"

definition continuation_delete :: "addr \<Rightarrow> 'a conts \<Rightarrow> 'a conts" where
  "continuation_delete x s = drop_state (cholder s x) (s\<lparr>cholder := (cholder s)(x := None)\<rparr>)"

definition continuation_assign :: "addr \<Rightarrow> addr \<Rightarrow> 'a conts \<Rightarrow> 'a conts" where
  "continuation_assign x y s =
     (if x = y then s
      else let prev = cholder s x; s = s\<lparr>cholder := (cholder s)(x := None)\<rparr>;
               s = s\<lparr>cholder := (cholder s)(x := cholder s y, y := None)\<rparr>
           in drop_state prev s)"

definition continuation_bool :: "addr \<Rightarrow> 'a conts \<Rightarrow> bool" where
  "continuation_bool x s \<longleftrightarrow> cholder s x \<noteq> None"

text \<open>
  Calls through the object; without a state they are undefined.  A coroutine that
  \<open>release_with_result\<close> returns is resumed by the caller.
\<close>

definition continuation_call ::
  "('a cstate \<Rightarrow> (bool \<times> handle option) outcome \<times> 'a cstate) \<Rightarrow> addr \<Rightarrow> 'a conts \<Rightarrow> (bool \<times> handle option) outcome \<times> 'a conts" where
  "continuation_call f x s = (case cholder s x of
       None \<Rightarrow> (Undefined, s)
     | Some a \<Rightarrow> (case f (cstates s a) of (out, c) \<Rightarrow>
         (out, goes_on a (case out of Ret (b, h) \<Rightarrow> h | _ \<Rightarrow> None) (put_state a c s))))"

definition continuation_resume :: "'a \<Rightarrow> addr \<Rightarrow> 'a conts \<Rightarrow> (bool \<times> handle option) outcome \<times> 'a conts" where
  "continuation_resume v = continuation_call (resume v)"

definition continuation_throw :: "exn \<Rightarrow> addr \<Rightarrow> 'a conts \<Rightarrow> (bool \<times> handle option) outcome \<times> 'a conts" where
  "continuation_throw e = continuation_call (resume_with_exception e)"

definition continuation_destroy :: "addr \<Rightarrow> 'a conts \<Rightarrow> unit outcome \<times> 'a conts" where
  "continuation_destroy x s = (case cholder s x of
       None \<Rightarrow> (Ret (), s)
     | Some a \<Rightarrow> (case destroy_explicit (cstates s a) of
           (Ret h, c) \<Rightarrow> (Ret (), goes_on a h (put_state a c s))
         | (Throw e, c) \<Rightarrow> (Throw e, put_state a c s)
         | (Abort, c) \<Rightarrow> (Abort, put_state a c s)
         | (Undefined, c) \<Rightarrow> (Undefined, put_state a c s)))"

text \<open>\<open>co_await\<close> of the awaiter: ready, suspended, not suspended, or an exception.\<close>

definition continuation_await :: "addr \<Rightarrow> handle \<Rightarrow> 'a conts \<Rightarrow> bool outcome \<times> 'a conts" where
  "continuation_await a h s =
     (let s = s\<lparr>cawaited := (cawaited s)(a := Some h)\<rparr>
      in if await_ready (cstates s a) then (Ret False, goes_on a (Some h) s)
      else case await_suspend (cstates s a) h of (out, c) \<Rightarrow>
        (out, goes_on a (if out = Ret True then None else Some h) (put_state a c s)))"

section \<open>Programs\<close>

datatype 'a cont_op =
    CNew addr addr
  | CMove addr addr
  | CAssign addr addr
  | CDelete addr
  | CResume addr 'a
  | CThrow addr exn
  | CDestroy addr
  | CAwait addr handle

fun cont_exec :: "'a cont_op \<Rightarrow> 'a conts \<Rightarrow> 'a conts option" where
  "cont_exec (CNew x a) s = Some (continuation_new x a s)"
| "cont_exec (CMove x y) s = Some (continuation_move x y s)"
| "cont_exec (CAssign x y) s = Some (continuation_assign x y s)"
| "cont_exec (CDelete x) s = Some (continuation_delete x s)"
| "cont_exec (CResume x v) s = (case continuation_resume v x s of (out, s') \<Rightarrow> if out = Abort \<or> out = Undefined then None else Some s')"
| "cont_exec (CThrow x e) s = (case continuation_throw e x s of (out, s') \<Rightarrow> if out = Abort \<or> out = Undefined then None else Some s')"
| "cont_exec (CDestroy x) s = (case continuation_destroy x s of (out, s') \<Rightarrow> if out = Abort \<or> out = Undefined then None else Some s')"
| "cont_exec (CAwait a h) s = (case continuation_await a h s of (out, s') \<Rightarrow> if out = Abort \<or> out = Undefined then None else Some s')"

text \<open>
  What a program must respect: new objects and states are new, a state is awaited once, a
  continuation is called while it has a state, and not resumed after an explicit \<open>destroy\<close> that
  came before the coroutine awaited.
\<close>

definition callable :: "addr \<Rightarrow> 'a conts \<Rightarrow> bool" where
  "callable x s \<longleftrightarrow> (case cholder s x of None \<Rightarrow> False | Some a \<Rightarrow> caddr (cstates s a) = CDestroyed \<longrightarrow> has_result (cresult (cstates s a)))"

fun cont_legal :: "'a cont_op \<Rightarrow> 'a conts \<Rightarrow> bool" where
  "cont_legal (CNew x a) s = (cholder s x = None \<and> a \<notin> set (cmade s))"
| "cont_legal (CMove x y) s = (cholder s x = None \<and> x \<noteq> y)"
| "cont_legal (CResume x v) s = callable x s"
| "cont_legal (CThrow x e) s = callable x s"
| "cont_legal (CAwait a h) s = (a \<in> set (cmade s) \<and> cawaited s a = None)"
| "cont_legal op s = True"

fun cont_program :: "'a cont_op list \<Rightarrow> 'a conts \<Rightarrow> bool" where
  "cont_program [] s = True"
| "cont_program (op # ops) s = (cont_legal op s \<and> (case cont_exec op s of None \<Rightarrow> True | Some s' \<Rightarrow> cont_program ops s'))"

fun cont_run :: "'a cont_op list \<Rightarrow> 'a conts \<Rightarrow> 'a conts option" where
  "cont_run [] s = Some s"
| "cont_run (op # ops) s = (case cont_exec op s of None \<Rightarrow> None | Some s' \<Rightarrow> cont_run ops s')"

definition no_conts :: "'a conts" where
  "no_conts = \<lparr>cholder = (\<lambda>_. None), cstates = (\<lambda>_. continuation_state), went = [], cmade = [], cawaited = (\<lambda>_. None)\<rparr>"

definition went_of :: "addr \<Rightarrow> 'a conts \<Rightarrow> handle list" where
  "went_of a s = map snd (filter (\<lambda>x. fst x = a) (went s))"

section \<open>The invariant\<close>

text \<open>One state: its word and result, whether an object owns it, who awaited it and went on.\<close>

fun one_ok :: "'a cstate \<Rightarrow> bool \<Rightarrow> bool \<Rightarrow> handle option \<Rightarrow> handle list \<Rightarrow> bool" where
  "one_ok c made has_owner aw gone = (if \<not> made then \<not> has_owner \<and> aw = None \<and> gone = []
     else case caddr c of
       CNull \<Rightarrow> aw = None \<and> gone = [] \<and> has_owner \<and> \<not> has_result (cresult c)
     | CHandle h \<Rightarrow> aw = Some h \<and> gone = [] \<and> has_owner \<and> \<not> has_result (cresult c)
     | CFinished \<Rightarrow> gone = (case aw of None \<Rightarrow> [] | Some h \<Rightarrow> [h]) \<and> has_result (cresult c)
     | CDestroyed \<Rightarrow> gone = (case aw of None \<Rightarrow> [] | Some h \<Rightarrow> [h]))"

declare one_ok.simps [simp del]

definition has_owner :: "addr \<Rightarrow> 'a conts \<Rightarrow> bool" where
  "has_owner a s \<longleftrightarrow> (\<exists>x. cholder s x = Some a)"

definition conts_inv :: "'a conts \<Rightarrow> bool" where
  "conts_inv s \<longleftrightarrow> (\<forall>x y a. cholder s x = Some a \<and> cholder s y = Some a \<longrightarrow> x = y) \<and>
     (\<forall>a. one_ok (cstates s a) (a \<in> set (cmade s)) (has_owner a s) (cawaited s a) (went_of a s))"

lemma conts_invD:
  assumes "conts_inv s"
  shows "cholder s x = Some a \<Longrightarrow> cholder s y = Some a \<Longrightarrow> x = y"
    "one_ok (cstates s a) (a \<in> set (cmade s)) (has_owner a s) (cawaited s a) (went_of a s)"
  using assms unfolding conts_inv_def by blast+

text \<open>A change of one state.\<close>

lemma conts_inv_upd:
  assumes "conts_inv s" "\<And>x y b. cholder s' x = Some b \<Longrightarrow> cholder s' y = Some b \<Longrightarrow> x = y"
    and "\<And>b. b \<noteq> a \<Longrightarrow> cstates s' b = cstates s b \<and> (b \<in> set (cmade s') \<longleftrightarrow> b \<in> set (cmade s)) \<and> has_owner b s' = has_owner b s \<and>
      cawaited s' b = cawaited s b \<and> went_of b s' = went_of b s"
    and "one_ok (cstates s' a) (a \<in> set (cmade s')) (has_owner a s') (cawaited s' a) (went_of a s')"
  shows "conts_inv s'"
  unfolding conts_inv_def
proof (intro conjI allI impI)
  fix b
  show "one_ok (cstates s' b) (b \<in> set (cmade s')) (has_owner b s') (cawaited s' b) (went_of b s')"
    using conts_invD(2) [OF assms(1), of b] assms(3) [of b] assms(4) by (cases "b = a") simp_all
qed (use assms(2) in blast)

lemma went_of_simps [simp]:
  "went_of b (put_state a c s) = went_of b s" "went_of b (s\<lparr>cholder := f\<rparr>) = went_of b s"
  "went_of b (s\<lparr>cawaited := g\<rparr>) = went_of b s" "went_of b (s\<lparr>cmade := m\<rparr>) = went_of b s"
  "went_of b (goes_on a x s) = went_of b s @ (if a = b then (case x of None \<Rightarrow> [] | Some h \<Rightarrow> [h]) else [])"
  by (simp_all add: went_of_def goes_on_def put_state_def split: option.splits)

lemma conts_fields [simp]:
  "cholder (put_state a c s) = cholder s" "cmade (put_state a c s) = cmade s" "cawaited (put_state a c s) = cawaited s"
  "cstates (put_state a c s) = (cstates s)(a := c)"
  "cholder (goes_on a x s) = cholder s" "cmade (goes_on a x s) = cmade s" "cawaited (goes_on a x s) = cawaited s" "cstates (goes_on a x s) = cstates s"
  by (simp_all add: goes_on_def put_state_def split: option.splits)

text \<open>What the operations of a state do to \<open>one_ok\<close>.\<close>

lemma destroy_one:
  assumes "one_ok c made ow aw gone" "made"
  shows "case destroy c of (b, h, c') \<Rightarrow> one_ok c' made ow' aw (gone @ (case h of None \<Rightarrow> [] | Some h \<Rightarrow> [h]))"
  using assms by (cases "caddr c") (auto simp: one_ok.simps destroy_def destroy_try_def split: option.splits)

lemma finish_one:
  assumes "one_ok c made ow aw gone" "made" "caddr c = CDestroyed \<longrightarrow> has_result (cresult c)"
  shows "case resume v c of (out, c') \<Rightarrow> out \<noteq> Abort \<and> out \<noteq> Undefined \<and>
      one_ok c' made ow aw (gone @ (case out of Ret (b, Some h) \<Rightarrow> [h] | _ \<Rightarrow> []))"
    "case resume_with_exception e c of (out, c') \<Rightarrow> out \<noteq> Abort \<and> out \<noteq> Undefined \<and>
      one_ok c' made ow aw (gone @ (case out of Ret (b, Some h) \<Rightarrow> [h] | _ \<Rightarrow> []))"
  using assms by (cases "caddr c"; auto simp: one_ok.simps resume_def resume_with_exception_def finish_with_def state_set_value_def state_set_exception_def
    finish_def set_value_def set_exception_def split: option.splits)+

lemma await_one:
  assumes "one_ok c made ow aw gone" "made" "aw = None"
  shows "await_ready c \<Longrightarrow> one_ok c made ow (Some h) (gone @ [h])"
    "\<not> await_ready c \<Longrightarrow> case await_suspend c h of (out, c') \<Rightarrow> out \<noteq> Abort \<and> out \<noteq> Undefined \<and>
      one_ok c' made ow (Some h) (gone @ (if out = Ret True then [] else [h]))"
  using assms by (cases "caddr c"; auto simp: one_ok.simps await_ready_def ready_def await_suspend_def set_continuation_def split: option.splits)+

section \<open>Every operation keeps it\<close>

lemma owned_made:
  assumes "conts_inv s" "cholder s x = Some a"
  shows "a \<in> set (cmade s)"
proof -
  have "has_owner a s" using assms(2) by (auto simp: has_owner_def)
  then show ?thesis using conts_invD(2) [OF assms(1), of a] by (cases "a \<in> set (cmade s)") (simp_all add: one_ok.simps)
qed

lemma new_inv:
  assumes "conts_inv s" "cholder s x = None" "a \<notin> set (cmade s)"
  shows "conts_inv (continuation_new x a s)"
proof (rule conts_inv_upd [OF assms(1), of _ a])
  let ?s = "continuation_new x a s"
  have n: "\<not> has_owner a s" "cawaited s a = None" "went_of a s = []" using conts_invD(2) [OF assms(1), of a] assms(3) by (simp_all add: one_ok.simps)
  then have na: "cholder s y \<noteq> Some a" for y by (auto simp: has_owner_def)
  show "y = z" if "cholder ?s y = Some b" "cholder ?s z = Some b" for y z b
    using that na conts_invD(1) [OF assms(1), of y b z] by (auto simp: continuation_new_def split: if_splits)
  show "cstates ?s b = cstates s b \<and> (b \<in> set (cmade ?s) \<longleftrightarrow> b \<in> set (cmade s)) \<and> has_owner b ?s = has_owner b s \<and> cawaited ?s b = cawaited s b \<and> went_of b ?s = went_of b s"
    if "b \<noteq> a" for b using that assms(2) by (auto simp: continuation_new_def has_owner_def) (metis option.discI)
  show "one_ok (cstates ?s a) (a \<in> set (cmade ?s)) (has_owner a ?s) (cawaited ?s a) (went_of a ?s)"
    using n by (auto simp: continuation_new_def one_ok.simps continuation_state_def has_owner_def has_result_def)
qed

lemma ownedI: "cholder s x = Some a \<Longrightarrow> has_owner a s"
  by (auto simp: has_owner_def)

lemma owned_move:
  assumes "x \<noteq> y" "cholder s x \<noteq> Some b"
  shows "has_owner b (s\<lparr>cholder := (cholder s)(x := cholder s y, y := None)\<rparr>) = has_owner b s"
proof
  let ?s = "s\<lparr>cholder := (cholder s)(x := cholder s y, y := None)\<rparr>"
  assume "has_owner b s"
  then obtain z where z: "cholder s z = Some b" by (auto simp: has_owner_def)
  have "cholder ?s (if z = y then x else z) = Some b" using z assms by auto
  then show "has_owner b ?s" by (rule ownedI)
qed (auto simp: has_owner_def split: if_splits)

lemma unique_move:
  assumes "conts_inv s" "((cholder s)(x := cholder s y, y := None)) u = Some b" "((cholder s)(x := cholder s y, y := None)) v = Some b"
  shows "u = v"
  using assms(2,3) conts_invD(1) [OF assms(1), of y b u] conts_invD(1) [OF assms(1), of y b v] conts_invD(1) [OF assms(1), of u b v]
  by (auto split: if_splits)

lemma continuation_move_inv:
  assumes "conts_inv s" "x \<noteq> y" "cholder s x = None"
  shows "conts_inv (continuation_move x y s)"
proof -
  let ?s = "s\<lparr>cholder := (cholder s)(x := cholder s y, y := None)\<rparr>"
  have "has_owner b ?s = has_owner b s" for b by (rule owned_move [OF assms(2)]) (use assms(3) in simp)
  then have "one_ok (cstates ?s b) (b \<in> set (cmade ?s)) (has_owner b ?s) (cawaited ?s b) (went_of b ?s)" for b
    using conts_invD(2) [OF assms(1), of b] by simp
  moreover have "u = v" if "cholder ?s u = Some b" "cholder ?s v = Some b" for u v b
    using unique_move [OF assms(1), of x y u b v] that by simp
  ultimately have "conts_inv ?s" unfolding conts_inv_def by blast
  then show ?thesis by (simp add: continuation_move_def)
qed

text \<open>An object gives up its state, whatever it holds then.\<close>

lemma drop_state_inv:
  assumes "conts_inv s" "cholder s x = Some a" "\<And>u v b. f u = Some b \<Longrightarrow> f v = Some b \<Longrightarrow> u = v"
    and "\<And>b. b \<noteq> a \<Longrightarrow> has_owner b (s\<lparr>cholder := f\<rparr>) = has_owner b s"
  shows "conts_inv (drop_state (Some a) (s\<lparr>cholder := f\<rparr>))"
proof -
  let ?s = "s\<lparr>cholder := f\<rparr>"
  obtain b h c where d: "destroy (cstates s a) = (b, h, c)" by (cases "destroy (cstates s a)")
  have e: "drop_state (Some a) ?s = goes_on a h (put_state a c ?s)" using d by (simp add: drop_state_def)
  have o: "has_owner z (goes_on a h (put_state a c ?s)) = has_owner z ?s" for z by (simp add: has_owner_def)
  have "a \<in> set (cmade s)" by (rule owned_made [OF assms(1,2)])
  from destroy_one [OF conts_invD(2) [OF assms(1), of a] this, of "has_owner a ?s"]
  have one: "one_ok c (a \<in> set (cmade s)) (has_owner a ?s) (cawaited s a) (went_of a s @ (case h of None \<Rightarrow> [] | Some h \<Rightarrow> [h]))" using d by simp
  show ?thesis unfolding e
  proof (rule conts_inv_upd [OF assms(1), of _ a])
    show "u = v" if "cholder (goes_on a h (put_state a c ?s)) u = Some z" "cholder (goes_on a h (put_state a c ?s)) v = Some z" for u v z
      by (rule assms(3) [of u z v]) (use that in simp_all)
  qed (use one o assms(4) in auto)
qed

lemma delete_inv:
  assumes "conts_inv s"
  shows "conts_inv (continuation_delete x s)"
proof (cases "cholder s x")
  case None
  then have "continuation_delete x s = s" by (simp add: continuation_delete_def drop_state_def fun_upd_idem)
  then show ?thesis using assms by simp
next
  case (Some a)
  let ?s = "s\<lparr>cholder := (cholder s)(x := None)\<rparr>"
  have "has_owner b ?s = has_owner b s" if "b \<noteq> a" for b
  proof
    assume "has_owner b s"
    then obtain z where "cholder s z = Some b" by (auto simp: has_owner_def)
    then have "cholder ?s z = Some b" using that Some by auto
    then show "has_owner b ?s" by (rule ownedI)
  qed (auto simp: has_owner_def split: if_splits)
  note own = this
  have un: "u = v" if "((cholder s)(x := None)) u = Some b" "((cholder s)(x := None)) v = Some b" for u v b
    using that conts_invD(1) [OF assms, of u b v] by (simp split: if_splits)
  have "conts_inv (drop_state (Some a) ?s)" by (rule drop_state_inv [OF assms Some un own])
  then show ?thesis using Some by (simp add: continuation_delete_def)
qed

lemma assign_inv:
  assumes "conts_inv s"
  shows "conts_inv (continuation_assign x y s)"
proof (cases "x = y")
  case False
  let ?f = "(cholder s)(x := cholder s y, y := None)" and ?s = "s\<lparr>cholder := (cholder s)(x := cholder s y, y := None)\<rparr>"
  have e: "continuation_assign x y s = drop_state (cholder s x) ?s" using False by (simp add: continuation_assign_def Let_def)
  show ?thesis
  proof (cases "cholder s x")
    case None
    then show ?thesis using continuation_move_inv [OF assms False] e by (simp add: drop_state_def continuation_move_def)
  next
    case (Some a)
    have own: "has_owner b ?s = has_owner b s" if "b \<noteq> a" for b by (rule owned_move [OF False]) (use Some that in simp)
    have "conts_inv (drop_state (Some a) ?s)" by (rule drop_state_inv [OF assms Some unique_move [OF assms] own])
    then show ?thesis using e Some by simp
  qed
qed (use assms in \<open>simp add: continuation_assign_def\<close>)

lemma put_inv:
  assumes "conts_inv s" "one_ok c (a \<in> set (cmade s)) (has_owner a s) aw (went_of a s @ (case h of None \<Rightarrow> [] | Some h \<Rightarrow> [h]))"
  shows "conts_inv (goes_on a h (put_state a c (s\<lparr>cawaited := (cawaited s)(a := aw)\<rparr>)))"
  by (rule conts_inv_upd [OF assms(1), of _ a]) (use conts_invD(1) [OF assms(1)] assms(2) in \<open>auto simp: has_owner_def\<close>)

lemma put_inv_same:
  assumes "conts_inv s" "one_ok c (a \<in> set (cmade s)) (has_owner a s) (cawaited s a) (went_of a s @ (case h of None \<Rightarrow> [] | Some h \<Rightarrow> [h]))"
  shows "conts_inv (goes_on a h (put_state a c s))"
  using put_inv [OF assms] by simp

lemma call_inv:
  assumes "conts_inv s" "callable x s" "f = resume v \<or> f = resume_with_exception e" "continuation_call f x s = (out, s')"
  shows "out \<noteq> Abort \<and> out \<noteq> Undefined \<and> conts_inv s'"
proof -
  obtain a where a: "cholder s x = Some a" "caddr (cstates s a) = CDestroyed \<longrightarrow> has_result (cresult (cstates s a))"
    using assms(2) by (auto simp: callable_def split: option.splits)
  obtain o' c where f: "f (cstates s a) = (o', c)" by fastforce
  let ?h = "case o' of Ret (b, h) \<Rightarrow> h | _ \<Rightarrow> None"
  have s': "out = o'" "s' = goes_on a ?h (put_state a c s)" using assms(4) a(1) f by (auto simp: continuation_call_def)
  note one = finish_one [OF conts_invD(2) [OF assms(1), of a] owned_made [OF assms(1) a(1)] a(2)]
  have "o' \<noteq> Abort \<and> o' \<noteq> Undefined \<and> one_ok c (a \<in> set (cmade s)) (has_owner a s) (cawaited s a) (went_of a s @ (case o' of Ret (b, Some h) \<Rightarrow> [h] | _ \<Rightarrow> []))"
    using one(1) [of v] one(2) [of e] assms(3) f by auto
  moreover have "(case o' of Ret (b, Some h) \<Rightarrow> [h] | _ \<Rightarrow> []) = (case ?h of None \<Rightarrow> [] | Some h \<Rightarrow> [h])" by (simp split: outcome.splits option.splits)
  ultimately show ?thesis using put_inv_same [OF assms(1), of c a ?h] s' by simp
qed

lemma destroy_call_inv:
  assumes "conts_inv s" "continuation_destroy x s = (out, s')"
  shows "out \<noteq> Abort \<and> out \<noteq> Undefined \<and> conts_inv s'"
proof (cases "cholder s x")
  case None
  then show ?thesis using assms by (auto simp: continuation_destroy_def)
next
  case (Some a)
  obtain b h c where d: "destroy (cstates s a) = (b, h, c)" by (cases "destroy (cstates s a)")
  from destroy_one [OF conts_invD(2) [OF assms(1), of a] owned_made [OF assms(1) Some], of "has_owner a s"]
  have "conts_inv (goes_on a h (put_state a c s))" using d by (intro put_inv_same [OF assms(1)]) simp
  moreover have "h = None" if "\<not> b" using that d by (auto simp: destroy_def destroy_try_def split: if_splits option.splits)
  ultimately show ?thesis using assms(2) Some d
    by (cases b) (auto simp: continuation_destroy_def destroy_explicit_def goes_on_def split: option.splits)
qed

lemma await_inv:
  assumes "conts_inv s" "a \<in> set (cmade s)" "cawaited s a = None" "continuation_await a h s = (out, s')"
  shows "out \<noteq> Abort \<and> out \<noteq> Undefined \<and> conts_inv s'"
proof (cases "await_ready (cstates s a)")
  case True
  note one = await_one(1) [OF conts_invD(2) [OF assms(1), of a] assms(2,3) True, of h]
  have "s' = goes_on a (Some h) (put_state a (cstates s a) (s\<lparr>cawaited := (cawaited s)(a := Some h)\<rparr>))" "out = Ret False"
    using assms(4) True by (simp_all add: continuation_await_def put_state_def Let_def)
  then show ?thesis using put_inv [OF assms(1), of "cstates s a" a "Some h" "Some h"] one by simp
next
  case False
  obtain o' c where f: "await_suspend (cstates s a) h = (o', c)" by fastforce
  note one = await_one(2) [OF conts_invD(2) [OF assms(1), of a] assms(2,3) False, of h]
  have "s' = goes_on a (if o' = Ret True then None else Some h) (put_state a c (s\<lparr>cawaited := (cawaited s)(a := Some h)\<rparr>))" "out = o'"
    using assms(4) False f by (auto simp: continuation_await_def Let_def)
  then show ?thesis using put_inv [OF assms(1), of c a "Some h" "if o' = Ret True then None else Some h"] one f by (simp split: if_splits)
qed

lemma cont_exec_inv:
  assumes "conts_inv s" "cont_legal op s"
  shows "\<exists>s'. cont_exec op s = Some s' \<and> conts_inv s'"
proof (cases op)
  case (CResume x v)
  obtain out s' where r: "continuation_call (resume v) x s = (out, s')" by fastforce
  then show ?thesis using call_inv [OF assms(1) _ _ r] assms(2) CResume by (auto simp: continuation_resume_def)
next
  case (CThrow x e)
  obtain out s' where r: "continuation_call (resume_with_exception e) x s = (out, s')" by fastforce
  then show ?thesis using call_inv [OF assms(1) _ _ r] assms(2) CThrow by (auto simp: continuation_throw_def)
next
  case (CDestroy x)
  obtain out s' where r: "continuation_destroy x s = (out, s')" by fastforce
  then show ?thesis using destroy_call_inv [OF assms(1) r] CDestroy by auto
next
  case (CAwait a h)
  obtain out s' where r: "continuation_await a h s = (out, s')" by fastforce
  then show ?thesis using await_inv [OF assms(1) _ _ r] assms(2) CAwait by auto
qed (use assms new_inv continuation_move_inv assign_inv delete_inv in auto)

lemma cont_run_inv:
  assumes "conts_inv s" "cont_program ops s"
  shows "\<exists>s'. cont_run ops s = Some s' \<and> conts_inv s'"
  using assms
proof (induction ops arbitrary: s)
  case (Cons op ops)
  then obtain s1 where "cont_exec op s = Some s1" "conts_inv s1" using cont_exec_inv [of s op] by auto
  then show ?case using Cons by simp
qed simp

lemma no_conts_inv: "conts_inv no_conts"
  by (simp add: conts_inv_def no_conts_def one_ok.simps has_owner_def went_of_def)

section \<open>Properties\<close>

text \<open>
  C17. In every program that makes, moves, assigns, resumes, destroys and drops continuations, and does not resume one
  after an explicit \<open>destroy()\<close> that came before the coroutine awaited (where an assertion of \<open>finish\<close> fails), no assertion
  fails and no call is undefined, a coroutine that awaits goes on at most once, and it has gone on
  as soon as no continuation object owns its state: dropping the last one wakes it up.
\<close>

theorem continuation_goes_on_once:
  assumes "cont_program ops no_conts"
  shows "\<exists>s. cont_run ops no_conts = Some s \<and>
    (\<forall>a. went_of a s = [] \<or> (\<exists>h. cawaited s a = Some h \<and> went_of a s = [h])) \<and>
    (\<forall>a h. cawaited s a = Some h \<and> (\<forall>x. cholder s x \<noteq> Some a) \<longrightarrow> went_of a s = [h])"
proof -
  obtain s where s: "cont_run ops no_conts = Some s" "conts_inv s" using cont_run_inv [OF no_conts_inv assms] by blast
  note one = conts_invD(2) [OF s(2)]
  have "went_of a s = [] \<or> (\<exists>h. cawaited s a = Some h \<and> went_of a s = [h])" for a
    using one [of a] by (auto simp: one_ok.simps split: if_splits cword.splits option.splits)
  moreover have "went_of a s = [h]" if "cawaited s a = Some h" "\<forall>x. cholder s x \<noteq> Some a" for a h
    using one [of a] that by (auto simp: one_ok.simps has_owner_def split: if_splits cword.splits)
  ultimately show ?thesis using s(1) by blast
qed

text \<open>Two continuations; the first is moved over the second, which wakes the second coroutine, and resumed.\<close>

definition cont_example :: "nat cont_op list" where
  "cont_example = [CNew 10 20, CNew 11 21, CAwait 20 30, CAwait 21 31, CAssign 11 10, CResume 11 5, CDelete 11]"

theorem continuation_goes_on_once_witness:
  "\<exists>s. cont_run cont_example no_conts = Some s \<and> went s = [(21, 31), (20, 30)] \<and> went_of 20 s = [30]"
proof -
  note defs = cont_example_def no_conts_def continuation_new_def continuation_await_def continuation_assign_def continuation_resume_def continuation_call_def
    continuation_delete_def drop_state_def callable_def put_state_def goes_on_def await_ready_def ready_def await_suspend_def set_continuation_def
    continuation_state_def destroy_def destroy_try_def resume_def finish_with_def state_set_value_def finish_def has_result_def set_value_def set_exception_def Let_def
  have p: "cont_program cont_example no_conts" by (simp add: defs)
  have "\<exists>s. cont_run cont_example no_conts = Some s \<and> went s = [(21, 31), (20, 30)] \<and> cawaited s 20 = Some 30" by (simp add: defs)
  with continuation_goes_on_once [OF p] show ?thesis by (auto simp: went_of_def)
qed

end
