(* ===== verification/Continuation_Check.thy ===== *)
theory Continuation_Check
  imports Prelude
begin

text \<open>
  The test program \<open>src/tools/checks-relacy/check_with_continuation.cpp\<close>: a coroutine awaits, a
  thread produces a value or fails to, and other threads drop references to the shared state.  The
  tool samples interleavings of one thread of each kind; here every interleaving with any number of
  further references is covered, with every access to a plain or atomic variable a step of its own.
\<close>

section \<open>The program\<close>

datatype k_cont = KInitial | KResumed | KDestroyed

datatype k_word = SInitial | SContinuation | SFinished | SDestroyed

record model_cont =
  kstate :: k_cont
  kvalue :: int
  ktoken :: int
  observed_value :: int
  observed_token :: int

record k_shared =
  kcont :: model_cont
  strong_refs :: int
  kword :: k_word

definition set_kcont :: "(model_cont \<Rightarrow> model_cont) \<Rightarrow> k_shared \<Rightarrow> k_shared" where
  "set_kcont f s = s\<lparr>kcont := f (kcont s)\<rparr>"

text \<open>
  Where a thread is.  \<open>Wake b at rel\<close>: in \<open>cont.resume\<close> (\<open>b\<close>) or \<open>cont.destroy\<close>, and \<open>rel\<close> tells that it drops a
  reference afterwards; \<open>DTry c\<close>: in the loop of \<open>destroy_strong\<close>, having read \<open>c\<close>.
\<close>

datatype wake_pc = WCheck | WState | WValue | WToken

datatype k_pc =
    SetToken int
  | CheckReady
  | SetCont
  | SetValue int bool
  | KFinish
  | Wake bool wake_pc bool
  | Release
  | DLoad
  | DTry k_word
  | KDone

definition woken_as :: "bool \<Rightarrow> k_cont" where
  "woken_as b = (if b then KResumed else KDestroyed)"

definition wake_access :: "bool \<Rightarrow> wake_pc \<Rightarrow> bool \<Rightarrow> k_shared \<Rightarrow> (k_pc \<times> k_shared) option" where
  "wake_access b at rel s = (case at of
       WCheck \<Rightarrow> if kstate (kcont s) = KInitial then Some (Wake b WState rel, s) else None
     | WState \<Rightarrow> Some (Wake b WValue rel, set_kcont (\<lambda>c. c\<lparr>kstate := woken_as b\<rparr>) s)
     | WValue \<Rightarrow> Some (Wake b WToken rel, set_kcont (\<lambda>c. c\<lparr>observed_value := kvalue c\<rparr>) s)
     | WToken \<Rightarrow> Some (if rel then Release else KDone, set_kcont (\<lambda>c. c\<lparr>observed_token := ktoken c\<rparr>) s))"

definition destroy_loop :: "k_word \<Rightarrow> k_pc option" where
  "destroy_loop c = (if c = SFinished then Some KDone else if c = SDestroyed then None else Some (DTry c))"

text \<open>One access of a thread; \<open>None\<close> is a failed \<open>RL_ASSERT\<close>, \<open>spurious\<close> a compare-exchange that fails without reason.\<close>

fun k_access :: "bool \<Rightarrow> k_pc \<Rightarrow> k_shared \<Rightarrow> (k_pc \<times> k_shared) option" where
  "k_access spurious (SetToken t) s = Some (CheckReady, set_kcont (\<lambda>c. c\<lparr>ktoken := t\<rparr>) s)"
| "k_access spurious CheckReady s =
     (if kword s = SContinuation then None
      else Some (if kword s = SFinished then Wake True WCheck False else SetCont, s))"
| "k_access spurious SetCont s = (case kword s of
       SInitial \<Rightarrow> Some (KDone, s\<lparr>kword := SContinuation\<rparr>)
     | SFinished \<Rightarrow> Some (Wake True WCheck False, s)
     | SDestroyed \<Rightarrow> Some (Wake False WCheck False, s)
     | SContinuation \<Rightarrow> None)"
| "k_access spurious (SetValue v ok) s = Some (if ok then KFinish else Release, set_kcont (\<lambda>c. c\<lparr>kvalue := v\<rparr>) s)"
| "k_access spurious KFinish s =
     (if kword s = SFinished \<or> kword s = SDestroyed then None
      else Some (if kword s = SContinuation then Wake True WCheck True else Release, s\<lparr>kword := SFinished\<rparr>))"
| "k_access spurious (Wake b at rel) s = wake_access b at rel s"
| "k_access spurious Release s =
     Some (if strong_refs s = 1 then DLoad else KDone, s\<lparr>strong_refs := strong_refs s - 1\<rparr>)"
| "k_access spurious DLoad s = map_option (\<lambda>pc. (pc, s)) (destroy_loop (kword s))"
| "k_access spurious (DTry c) s =
     (if kword s = c \<and> \<not> spurious then
        Some (if c = SContinuation then Wake False WCheck False else KDone, s\<lparr>kword := SDestroyed\<rparr>)
      else map_option (\<lambda>pc. (pc, s)) (destroy_loop (kword s)))"
| "k_access spurious KDone s = Some (KDone, s)"

record k_sys =
  kshared :: k_shared
  kawaits :: k_pc
  kthreads :: "k_pc list"
  kfailed :: bool

inductive k_step :: "k_sys \<Rightarrow> k_sys \<Rightarrow> bool" where
  k_awaiter: "kawaits s \<noteq> KDone \<Longrightarrow> k_access spurious (kawaits s) (kshared s) = Some (pc, h) \<Longrightarrow>
     k_step s (s\<lparr>kshared := h, kawaits := pc\<rparr>)"
| k_awaiter_fails: "kawaits s \<noteq> KDone \<Longrightarrow> k_access spurious (kawaits s) (kshared s) = None \<Longrightarrow>
     k_step s (s\<lparr>kfailed := True\<rparr>)"
| k_thread: "kthreads s = us @ pc # vs \<Longrightarrow> pc \<noteq> KDone \<Longrightarrow> k_access spurious pc (kshared s) = Some (pc', h) \<Longrightarrow>
     k_step s (s\<lparr>kshared := h, kthreads := us @ pc' # vs\<rparr>)"
| k_thread_fails: "kthreads s = us @ pc # vs \<Longrightarrow> pc \<noteq> KDone \<Longrightarrow> k_access spurious pc (kshared s) = None \<Longrightarrow>
     k_step s (s\<lparr>kfailed := True\<rparr>)"

text \<open>The producer of \<open>v\<close>, with or without a value (\<open>ok\<close>), and \<open>k\<close> threads that release a reference.\<close>

definition k_init :: "bool \<Rightarrow> int \<Rightarrow> int \<Rightarrow> nat \<Rightarrow> k_sys" where
  "k_init ok v tok k = \<lparr>kshared = \<lparr>kcont = \<lparr>kstate = KInitial, kvalue = 0, ktoken = 0, observed_value = 0, observed_token = 0\<rparr>,
       strong_refs = int (Suc k), kword = SInitial\<rparr>,
     kawaits = SetToken tok, kthreads = SetValue v ok # replicate k Release, kfailed = False\<rparr>"

definition k_finished :: "k_sys \<Rightarrow> bool" where
  "k_finished s \<longleftrightarrow> list_all (\<lambda>pc. pc = KDone) (kawaits s # kthreads s)"

text \<open>What \<open>after\<close> asserts.\<close>

definition k_after :: "bool \<Rightarrow> int \<Rightarrow> int \<Rightarrow> k_sys \<Rightarrow> bool" where
  "k_after ok v tok s \<longleftrightarrow> kstate (kcont (kshared s)) = woken_as ok \<and> observed_value (kcont (kshared s)) = v \<and>
     observed_token (kcont (kshared s)) = tok \<and> strong_refs (kshared s) = 0 \<and>
     kword (kshared s) = (if ok then SFinished else SDestroyed)"

text \<open>Accesses to plain variables, which the tool checks for data races: the variable, and whether it is written.\<close>

datatype k_var = VState | VValue | VToken | VObserved_value | VObserved_token

fun plain_accesses :: "k_pc \<Rightarrow> (k_var \<times> bool) list" where
  "plain_accesses (SetToken t) = [(VToken, True)]"
| "plain_accesses (SetValue v ok) = [(VValue, True)]"
| "plain_accesses (Wake b WCheck rel) = [(VState, False)]"
| "plain_accesses (Wake b WState rel) = [(VState, True)]"
| "plain_accesses (Wake b WValue rel) = [(VValue, False), (VObserved_value, True)]"
| "plain_accesses (Wake b WToken rel) = [(VToken, False), (VObserved_token, True)]"
| "plain_accesses pc = []"

definition conflict :: "k_pc \<Rightarrow> k_pc \<Rightarrow> bool" where
  "conflict p q \<longleftrightarrow> list_ex (\<lambda>(x, w). list_ex (\<lambda>(y, w'). x = y \<and> (w \<or> w')) (plain_accesses q)) (plain_accesses p)"

fun conflict_free :: "k_pc list \<Rightarrow> bool" where
  "conflict_free [] = True"
| "conflict_free (p # ps) = (list_all (\<lambda>q. \<not> conflict p q) ps \<and> conflict_free ps)"

section \<open>The invariant\<close>

text \<open>What threads hold: a reference, the state after the last reference, the duty to produce, the wake-up.\<close>

fun holds_ref :: "k_pc \<Rightarrow> nat" where
  "holds_ref (SetValue v ok) = 1"
| "holds_ref KFinish = 1"
| "holds_ref (Wake b at rel) = (if rel then 1 else 0)"
| "holds_ref Release = 1"
| "holds_ref pc = 0"

fun destroying :: "k_pc \<Rightarrow> nat" where
  "destroying DLoad = 1"
| "destroying (DTry c) = 1"
| "destroying (Wake b at rel) = (if rel then 0 else 1)"
| "destroying pc = 0"

fun producing :: "k_pc \<Rightarrow> nat" where
  "producing (SetValue v ok) = (if ok then 1 else 0)"
| "producing KFinish = 1"
| "producing pc = 0"

fun no_value :: "k_pc \<Rightarrow> nat" where
  "no_value (SetValue v ok) = 1"
| "no_value pc = 0"

fun waking :: "k_pc \<Rightarrow> nat" where
  "waking (Wake b at rel) = 1"
| "waking pc = 0"

definition wake_ok :: "bool \<Rightarrow> int \<Rightarrow> int \<Rightarrow> bool \<Rightarrow> wake_pc \<Rightarrow> k_shared \<Rightarrow> bool" where
  "wake_ok ok v tok b at h \<longleftrightarrow> b = ok \<and> kvalue (kcont h) = v \<and> ktoken (kcont h) = tok \<and>
     kword h = (if ok then SFinished else SDestroyed) \<and>
     kstate (kcont h) = (if at = WCheck \<or> at = WState then KInitial else woken_as ok) \<and>
     (at = WToken \<longrightarrow> observed_value (kcont h) = v)"

fun party_ok :: "bool \<Rightarrow> int \<Rightarrow> int \<Rightarrow> k_pc \<Rightarrow> k_shared \<Rightarrow> bool" where
  "party_ok ok v tok (SetValue x b) h = (x = v \<and> b = ok)"
| "party_ok ok v tok KFinish h = ok"
| "party_ok ok v tok (Wake b at rel) h = (wake_ok ok v tok b at h \<and> rel = ok)"
| "party_ok ok v tok Release h = True"
| "party_ok ok v tok DLoad h = (kword h \<noteq> SDestroyed)"
| "party_ok ok v tok (DTry c) h = (\<not> ok \<and> (c = SInitial \<or> c = SContinuation \<and> kword h = SContinuation) \<and> kword h \<noteq> SDestroyed)"
| "party_ok ok v tok KDone h = True"
| "party_ok ok v tok pc h = False"

text \<open>\<open>w\<close>: how many of the other threads are waking the coroutine.\<close>

fun waiter_ok :: "bool \<Rightarrow> int \<Rightarrow> int \<Rightarrow> nat \<Rightarrow> k_pc \<Rightarrow> k_shared \<Rightarrow> bool" where
  "waiter_ok ok v tok w (SetToken t) h = (t = tok \<and> w = 0 \<and> kstate (kcont h) = KInitial \<and> kword h \<noteq> SContinuation)"
| "waiter_ok ok v tok w CheckReady h = (ktoken (kcont h) = tok \<and> w = 0 \<and> kstate (kcont h) = KInitial \<and> kword h \<noteq> SContinuation)"
| "waiter_ok ok v tok w SetCont h = (ktoken (kcont h) = tok \<and> w = 0 \<and> kstate (kcont h) = KInitial \<and> kword h \<noteq> SContinuation)"
| "waiter_ok ok v tok w (Wake b at rel) h = (wake_ok ok v tok b at h \<and> w = 0 \<and> \<not> rel)"
| "waiter_ok ok v tok w KDone h = (ktoken (kcont h) = tok \<and> kword h \<noteq> SInitial \<and>
     (kword h = SContinuation \<longrightarrow> w = 0 \<and> kstate (kcont h) = KInitial) \<and>
     (kword h = SFinished \<or> kword h = SDestroyed \<longrightarrow> w = 1 \<or> w = 0 \<and> kstate (kcont h) = woken_as ok \<and>
        observed_value (kcont h) = v \<and> observed_token (kcont h) = tok))"
| "waiter_ok ok v tok w pc h = False"

definition tally :: "(k_pc \<Rightarrow> nat) \<Rightarrow> k_pc list \<Rightarrow> nat" where
  "tally f ts = sum_list (map f ts)"

text \<open>The tallies of all threads but the awaiter: references, destroyers, producers, values to come.\<close>

definition shared_ok :: "bool \<Rightarrow> int \<Rightarrow> nat \<Rightarrow> nat \<Rightarrow> nat \<Rightarrow> nat \<Rightarrow> k_shared \<Rightarrow> bool" where
  "shared_ok ok v r d p n h \<longleftrightarrow> strong_refs h = int r \<and> d \<le> 1 \<and> n \<le> 1 \<and> (0 < d \<longrightarrow> r = 0) \<and>
     (r = 0 \<and> d = 0 \<longrightarrow> kword h = SFinished \<or> kword h = SDestroyed) \<and>
     (if ok then (kword h = SInitial \<or> kword h = SContinuation) \<and> p = 1 \<or> kword h = SFinished \<and> p = 0
      else kword h \<noteq> SFinished \<and> (kword h = SDestroyed \<longrightarrow> r = 0)) \<and>
     (n = 0 \<longrightarrow> kvalue (kcont h) = v)"

definition k_inv :: "bool \<Rightarrow> int \<Rightarrow> int \<Rightarrow> k_sys \<Rightarrow> bool" where
  "k_inv ok v tok s \<longleftrightarrow> (let h = kshared s; ts = kthreads s in \<not> kfailed s \<and>
     list_all (\<lambda>pc. party_ok ok v tok pc h) ts \<and> waiter_ok ok v tok (tally waking ts) (kawaits s) h \<and>
     shared_ok ok v (tally holds_ref ts) (tally destroying ts) (tally producing ts) (tally no_value ts) h)"


text \<open>The acting thread set apart; the steps left decrease unless a compare-exchange fails spuriously.\<close>

fun k_rank :: "k_pc \<Rightarrow> nat" where
  "k_rank (SetToken t) = 7"
| "k_rank CheckReady = 6"
| "k_rank SetCont = 5"
| "k_rank (SetValue v ok) = 14"
| "k_rank KFinish = 13"
| "k_rank (Wake b at rel) = (if rel then 9 else 1) + (case at of WCheck \<Rightarrow> 3 | WState \<Rightarrow> 2 | WValue \<Rightarrow> 1 | WToken \<Rightarrow> 0)"
| "k_rank Release = 8"
| "k_rank DLoad = 7"
| "k_rank (DTry c) = (if c = SInitial then 6 else 5)"
| "k_rank KDone = 0"

definition k_measure :: "k_sys \<Rightarrow> nat" where
  "k_measure s = k_rank (kawaits s) + tally k_rank (kthreads s)"

definition acts_ok :: "bool \<Rightarrow> int \<Rightarrow> int \<Rightarrow> k_pc \<Rightarrow> nat \<Rightarrow> nat \<Rightarrow> nat \<Rightarrow> nat \<Rightarrow> nat \<Rightarrow> k_pc \<Rightarrow> k_shared \<Rightarrow> bool" where
  "acts_ok ok v tok a W R D P N pc h \<longleftrightarrow> party_ok ok v tok pc h \<and> waiter_ok ok v tok (waking pc + W) a h \<and>
     shared_ok ok v (holds_ref pc + R) (destroying pc + D) (producing pc + P) (no_value pc + N) h \<and> N \<le> R \<and> (ok \<longrightarrow> N \<le> P)"

lemma acts_okD:
  assumes "acts_ok ok v tok a W R D P N pc h"
  shows "party_ok ok v tok pc h" "waiter_ok ok v tok (waking pc + W) a h"
    "shared_ok ok v (holds_ref pc + R) (destroying pc + D) (producing pc + P) (no_value pc + N) h" "N \<le> R" "ok \<Longrightarrow> N \<le> P"
  using assms by (simp_all add: acts_ok_def)

definition moves_ok :: "bool \<Rightarrow> int \<Rightarrow> int \<Rightarrow> k_pc \<Rightarrow> nat \<Rightarrow> nat \<Rightarrow> nat \<Rightarrow> nat \<Rightarrow> nat \<Rightarrow> k_pc \<Rightarrow> k_shared \<Rightarrow> k_pc \<times> k_shared \<Rightarrow> bool" where
  "moves_ok ok v tok a W R D P N pc h x \<longleftrightarrow> (case x of (pc', h') \<Rightarrow> acts_ok ok v tok a W R D P N pc' h' \<and>
     (\<forall>q. party_ok ok v tok q h \<and> destroying q \<le> D \<and> waking q \<le> W \<longrightarrow> party_ok ok v tok q h') \<and>
     ((pc', h') = (pc, h) \<or> k_rank pc' < k_rank pc))"

lemma moves_okI:
  assumes "acts_ok ok v tok a W R D P N pc' h'" "\<And>q. party_ok ok v tok q h \<Longrightarrow> destroying q \<le> D \<Longrightarrow> waking q \<le> W \<Longrightarrow> party_ok ok v tok q h'"
    "k_rank pc' < k_rank pc"
  shows "moves_ok ok v tok a W R D P N pc h (pc', h')"
  using assms by (auto simp: moves_ok_def)

lemma shared_ok_cong:
  "strong_refs h' = strong_refs h \<Longrightarrow> kword h' = kword h \<Longrightarrow> kvalue (kcont h') = kvalue (kcont h) \<Longrightarrow> shared_ok ok v r d p n h' = shared_ok ok v r d p n h"
  by (simp add: shared_ok_def)

lemma set_value_moves:
  assumes "acts_ok ok v tok a W R D P N (SetValue x b) h" "k_access spurious (SetValue x b) h = Some y"
  shows "moves_ok ok v tok a W R D P N (SetValue x b) h y"
proof -
  note d = acts_okD [OF assms(1)]
  let ?h = "set_kcont (\<lambda>c. c\<lparr>kvalue := x\<rparr>) h"
  have y: "y = (if ok then KFinish else Release, ?h)" "x = v" "b = ok" using assms(2) d(1) by auto
  have "waiter_ok ok v tok W a ?h" using d(2) y(2) by (cases a) (auto simp: set_kcont_def wake_ok_def)
  moreover have "party_ok ok v tok q h \<Longrightarrow> party_ok ok v tok q ?h" for q using y(2) by (cases q) (auto simp: set_kcont_def wake_ok_def)
  ultimately show ?thesis unfolding y(1) using d(3-5) y(2,3) by (intro moves_okI) (auto simp: acts_ok_def shared_ok_def set_kcont_def)
qed

lemma finish_moves:
  assumes "acts_ok ok v tok a W R D P N KFinish h"
  shows "\<exists>y. k_access spurious KFinish h = Some y \<and> moves_ok ok v tok a W R D P N KFinish h y"
proof -
  note d = acts_okD [OF assms(1)]
  have ok: ok using d(1) by simp
  let ?h = "h\<lparr>kword := SFinished\<rparr>" and ?pc = "if kword h = SContinuation then Wake True WCheck True else Release"
  have w: "kword h = SInitial \<or> kword h = SContinuation" "P = 0" "N = 0" "D = 0" "kvalue (kcont h) = v" using d(3-5) ok by (auto simp: shared_ok_def)
  have "waiter_ok ok v tok (waking ?pc + W) a ?h" using d(2) w(1) ok by (cases a) (auto simp: wake_ok_def)
  moreover have "party_ok ok v tok ?pc ?h" using d(2) w ok by (cases a) (auto simp: wake_ok_def)
  moreover have "party_ok ok v tok q h \<Longrightarrow> party_ok ok v tok q ?h" for q using ok by (cases q) (auto simp: wake_ok_def)
  moreover have "shared_ok ok v (holds_ref ?pc + R) (destroying ?pc + D) (producing ?pc + P) (no_value ?pc + N) ?h" using d(3) w ok by (auto simp: shared_ok_def)
  ultimately have "moves_ok ok v tok a W R D P N KFinish h (?pc, ?h)" using d(4,5) by (intro moves_okI) (auto simp: acts_ok_def)
  then show ?thesis using w(1) by (intro exI [of _ "(?pc, ?h)"]) auto
qed

lemma wake_moves:
  assumes "acts_ok ok v tok a W R D P N (Wake b at rel) h"
  shows "\<exists>y. k_access spurious (Wake b at rel) h = Some y \<and> moves_ok ok v tok a W R D P N (Wake b at rel) h y"
proof -
  note d = acts_okD [OF assms(1)]
  have k: "wake_ok ok v tok b at h" "rel = ok" using d(1) by simp_all
  have "W = 0 \<and> a = KDone" using d(2) k(1) by (cases a) (auto simp: wake_ok_def split: if_splits)
  then have a: "W = 0" "a = KDone" by simp_all
  obtain pc' h' where y: "wake_access b at rel h = Some (pc', h')" using k(1) by (cases at) (simp_all add: wake_access_def wake_ok_def)
  have eq: "strong_refs h' = strong_refs h" "kword h' = kword h" "kvalue (kcont h') = kvalue (kcont h)"
    using y by (cases at; auto simp: wake_access_def set_kcont_def split: if_splits)+
  have "party_ok ok v tok q h'" if "party_ok ok v tok q h" "waking q \<le> W" for q using that eq a(1) by (cases q) auto
  moreover have "party_ok ok v tok pc' h'" "waiter_ok ok v tok (waking pc' + W) a h'" "k_rank pc' < k_rank (Wake b at rel)"
    using y k a d(2) by (cases at; auto simp: wake_access_def set_kcont_def wake_ok_def split: if_splits)+
  moreover have c: "holds_ref pc' = holds_ref (Wake b at rel)" "destroying pc' \<le> destroying (Wake b at rel)" "producing pc' = 0" "no_value pc' = 0"
    using y by (cases at; auto simp: wake_access_def split: if_splits)+
  have "shared_ok ok v (holds_ref pc' + R) (destroying pc' + D) (producing pc' + P) (no_value pc' + N) h"
    using d(3) k(1) c unfolding shared_ok_def wake_ok_def by auto
  then have "shared_ok ok v (holds_ref pc' + R) (destroying pc' + D) (producing pc' + P) (no_value pc' + N) h'" using shared_ok_cong [OF eq] by simp
  moreover note c
  ultimately have "moves_ok ok v tok a W R D P N (Wake b at rel) h (pc', h')" using d(4,5) by (intro moves_okI) (auto simp: acts_ok_def)
  then show ?thesis using y by simp
qed

lemma release_moves:
  assumes "acts_ok ok v tok a W R D P N Release h" "P \<le> R"
  shows "\<exists>y. k_access spurious Release h = Some y \<and> moves_ok ok v tok a W R D P N Release h y"
proof -
  note d = acts_okD [OF assms(1)]
  let ?h = "h\<lparr>strong_refs := strong_refs h - 1\<rparr>" and ?pc = "if strong_refs h = 1 then DLoad else KDone"
  have "waiter_ok ok v tok (waking ?pc + W) a ?h" using d(2) by (cases a) (auto simp: wake_ok_def)
  moreover have "party_ok ok v tok ?pc ?h" using d(3) by (auto simp: shared_ok_def split: if_splits)
  moreover have "party_ok ok v tok q h \<Longrightarrow> party_ok ok v tok q ?h" for q by (cases q) (auto simp: wake_ok_def)
  moreover have "shared_ok ok v (holds_ref ?pc + R) (destroying ?pc + D) (producing ?pc + P) (no_value ?pc + N) ?h" using d(3) by (auto simp: shared_ok_def)
  ultimately have "moves_ok ok v tok a W R D P N Release h (?pc, ?h)" using d(4,5) by (intro moves_okI) (auto simp: acts_ok_def)
  then show ?thesis by (intro exI [of _ "(?pc, ?h)"]) auto
qed

lemma loop_moves:
  assumes "acts_ok ok v tok a W R D P N pc h" "P \<le> R" "pc = DLoad \<or> pc = DTry c"
  shows "\<exists>pc'. destroy_loop (kword h) = Some pc' \<and> moves_ok ok v tok a W R D P N pc h (pc', h)"
proof -
  note d = acts_okD [OF assms(1)]
  have nd: "kword h \<noteq> SDestroyed" using d(1) assms(3) by auto
  have sh: "R = 0" "D = 0" "P = 0" using d(3) assms(2,3) by (auto simp: shared_ok_def)
  have w: "ok \<Longrightarrow> kword h = SFinished" "\<not> ok \<Longrightarrow> kword h = SInitial \<or> kword h = SContinuation"
    using d(3) nd sh assms(3) by (auto simp: shared_ok_def) (metis k_word.exhaust)+
  let ?pc = "if ok then KDone else DTry (kword h)"
  have "destroy_loop (kword h) = Some ?pc" using w by (auto simp: destroy_loop_def)
  moreover have "acts_ok ok v tok a W R D P N ?pc h" using d w nd assms(3) by (auto simp: acts_ok_def shared_ok_def)
  moreover have "(?pc, h) = (pc, h) \<or> k_rank ?pc < k_rank pc" using d(1) w assms(3) by auto
  ultimately show ?thesis by (intro exI [of _ ?pc]) (auto simp: moves_ok_def)
qed

lemma try_moves:
  assumes "acts_ok ok v tok a W R D P N (DTry c) h" "P \<le> R"
  shows "\<exists>y. k_access spurious (DTry c) h = Some y \<and> moves_ok ok v tok a W R D P N (DTry c) h y"
proof (cases "kword h = c \<and> \<not> spurious")
  case True
  note d = acts_okD [OF assms(1)]
  let ?h = "h\<lparr>kword := SDestroyed\<rparr>" and ?pc = "if c = SContinuation then Wake False WCheck False else KDone"
  have n: "\<not> ok" "c = SInitial \<or> c = SContinuation" using d(1) by auto
  have sh: "R = 0" "D = 0" "N = 0" "kvalue (kcont h) = v" using d(3,4) by (auto simp: shared_ok_def)
  have "waiter_ok ok v tok (waking ?pc + W) a ?h" using d(2) n True by (cases a) (auto simp: wake_ok_def)
  moreover have "party_ok ok v tok ?pc ?h" using d(2) sh n True by (cases a) (auto simp: wake_ok_def)
  moreover have "party_ok ok v tok q ?h" if "party_ok ok v tok q h" "destroying q \<le> D" "waking q \<le> W" for q
    using that n(1) sh(2) True by (cases q) (auto simp: wake_ok_def split: if_splits)
  moreover have "shared_ok ok v (holds_ref ?pc + R) (destroying ?pc + D) (producing ?pc + P) (no_value ?pc + N) ?h" using d(3) sh n by (auto simp: shared_ok_def)
  ultimately have "moves_ok ok v tok a W R D P N (DTry c) h (?pc, ?h)" using d(4,5) by (intro moves_okI) (auto simp: acts_ok_def)
  then show ?thesis using True by (intro exI [of _ "(?pc, ?h)"]) auto
next
  case False
  then show ?thesis using loop_moves [OF assms, of c] by auto
qed

lemma thread_moves:
  assumes "acts_ok ok v tok a W R D P N pc h" "P \<le> R" "pc \<noteq> KDone"
  shows "\<exists>y. k_access spurious pc h = Some y \<and> moves_ok ok v tok a W R D P N pc h y"
proof (cases pc)
  case (SetValue x b)
  then show ?thesis using set_value_moves [of ok v tok a W R D P N x b h spurious] assms(1) by simp
next
  case DLoad
  then show ?thesis using loop_moves [OF assms(1,2)] by auto
qed (use assms acts_okD(1) [OF assms(1)] finish_moves wake_moves release_moves try_moves in auto)


text \<open>The accesses of the awaiter.\<close>

lemma awaiter_moves:
  assumes "waiter_ok ok v tok W pc h" "shared_ok ok v R D P N h" "pc \<noteq> KDone" "N \<le> R" "ok \<longrightarrow> N \<le> P"
  shows "\<exists>pc' h'. k_access spurious pc h = Some (pc', h') \<and> waiter_ok ok v tok W pc' h' \<and> shared_ok ok v R D P N h' \<and>
    (\<forall>q. party_ok ok v tok q h \<and> waking q \<le> W \<longrightarrow> party_ok ok v tok q h') \<and> k_rank pc' < k_rank pc"
proof -
  have fin: "kvalue (kcont h) = v" "ok = (kword h = SFinished)" if "kword h = SFinished \<or> kword h = SDestroyed"
    using that assms(2,4,5) by (auto simp: shared_ok_def split: if_splits)
  have keep: "party_ok ok v tok q h'" if "party_ok ok v tok q h" "waking q \<le> W" "W = 0" "kword h' = kword h \<or> kword h = SInitial \<and> kword h' = SContinuation" for q h'
    using that by (cases q) auto
  show ?thesis
  proof (cases pc)
    case (SetToken t)
    let ?h = "set_kcont (\<lambda>c. c\<lparr>ktoken := t\<rparr>) h"
    have "kword ?h = kword h" "shared_ok ok v R D P N ?h" using shared_ok_cong [of ?h h ok v R D P N] assms(2) by (simp_all add: set_kcont_def)
    then show ?thesis using SetToken assms(1) keep [of _ ?h] by (auto simp: set_kcont_def)
  next
    case CheckReady
    then show ?thesis using assms(1,2) fin by (auto simp: wake_ok_def)
  next
    case SetCont
    show ?thesis
    proof (cases "kword h = SInitial")
      case True
      let ?h = "h\<lparr>kword := SContinuation\<rparr>"
      have "shared_ok ok v R D P N ?h" using assms(2) True by (auto simp: shared_ok_def split: if_splits)
      then show ?thesis using SetCont True assms(1) keep [of _ ?h] by auto
    next
      case False
      then show ?thesis using SetCont assms(1,2) fin by (cases "kword h") (auto simp: wake_ok_def)
    qed
  next
    case (Wake b at rel)
    then have k: "wake_ok ok v tok b at h" "W = 0" "\<not> rel" using assms(1) by simp_all
    obtain pc' h' where y: "wake_access b at rel h = Some (pc', h')" using k(1) by (cases at) (simp_all add: wake_access_def wake_ok_def)
    have eq: "strong_refs h' = strong_refs h" "kword h' = kword h" "kvalue (kcont h') = kvalue (kcont h)"
      using y by (cases at; auto simp: wake_access_def set_kcont_def split: if_splits)+
    have "shared_ok ok v R D P N h'" using assms(2) shared_ok_cong [OF eq] by simp
    moreover have "waiter_ok ok v tok W pc' h'" "k_rank pc' < k_rank pc"
      using y k Wake by (cases at; auto simp: wake_access_def set_kcont_def wake_ok_def split: if_splits)+
    ultimately show ?thesis using Wake y keep [of _ h'] k(2) eq by auto
  qed (use assms in auto)
qed

section \<open>Preservation, progress and races\<close>

lemma tally_split [simp]: "tally f (us @ pc # vs) = f pc + tally f (us @ vs)"
  by (simp add: tally_def)

lemma tally_member: "q \<in> set ts \<Longrightarrow> f q \<le> tally f ts"
  using split_list [of q ts] by (auto simp: tally_def)

lemma tally_mono: "(\<And>q. q \<in> set ts \<Longrightarrow> f q \<le> g q) \<Longrightarrow> tally f ts \<le> tally g ts"
  unfolding tally_def by (rule sum_list_mono)

lemma tally_bounds:
  assumes "list_all (\<lambda>pc. party_ok ok v tok pc h) ts"
  shows "tally no_value ts \<le> tally holds_ref ts" "tally producing ts \<le> tally holds_ref ts" "ok \<longrightarrow> tally no_value ts \<le> tally producing ts"
proof -
  have "no_value q \<le> holds_ref q \<and> producing q \<le> holds_ref q" for q by (cases q) auto
  then show "tally no_value ts \<le> tally holds_ref ts" "tally producing ts \<le> tally holds_ref ts" by (auto intro: tally_mono)
  have "no_value q \<le> producing q" if "q \<in> set ts" ok for q using assms that by (cases q) (auto simp: list_all_iff)
  then show "ok \<longrightarrow> tally no_value ts \<le> tally producing ts" by (auto intro: tally_mono)
qed

lemma k_inv_acts:
  assumes "kthreads s = us @ pc # vs"
  shows "k_inv ok v tok s \<longleftrightarrow> \<not> kfailed s \<and> list_all (\<lambda>q. party_ok ok v tok q (kshared s)) (us @ vs) \<and>
    acts_ok ok v tok (kawaits s) (tally waking (us @ vs)) (tally holds_ref (us @ vs)) (tally destroying (us @ vs)) (tally producing (us @ vs))
      (tally no_value (us @ vs)) pc (kshared s)"
proof -
  have b: "list_all (\<lambda>q. party_ok ok v tok q (kshared s)) (us @ vs) \<Longrightarrow>
      tally no_value (us @ vs) \<le> tally holds_ref (us @ vs) \<and> (ok \<longrightarrow> tally no_value (us @ vs) \<le> tally producing (us @ vs))"
    using tally_bounds by blast
  show ?thesis unfolding k_inv_def acts_ok_def Let_def assms tally_split list_all_append list.pred_inject
    using b unfolding list_all_append by blast
qed

lemma k_thread_inv:
  assumes "k_inv ok v tok s" "kthreads s = us @ pc # vs" "pc \<noteq> KDone"
  shows "\<exists>pc' h. k_access spurious pc (kshared s) = Some (pc', h) \<and> k_inv ok v tok (s\<lparr>kshared := h, kthreads := us @ pc' # vs\<rparr>) \<and>
    ((pc', h) = (pc, kshared s) \<or> k_rank pc' < k_rank pc)"
proof -
  let ?r = "us @ vs"
  have i: "\<not> kfailed s" "list_all (\<lambda>q. party_ok ok v tok q (kshared s)) ?r"
    "acts_ok ok v tok (kawaits s) (tally waking ?r) (tally holds_ref ?r) (tally destroying ?r) (tally producing ?r) (tally no_value ?r) pc (kshared s)"
    using k_inv_acts [OF assms(2), of ok v tok] assms(1) by blast+
  obtain pc' h where y: "k_access spurious pc (kshared s) = Some (pc', h)"
    "moves_ok ok v tok (kawaits s) (tally waking ?r) (tally holds_ref ?r) (tally destroying ?r) (tally producing ?r) (tally no_value ?r) pc (kshared s) (pc', h)"
    using thread_moves [OF i(3) tally_bounds(2) [OF i(2)] assms(3), of spurious] by auto
  have "list_all (\<lambda>q. party_ok ok v tok q h) ?r"
    using y(2) i(2) tally_member [of _ ?r destroying] tally_member [of _ ?r waking] by (simp add: moves_ok_def list_all_iff)
  then show ?thesis using y i(1) k_inv_acts [of "s\<lparr>kshared := h, kthreads := us @ pc' # vs\<rparr>" us pc' vs ok v tok]
    by (auto simp: moves_ok_def)
qed

lemma k_awaiter_inv:
  assumes "k_inv ok v tok s" "kawaits s \<noteq> KDone"
  shows "\<exists>pc h. k_access spurious (kawaits s) (kshared s) = Some (pc, h) \<and> k_inv ok v tok (s\<lparr>kshared := h, kawaits := pc\<rparr>) \<and> k_rank pc < k_rank (kawaits s)"
proof -
  let ?t = "kthreads s"
  have i: "\<not> kfailed s" "list_all (\<lambda>q. party_ok ok v tok q (kshared s)) ?t" "waiter_ok ok v tok (tally waking ?t) (kawaits s) (kshared s)"
    "shared_ok ok v (tally holds_ref ?t) (tally destroying ?t) (tally producing ?t) (tally no_value ?t) (kshared s)"
    using assms(1) by (simp_all add: k_inv_def Let_def)
  from awaiter_moves [OF i(3,4) assms(2) tally_bounds(1,3) [OF i(2)], of spurious] obtain pc h where
    y: "k_access spurious (kawaits s) (kshared s) = Some (pc, h)" "waiter_ok ok v tok (tally waking ?t) pc h"
      "shared_ok ok v (tally holds_ref ?t) (tally destroying ?t) (tally producing ?t) (tally no_value ?t) h"
      "\<forall>q. party_ok ok v tok q (kshared s) \<and> waking q \<le> tally waking ?t \<longrightarrow> party_ok ok v tok q h" "k_rank pc < k_rank (kawaits s)" by blast
  have "list_all (\<lambda>q. party_ok ok v tok q h) ?t" using y(4) i(2) tally_member [of _ ?t waking] by (simp add: list_all_iff)
  then show ?thesis using y i(1) by (auto simp: k_inv_def Let_def)
qed

lemma k_step_inv:
  assumes "k_inv ok v tok s" "k_step s t"
  shows "k_inv ok v tok t \<and> (t = s \<or> k_measure t < k_measure s)"
  using assms(2)
proof cases
  case (k_awaiter spurious pc h)
  then show ?thesis using k_awaiter_inv [OF assms(1), of spurious] by (auto simp: k_measure_def)
next
  case (k_awaiter_fails spurious)
  then show ?thesis using k_awaiter_inv [OF assms(1), of spurious] by auto
next
  case (k_thread us pc vs spurious pc' h)
  then show ?thesis using k_thread_inv [OF assms(1) k_thread(2,3), of spurious] by (auto simp: k_measure_def)
next
  case (k_thread_fails us pc vs spurious)
  then show ?thesis using k_thread_inv [OF assms(1) k_thread_fails(2,3), of spurious] by auto
qed


lemma k_inv_init: "k_inv ok v tok (k_init ok v tok k)"
  by (simp add: k_inv_def k_init_def shared_ok_def tally_def sum_list_replicate list_all_iff)

interpretation k_check: inv_system "\<lambda>s. s = k_init ok v tok k" k_step "k_inv ok v tok"
  by unfold_locales (auto simp: k_inv_init dest: k_step_inv)

lemma k_access_moves:
  assumes "k_access False pc h = Some (pc', h')" "pc \<noteq> KDone"
  shows "pc' \<noteq> pc"
proof (cases pc)
  case (Wake b at rel)
  then show ?thesis using assms by (cases at) (auto simp: wake_access_def split: if_splits)
qed (use assms in \<open>auto simp: destroy_loop_def split: if_splits k_word.splits\<close>)

lemma k_progress:
  assumes "k_inv ok v tok s" "\<not> k_finished s"
  shows "\<exists>t. k_step s t \<and> k_measure t < k_measure s"
proof (cases "kawaits s = KDone")
  case True
  then obtain pc where pc: "pc \<in> set (kthreads s)" "pc \<noteq> KDone" using assms(2) by (auto simp: k_finished_def list_all_iff)
  obtain us vs where u: "kthreads s = us @ pc # vs" using split_list [OF pc(1)] by blast
  obtain pc' h where a: "k_access False pc (kshared s) = Some (pc', h)" "(pc', h) = (pc, kshared s) \<or> k_rank pc' < k_rank pc"
    using k_thread_inv [OF assms(1) u pc(2), of False] by blast
  then have "k_rank pc' < k_rank pc" using k_access_moves [OF a(1) pc(2)] by simp
  then have "k_measure (s\<lparr>kshared := h, kthreads := us @ pc' # vs\<rparr>) < k_measure s" using u by (simp add: k_measure_def)
  then show ?thesis using k_step.k_thread [OF u pc(2) a(1)] by blast
next
  case False
  obtain pc h where a: "k_access False (kawaits s) (kshared s) = Some (pc, h)" "k_rank pc < k_rank (kawaits s)"
    using k_awaiter_inv [OF assms(1) False, of False] by blast
  then have "k_measure (s\<lparr>kshared := h, kawaits := pc\<rparr>) < k_measure s" by (simp add: k_measure_def)
  then show ?thesis using k_step.k_awaiter [OF False a(1)] by blast
qed

text \<open>Once all threads are done, \<open>after\<close> succeeds.\<close>

lemma k_finished_after:
  assumes "k_inv ok v tok s" "k_finished s"
  shows "k_after ok v tok s"
proof -
  let ?t = "kthreads s"
  have d: "kawaits s = KDone" "\<And>q. q \<in> set ?t \<Longrightarrow> q = KDone" using assms(2) by (auto simp: k_finished_def list_all_iff)
  have z: "tally f ?t = 0" if "f KDone = 0" for f using d(2) that by (auto simp: tally_def sum_list_eq_0_iff)
  have "waiter_ok ok v tok 0 KDone (kshared s)" "shared_ok ok v 0 0 0 0 (kshared s)"
    using assms(1) d(1) by (simp_all add: k_inv_def Let_def z)
  then show ?thesis by (auto simp: shared_ok_def k_after_def split: if_splits)
qed

text \<open>Conflicting accesses need a wake-up and another access to the same variable.\<close>

lemma conflict_cases:
  assumes "conflict p q"
  shows "waking p + waking q = 2 \<or> waking p + waking q = 1 \<and> (\<exists>t. SetToken t \<in> {p, q}) \<or>
    waking p + waking q = 1 \<and> no_value p + no_value q = 1 \<or> no_value p + no_value q = 2 \<or> (\<exists>t u. p = SetToken t \<and> q = SetToken u)"
  using assms by (cases p rule: plain_accesses.cases; cases q rule: plain_accesses.cases) (simp_all add: conflict_def)

lemma no_conflict:
  assumes "waking p + waking q \<le> 1" "no_value p + no_value q \<le> 1" "waking p + waking q = 1 \<Longrightarrow> no_value p + no_value q = 0"
    "\<And>y. waking p + waking q = 1 \<Longrightarrow> p \<noteq> SetToken y" "\<And>y. q \<noteq> SetToken y"
  shows "\<not> conflict p q"
proof
  assume "conflict p q"
  from conflict_cases [OF this] show False using assms by force
qed

lemma conflict_free_split: "(\<And>us p vs q ws. ps = us @ p # vs @ q # ws \<Longrightarrow> \<not> conflict p q) \<Longrightarrow> conflict_free ps"
proof (induction ps)
  case (Cons p ps)
  have "conflict_free ps" by (rule Cons.IH) (metis Cons.prems append_Cons)
  moreover have "\<not> conflict p q" if q: "q \<in> set ps" for q
  proof -
    obtain vs ws where "ps = vs @ q # ws" using split_list [OF q] by blast
    then show ?thesis using Cons.prems [of "[]" p vs q ws] by simp
  qed
  ultimately show ?case by (simp add: list_all_iff)
qed simp

lemma k_inv_conflict_free:
  assumes "k_inv ok v tok s"
  shows "conflict_free (kawaits s # kthreads s)"
proof -
  let ?t = "kthreads s" and ?h = "kshared s"
  have i: "list_all (\<lambda>q. party_ok ok v tok q ?h) ?t" "waiter_ok ok v tok (tally waking ?t) (kawaits s) ?h"
    "shared_ok ok v (tally holds_ref ?t) (tally destroying ?t) (tally producing ?t) (tally no_value ?t) ?h"
    using assms by (simp_all add: k_inv_def Let_def)
  note b = tally_bounds [OF i(1)]
  have "waking (kawaits s) + tally waking ?t \<le> 1 \<and> (tally waking ?t = 1 \<longrightarrow> kawaits s = KDone) \<and> no_value (kawaits s) = 0"
    using i(2) by (cases "kawaits s"; cases "kword ?h") (auto simp: wake_ok_def)
  then have a: "waking (kawaits s) + tally waking ?t \<le> 1" "tally waking ?t = 1 \<Longrightarrow> kawaits s = KDone" "no_value (kawaits s) = 0" by simp_all
  have n: "tally no_value ?t = 0" if w: "q \<in> set (kawaits s # ?t)" "waking q = 1" for q
  proof -
    obtain b at rel where "q = Wake b at rel" using w(2) by (cases q) simp_all
    then have "wake_ok ok v tok b at ?h" using w(1) i(1,2) by (auto simp: list_all_iff) (metis waiter_ok.simps(4))
    then have "kword ?h = SFinished \<or> kword ?h = SDestroyed" by (simp add: wake_ok_def split: if_splits)
    then show ?thesis using i(3) b by (auto simp: shared_ok_def split: if_splits)
  qed
  have n1: "tally no_value ?t \<le> 1" using i(3) by (simp add: shared_ok_def)
  have t: "SetToken x \<notin> set ?t" for x using i(1) by (auto simp: list_all_iff)
  show ?thesis
  proof (rule conflict_free_split)
    fix us p vs q ws
    assume e: "kawaits s # ?t = us @ p # vs @ q # ws"
    show "\<not> conflict p q"
    proof (cases us)
      case Nil
      then have p: "p = kawaits s" "?t = vs @ q # ws" using e by simp_all
      have q: "waking q \<le> tally waking ?t" "no_value q \<le> tally no_value ?t" using p(2) by simp_all
      have z: "no_value p + no_value q = 0" if w: "waking p + waking q = 1"
      proof -
        have "waking p = 1 \<or> waking q = 1" using w by arith
        then have "tally no_value ?t = 0" using n [of p] n [of q] p by auto
        then show ?thesis using q(2) a(3) p(1) by simp
      qed
      have "p \<noteq> SetToken y" if "waking p + waking q = 1" for y using that a(1,2) p(1) q(1) by (cases "waking q = 1") auto
      moreover have "waking p + waking q \<le> 1" using a(1) q(1) unfolding p(1) by linarith
      moreover have "no_value p + no_value q \<le> 1" using a(3) q(2) n1 unfolding p(1) by linarith
      ultimately show ?thesis using z t p(2) by (intro no_conflict) auto
    next
      case (Cons x xs)
      then have p: "?t = xs @ p # vs @ q # ws" using e by simp
      have q: "waking p + waking q \<le> tally waking ?t" "no_value p + no_value q \<le> tally no_value ?t" "p \<in> set ?t" "q \<in> set ?t" unfolding p by (simp_all add: tally_def)
      have z: "no_value p + no_value q = 0" if w: "waking p + waking q = 1"
      proof -
        have "waking p = 1 \<or> waking q = 1" using w by arith
        then have "tally no_value ?t = 0" using n [of p] n [of q] q(3,4) by auto
        then show ?thesis using q(2) by simp
      qed
      have "waking p + waking q \<le> 1" "no_value p + no_value q \<le> 1" using a(1) q(1,2) n1 by linarith+
      then show ?thesis using z t q(3,4) by (intro no_conflict) auto
    qed
  qed
qed

section \<open>Properties\<close>

text \<open>
  C26. However the accesses of the threads of \<open>check_with_continuation\<close> interleave, with or without a
  value and for any number of further references, no \<open>RL_ASSERT\<close> fails and no two threads are about
  to access the same plain variable with one of them writing; unless all are done, some access
  brings the program closer to its end, and none leads away from it; and at the end the coroutine
  was resumed or destroyed with the value and the token, and \<open>after\<close> succeeds.
\<close>

theorem check_continuation_passes:
  assumes "reach (\<lambda>s. s = k_init ok v tok k) k_step s"
  shows "\<not> kfailed s \<and> conflict_free (kawaits s # kthreads s) \<and>
    (\<forall>t. k_step s t \<longrightarrow> t = s \<or> k_measure t < k_measure s) \<and>
    (if k_finished s then k_after ok v tok s else \<exists>t. k_step s t \<and> k_measure t < k_measure s)"
proof -
  have i: "k_inv ok v tok s" using k_check.reach_inv [of ok v tok k s] assms by simp
  then have "\<not> kfailed s" by (simp add: k_inv_def Let_def)
  then show ?thesis using k_inv_conflict_free [OF i] k_step_inv [OF i] k_finished_after [OF i] k_progress [OF i] by auto
qed

text \<open>One producer and one further reference, before the first access.\<close>

theorem check_continuation_passes_witness:
  "conflict_free (kthreads (k_init True 42 51 1)) \<and> \<not> kfailed (k_init True 42 51 1) \<and> (\<exists>t. k_step (k_init True 42 51 1) t \<and> k_measure t < 29)"
proof -
  have "reach (\<lambda>s. s = k_init True 42 51 1) k_step (k_init True 42 51 1)" by (rule reach_init) simp
  note p = check_continuation_passes [OF this]
  have "\<not> k_finished (k_init True 42 51 1)" "k_measure (k_init True 42 51 1) = 29" by (simp_all add: k_finished_def k_init_def k_measure_def tally_def)
  then show ?thesis using p by auto
qed

end
