(* ===== verification/Task_Group.thy ===== *)
theory Task_Group
  imports Result "HOL-Library.Word"
begin

text \<open>
  Task groups: \<open>task_group_sink\<close> and the awaiters of \<open>coroactors/detail/task_group.h\<close> and
  \<open>coroactors/task_group.h\<close>.

  Tasks push result nodes onto the lock-free stack \<open>last_ready\<close>; the one awaiting coroutine
  inverts the stack into the private list \<open>ready_queue\<close> and takes results from there.  The
  \<open>next\<close> pointers of the nodes are kept as a heap.  A loop around a compare-exchange is given
  by its turn (\<open>push_try\<close>, \<open>suspend_try\<close>, \<open>cancel_try\<close>), which takes the expected word
  and whether the weak exchange fails spuriously.  \<open>None\<close> is a failed assertion.
\<close>

section \<open>The sink\<close>

type_synonym size_t = "64 word"

datatype thead = HNull | HAwaiting | HDetached | HCancelled | HNode addr

record 'a sink =
  last_ready :: thead
  ready_queue :: "addr option"
  tcont :: "handle option"
  tcount :: size_t
  tnext_index :: size_t
  tnext :: "addr \<Rightarrow> addr option"
  tindex :: "addr \<Rightarrow> size_t"
  tresult :: "addr \<Rightarrow> 'a result"

definition task_group_sink :: "'a sink" where
  "task_group_sink = \<lparr>last_ready = HNull, ready_queue = None, tcont = None, tcount = 0, tnext_index = 0,
     tnext = (\<lambda>_. None), tindex = (\<lambda>_. - 1), tresult = (\<lambda>_. Empty)\<rparr>"

definition detach :: "'a sink \<Rightarrow> 'a sink" where
  "detach s = s\<lparr>last_ready := HDetached, tcont := (if last_ready s = HAwaiting then None else tcont s),
                ready_queue := None\<rparr>"

datatype push_out = PRetry thead | PLock | PDone

definition head_node :: "thead \<Rightarrow> addr option" where
  "head_node v = (case v of HNode a \<Rightarrow> Some a | _ \<Rightarrow> None)"

fun push_try :: "thead \<Rightarrow> bool \<Rightarrow> addr \<Rightarrow> 'a sink \<Rightarrow> push_out \<times> 'a sink" where
  "push_try HAwaiting spurious r s =
     (if last_ready s = HAwaiting \<and> \<not> spurious then (PLock, s\<lparr>last_ready := HNull\<rparr>)
      else (PRetry (last_ready s), s))"
| "push_try HDetached spurious r s = (PDone, s)"
| "push_try v spurious r s =
     (let s' = s\<lparr>tnext := (tnext s)(r := head_node v)\<rparr>
      in if last_ready s = v then (PDone, s'\<lparr>last_ready := HNode r\<rparr>)
         else (PRetry (last_ready s), s'\<lparr>tnext := (tnext s')(r := None)\<rparr>))"

text \<open>The rest of \<open>push\<close> when it took the awaiting marker: the awaiter to resume.\<close>

definition push_locked :: "addr \<Rightarrow> 'a sink \<Rightarrow> (handle option \<times> 'a sink) option" where
  "push_locked r s =
     (if ready_queue s \<noteq> None then None
      else Some (tcont s, s\<lparr>tnext := (tnext s)(r := ready_queue s), ready_queue := Some r, tcont := None\<rparr>))"

definition sink_ready :: "'a sink \<Rightarrow> bool option" where
  "sink_ready s =
     (if ready_queue s \<noteq> None then Some True
      else (case last_ready s of
          HNull \<Rightarrow> Some False
        | HAwaiting \<Rightarrow> Some False
        | HNode _ \<Rightarrow> Some True
        | _ \<Rightarrow> None))"

definition multiple_error :: exn where
  "multiple_error = Task_group_error ''task group cannot be awaited by multiple coroutines''"

definition sink_await_ready :: "'a sink \<Rightarrow> bool outcome" where
  "sink_await_ready s =
     (if tcont s \<noteq> None then Throw multiple_error
      else if ready_queue s \<noteq> None then Ret True
      else (case last_ready s of
          HNull \<Rightarrow> Ret False
        | HNode _ \<Rightarrow> Ret True
        | _ \<Rightarrow> Abort))"

definition suspend_begin :: "handle \<Rightarrow> 'a sink \<Rightarrow> 'a sink option" where
  "suspend_begin h s = (if ready_queue s = None \<and> tcont s = None then Some (s\<lparr>tcont := Some h\<rparr>) else None)"

datatype suspend_out = SRetry thead | SReturn bool | SFail

fun suspend_try :: "thead \<Rightarrow> bool \<Rightarrow> 'a sink \<Rightarrow> suspend_out \<times> 'a sink" where
  "suspend_try HNull spurious s =
     (if last_ready s = HNull \<and> \<not> spurious then (SReturn True, s\<lparr>last_ready := HAwaiting\<rparr>)
      else (SRetry (last_ready s), s))"
| "suspend_try HCancelled spurious s =
     (if last_ready s = HCancelled \<and> \<not> spurious then (SReturn False, s\<lparr>last_ready := HNull, tcont := None\<rparr>)
      else (SRetry (last_ready s), s))"
| "suspend_try (HNode a) spurious s = (SReturn False, s\<lparr>tcont := None\<rparr>)"
| "suspend_try HAwaiting spurious s = (SFail, s)"
| "suspend_try HDetached spurious s = (SFail, s)"

datatype cancel_out = XRetry thead | XLock | XDone | XFail

fun cancel_try :: "thead \<Rightarrow> bool \<Rightarrow> bool \<Rightarrow> 'a sink \<Rightarrow> cancel_out \<times> 'a sink" where
  "cancel_try HAwaiting concurrent spurious s =
     (if last_ready s = HAwaiting \<and> \<not> spurious then (XLock, s\<lparr>last_ready := HNull\<rparr>)
      else (XRetry (last_ready s), s))"
| "cancel_try HCancelled concurrent spurious s =
     (if concurrent then (XDone, s)
      else if last_ready s = HCancelled \<and> \<not> spurious then (XDone, s\<lparr>last_ready := HNull\<rparr>)
      else (XRetry (last_ready s), s))"
| "cancel_try HNull concurrent spurious s =
     (if \<not> concurrent then (XDone, s)
      else if last_ready s = HNull \<and> \<not> spurious then (XDone, s\<lparr>last_ready := HCancelled\<rparr>)
      else (XRetry (last_ready s), s))"
| "cancel_try HDetached concurrent spurious s = (XFail, s)"
| "cancel_try (HNode a) concurrent spurious s = (XDone, s)"

definition cancel_locked :: "'a sink \<Rightarrow> handle option \<times> 'a sink" where
  "cancel_locked s = (tcont s, s\<lparr>tcont := None\<rparr>)"

text \<open>The loop of \<open>await_resume\<close> that inverts the linked list.\<close>

partial_function (option) invert ::
  "(addr \<Rightarrow> addr option) \<Rightarrow> addr option \<Rightarrow> addr option \<Rightarrow> ((addr \<Rightarrow> addr option) \<times> addr option) option" where
  "invert nx head q = (case head of
       None \<Rightarrow> Some (nx, q)
     | Some a \<Rightarrow> invert (nx(a := q)) (nx a) (Some a))"

definition take_ready :: "'a sink \<Rightarrow> (addr \<times> 'a sink) option" where
  "take_ready s = (case ready_queue s of
       None \<Rightarrow> None
     | Some a \<Rightarrow> Some (a, s\<lparr>tnext := (tnext s)(a := None), ready_queue := tnext s a, tcount := tcount s - 1\<rparr>))"

definition sink_await_resume :: "'a sink \<Rightarrow> (addr \<times> 'a sink) option" where
  "sink_await_resume s =
     (if ready_queue s \<noteq> None then take_ready s
      else (case last_ready s of
          HNode a \<Rightarrow> (case invert (tnext s) (Some a) None of
              None \<Rightarrow> None
            | Some (nx, q) \<Rightarrow> take_ready (s\<lparr>last_ready := HNull, tnext := nx, ready_queue := q\<rparr>))
        | _ \<Rightarrow> None))"

definition next_index :: "'a sink \<Rightarrow> size_t \<times> 'a sink" where
  "next_index s = (tnext_index s, s\<lparr>tcount := tcount s + 1, tnext_index := tnext_index s + 1\<rparr>)"

section \<open>Awaiters\<close>

definition no_tasks_error :: exn where
  "no_tasks_error = Task_group_error ''task group has no tasks to await''"

text \<open>\<open>next()\<close> and \<open>next_result()\<close>.\<close>

definition next_await_ready :: "'a sink \<Rightarrow> bool outcome" where
  "next_await_ready s = (if tcount s = 0 then Throw no_tasks_error else sink_await_ready s)"

definition next_result_await_resume :: "'a sink \<Rightarrow> ((size_t \<times> 'a result) \<times> 'a sink) option" where
  "next_result_await_resume s = (case sink_await_resume s of
       None \<Rightarrow> None
     | Some (r, s') \<Rightarrow> Some ((tindex s' r, tresult s' r), s'))"

definition next_await_resume :: "'a sink \<Rightarrow> ('a option outcome \<times> 'a sink) option" where
  "next_await_resume s = (case sink_await_resume s of
       None \<Rightarrow> None
     | Some (r, s') \<Rightarrow> Some (fst (take_value (tresult s' r)), s'))"

text \<open>
  \<open>when_ready()\<close>: what \<open>await_ready\<close> does with the current stop token.  \<open>Ret (b, c)\<close>:
  it returns \<open>b\<close> and \<open>c\<close> tells whether it registered the stop callback.
\<close>

definition when_await_ready :: "bool \<Rightarrow> bool \<Rightarrow> 'a sink \<Rightarrow> (bool \<times> bool) outcome" where
  "when_await_ready stop_possible stop_requested s =
     (if tcount s = 0 then Throw no_tasks_error
      else (case sink_await_ready s of
          Ret True \<Rightarrow> Ret (True, False)
        | Ret False \<Rightarrow>
            (if stop_possible then (if stop_requested then Ret (True, False) else Ret (False, True))
             else Ret (False, False))
        | Throw e \<Rightarrow> Throw e | Abort \<Rightarrow> Abort | Undefined \<Rightarrow> Undefined))"

text \<open>\<open>await_cancel\<close> run alone: the coroutine it removed.\<close>

definition await_cancel :: "bool \<Rightarrow> 'a sink \<Rightarrow> (handle option \<times> 'a sink) option" where
  "await_cancel concurrent s = (case cancel_try (last_ready s) concurrent False s of
       (XLock, s') \<Rightarrow> Some (cancel_locked s')
     | (XDone, s') \<Rightarrow> Some (None, s')
     | _ \<Rightarrow> None)"

text \<open>\<open>push\<close> and \<open>await_suspend\<close> run alone.\<close>

definition sink_push :: "addr \<Rightarrow> 'a sink \<Rightarrow> (handle option \<times> 'a sink) option" where
  "sink_push r s = (case push_try (last_ready s) False r s of
       (PLock, s') \<Rightarrow> push_locked r s'
     | (PDone, s') \<Rightarrow> Some (None, s')
     | (PRetry _, s') \<Rightarrow> None)"

definition sink_await_suspend :: "handle \<Rightarrow> 'a sink \<Rightarrow> (bool \<times> 'a sink) option" where
  "sink_await_suspend h s = (case suspend_begin h s of
       None \<Rightarrow> None
     | Some s' \<Rightarrow> (case suspend_try (last_ready s') False s' of
           (SReturn b, s'') \<Rightarrow> Some (b, s'')
         | _ \<Rightarrow> None))"

text \<open>
  The rest of \<open>task_group_when_ready_awaiter\<close>: whether it holds a stop callback and whether it is
  suspended.  \<open>await_resume\<close> is \<open>noexcept\<close>.
\<close>

record when_awaiter =
  when_cancel :: bool
  when_suspended :: bool

definition when_await_suspend :: "handle \<Rightarrow> when_awaiter \<times> 'a sink \<Rightarrow> (bool \<times> when_awaiter \<times> 'a sink) option" where
  "when_await_suspend h x = (let (a, s) = x; a = a\<lparr>when_suspended := True\<rparr>
     in map_option (\<lambda>(b, s). (b, a, s)) (sink_await_suspend h s))"

definition when_await_resume :: "when_awaiter \<times> 'a sink \<Rightarrow> bool outcome \<times> when_awaiter \<times> 'a sink" where
  "when_await_resume x = (let (a, s) = x; a = a\<lparr>when_suspended := False\<rparr>; a = a\<lparr>when_cancel := False\<rparr>
     in (case sink_await_ready s of Throw _ \<Rightarrow> Abort | out \<Rightarrow> out, a, s))"

definition when_destroy :: "when_awaiter \<times> 'a sink \<Rightarrow> 'a sink option" where
  "when_destroy x = (let (a, s) = x in if when_suspended a then map_option snd (await_cancel False s) else Some s)"

text \<open>\<open>cancel_t::operator()\<close>, the stop callback: the coroutine it resumes.\<close>

definition when_stop :: "'a sink \<Rightarrow> (handle option \<times> 'a sink) option" where
  "when_stop s = await_cancel True s"

section \<open>Interleaved executions\<close>

text \<open>
  Any number of tasks push their nodes while one coroutine adds tasks, awaits results with
  \<open>next()\<close>, \<open>next_result()\<close> or \<open>when_ready()\<close> and finally destroys the group.  While \<open>when_ready()\<close>
  is awaited (\<open>whenm\<close>), its stop callback may run in another thread (\<open>canceller\<close>); resetting the
  callback waits for a callback that runs.  A new node is any node that is
  not in use: addresses may be reused.  \<open>tasks\<close> counts the tasks that have not finished;
  \<open>tpushed\<close> and \<open>tpopped\<close> record the order of the successful exchanges and of the results.

  \<open>tstale\<close> records that the callback set the cancellation flag although the coroutine was not on
  its way into \<open>await_suspend\<close>, so that the flag is left behind.  \<open>tflagged\<close> records that \<open>await_ready\<close>
  failed its assertion because of the flag, and \<open>tfailed\<close> that any other assertion failed.
\<close>

datatype push_pc = PTurn thead | PLocked | PResume handle

datatype consumer_pc = TIdle | TSuspend | TTurn thead | TSuspended | TResume | TCheck | TGone

datatype when_pc = XcNone | XcArmed | XcTurn thead | XcLocked | XcResume handle

record 'a tg_sys =
  sk :: "'a sink"
  tco :: handle
  consumer :: consumer_pc
  whenm :: bool
  canceller :: when_pc
  pushers :: "(addr \<times> push_pc) list"
  tasks :: nat
  tpushed :: "addr list"
  tpopped :: "addr list"
  tstale :: bool
  tflagged :: bool
  tfailed :: bool

definition tg_init :: "'a tg_sys \<Rightarrow> bool" where
  "tg_init s \<longleftrightarrow> sk s = task_group_sink \<and> consumer s = TIdle \<and> \<not> whenm s \<and> canceller s = XcNone \<and> pushers s = [] \<and> tasks s = 0 \<and>
     tpushed s = [] \<and> tpopped s = [] \<and> \<not> tstale s \<and> \<not> tflagged s \<and> \<not> tfailed s"

definition stack :: "'a sink \<Rightarrow> addr list \<Rightarrow> bool" where
  "stack s xs \<longleftrightarrow> path (tnext s) (head_node (last_ready s)) xs"

definition queue :: "'a sink \<Rightarrow> addr list \<Rightarrow> bool" where
  "queue s ys \<longleftrightarrow> path (tnext s) (ready_queue s) ys"

definition unused :: "'a tg_sys \<Rightarrow> addr \<Rightarrow> bool" where
  "unused s r \<longleftrightarrow> (\<forall>xs ys. stack (sk s) xs \<longrightarrow> queue (sk s) ys \<longrightarrow> r \<notin> set xs \<union> set ys) \<and> r \<notin> fst ` set (pushers s)"

definition push_next :: "push_out \<Rightarrow> addr \<Rightarrow> (addr \<times> push_pc) list" where
  "push_next p r = (case p of PRetry v \<Rightarrow> [(r, PTurn v)] | PLock \<Rightarrow> [(r, PLocked)] | PDone \<Rightarrow> [])"

definition await_fails :: "'a tg_sys \<Rightarrow> 'a tg_sys" where
  "await_fails s = (if tcont (sk s) = None \<and> last_ready (sk s) = HCancelled then s\<lparr>tflagged := True\<rparr> else s\<lparr>tfailed := True\<rparr>)"

definition suspending :: "consumer_pc \<Rightarrow> bool" where
  "suspending pc \<longleftrightarrow> pc = TSuspend \<or> (\<exists>v. pc = TTurn v)"

definition cancel_next :: "cancel_out \<Rightarrow> when_pc" where
  "cancel_next out = (case out of XRetry v \<Rightarrow> XcTurn v | XLock \<Rightarrow> XcLocked | _ \<Rightarrow> XcNone)"

inductive tg_step :: "'a tg_sys \<Rightarrow> 'a tg_sys \<Rightarrow> bool" where
  t_add: "consumer s = TIdle \<Longrightarrow> next_index (sk s) = (i, k) \<Longrightarrow>
     tg_step s (s\<lparr>sk := k, tasks := tasks s + 1\<rparr>)"
| t_start: "tasks s > 0 \<Longrightarrow> unused s r \<Longrightarrow>
     tg_step s (s\<lparr>tasks := tasks s - 1, pushers := (r, PTurn (last_ready (sk s))) # pushers s\<rparr>)"
| t_turn: "pushers s = us @ (r, PTurn v) # vs \<Longrightarrow> push_try v spurious r (sk s) = (out, k) \<Longrightarrow>
     tg_step s (s\<lparr>sk := k, pushers := us @ push_next out r @ vs,
       tpushed := (case out of PRetry _ \<Rightarrow> tpushed s | _ \<Rightarrow> tpushed s @ [r])\<rparr>)"
| t_locked: "pushers s = us @ (r, PLocked) # vs \<Longrightarrow> push_locked r (sk s) = Some (Some h, k) \<Longrightarrow>
     tg_step s (s\<lparr>sk := k, pushers := us @ (r, PResume h) # vs\<rparr>)"
| t_locked_fails: "pushers s = us @ (r, PLocked) # vs \<Longrightarrow>
     (push_locked r (sk s) = None \<or> push_locked r (sk s) = Some (None, k)) \<Longrightarrow>
     tg_step s (s\<lparr>tfailed := True\<rparr>)"
| t_resume: "pushers s = us @ (r, PResume h) # vs \<Longrightarrow>
     tg_step s (s\<lparr>pushers := us @ vs, consumer := TResume,
       tfailed := (tfailed s \<or> consumer s \<noteq> TSuspended \<or> h \<noteq> tco s)\<rparr>)"
| c_ready: "consumer s = TIdle \<Longrightarrow> next_await_ready (sk s) = Ret b \<Longrightarrow>
     tg_step s (s\<lparr>consumer := (if b then TResume else TSuspend)\<rparr>)"
| c_ready_fails: "consumer s = TIdle \<Longrightarrow> next_await_ready (sk s) \<in> {Abort, Throw multiple_error} \<Longrightarrow>
     tg_step s (await_fails s)"
| w_ready: "consumer s = TIdle \<Longrightarrow> when_await_ready possible requested (sk s) = Ret (b, armed) \<Longrightarrow>
     tg_step s (s\<lparr>consumer := (if b then TResume else TSuspend), whenm := True, canceller := (if armed then XcArmed else XcNone)\<rparr>)"
| w_ready_fails: "consumer s = TIdle \<Longrightarrow> when_await_ready possible requested (sk s) \<in> {Abort, Throw multiple_error} \<Longrightarrow>
     tg_step s (await_fails s)"
| x_start: "canceller s = XcArmed \<Longrightarrow> tg_step s (s\<lparr>canceller := XcTurn (last_ready (sk s))\<rparr>)"
| x_turn: "canceller s = XcTurn v \<Longrightarrow> cancel_try v True spurious (sk s) = (out, k) \<Longrightarrow>
     tg_step s (s\<lparr>sk := k, canceller := cancel_next out, tfailed := (tfailed s \<or> out = XFail),
       tstale := (tstale s \<or> last_ready k = HCancelled \<and> last_ready (sk s) \<noteq> HCancelled \<and> \<not> suspending (consumer s))\<rparr>)"
| x_locked: "canceller s = XcLocked \<Longrightarrow> cancel_locked (sk s) = (h, k) \<Longrightarrow>
     tg_step s (s\<lparr>sk := k, canceller := (case h of None \<Rightarrow> XcNone | Some h \<Rightarrow> XcResume h)\<rparr>)"
| x_resume: "canceller s = XcResume h \<Longrightarrow>
     tg_step s (s\<lparr>canceller := XcNone, consumer := TResume,
       tfailed := (tfailed s \<or> consumer s \<noteq> TSuspended \<or> h \<noteq> tco s)\<rparr>)"
| c_suspend: "consumer s = TSuspend \<Longrightarrow> suspend_begin (tco s) (sk s) = Some k \<Longrightarrow>
     tg_step s (s\<lparr>sk := k, consumer := TTurn (last_ready k)\<rparr>)"
| c_suspend_fails: "consumer s = TSuspend \<Longrightarrow> suspend_begin (tco s) (sk s) = None \<Longrightarrow>
     tg_step s (s\<lparr>tfailed := True\<rparr>)"
| c_turn: "consumer s = TTurn v \<Longrightarrow> suspend_try v spurious (sk s) = (SReturn b, k) \<Longrightarrow>
     tg_step s (s\<lparr>sk := k, consumer := (if b then TSuspended else TResume)\<rparr>)"
| c_turn_retry: "consumer s = TTurn v \<Longrightarrow> suspend_try v spurious (sk s) = (SRetry v', k) \<Longrightarrow>
     tg_step s (s\<lparr>sk := k, consumer := TTurn v'\<rparr>)"
| c_turn_fails: "consumer s = TTurn v \<Longrightarrow> suspend_try v spurious (sk s) = (SFail, k) \<Longrightarrow>
     tg_step s (s\<lparr>tfailed := True\<rparr>)"
| c_resume: "consumer s = TResume \<Longrightarrow> \<not> whenm s \<Longrightarrow> sink_await_resume (sk s) = Some (r, k) \<Longrightarrow>
     tg_step s (s\<lparr>sk := k, consumer := TIdle, tpopped := tpopped s @ [r]\<rparr>)"
| c_resume_fails: "consumer s = TResume \<Longrightarrow> \<not> whenm s \<Longrightarrow> sink_await_resume (sk s) = None \<Longrightarrow>
     tg_step s (s\<lparr>tfailed := True\<rparr>)"
| w_reset: "consumer s = TResume \<Longrightarrow> whenm s \<Longrightarrow> canceller s \<in> {XcNone, XcArmed} \<Longrightarrow>
     tg_step s (s\<lparr>consumer := TCheck, canceller := XcNone\<rparr>)"
| w_check: "consumer s = TCheck \<Longrightarrow> sink_await_ready (sk s) = Ret b \<Longrightarrow>
     tg_step s (s\<lparr>consumer := TIdle, whenm := False\<rparr>)"
| w_check_fails: "consumer s = TCheck \<Longrightarrow> sink_await_ready (sk s) \<in> {Abort, Throw multiple_error} \<Longrightarrow>
     tg_step s (await_fails s)"
| c_detach: "consumer s = TIdle \<Longrightarrow>
     tg_step s (s\<lparr>sk := detach (sk s), consumer := TGone\<rparr>)"

section \<open>Linked lists\<close>

lemma invert_path:
  assumes "path nx p xs" "path nx q ys" "distinct (xs @ ys)"
  shows "\<exists>nx' q'. invert nx p q = Some (nx', q') \<and> path nx' q' (rev xs @ ys)"
  using assms
proof (induction xs arbitrary: nx p q ys)
  case Nil
  then show ?case by (simp add: invert.simps)
next
  case (Cons a xs)
  have "path (nx(a := q)) (nx a) xs" "path (nx(a := q)) (Some a) (a # ys)" "distinct (xs @ a # ys)"
    using Cons.prems by auto
  from Cons.IH [OF this] show ?case
    using Cons.prems by (auto simp: invert.simps [of nx] simp del: fun_upd_apply)
qed

section \<open>Invariant\<close>

fun wakes :: "addr \<times> push_pc \<Rightarrow> bool" where
  "wakes (r, PTurn v) = False"
| "wakes (r, PLocked) = True"
| "wakes (r, PResume h) = True"

fun owns :: "addr \<times> push_pc \<Rightarrow> bool" where
  "owns (r, PTurn v) = True"
| "owns (r, PLocked) = True"
| "owns (r, PResume h) = False"

fun locks :: "addr \<times> push_pc \<Rightarrow> bool" where
  "locks (r, PLocked) = True"
| "locks (r, PTurn v) = False"
| "locks (r, PResume h) = False"

definition own_nodes :: "(addr \<times> push_pc) list \<Rightarrow> addr list" where
  "own_nodes ps = map fst (filter owns ps)"

definition locked_nodes :: "(addr \<times> push_pc) list \<Rightarrow> addr list" where
  "locked_nodes ps = map fst (filter locks ps)"

lemma nodes_simps [simp]:
  "own_nodes (ps @ qs) = own_nodes ps @ own_nodes qs" "own_nodes [] = []"
  "own_nodes (p # ps) = (if owns p then [fst p] else []) @ own_nodes ps"
  "locked_nodes (ps @ qs) = locked_nodes ps @ locked_nodes qs" "locked_nodes [] = []"
  "locked_nodes (p # ps) = (if locks p then [fst p] else []) @ locked_nodes ps"
  by (simp_all add: own_nodes_def locked_nodes_def)

lemma locks_wakes: "locks p \<Longrightarrow> wakes p"
  by (cases p rule: wakes.cases) auto

lemma no_wakes_locked: "filter wakes ps = [] \<Longrightarrow> locked_nodes ps = []"
  using locks_wakes by (force simp: locked_nodes_def filter_empty_conv)

fun xwakes :: "when_pc \<Rightarrow> bool" where
  "xwakes XcLocked = True"
| "xwakes (XcResume h) = True"
| "xwakes _ = False"

text \<open>How the consumer, the marker and the pusher or the callback that wakes it fit together.\<close>

fun consumer_ok :: "consumer_pc \<Rightarrow> 'a tg_sys \<Rightarrow> addr list \<Rightarrow> addr list \<Rightarrow> bool" where
  "consumer_ok TIdle s xs ys = (tcont (sk s) = None \<and> filter wakes (pushers s) = [] \<and> \<not> whenm s \<and> canceller s = XcNone)"
| "consumer_ok TSuspend s xs ys = (tcont (sk s) = None \<and> ys = [] \<and> filter wakes (pushers s) = [] \<and> \<not> xwakes (canceller s))"
| "consumer_ok (TTurn v) s xs ys = (tcont (sk s) = Some (tco s) \<and> ys = [] \<and> filter wakes (pushers s) = [] \<and> \<not> xwakes (canceller s) \<and>
     (v = HNull \<or> v = HCancelled \<and> whenm s \<or> (\<exists>a. v = HNode a) \<and> xs \<noteq> []))"
| "consumer_ok TSuspended s xs ys =
     (last_ready (sk s) = HAwaiting \<and> filter wakes (pushers s) = [] \<and> \<not> xwakes (canceller s) \<and> ys = [] \<and> tcont (sk s) = Some (tco s) \<or>
      (\<exists>r. filter wakes (pushers s) = [(r, PLocked)] \<and> \<not> xwakes (canceller s) \<and> ys = [] \<and> tcont (sk s) = Some (tco s)) \<or>
      (\<exists>r. filter wakes (pushers s) = [(r, PResume (tco s))] \<and> \<not> xwakes (canceller s) \<and> ys = [r] \<and> tcont (sk s) = None) \<or>
      filter wakes (pushers s) = [] \<and> canceller s = XcLocked \<and> ys = [] \<and> tcont (sk s) = Some (tco s) \<or>
      filter wakes (pushers s) = [] \<and> canceller s = XcResume (tco s) \<and> ys = [] \<and> tcont (sk s) = None)"
| "consumer_ok TResume s xs ys = (tcont (sk s) = None \<and> filter wakes (pushers s) = [] \<and> \<not> xwakes (canceller s) \<and> (whenm s \<or> xs @ ys \<noteq> []))"
| "consumer_ok TCheck s xs ys = (tcont (sk s) = None \<and> filter wakes (pushers s) = [] \<and> whenm s \<and> canceller s = XcNone)"
| "consumer_ok TGone s xs ys = False"

definition head_ok :: "'a tg_sys \<Rightarrow> bool" where
  "head_ok s \<longleftrightarrow> last_ready (sk s) \<noteq> HDetached \<and>
     (last_ready (sk s) = HCancelled \<longrightarrow> (if suspending (consumer s) then whenm s else tstale s)) \<and>
     (last_ready (sk s) = HAwaiting \<longrightarrow> consumer s = TSuspended \<and> filter wakes (pushers s) = [] \<and> \<not> xwakes (canceller s)) \<and>
     (\<forall>(r, pc) \<in> set (pushers s). pc \<noteq> PTurn HDetached) \<and>
     (canceller s \<noteq> XcNone \<longrightarrow> whenm s) \<and> canceller s \<noteq> XcTurn HDetached"

definition tg_live :: "'a tg_sys \<Rightarrow> addr list \<Rightarrow> addr list \<Rightarrow> bool" where
  "tg_live s xs ys \<longleftrightarrow> stack (sk s) xs \<and> queue (sk s) ys \<and> distinct (xs @ ys @ own_nodes (pushers s)) \<and>
     head_ok s \<and> consumer_ok (consumer s) s xs ys \<and>
     tpushed s = tpopped s @ locked_nodes (pushers s) @ ys @ rev xs \<and>
     tcount (sk s) = of_nat (tasks s + length (own_nodes (pushers s)) + length ys + length xs)"

definition tg_ok :: "'a tg_sys \<Rightarrow> bool" where
  "tg_ok s \<longleftrightarrow> \<not> tfailed s \<and> (tflagged s \<longrightarrow> tstale s)"

definition tg_inv :: "'a tg_sys \<Rightarrow> bool" where
  "tg_inv s \<longleftrightarrow> tg_ok s \<and>
     (if consumer s = TGone then last_ready (sk s) = HDetached \<and> filter wakes (pushers s) = [] \<and> canceller s = XcNone
      else \<exists>xs ys. tg_live s xs ys)"

lemma tg_liveI: "tg_ok s \<Longrightarrow> consumer s \<noteq> TGone \<Longrightarrow> tg_live s xs ys \<Longrightarrow> tg_inv s"
  by (auto simp: tg_inv_def)

lemma suspending_simps [simp]:
  "suspending TSuspend" "suspending (TTurn v)" "\<not> suspending TIdle" "\<not> suspending TSuspended" "\<not> suspending TResume"
  "\<not> suspending TCheck" "\<not> suspending TGone"
  by (auto simp: suspending_def)

lemma tg_inv_init: "tg_init s \<Longrightarrow> tg_inv s"
  by (rule tg_liveI [of _ "[]" "[]"])
    (auto simp: tg_init_def tg_ok_def tg_live_def task_group_sink_def stack_def queue_def head_node_def head_ok_def)

section \<open>Steps of the tasks\<close>

lemma push_try_retry: "push_try v spurious r k = (PRetry v', k') \<Longrightarrow>
   v' = last_ready k \<and> (k' = k \<or> k' = k\<lparr>tnext := (tnext k)(r := None)\<rparr>)"
  by (cases v) (auto simp: Let_def split: if_splits)

lemma push_try_lock: "push_try v spurious r k = (PLock, k') \<Longrightarrow>
   last_ready k = HAwaiting \<and> k' = k\<lparr>last_ready := HNull\<rparr>"
  by (cases v) (auto simp: Let_def split: if_splits)

lemma push_try_done: "push_try v spurious r k = (PDone, k') \<Longrightarrow> v \<noteq> HDetached \<Longrightarrow>
   last_ready k = v \<and> v \<noteq> HAwaiting \<and> k' = k\<lparr>tnext := (tnext k)(r := head_node v), last_ready := HNode r\<rparr>"
  by (cases v) (auto simp: Let_def split: if_splits)

lemma push_turn_live:
  assumes "tg_live s xs ys" "pushers s = us @ (r, PTurn v) # vs" "push_try v spurious r (sk s) = (out, k)"
  shows "\<exists>xs'. tg_live (s\<lparr>sk := k, pushers := us @ push_next out r @ vs,
       tpushed := (case out of PRetry _ \<Rightarrow> tpushed s | _ \<Rightarrow> tpushed s @ [r])\<rparr>) xs' ys"
proof -
  have r: "r \<notin> set xs" "r \<notin> set ys" "v \<noteq> HDetached"
    using assms(1,2) by (auto simp: tg_live_def head_ok_def)
  show ?thesis
  proof (cases out)
    case (PRetry v')
    then have "v' = last_ready (sk s)" "k = sk s \<or> k = (sk s)\<lparr>tnext := (tnext (sk s))(r := None)\<rparr>"
      using push_try_retry assms(3) by blast+
    then have k: "v' = last_ready (sk s)" "last_ready k = last_ready (sk s)" "tcont k = tcont (sk s)" "tcount k = tcount (sk s)"
      "stack k xs" "queue k ys" using assms(1) r by (auto simp: tg_live_def stack_def queue_def)
    then have "head_ok (s\<lparr>sk := k, pushers := us @ [(r, PTurn v')] @ vs\<rparr>)"
      using assms(1,2) by (simp add: tg_live_def head_ok_def)
    then have "tg_live (s\<lparr>sk := k, pushers := us @ [(r, PTurn v')] @ vs\<rparr>) xs ys"
      using assms(1,2) k by (cases "consumer s") (auto simp: tg_live_def)
    then show ?thesis using PRetry by (auto simp: push_next_def)
  next
    case PLock
    then have k: "last_ready (sk s) = HAwaiting" "k = (sk s)\<lparr>last_ready := HNull\<rparr>"
      using push_try_lock assms(3) by blast+
    then have "tg_live (s\<lparr>sk := k, pushers := us @ [(r, PLocked)] @ vs, tpushed := tpushed s @ [r]\<rparr>) xs ys"
      using assms(1,2) no_wakes_locked [of us] no_wakes_locked [of vs]
      by (auto simp: tg_live_def stack_def queue_def head_ok_def head_node_def)
    then show ?thesis using PLock by (auto simp: push_next_def)
  next
    case PDone
    then have k: "last_ready (sk s) = v" "v \<noteq> HAwaiting"
      "k = (sk s)\<lparr>tnext := (tnext (sk s))(r := head_node v), last_ready := HNode r\<rparr>"
      using push_try_done [of v spurious r "sk s" k] assms(3) r(3) by auto
    have "tg_live (s\<lparr>sk := k, pushers := us @ vs, tpushed := tpushed s @ [r]\<rparr>) (r # xs) ys"
      using assms(1,2) r k
      by (cases "consumer s") (auto simp: tg_live_def stack_def queue_def head_ok_def head_node_def)
    then show ?thesis using PDone by (auto simp: push_next_def)
  qed
qed

lemma tg_live_stack: "tg_live s xs ys \<Longrightarrow> xs = [] \<longleftrightarrow> (\<forall>a. last_ready (sk s) \<noteq> HNode a)"
  by (cases "last_ready (sk s)") (auto simp: tg_live_def stack_def head_node_def path_Some)

lemma tg_live_queue: "tg_live s xs ys \<Longrightarrow> ready_queue (sk s) = None \<longleftrightarrow> ys = []"
  by (cases "ready_queue (sk s)") (auto simp: tg_live_def queue_def path_Some)

lemma add_live:
  assumes "tg_live s xs ys" "consumer s = TIdle" "next_index (sk s) = (i, k)"
  shows "tg_live (s\<lparr>sk := k, tasks := tasks s + 1\<rparr>) xs ys"
  using assms by (auto simp: tg_live_def stack_def queue_def next_index_def head_ok_def)

lemma start_live:
  assumes "tg_live s xs ys" "tasks s > 0" "unused s r"
  shows "tg_live (s\<lparr>tasks := tasks s - 1, pushers := (r, PTurn (last_ready (sk s))) # pushers s\<rparr>) xs ys"
proof -
  have "r \<notin> set xs \<union> set ys" "r \<notin> set (own_nodes (pushers s))"
    using assms(1,3) by (force simp: unused_def tg_live_def own_nodes_def)+
  then show ?thesis using assms(1,2)
    by (cases "consumer s") (auto simp: tg_live_def stack_def queue_def head_ok_def of_nat_diff)
qed

lemma waker_suspended:
  assumes "tg_live s xs ys" "pushers s = us @ p # vs" "wakes p"
  shows "consumer s = TSuspended" "filter wakes us = []" "filter wakes vs = []" "\<not> xwakes (canceller s)"
    "snd p = PLocked \<Longrightarrow> ys = [] \<and> tcont (sk s) = Some (tco s)"
    "snd p = PResume h \<Longrightarrow> h = tco s \<and> ys = [fst p] \<and> tcont (sk s) = None"
    "last_ready (sk s) \<noteq> HAwaiting"
proof -
  show c: "consumer s = TSuspended"
    using assms by (cases "consumer s") (auto simp: tg_live_def)
  show l: "last_ready (sk s) \<noteq> HAwaiting"
    using assms by (auto simp: tg_live_def head_ok_def)
  have w: "filter wakes (pushers s) = filter wakes us @ p # filter wakes vs" using assms(2,3) by simp
  show "filter wakes us = []" "filter wakes vs = []" "\<not> xwakes (canceller s)"
    "snd p = PLocked \<Longrightarrow> ys = [] \<and> tcont (sk s) = Some (tco s)"
    "snd p = PResume h \<Longrightarrow> h = tco s \<and> ys = [fst p] \<and> tcont (sk s) = None"
    using assms(1) c l unfolding tg_live_def w by (auto simp: w)
qed

lemma locked_live:
  assumes "tg_live s xs ys" "pushers s = us @ (r, PLocked) # vs"
  shows "\<exists>k. push_locked r (sk s) = Some (Some (tco s), k) \<and>
    tg_live (s\<lparr>sk := k, pushers := us @ (r, PResume (tco s)) # vs\<rparr>) xs [r]"
proof -
  note w = waker_suspended [OF assms]
  have y: "ys = []" "tcont (sk s) = Some (tco s)" "ready_queue (sk s) = None"
    using w(5) tg_live_queue [OF assms(1)] by auto
  have r: "r \<notin> set xs" using assms by (auto simp: tg_live_def)
  show ?thesis using assms w(1-4,7) y r
    by (auto simp: push_locked_def tg_live_def stack_def queue_def head_ok_def no_wakes_locked)
qed

lemma resume_live:
  assumes "tg_live s xs ys" "pushers s = us @ (r, PResume h) # vs"
  shows "consumer s = TSuspended \<and> h = tco s \<and> tg_live (s\<lparr>pushers := us @ vs, consumer := TResume\<rparr>) xs ys"
proof -
  note w = waker_suspended [OF assms]
  show ?thesis using assms w(1-4,7) w(6) [of h]
    by (auto simp: tg_live_def head_ok_def)
qed

section \<open>Steps of the consumer\<close>

lemma idle_head:
  assumes "tg_live s xs ys" "consumer s = TIdle \<or> consumer s = TCheck"
  shows "tcont (sk s) = None" "last_ready (sk s) \<noteq> HDetached" "last_ready (sk s) \<noteq> HAwaiting" "last_ready (sk s) = HCancelled \<Longrightarrow> tstale s"
    "sink_await_ready (sk s) \<in> {Ret True, Ret False} \<or> sink_await_ready (sk s) = Abort \<and> last_ready (sk s) = HCancelled"
    "sink_await_ready (sk s) = Ret True \<Longrightarrow> xs @ ys \<noteq> []" "sink_await_ready (sk s) = Ret False \<Longrightarrow> ys = [] \<and> last_ready (sk s) = HNull"
proof -
  show h: "tcont (sk s) = None" "last_ready (sk s) \<noteq> HDetached" "last_ready (sk s) \<noteq> HAwaiting" "last_ready (sk s) = HCancelled \<Longrightarrow> tstale s"
    using assms by (auto simp: tg_live_def head_ok_def)
  then show "sink_await_ready (sk s) \<in> {Ret True, Ret False} \<or> sink_await_ready (sk s) = Abort \<and> last_ready (sk s) = HCancelled"
    by (auto simp: sink_await_ready_def split: thead.splits)
  show "xs @ ys \<noteq> []" if "sink_await_ready (sk s) = Ret True"
    using that h tg_live_stack [OF assms(1)] tg_live_queue [OF assms(1)] by (auto simp: sink_await_ready_def split: thead.splits if_splits)
  show "ys = [] \<and> last_ready (sk s) = HNull" if "sink_await_ready (sk s) = Ret False"
    using that h tg_live_queue [OF assms(1)] by (auto simp: sink_await_ready_def split: thead.splits if_splits)
qed

lemma await_fails_live:
  assumes "tg_live s xs ys" "tg_ok s" "consumer s = TIdle \<or> consumer s = TCheck" "sink_await_ready (sk s) \<in> {Abort, Throw multiple_error}"
  shows "tg_inv (await_fails s)"
proof -
  note h = idle_head [OF assms(1,3)]
  have "last_ready (sk s) = HCancelled" using h(5) assms(4) by auto
  then have "await_fails s = s\<lparr>tflagged := True\<rparr>" "tstale s" using h(1,4) by (simp_all add: await_fails_def)
  moreover have "tg_live (s\<lparr>tflagged := True\<rparr>) xs ys" using assms(1,3) by (auto simp: tg_live_def head_ok_def)
  ultimately show ?thesis using assms(2,3) by (intro tg_liveI [of _ xs ys]) (auto simp: tg_ok_def)
qed

lemma await_ready_live:
  assumes "tg_live s xs ys" "consumer s = TIdle" "sink_await_ready (sk s) = Ret b"
  shows "tg_live (s\<lparr>consumer := (if b then TResume else TSuspend)\<rparr>) xs ys"
    "tg_live (s\<lparr>consumer := (if b \<or> b' then TResume else TSuspend), whenm := True, canceller := (if armed then XcArmed else XcNone)\<rparr>) xs ys"
proof -
  have i: "consumer s = TIdle \<or> consumer s = TCheck" using assms(2) by simp
  note h = idle_head [OF assms(1) i]
  show "tg_live (s\<lparr>consumer := (if b then TResume else TSuspend)\<rparr>) xs ys"
    "tg_live (s\<lparr>consumer := (if b \<or> b' then TResume else TSuspend), whenm := True, canceller := (if armed then XcArmed else XcNone)\<rparr>) xs ys"
    using assms h(6,7) by (cases b; auto simp: tg_live_def head_ok_def)+
qed

lemma next_ready_cases:
  "next_await_ready k = Ret b \<Longrightarrow> sink_await_ready k = Ret b"
  "next_await_ready k \<in> {Abort, Throw multiple_error} \<Longrightarrow> sink_await_ready k \<in> {Abort, Throw multiple_error}"
  by (auto simp: next_await_ready_def multiple_error_def no_tasks_error_def split: if_splits)

lemma when_ready_cases:
  "when_await_ready possible requested k = Ret (b, armed) \<Longrightarrow> \<exists>c b'. sink_await_ready k = Ret c \<and> b = (c \<or> b')"
  "when_await_ready possible requested k \<in> {Abort, Throw multiple_error} \<Longrightarrow> sink_await_ready k \<in> {Abort, Throw multiple_error}"
  by (auto simp: when_await_ready_def multiple_error_def no_tasks_error_def split: if_splits outcome.splits bool.splits)

lemma check_live:
  assumes "tg_live s xs ys" "consumer s = TCheck"
  shows "tg_live (s\<lparr>consumer := TIdle, whenm := False\<rparr>) xs ys"
  using assms by (auto simp: tg_live_def head_ok_def)

lemma reset_live:
  assumes "tg_live s xs ys" "consumer s = TResume" "whenm s"
  shows "tg_live (s\<lparr>consumer := TCheck, canceller := XcNone\<rparr>) xs ys"
  using assms by (auto simp: tg_live_def head_ok_def)

lemma suspend_live:
  assumes "tg_live s xs ys" "consumer s = TSuspend"
  shows "\<exists>k. suspend_begin (tco s) (sk s) = Some k \<and> tg_live (s\<lparr>sk := k, consumer := TTurn (last_ready k)\<rparr>) xs ys"
proof -
  have "last_ready (sk s) = HNull \<or> last_ready (sk s) = HCancelled \<and> whenm s \<or> (\<exists>a. last_ready (sk s) = HNode a) \<and> xs \<noteq> []"
    using assms tg_live_stack [OF assms(1)] by (cases "last_ready (sk s)") (auto simp: tg_live_def head_ok_def)
  then show ?thesis using assms tg_live_queue [OF assms(1)]
    by (auto simp: suspend_begin_def tg_live_def stack_def queue_def head_ok_def)
qed

lemma turn_live:
  assumes "tg_live s xs ys" "consumer s = TTurn v"
  shows "fst (suspend_try v spurious (sk s)) \<noteq> SFail"
    "suspend_try v spurious (sk s) = (SReturn b, k) \<Longrightarrow>
      tg_live (s\<lparr>sk := k, consumer := (if b then TSuspended else TResume)\<rparr>) xs ys"
    "suspend_try v spurious (sk s) = (SRetry v', k) \<Longrightarrow> tg_live (s\<lparr>sk := k, consumer := TTurn v'\<rparr>) xs ys"
proof -
  have v: "v = HNull \<or> v = HCancelled \<and> whenm s \<or> (\<exists>a. v = HNode a) \<and> xs \<noteq> []" and h: "last_ready (sk s) \<noteq> HAwaiting"
      "last_ready (sk s) \<noteq> HDetached" "last_ready (sk s) = HCancelled \<longrightarrow> whenm s" and y: "ys = []"
    using assms by (auto simp: tg_live_def head_ok_def)
  note st = tg_live_stack [OF assms(1)]
  show "fst (suspend_try v spurious (sk s)) \<noteq> SFail" using v by (auto split: if_splits)
  show "tg_live (s\<lparr>sk := k, consumer := (if b then TSuspended else TResume)\<rparr>) xs ys"
    if t: "suspend_try v spurious (sk s) = (SReturn b, k)"
    using v
  proof (elim disjE conjE exE)
    assume "v = HNull"
    then show ?thesis using t assms by (auto simp: tg_live_def stack_def queue_def head_ok_def head_node_def split: if_splits)
  next
    assume "v = HCancelled" "whenm s"
    then show ?thesis using t assms by (auto simp: tg_live_def stack_def queue_def head_ok_def head_node_def split: if_splits)
  next
    fix a assume a: "v = HNode a" "xs \<noteq> []"
    then have "last_ready (sk s) \<noteq> HCancelled" using st by auto
    then show ?thesis using a t assms by (auto simp: tg_live_def stack_def queue_def head_ok_def)
  qed
  have n: "last_ready (sk s) = HNull \<or> last_ready (sk s) = HCancelled \<and> whenm s \<or> (\<exists>a. last_ready (sk s) = HNode a) \<and> xs \<noteq> []"
    using h st by (cases "last_ready (sk s)") auto
  show "tg_live (s\<lparr>sk := k, consumer := TTurn v'\<rparr>) xs ys"
    if "suspend_try v spurious (sk s) = (SRetry v', k)"
  proof -
    have "k = sk s" "last_ready (sk s) = v'" using v that by (auto split: if_splits)
    then show ?thesis using n assms h y by (simp add: tg_live_def head_ok_def)
  qed
qed

lemma take_live:
  assumes "tg_live s xs (y # ys)" "consumer s = TResume" "\<not> whenm s"
  shows "\<exists>k. take_ready (sk s) = Some (y, k) \<and> tg_live (s\<lparr>sk := k, consumer := TIdle, tpopped := tpopped s @ [y]\<rparr>) xs ys"
  using assms by (auto simp: take_ready_def tg_live_def stack_def queue_def head_ok_def no_wakes_locked path_Some)

lemma invert_live:
  assumes "tg_live s xs []" "consumer s = TResume" "\<not> whenm s"
  shows "\<exists>a nx q. last_ready (sk s) = HNode a \<and> invert (tnext (sk s)) (Some a) None = Some (nx, q) \<and>
    tg_live (s\<lparr>sk := (sk s)\<lparr>last_ready := HNull, tnext := nx, ready_queue := q\<rparr>\<rparr>) [] (rev xs)"
proof -
  have "xs \<noteq> []" using assms by (auto simp: tg_live_def)
  then obtain a where a: "last_ready (sk s) = HNode a" using tg_live_stack [OF assms(1)] by auto
  then have "path (tnext (sk s)) (Some a) xs" "distinct xs" using assms(1) by (auto simp: tg_live_def stack_def head_node_def)
  then obtain nx q where "invert (tnext (sk s)) (Some a) None = Some (nx, q)" "path nx q (rev xs)"
    using invert_path [of "tnext (sk s)" "Some a" xs None "[]"] by auto
  then show ?thesis using a assms \<open>xs \<noteq> []\<close>
    by (auto simp: tg_live_def stack_def queue_def head_ok_def head_node_def)
qed

lemma await_resume_live:
  assumes "tg_live s xs ys" "consumer s = TResume" "\<not> whenm s"
  shows "\<exists>r k xs' ys'. sink_await_resume (sk s) = Some (r, k) \<and> r = hd (ys @ rev xs) \<and>
    tg_live (s\<lparr>sk := k, consumer := TIdle, tpopped := tpopped s @ [r]\<rparr>) xs' ys'"
proof (cases ys)
  case Nil
  then obtain a nx q where i: "last_ready (sk s) = HNode a" "invert (tnext (sk s)) (Some a) None = Some (nx, q)"
    "tg_live (s\<lparr>sk := (sk s)\<lparr>last_ready := HNull, tnext := nx, ready_queue := q\<rparr>\<rparr>) [] (rev xs)"
    using invert_live assms by blast
  have "xs \<noteq> []" using assms Nil by (auto simp: tg_live_def)
  then obtain y zs where y: "rev xs = y # zs" by (cases "rev xs") auto
  then show ?thesis
    using take_live [of "s\<lparr>sk := (sk s)\<lparr>last_ready := HNull, tnext := nx, ready_queue := q\<rparr>\<rparr>" "[]" y zs] i assms(2,3)
      tg_live_queue [OF assms(1)] Nil
    by (auto simp: sink_await_resume_def)
next
  case (Cons y zs)
  then have q: "ready_queue (sk s) \<noteq> None" using tg_live_queue [OF assms(1)] by auto
  obtain k where "take_ready (sk s) = Some (y, k)"
    "tg_live (s\<lparr>sk := k, consumer := TIdle, tpopped := tpopped s @ [y]\<rparr>) xs zs"
    using take_live assms Cons by blast
  then show ?thesis using q Cons by (auto simp: sink_await_resume_def)
qed

section \<open>Steps of the stop callback\<close>

lemma cancel_try_cases:
  assumes "cancel_try v True spurious k = (out, k')" "v \<noteq> HDetached"
  shows "out = XRetry (last_ready k) \<and> k' = k \<or> out = XLock \<and> last_ready k = HAwaiting \<and> k' = k\<lparr>last_ready := HNull\<rparr> \<or>
    out = XDone \<and> (k' = k \<or> last_ready k = HNull \<and> k' = k\<lparr>last_ready := HCancelled\<rparr>)"
  using assms by (cases v) (auto split: if_splits)

lemma cancel_turn_live:
  assumes "tg_live s xs ys" "canceller s = XcTurn v" "cancel_try v True spurious (sk s) = (out, k)"
  shows "out \<noteq> XFail" "tg_live (s\<lparr>sk := k, canceller := cancel_next out,
     tstale := (tstale s \<or> last_ready k = HCancelled \<and> last_ready (sk s) \<noteq> HCancelled \<and> \<not> suspending (consumer s))\<rparr>) xs ys" (is "tg_live ?t xs ys")
proof -
  have v: "v \<noteq> HDetached" "last_ready (sk s) \<noteq> HDetached" "whenm s" using assms(1,2) by (auto simp: tg_live_def head_ok_def)
  note c = cancel_try_cases [OF assms(3) v(1)]
  then show "out \<noteq> XFail" by auto
  from c show "tg_live ?t xs ys"
  proof (elim disjE conjE)
    assume "out = XRetry (last_ready (sk s))" "k = sk s"
    then show ?thesis using assms(1,2) v by (cases "consumer s") (auto simp: tg_live_def head_ok_def cancel_next_def)
  next
    assume "out = XLock" "last_ready (sk s) = HAwaiting" "k = (sk s)\<lparr>last_ready := HNull\<rparr>"
    then show ?thesis using assms(1,2) v
      by (auto simp: tg_live_def head_ok_def cancel_next_def stack_def queue_def head_node_def)
  next
    assume "out = XDone" "k = sk s"
    then show ?thesis using assms(1,2) v by (cases "consumer s") (auto simp: tg_live_def head_ok_def cancel_next_def)
  next
    assume "out = XDone" "last_ready (sk s) = HNull" "k = (sk s)\<lparr>last_ready := HCancelled\<rparr>"
    then show ?thesis using assms(1,2) v
      by (cases "consumer s") (auto simp: tg_live_def head_ok_def cancel_next_def stack_def queue_def head_node_def)
  qed
qed

lemma canceller_suspended:
  assumes "tg_live s xs ys" "xwakes (canceller s)"
  shows "consumer s = TSuspended" "filter wakes (pushers s) = []" "ys = []" "last_ready (sk s) \<noteq> HAwaiting"
    "canceller s = XcLocked \<Longrightarrow> tcont (sk s) = Some (tco s)" "canceller s = XcResume h \<Longrightarrow> h = tco s \<and> tcont (sk s) = None"
proof -
  show "consumer s = TSuspended" using assms by (cases "consumer s") (auto simp: tg_live_def)
  then show "filter wakes (pushers s) = []" "ys = []" "last_ready (sk s) \<noteq> HAwaiting"
    "canceller s = XcLocked \<Longrightarrow> tcont (sk s) = Some (tco s)" "canceller s = XcResume h \<Longrightarrow> h = tco s \<and> tcont (sk s) = None"
    using assms by (auto simp: tg_live_def head_ok_def)
qed

lemma cancel_locked_live:
  assumes "tg_live s xs ys" "canceller s = XcLocked" "cancel_locked (sk s) = (h, k)"
  shows "tg_live (s\<lparr>sk := k, canceller := (case h of None \<Rightarrow> XcNone | Some h \<Rightarrow> XcResume h)\<rparr>) xs ys"
proof -
  have x: "xwakes (canceller s)" using assms(2) by simp
  note c = canceller_suspended(1-4) [OF assms(1) x] canceller_suspended(5) [OF assms(1) x assms(2)]
  have "h = Some (tco s)" "k = (sk s)\<lparr>tcont := None\<rparr>" using assms(3) c(5) by (auto simp: cancel_locked_def)
  then show ?thesis using assms(1,2) c by (simp add: tg_live_def head_ok_def stack_def queue_def)
qed

lemma cancel_resume_live:
  assumes "tg_live s xs ys" "canceller s = XcResume h"
  shows "consumer s = TSuspended" "h = tco s" "tg_live (s\<lparr>canceller := XcNone, consumer := TResume\<rparr>) xs ys"
  using assms canceller_suspended [OF assms(1)] by (auto simp: tg_live_def head_ok_def)

section \<open>All steps\<close>

lemma tg_gone_step:
  assumes "tg_inv s" "consumer s = TGone" "tg_step s t"
  shows "tg_inv t"
proof -
  have g: "tg_ok s" "last_ready (sk s) = HDetached" "filter wakes (pushers s) = []" "canceller s = XcNone"
    using assms(1,2) by (auto simp: tg_inv_def)
  from assms(3) show ?thesis
  proof cases
    case (t_turn us r v vs spurious out k)
    then show ?thesis using g assms(2)
      by (cases v) (auto simp: tg_inv_def tg_ok_def push_next_def Let_def split: if_splits)
  qed (use g assms(2) in \<open>auto simp: tg_inv_def tg_ok_def\<close>)
qed

lemma tg_live_ghost [simp]:
  "tg_live (s\<lparr>tfailed := b\<rparr>) xs ys = tg_live s xs ys"
  by (cases "consumer s") (simp_all add: tg_live_def head_ok_def)

lemma tg_live_step:
  assumes "tg_live s xs ys" "tg_ok s" "consumer s \<noteq> TGone" "tg_step s t"
  shows "tg_inv t"
  using assms(4)
proof cases
  case (t_add i k)
  then show ?thesis using add_live [OF assms(1)] assms(2,3) by (intro tg_liveI [of _ xs ys]) (auto simp: tg_ok_def)
next
  case (t_start r)
  then show ?thesis using start_live [OF assms(1)] assms(2,3) by (intro tg_liveI [of _ xs ys]) (auto simp: tg_ok_def)
next
  case (t_turn us r v vs spurious out k)
  then obtain xs' where "tg_live t xs' ys" using push_turn_live [OF assms(1)] by blast
  then show ?thesis using assms(2,3) t_turn(1) by (intro tg_liveI [of _ xs' ys]) (auto simp: tg_ok_def)
next
  case (t_locked us r vs h k)
  then show ?thesis using locked_live [OF assms(1) t_locked(2)] assms(2,3) by (intro tg_liveI [of _ xs "[r]"]) (auto simp: tg_ok_def)
next
  case (t_locked_fails us r vs k)
  then show ?thesis using locked_live [OF assms(1) t_locked_fails(2)] by auto
next
  case (t_resume us r h vs)
  then have "t = s\<lparr>pushers := us @ vs, consumer := TResume\<rparr>" using resume_live [OF assms(1) t_resume(2)] assms(2) by (simp add: tg_ok_def)
  then show ?thesis using resume_live [OF assms(1) t_resume(2)] assms(2)
    by (intro tg_liveI [of _ xs ys]) (auto simp: tg_ok_def)
next
  case (c_ready b)
  have "tg_live t xs ys" unfolding c_ready(1) by (rule await_ready_live(1) [OF assms(1) c_ready(2) next_ready_cases(1) [OF c_ready(3)]])
  then show ?thesis using c_ready(1) assms(2) by (intro tg_liveI [of _ xs ys]) (auto simp: tg_ok_def)
next
  case c_ready_fails
  then show ?thesis using await_fails_live [OF assms(1,2)] next_ready_cases(2) [OF c_ready_fails(3)] by simp
next
  case (w_ready possible requested b armed)
  obtain c b' where c: "sink_await_ready (sk s) = Ret c" "b = (c \<or> b')" using when_ready_cases(1) [OF w_ready(3)] by blast
  show ?thesis unfolding w_ready(1) c(2) using await_ready_live(2) [OF assms(1) w_ready(2) c(1), where b' = b' and armed = armed] assms(2)
    by (intro tg_liveI [of _ xs ys]) (simp_all add: tg_ok_def)
next
  case (w_ready_fails possible requested)
  then show ?thesis using await_fails_live [OF assms(1,2)] when_ready_cases(2) [OF w_ready_fails(3)] by simp
next
  case x_start
  then have "tg_live t xs ys" using assms(1) by (cases "consumer s") (auto simp: tg_live_def head_ok_def)
  then show ?thesis using x_start(1) assms(2,3) by (intro tg_liveI [of _ xs ys]) (simp_all add: tg_ok_def)
next
  case (x_turn v spurious out k)
  note c = cancel_turn_live [OF assms(1) x_turn(2,3)]
  have "t = s\<lparr>sk := k, canceller := cancel_next out,
     tstale := (tstale s \<or> last_ready k = HCancelled \<and> last_ready (sk s) \<noteq> HCancelled \<and> \<not> suspending (consumer s))\<rparr>"
    using x_turn(1) c(1) assms(2) by (simp add: tg_ok_def)
  then show ?thesis using c(2) assms(2,3) by (intro tg_liveI [of _ xs ys]) (auto simp: tg_ok_def)
next
  case (x_locked h k)
  then show ?thesis using cancel_locked_live [OF assms(1) x_locked(2,3)] assms(2,3) by (intro tg_liveI [of _ xs ys]) (auto simp: tg_ok_def)
next
  case (x_resume h)
  then have "t = s\<lparr>canceller := XcNone, consumer := TResume\<rparr>"
    using cancel_resume_live(1,2) [OF assms(1) x_resume(2)] assms(2) by (simp add: tg_ok_def)
  then show ?thesis using cancel_resume_live(3) [OF assms(1) x_resume(2)] assms(2) by (intro tg_liveI [of _ xs ys]) (auto simp: tg_ok_def)
next
  case (c_suspend k)
  then show ?thesis using suspend_live [OF assms(1)] assms(2) by (intro tg_liveI [of _ xs ys]) (auto simp: tg_ok_def)
next
  case c_suspend_fails
  then show ?thesis using suspend_live [OF assms(1)] by auto
next
  case (c_turn v spurious b k)
  then show ?thesis using turn_live(2) [OF assms(1)] assms(2) by (intro tg_liveI [of _ xs ys]) (auto simp: tg_ok_def)
next
  case (c_turn_retry v spurious v' k)
  then show ?thesis using turn_live(3) [OF assms(1)] assms(2) by (intro tg_liveI [of _ xs ys]) (auto simp: tg_ok_def)
next
  case (c_turn_fails v spurious k)
  then show ?thesis using turn_live(1) [OF assms(1) c_turn_fails(2), of spurious] by auto
next
  case (c_resume r k)
  then obtain xs' ys' where "tg_live t xs' ys'" using await_resume_live [OF assms(1)] by fastforce
  then show ?thesis using assms(2) c_resume(1) by (intro tg_liveI [of _ xs' ys']) (auto simp: tg_ok_def)
next
  case c_resume_fails
  then show ?thesis using await_resume_live [OF assms(1)] by fastforce
next
  case w_reset
  then show ?thesis using reset_live [OF assms(1)] assms(2) by (intro tg_liveI [of _ xs ys]) (auto simp: tg_ok_def)
next
  case (w_check b)
  then show ?thesis using check_live [OF assms(1)] assms(2) by (intro tg_liveI [of _ xs ys]) (auto simp: tg_ok_def)
next
  case w_check_fails
  then show ?thesis using await_fails_live [OF assms(1,2)] by simp
next
  case c_detach
  then show ?thesis using assms(1,2) by (auto simp: tg_inv_def tg_ok_def tg_live_def detach_def)
qed

lemma tg_step_inv:
  assumes "tg_inv s" "tg_step s t"
  shows "tg_inv t"
proof (cases "consumer s = TGone")
  case True
  then show ?thesis using tg_gone_step assms by blast
next
  case False
  then obtain xs ys where "tg_live s xs ys" "tg_ok s" using assms(1) by (auto simp: tg_inv_def)
  then show ?thesis using tg_live_step False assms(2) by blast
qed

interpretation tg: inv_system tg_init tg_step tg_inv
  by unfold_locales (auto intro: tg_inv_init tg_step_inv)

section \<open>Properties\<close>

text \<open>
  C20. In every interleaving of any number of finishing tasks, of the coroutine that awaits them with
  \<open>next()\<close>, \<open>next_result()\<close> or \<open>when_ready()\<close>, and of the stop callback of \<open>when_ready()\<close>:
  the awaiting coroutine is only resumed while it is suspended, and the only assertion that can fail is the one of
  \<open>await_ready\<close> on the cancellation flag.  It fails only after a stop callback has set that flag while its coroutine was not on
  the way to suspend (\<open>tstale\<close>), a defect of the code.  Until the group is destroyed results are handed out in the
  order in which the tasks pushed them, in any case: what was pushed is what was popped, then a node about to be handed to
  the awaiter, then the ready queue, then the stack of new results from the bottom.
\<close>

theorem task_group_fifo:
  assumes "reach tg_init tg_step s"
  shows "\<not> tfailed s \<and> (tflagged s \<longrightarrow> tstale s) \<and> (consumer s \<noteq> TGone \<longrightarrow> (\<exists>xs ys. stack (sk s) xs \<and> queue (sk s) ys \<and>
    tpushed s = tpopped s @ locked_nodes (pushers s) @ ys @ rev xs))"
  using tg.reach_inv [OF assms] by (fastforce simp: tg_inv_def tg_ok_def tg_live_def split: if_splits)

definition tg0 :: "nat tg_sys" where
  "tg0 = \<lparr>sk = task_group_sink, tco = 9, consumer = TIdle, whenm = False, canceller = XcNone, pushers = [], tasks = 0,
          tpushed = [], tpopped = [], tstale = False, tflagged = False, tfailed = False\<rparr>"

text \<open>One task is added and the coroutine suspends; then the task takes the marker.\<close>

definition tg_waiting :: "nat tg_sys" where
  "tg_waiting = tg0\<lparr>sk := task_group_sink\<lparr>tcount := 1, tnext_index := 1, tcont := Some 9, last_ready := HAwaiting\<rparr>,
     tasks := 1, consumer := TSuspended\<rparr>"

definition tg_waking :: "nat tg_sys" where
  "tg_waking = tg_waiting\<lparr>sk := (sk tg_waiting)\<lparr>last_ready := HNull\<rparr>, tasks := 0, tpushed := [4],
     pushers := [(4, PLocked)]\<rparr>"

lemmas tg_example_defs = tg0_def tg_waiting_def tg_waking_def task_group_sink_def

lemma tg_waiting_reach: "reach tg_init tg_step tg_waiting"
proof -
  let ?a = "tg0\<lparr>sk := task_group_sink\<lparr>tcount := 1, tnext_index := 1\<rparr>, tasks := 1\<rparr>"
  let ?b = "?a\<lparr>consumer := TSuspend\<rparr>"
  let ?c = "?a\<lparr>sk := task_group_sink\<lparr>tcount := 1, tnext_index := 1, tcont := Some 9\<rparr>, consumer := TTurn HNull\<rparr>"
  have "reach tg_init tg_step tg0" by (rule reach_init) (simp add: tg_init_def tg0_def)
  moreover have "tg_step tg0 ?a"
    using t_add [of tg0 0] by (simp add: tg_example_defs next_index_def)
  moreover have "tg_step ?a ?b"
    using c_ready [of ?a False] by (simp add: tg_example_defs next_await_ready_def sink_await_ready_def)
  moreover have "tg_step ?b ?c"
    using c_suspend [of ?b] by (simp add: tg_example_defs suspend_begin_def)
  moreover have "tg_step ?c tg_waiting"
    using c_turn [of ?c HNull False True] by (simp add: tg_example_defs)
  ultimately show ?thesis by (blast intro: reach_step)
qed

lemma tg_waking_reach: "reach tg_init tg_step tg_waking"
proof -
  let ?a = "tg_waiting\<lparr>tasks := 0, pushers := [(4, PTurn HAwaiting)]\<rparr>"
  have "unused tg_waiting 4"
    by (simp add: unused_def stack_def queue_def tg_example_defs head_node_def)
  then have "tg_step tg_waiting ?a"
    using t_start [of tg_waiting 4] by (simp add: tg_example_defs)
  moreover have "tg_step ?a tg_waking"
    using t_turn [of ?a "[]" 4 HAwaiting "[]" False PLock] by (simp add: tg_example_defs push_next_def)
  ultimately show ?thesis using tg_waiting_reach by (blast intro: reach_step)
qed

theorem task_group_fifo_witness:
  "\<not> tfailed tg_waking \<and> (\<exists>xs ys. stack (sk tg_waking) xs \<and> queue (sk tg_waking) ys \<and>
    [4] = [] @ [4] @ ys @ rev xs)"
  using task_group_fifo [OF tg_waking_reach] by (simp add: tg_example_defs)

text \<open>
  C21. No wakeup is lost.  While the coroutine is suspended, either the awaiting marker is in
  place, no result is available and the continuation is registered, so the next task to
  finish takes it; or exactly one task, and no stop callback, is about to resume the coroutine; or the
  stop callback of \<open>when_ready()\<close> is, and no task.
\<close>

theorem task_group_no_lost_wakeup:
  assumes "reach tg_init tg_step s" "consumer s = TSuspended"
  shows "last_ready (sk s) = HAwaiting \<and> ready_queue (sk s) = None \<and> tcont (sk s) = Some (tco s) \<and>
      filter wakes (pushers s) = [] \<and> \<not> xwakes (canceller s) \<or>
    length (filter wakes (pushers s)) = 1 \<and> \<not> xwakes (canceller s) \<or>
    filter wakes (pushers s) = [] \<and> whenm s \<and> xwakes (canceller s)"
proof -
  obtain xs ys where l: "tg_live s xs ys" using tg.reach_inv [OF assms(1)] assms(2) by (auto simp: tg_inv_def)
  then show ?thesis using assms(2) tg_live_queue [OF l] by (auto simp: tg_live_def head_ok_def)
qed

theorem task_group_no_lost_wakeup_witness:
  "last_ready (sk tg_waiting) = HAwaiting \<and> length (filter wakes (pushers tg_waking)) = 1"
  using task_group_no_lost_wakeup [OF tg_waiting_reach] task_group_no_lost_wakeup [OF tg_waking_reach]
  by (simp add: tg_example_defs)

text \<open>
  The counter of the sink is exact: it is the number of tasks that still run, that are
  pushing their result, or whose result waits to be taken, so \<open>count()\<close> is zero, and
  awaiting throws, only when there is nothing left to await (short of \<open>2^64\<close> tasks).
\<close>

theorem task_group_count:
  assumes "reach tg_init tg_step s" "consumer s \<noteq> TGone"
  shows "\<exists>xs ys. stack (sk s) xs \<and> queue (sk s) ys \<and>
    tcount (sk s) = of_nat (tasks s + length (own_nodes (pushers s)) + length ys + length xs)"
proof -
  obtain xs ys where "tg_live s xs ys" using tg.reach_inv [OF assms(1)] assms(2) by (auto simp: tg_inv_def)
  then show ?thesis unfolding tg_live_def by blast
qed

theorem task_group_count_witness:
  "\<exists>xs ys. stack (sk tg_waking) xs \<and> queue (sk tg_waking) ys \<and>
    (1 :: size_t) = of_nat (0 + 1 + length ys + length xs)"
  using task_group_count [OF tg_waking_reach] by (simp add: tg_example_defs)

text \<open>
  \<open>await_resume\<close> terminates and returns the oldest result: with an empty ready queue it
  reverses the linked stack in place, whatever its length, and takes its bottom node.
\<close>

theorem await_resume_oldest:
  assumes "stack s (xs @ [r])" "ready_queue s = None" "distinct (xs @ [r])"
  shows "\<exists>s'. sink_await_resume s = Some (r, s') \<and> last_ready s' = HNull \<and> queue s' (rev xs) \<and>
    tcount s' = tcount s - 1"
proof -
  obtain a where a: "last_ready s = HNode a" using assms(1)
    by (cases "last_ready s") (auto simp: stack_def head_node_def)
  then have "path (tnext s) (Some a) (xs @ [r])" using assms(1) by (simp add: stack_def head_node_def)
  then obtain nx q where i: "invert (tnext s) (Some a) None = Some (nx, q)" "path nx q (r # rev xs)"
    using invert_path [of "tnext s" "Some a" "xs @ [r]" None "[]"] assms(3) by auto
  then show ?thesis using a assms(2,3) by (auto simp: sink_await_resume_def take_ready_def queue_def)
qed

definition sink_two :: "nat sink" where
  "sink_two = task_group_sink\<lparr>last_ready := HNode 2, tnext := (\<lambda>_. None)(2 := Some 1), tcount := 2\<rparr>"

theorem await_resume_oldest_witness:
  "\<exists>s'. sink_await_resume sink_two = Some (1, s') \<and> last_ready s' = HNull \<and> queue s' [2] \<and> tcount s' = 1"
  using await_resume_oldest [of sink_two "[2]" 1]
  by (simp add: sink_two_def stack_def head_node_def task_group_sink_def)

lemma suspend_empty:
  assumes "last_ready s = HNull" "ready_queue s = None" "tcont s = None"
  shows "sink_await_suspend h s = Some (True, s\<lparr>tcont := Some h, last_ready := HAwaiting\<rparr>)"
  using assms by (simp add: sink_await_suspend_def suspend_begin_def)

text \<open>
  \<open>when_ready()\<close> on an empty group.  A stop request before \<open>await_suspend\<close> makes it not
  suspend; one after it resumes the suspended coroutine; \<open>await_resume\<close> then returns \<open>false\<close>
  and the group is as empty as before, ready to be awaited again.  An awaiter destroyed while it
  is suspended leaves the group like that too, and a result that comes later resumes nobody and is
  kept.
\<close>

theorem when_ready_cancelled:
  assumes "last_ready s = HNull" "ready_queue s = None" "tcont s = None"
  shows "(\<exists>s1. when_stop s = Some (None, s1) \<and> when_await_suspend h (a, s1) = Some (False, a\<lparr>when_suspended := True\<rparr>, s)) \<and>
    (\<exists>s2. when_await_suspend h (a, s) = Some (True, a\<lparr>when_suspended := True\<rparr>, s2) \<and> when_stop s2 = Some (Some h, s) \<and>
       when_destroy (a\<lparr>when_suspended := True\<rparr>, s2) = Some s) \<and>
    fst (when_await_resume (a, s)) = Ret False \<and>
    (\<exists>s3. sink_push r s = Some (None, s3) \<and> fst (when_await_resume (a, s3)) = Ret True)"
proof -
  have s: "s\<lparr>last_ready := HNull\<rparr> = s" "s\<lparr>tcont := None\<rparr> = s" "s\<lparr>last_ready := HNull, tcont := None\<rparr> = s" using assms by simp_all
  have "when_stop s = Some (None, s\<lparr>last_ready := HCancelled\<rparr>)" using assms by (simp add: when_stop_def await_cancel_def)
  moreover have "when_await_suspend h (a, s\<lparr>last_ready := HCancelled\<rparr>) = Some (False, a\<lparr>when_suspended := True\<rparr>, s)"
    using assms s by (simp add: when_await_suspend_def sink_await_suspend_def suspend_begin_def)
  moreover have "when_await_suspend h (a, s) = Some (True, a\<lparr>when_suspended := True\<rparr>, s\<lparr>tcont := Some h, last_ready := HAwaiting\<rparr>)"
    using suspend_empty [OF assms] by (simp add: when_await_suspend_def)
  moreover have "when_stop (s\<lparr>tcont := Some h, last_ready := HAwaiting\<rparr>) = Some (Some h, s)"
    "when_destroy (a\<lparr>when_suspended := True\<rparr>, s\<lparr>tcont := Some h, last_ready := HAwaiting\<rparr>) = Some s"
    using s by (simp_all add: when_stop_def when_destroy_def await_cancel_def cancel_locked_def)
  moreover have "sink_push r s = Some (None, s\<lparr>tnext := (tnext s)(r := None), last_ready := HNode r\<rparr>)"
    using assms by (simp add: sink_push_def head_node_def)
  ultimately show ?thesis using assms by (simp add: when_await_resume_def sink_await_ready_def)
qed

theorem when_ready_cancelled_witness:
  "\<exists>s2. when_await_suspend 9 (\<lparr>when_cancel = True, when_suspended = False\<rparr>, task_group_sink :: nat sink) =
      Some (True, \<lparr>when_cancel = True, when_suspended = True\<rparr>, s2) \<and> when_stop s2 = Some (Some 9, task_group_sink)"
  using when_ready_cancelled [of "task_group_sink :: nat sink" 9 "\<lparr>when_cancel = True, when_suspended = False\<rparr>"]
  by (auto simp: task_group_sink_def)

text \<open>
  The comment in \<open>task_group_when_ready_awaiter::await_suspend\<close> claims that the cancellation
  flag is never set when the awaiter resumes.  It can be: a task takes the marker of a
  suspended \<open>when_ready()\<close>, the stop callback then finds an empty head and leaves the
  flag, and after the one result is consumed the next \<open>await_ready\<close> fails its assertion.
\<close>

theorem when_ready_leaves_cancel_flag:
  assumes "sink_await_suspend h (s :: 'a sink) = Some (True, s1)" "sink_push r s1 = Some (Some h, s2)"
    "await_cancel True s2 = Some (x, s3)"
  shows "x = None \<and> last_ready s3 = HCancelled \<and> sink_await_ready s3 = Ret True \<and>
    (\<exists>s4. sink_await_resume s3 = Some (r, s4) \<and> sink_await_ready s4 = Abort)"
proof -
  have s1: "s1 = s\<lparr>tcont := Some h, last_ready := HAwaiting\<rparr>" "ready_queue s = None"
    using assms(1) by (cases "last_ready s";
      auto simp: sink_await_suspend_def suspend_begin_def split: if_splits)+
  then have s2: "s2 = s\<lparr>last_ready := HNull, tnext := (tnext s)(r := None), ready_queue := Some r, tcont := None\<rparr>"
    using assms(2) by (auto simp: sink_push_def push_locked_def)
  then have "s3 = s2\<lparr>last_ready := HCancelled\<rparr>" "x = None" using assms(3) by (auto simp: await_cancel_def)
  then show ?thesis using s2
    by (auto simp: sink_await_ready_def sink_await_resume_def take_ready_def)
qed

theorem when_ready_leaves_cancel_flag_witness:
  "\<exists>s1 s2 s3. sink_await_suspend 9 (task_group_sink :: nat sink) = Some (True, s1) \<and>
    sink_push 4 s1 = Some (Some 9, s2) \<and> await_cancel True s2 = Some (None, s3) \<and> last_ready s3 = HCancelled"
proof -
  let ?s1 = "(task_group_sink :: nat sink)\<lparr>tcont := Some 9, last_ready := HAwaiting\<rparr>"
  let ?s2 = "(task_group_sink :: nat sink)\<lparr>last_ready := HNull, tnext := (tnext (task_group_sink :: nat sink))(4 := None), ready_queue := Some 4, tcont := None\<rparr>"
  let ?s3 = "?s2\<lparr>last_ready := HCancelled\<rparr>"
  have s: "sink_await_suspend 9 (task_group_sink :: nat sink) = Some (True, ?s1)" "sink_push 4 ?s1 = Some (Some 9, ?s2)"
    "await_cancel True ?s2 = Some (None, ?s3)"
    by (simp_all add: sink_await_suspend_def suspend_begin_def task_group_sink_def sink_push_def push_locked_def await_cancel_def)
  then show ?thesis using when_ready_leaves_cancel_flag [OF s] by blast
qed

end
