(* ===== verification/Scope_Contract.thy ===== *)
theory Scope_Contract
  imports Prelude
begin

text \<open>
  The contract of scoped changes: an operation that opens a scope and one that closes it.
  Task stacks, task-local bindings and stop token overrides follow it.  A client that opens
  any number of scopes and closes them in the reverse order finds the state as it was.
\<close>

fun open_all :: "('k \<Rightarrow> 's \<Rightarrow> 's option) \<Rightarrow> 'k list \<Rightarrow> 's \<Rightarrow> 's option" where
  "open_all f [] s = Some s"
| "open_all f (k # ks) s = (case f k s of None \<Rightarrow> None | Some s' \<Rightarrow> open_all f ks s')"

lemma open_all_append:
  "open_all f (ks @ ls) s = (case open_all f ks s of None \<Rightarrow> None | Some s' \<Rightarrow> open_all f ls s')"
  by (induction ks arbitrary: s) (auto split: option.splits)

locale scope =
  fixes opens :: "'k \<Rightarrow> 's \<Rightarrow> 's option"
    and closes :: "'k \<Rightarrow> 's \<Rightarrow> 's option"
  assumes close_open: "opens k s = Some s' \<Longrightarrow> closes k s' = Some s"
begin

lemma close_open_all: "open_all opens ks s = Some s' \<Longrightarrow> open_all closes (rev ks) s' = Some s"
proof (induction ks arbitrary: s)
  case Nil
  then show ?case by simp
next
  case (Cons k ks)
  then obtain t where "opens k s = Some t" "open_all opens ks t = Some s'" by (auto split: option.splits)
  then show ?case using Cons.IH close_open by (simp add: open_all_append)
qed

lemma open_injective: "opens k s = Some u \<Longrightarrow> opens k t = Some u \<Longrightarrow> s = t"
  using close_open [of k s u] close_open [of k t u] by simp

end

end
