(* ===== verification/Async_Task.thy ===== *)
theory Async_Task
  imports Scope_Contract
begin

text \<open>
  The running tasks of every thread and their task-local state:
  \<open>coroactors/detail/async_task.h\<close>, \<open>task_local.h\<close> and \<open>with_stop_token.h\<close>.

  Tasks and bindings live in a heap.  A thread's \<open>current_\<close> points to the task on top of its
  stack, \<open>next\<close> to the task below or to \<open>InactiveMarker\<close>.  \<open>None\<close> as a result is
  \<open>std::terminate\<close> (an exception in a \<open>noexcept\<close> function) or a failed assertion.
\<close>

section \<open>Tasks\<close>

datatype task_link = Inactive | Below "addr option"

record task =
  token :: "nat option"
  task_context :: "nat option"
  locals :: "addr option"
  was_scheduled :: bool
  task_next :: task_link

record task_heap =
  task_at :: "addr \<Rightarrow> task"
  current :: "tid \<Rightarrow> addr option"
  lnext :: "addr \<Rightarrow> addr option"
  lkey :: "addr \<Rightarrow> addr"
  lvalue :: "addr \<Rightarrow> addr option"

definition new_task :: task where
  "new_task = \<lparr>token = None, task_context = None, locals = None, was_scheduled = False, task_next = Inactive\<rparr>"

definition enter :: "tid \<Rightarrow> addr \<Rightarrow> task_heap \<Rightarrow> task_heap option" where
  "enter i t h =
     (if task_next (task_at h t) \<noteq> Inactive then None
      else Some (h\<lparr>task_at := (task_at h)(t := (task_at h t)\<lparr>task_next := Below (current h i)\<rparr>),
                   current := (current h)(i := Some t)\<rparr>))"

definition below :: "task_link \<Rightarrow> addr option" where
  "below l = (case l of Inactive \<Rightarrow> None | Below p \<Rightarrow> p)"

definition leave :: "tid \<Rightarrow> addr \<Rightarrow> task_heap \<Rightarrow> task_heap option" where
  "leave i t h =
     (if current h i \<noteq> Some t then None
      else Some (h\<lparr>current := (current h)(i := below (task_next (task_at h t))),
                   task_at := (task_at h)(t := (task_at h t)\<lparr>task_next := Inactive\<rparr>)\<rparr>))"

section \<open>Task locals\<close>

definition push_local :: "addr \<Rightarrow> addr \<Rightarrow> task_heap \<Rightarrow> task_heap option" where
  "push_local t b h =
     (if lnext h b \<noteq> None \<or> locals (task_at h t) = Some b then None
      else Some (h\<lparr>lnext := (lnext h)(b := locals (task_at h t)),
                   task_at := (task_at h)(t := (task_at h t)\<lparr>locals := Some b\<rparr>)\<rparr>))"

definition pop_local :: "addr \<Rightarrow> addr \<Rightarrow> task_heap \<Rightarrow> task_heap option" where
  "pop_local t b h =
     (if locals (task_at h t) \<noteq> Some b then None
      else Some (h\<lparr>task_at := (task_at h)(t := (task_at h t)\<lparr>locals := lnext h b\<rparr>),
                   lnext := (lnext h)(b := None)\<rparr>))"

partial_function (option) find_from :: "task_heap \<Rightarrow> addr \<Rightarrow> addr option \<Rightarrow> addr option option" where
  "find_from h key p = (case p of
       None \<Rightarrow> Some None
     | Some b \<Rightarrow> if lkey h b = key then Some (lvalue h b) else find_from h key (lnext h b))"

definition find_local :: "addr \<Rightarrow> addr \<Rightarrow> task_heap \<Rightarrow> addr option option" where
  "find_local t key h = find_from h key (locals (task_at h t))"

definition find_task_local :: "tid \<Rightarrow> addr \<Rightarrow> task_heap \<Rightarrow> addr option option" where
  "find_task_local i key h = (case current h i of Some t \<Rightarrow> find_local t key h | None \<Rightarrow> Some None)"

definition task_local_get :: "tid \<Rightarrow> addr \<Rightarrow> addr \<Rightarrow> task_heap \<Rightarrow> addr option" where
  "task_local_get i key default_value h = (case find_task_local i key h of
       None \<Rightarrow> None
     | Some None \<Rightarrow> Some default_value
     | Some (Some v) \<Rightarrow> Some v)"

definition current_stop_token :: "tid \<Rightarrow> task_heap \<Rightarrow> nat option" where
  "current_stop_token i h = (case current h i of Some t \<Rightarrow> token (task_at h t) | None \<Rightarrow> None)"

definition current_actor_context :: "tid \<Rightarrow> task_heap \<Rightarrow> nat option" where
  "current_actor_context i h = (case current h i of Some t \<Rightarrow> task_context (task_at h t) | None \<Rightarrow> None)"

text \<open>
  The scopes of \<open>with_task_local_impl\<close> and \<open>with_stop_token\<close>: the part before the inner
  awaitable and the guard that runs after it.  \<open>with_value\<close> builds the binding.
\<close>

definition with_value :: "addr \<Rightarrow> addr \<Rightarrow> addr \<Rightarrow> task_heap \<Rightarrow> task_heap" where
  "with_value b key v h = h\<lparr>lnext := (lnext h)(b := None), lkey := (lkey h)(b := key), lvalue := (lvalue h)(b := Some v)\<rparr>"

definition local_begin :: "tid \<Rightarrow> addr \<Rightarrow> task_heap \<Rightarrow> task_heap option" where
  "local_begin i b h = (case current h i of None \<Rightarrow> None | Some t \<Rightarrow> push_local t b h)"

definition swap_token :: "addr \<Rightarrow> nat option \<Rightarrow> task_heap \<Rightarrow> nat option \<times> task_heap" where
  "swap_token t tok h = (token (task_at h t), h\<lparr>task_at := (task_at h)(t := (task_at h t)\<lparr>token := tok\<rparr>)\<rparr>)"

definition with_stop_token :: "tid \<Rightarrow> nat option \<Rightarrow> (task_heap \<Rightarrow> task_heap) \<Rightarrow> task_heap \<Rightarrow> task_heap option" where
  "with_stop_token i tok body h = (case current h i of
       None \<Rightarrow> None
     | Some t \<Rightarrow> (case swap_token t tok h of (old, h') \<Rightarrow> Some (snd (swap_token t old (body h')))))"

section \<open>The stacks of the threads\<close>

text \<open>\<open>task_rep h ks\<close>: thread \<open>i\<close> runs the tasks \<open>ks i\<close>, the first on top.\<close>

definition task_rep :: "task_heap \<Rightarrow> (tid \<Rightarrow> addr list) \<Rightarrow> bool" where
  "task_rep h ks \<longleftrightarrow> (\<forall>i. path (\<lambda>t. below (task_next (task_at h t))) (current h i) (ks i) \<and> distinct (ks i)) \<and>
     (\<forall>i j. i \<noteq> j \<longrightarrow> set (ks i) \<inter> set (ks j) = {}) \<and>
     (\<forall>t. task_next (task_at h t) \<noteq> Inactive \<longleftrightarrow> (\<exists>i. t \<in> set (ks i)))"

lemma task_repD:
  assumes "task_rep h ks"
  shows "path (\<lambda>t. below (task_next (task_at h t))) (current h i) (ks i)" "distinct (ks i)"
    "i \<noteq> j \<Longrightarrow> set (ks i) \<inter> set (ks j) = {}"
    "task_next (task_at h t) \<noteq> Inactive \<longleftrightarrow> (\<exists>i. t \<in> set (ks i))"
  using assms by (auto simp: task_rep_def)

lemma path_cong: "(\<And>a. a \<in> set xs \<Longrightarrow> f a = g a) \<Longrightarrow> path f p xs = path g p xs"
  by (induction xs arbitrary: p) auto

lemma task_rep_current: "task_rep h ks \<Longrightarrow> current h i = (case ks i of [] \<Rightarrow> None | t # _ \<Rightarrow> Some t)"
  using task_repD(1) [of h ks i] by (cases "ks i") auto

lemma enter_rep:
  assumes "task_rep h ks" "\<forall>j. t \<notin> set (ks j)"
  shows "\<exists>h'. enter i t h = Some h' \<and> task_rep h' (ks(i := t # ks i))"
proof -
  have n: "task_next (task_at h t) = Inactive" using task_repD(4) [OF assms(1)] assms(2) by blast
  let ?h = "h\<lparr>task_at := (task_at h)(t := (task_at h t)\<lparr>task_next := Below (current h i)\<rparr>), current := (current h)(i := Some t)\<rparr>"
  have p: "path (\<lambda>t. below (task_next (task_at ?h t))) (current h j) (ks j)" for j
    using task_repD(1) [OF assms(1), of j] assms(2) by (subst path_cong [where g = "\<lambda>t. below (task_next (task_at h t))"]) auto
  have "task_rep ?h (ks(i := t # ks i))"
    unfolding task_rep_def
  proof (intro conjI allI impI)
    show "path (\<lambda>t. below (task_next (task_at ?h t))) (current ?h j) ((ks(i := t # ks i)) j)" for j
      using p [of j] p [of i] by (auto simp: below_def)
    show "distinct ((ks(i := t # ks i)) j)" for j using assms(2) task_repD(2) [OF assms(1)] by auto
    show "set ((ks(i := t # ks i)) j) \<inter> set ((ks(i := t # ks i)) l) = {}" if "j \<noteq> l" for j l
      using that assms(2) task_repD(3) [OF assms(1)] by auto
    show "(task_next (task_at ?h u) \<noteq> Inactive) = (\<exists>j. u \<in> set ((ks(i := t # ks i)) j))" for u
      using task_repD(4) [OF assms(1), of u] by auto
  qed
  then show ?thesis using n by (auto simp: enter_def)
qed

lemma leave_rep:
  assumes "task_rep h ks" "ks i = t # ts"
  shows "\<exists>h'. leave i t h = Some h' \<and> task_rep h' (ks(i := ts))"
proof -
  let ?h = "h\<lparr>current := (current h)(i := below (task_next (task_at h t))), task_at := (task_at h)(t := (task_at h t)\<lparr>task_next := Inactive\<rparr>)\<rparr>"
  have t: "t \<notin> set ts" "\<And>j. j \<noteq> i \<Longrightarrow> t \<notin> set (ks j)" using task_repD(2,3) [OF assms(1), of i] assms(2) by fastforce+
  have p: "path (\<lambda>t. below (task_next (task_at ?h t))) q xs = path (\<lambda>t. below (task_next (task_at h t))) q xs" if "t \<notin> set xs" for q xs
    using that by (intro path_cong) auto
  have "task_rep ?h (ks(i := ts))"
    unfolding task_rep_def
  proof (intro conjI allI impI)
    show "path (\<lambda>t. below (task_next (task_at ?h t))) (current ?h j) ((ks(i := ts)) j)" for j
      using p t task_repD(1) [OF assms(1), of j] assms(2) by (cases "j = i") auto
    show "distinct ((ks(i := ts)) j)" for j using task_repD(2) [OF assms(1), of j] assms(2) by (cases "j = i") auto
    show "set ((ks(i := ts)) j) \<inter> set ((ks(i := ts)) l) = {}" if "j \<noteq> l" for j l
      using that task_repD(3) [OF assms(1), of j l] assms(2) by (auto split: if_splits)
    show "(task_next (task_at ?h u) \<noteq> Inactive) = (\<exists>j. u \<in> set ((ks(i := ts)) j))" for u
      using task_repD(4) [OF assms(1), of u] t assms(2) by (cases "u = t") (auto split: if_splits, metis set_ConsD, metis list.set_intros(2))
  qed
  moreover have "current h i = Some t" using task_rep_current [OF assms(1)] assms(2) by simp
  ultimately show ?thesis by (auto simp: leave_def)
qed

section \<open>Scopes\<close>

lemma task_next_idem: "task_next t = l \<Longrightarrow> t\<lparr>task_next := l\<rparr> = t"
  by (cases t) simp

lemma locals_idem: "locals t = p \<Longrightarrow> t\<lparr>locals := p\<rparr> = t"
  by (cases t) simp

lemma heap_idem [simp]: "h\<lparr>task_at := task_at h\<rparr> = h" "h\<lparr>current := current h\<rparr> = h" "h\<lparr>lnext := lnext h\<rparr> = h"
  by simp_all

lemma leave_enter: "enter i t h = Some h' \<Longrightarrow> leave i t h' = Some h"
  by (auto simp: enter_def leave_def below_def task_next_idem fun_upd_idem split: if_splits)

lemma pop_push_local: "push_local t b h = Some h' \<Longrightarrow> pop_local t b h' = Some h"
  by (auto simp: push_local_def pop_local_def locals_idem fun_upd_idem split: if_splits)

interpretation task_scope: scope "\<lambda>(i, t). enter i t" "\<lambda>(i, t). leave i t"
  by unfold_locales (auto simp: leave_enter)

interpretation local_scope: scope "\<lambda>(t, b). push_local t b" "\<lambda>(t, b). pop_local t b"
  by unfold_locales (auto simp: pop_push_local)

lemma find_from_path:
  "path (lnext h) p xs \<Longrightarrow> find_from h key p = Some (case find (\<lambda>b. lkey h b = key) xs of Some b \<Rightarrow> lvalue h b | None \<Rightarrow> None)"
  by (induction xs arbitrary: p) (auto simp: find_from.simps)

section \<open>Properties\<close>

text \<open>
  The running tasks of the threads form disjoint stacks: \<open>enter\<close> puts a task that runs
  nowhere on top of the stack of its thread and terminates the program for a task that is on
  some stack already; \<open>leave\<close> removes the task on top and terminates for any other task.
\<close>

theorem task_stacks:
  assumes "task_rep h ks"
  shows "((\<forall>j. t \<notin> set (ks j)) \<longrightarrow> (\<exists>h'. enter i t h = Some h' \<and> task_rep h' (ks(i := t # ks i)))) \<and>
    ((\<exists>j. t \<in> set (ks j)) \<longrightarrow> enter i t h = None) \<and>
    (\<forall>ts. ks i = t # ts \<longrightarrow> (\<exists>h'. leave i t h = Some h' \<and> task_rep h' (ks(i := ts)))) \<and>
    ((\<nexists>ts. ks i = t # ts) \<longrightarrow> leave i t h = None)"
  using enter_rep [OF assms, of t i] leave_rep [OF assms, of i t] task_repD(4) [OF assms, of t] task_rep_current [OF assms, of i]
  by (auto simp: enter_def leave_def split: list.splits)

definition heap0 :: task_heap where
  "heap0 = \<lparr>task_at = (\<lambda>_. new_task), current = (\<lambda>_. None), lnext = (\<lambda>_. None), lkey = (\<lambda>_. 0), lvalue = (\<lambda>_. None)\<rparr>"

lemma heap0_rep: "task_rep heap0 (\<lambda>_. [])"
  by (simp add: task_rep_def heap0_def new_task_def)

theorem task_stacks_witness:
  "(\<exists>h'. enter 1 5 heap0 = Some h' \<and> task_rep h' ((\<lambda>_. [])(1 := [5]))) \<and> leave 1 5 heap0 = None"
  using task_stacks [OF heap0_rep, of 5 1] by simp

text \<open>
  Tasks entered on a thread and left in the reverse order leave no trace, and so do bindings
  pushed and popped: the heap is exactly as before.
\<close>

theorem task_scopes_restore:
  assumes "open_all (\<lambda>(i, t). enter i t) ts h = Some h1" "open_all (\<lambda>(t, b). push_local t b) bs h1 = Some h2"
  shows "\<exists>h3. open_all (\<lambda>(t, b). pop_local t b) (rev bs) h2 = Some h3 \<and>
    open_all (\<lambda>(i, t). leave i t) (rev ts) h3 = Some h"
  using task_scope.close_open_all [OF assms(1)] local_scope.close_open_all [OF assms(2)] by simp

theorem task_scopes_restore_witness:
  "\<exists>h1 h2 h3. open_all (\<lambda>(i, t). enter i t) [(0, 5), (0, 6)] heap0 = Some h1 \<and>
    open_all (\<lambda>(t, b). push_local t b) [(6, 20), (6, 21)] h1 = Some h2 \<and>
    open_all (\<lambda>(t, b). pop_local t b) [(6, 21), (6, 20)] h2 = Some h3 \<and>
    open_all (\<lambda>(i, t). leave i t) [(0, 6), (0, 5)] h3 = Some heap0"
proof -
  obtain h1 where 1: "open_all (\<lambda>(i, t). enter i t) [(0, 5), (0, 6)] heap0 = Some h1"
    by (simp add: enter_def heap0_def new_task_def)
  moreover from this obtain h2 where "open_all (\<lambda>(t, b). push_local t b) [(6, 20), (6, 21)] h1 = Some h2"
    by (auto simp: enter_def heap0_def new_task_def push_local_def)
  ultimately show ?thesis using task_scopes_restore [OF 1, of "[(6, 20), (6, 21)]"] by fastforce
qed

text \<open>
  Task locals are dynamically scoped variables.  Looking up a key ends and finds the innermost
  binding of the key; inside the scope of \<open>with_value\<close> the key has the new value and every
  other key the value it had.
\<close>

theorem task_local_scope:
  assumes "path (lnext h) (locals (task_at h t)) xs" "b \<notin> set xs" "current h i = Some t"
    and "local_begin i b (with_value b key v h) = Some h'"
  shows "task_local_get i key d h' = Some v \<and>
    (key' \<noteq> key \<longrightarrow> task_local_get i key' d h' = task_local_get i key' d h) \<and>
    find_local t key' h = Some (case find (\<lambda>b. lkey h b = key') xs of Some b \<Rightarrow> lvalue h b | None \<Rightarrow> None)"
proof -
  have h': "h' = h\<lparr>lnext := (lnext h)(b := locals (task_at h t)), lkey := (lkey h)(b := key), lvalue := (lvalue h)(b := Some v),
      task_at := (task_at h)(t := (task_at h t)\<lparr>locals := Some b\<rparr>)\<rparr>"
    using assms(3,4) by (auto simp: local_begin_def with_value_def push_local_def split: if_splits)
  have p: "path (lnext h') (Some b) (b # xs)" using assms(1,2) unfolding h' by simp
  have "find (\<lambda>a. lkey h' a = key') xs = find (\<lambda>a. lkey h a = key') xs" for key'
    using assms(2) unfolding h' by (intro find_cong) auto
  moreover have "find (\<lambda>a. lkey h a = key') xs = Some a \<Longrightarrow> lvalue h' a = lvalue h a" for key' a
    using assms(2) unfolding h' by (auto simp: find_Some_iff)
  ultimately show ?thesis
    using find_from_path [OF p] find_from_path [OF assms(1)] assms(3)
    by (auto simp: task_local_get_def find_task_local_def find_local_def h' split: option.splits)
qed

theorem task_local_scope_witness:
  "\<exists>h h'. local_begin 0 30 (with_value 30 7 99 h) = Some h' \<and> task_local_get 0 7 1 h' = Some 99"
proof -
  let ?h = "heap0\<lparr>current := (\<lambda>_. Some 5)\<rparr>"
  obtain h' where h': "local_begin 0 30 (with_value 30 7 99 ?h) = Some h'"
    by (simp add: local_begin_def with_value_def push_local_def heap0_def new_task_def)
  have "task_local_get 0 7 1 h' = Some 99"
    using task_local_scope [OF _ _ _ h', of 5 "[]" 1 8] by (simp add: heap0_def new_task_def)
  then show ?thesis using h' by blast
qed

text \<open>
  \<open>with_stop_token\<close> runs its awaitable with the new stop token as the current one and puts
  the old token back, provided the awaitable leaves the token as it finds it.
\<close>

theorem with_stop_token_restores:
  assumes "current h i = Some t" "\<And>g. token (task_at (body g) t) = token (task_at g t)"
  shows "current_stop_token i (snd (swap_token t tok h)) = tok \<and>
    (\<exists>h'. with_stop_token i tok body h = Some h' \<and> token (task_at h' t) = token (task_at h t))"
  using assms by (simp add: with_stop_token_def swap_token_def current_stop_token_def)

theorem with_stop_token_restores_witness:
  "\<exists>h'. with_stop_token 0 (Some 3) (\<lambda>g. g\<lparr>current := (\<lambda>_. None)\<rparr>) (heap0\<lparr>current := (\<lambda>_. Some 5)\<rparr>) = Some h' \<and>
    token (task_at h' 5) = None"
  using with_stop_token_restores [of "heap0\<lparr>current := (\<lambda>_. Some 5)\<rparr>" 0 5 "\<lambda>g. g\<lparr>current := (\<lambda>_. None)\<rparr>" "Some 3"]
  by (simp add: heap0_def new_task_def)

end
