(* ===== verification/With_Task_Group.thy ===== *)
theory With_Task_Group
  imports Task_Group Async_Task "HOL-Library.Monad_Syntax" "HOL-Library.Multiset"
begin

text \<open>
  Tasks of a group and structured concurrency: \<open>task_group_promise\<close> and its result handlers in
  \<open>coroactors/detail/task_group.h\<close>, the class \<open>task_group\<close> of \<open>coroactors/task_group.h\<close>, and
  \<open>with_task_group\<close> of \<open>coroactors/with_task_group.h\<close>.

  A task is named by its result node.  The body of a task is not modelled: it ends with a value
  or an exception.  The order in which tasks end, which is any order, and how many of them end while the group is
  not being awaited, are arguments.
\<close>

section \<open>Tasks\<close>






text \<open>\<open>with_task\<close> gives the task of the coroutine the token and the locals of the group.\<close>

definition group_with_task :: "tid \<Rightarrow> nat option \<Rightarrow> addr option \<Rightarrow> task_heap \<Rightarrow> task_heap option" where
  "group_with_task i tok inherited h = (case current h i of
       None \<Rightarrow> None
     | Some t \<Rightarrow> Some (h\<lparr>task_at := (task_at h)(t := (task_at h t)\<lparr>token := tok, locals := inherited\<rparr>)\<rparr>))"

section \<open>The group\<close>

record 'a task_group =
  group_sink :: "'a sink"
  group_stopped :: bool
  group_inherited :: "addr option"

definition task_group :: "'a task_group" where
  "task_group = \<lparr>group_sink = task_group_sink, group_stopped = False, group_inherited = None\<rparr>"



definition group_ready :: "'a task_group \<Rightarrow> bool option" where
  "group_ready g = sink_ready (group_sink g)"




section \<open>Awaiting tasks\<close>








section \<open>Programs on a group\<close>



definition next_value :: "size_t \<times> 'a result \<Rightarrow> 'a option outcome" where
  "next_value x = fst (take_value (snd x))"





section \<open>with\_task\_group\<close>




section \<open>The sink as a list of results\<close>

text \<open>
  \<open>sink_items s zs\<close>: nobody awaits, no cancellation flag is set, and the results not yet
  consumed are \<open>zs\<close>, oldest first.
\<close>

definition sink_items :: "'a sink \<Rightarrow> addr list \<Rightarrow> bool" where
  "sink_items s zs \<longleftrightarrow> (\<exists>xs ys. stack s xs \<and> queue s ys \<and> zs = ys @ rev xs \<and> distinct (xs @ ys) \<and>
     (last_ready s = HNull \<or> (\<exists>a. last_ready s = HNode a)) \<and> tcont s = None)"

lemma sink_items_cong [simp]:
  "sink_items (s\<lparr>tcount := n\<rparr>) zs = sink_items s zs" "sink_items (s\<lparr>tindex := f\<rparr>) zs = sink_items s zs"
  "sink_items (s\<lparr>tresult := g\<rparr>) zs = sink_items s zs" "sink_items (s\<lparr>tnext_index := n\<rparr>) zs = sink_items s zs"
  by (simp_all add: sink_items_def stack_def queue_def)







section \<open>A group as a bag of results\<close>



















text \<open>\<open>next()\<close> differs from \<open>next_result()\<close> in that its \<open>await_resume\<close> takes the value out of the result.\<close>

lemma next_value_resume: "next_await_resume s = map_option (map_prod next_value id) (next_result_await_resume s)"
  by (auto simp: next_await_resume_def next_result_await_resume_def next_value_def split: option.splits)

section \<open>Every program keeps the group\<close>














section \<open>Properties\<close>


text \<open>
  A task of a group sees the stop token and the task locals of the group as soon as
  its body runs: \<open>start\<close> enters the task \<open>t\<close> on the thread and \<open>with_task\<close> hands both over,
  while other tasks and other threads keep theirs.
\<close>

theorem group_task_inherits:
  assumes "enter i t h = Some h1" "path (lnext h) inherited bs"
  shows "\<exists>h2. group_with_task i tok inherited h1 = Some h2 \<and> current_stop_token i h2 = tok \<and>
    find_task_local i key h2 = find_from h key inherited \<and>
    current h2 = current h1 \<and> (\<forall>u. u \<noteq> t \<longrightarrow> task_at h2 u = task_at h1 u)"
proof -
  let ?h2 = "h1\<lparr>task_at := (task_at h1)(t := (task_at h1 t)\<lparr>token := tok, locals := inherited\<rparr>)\<rparr>"
  have h1: "current h1 i = Some t" "lnext h1 = lnext h" "lkey h1 = lkey h" "lvalue h1 = lvalue h"
    using assms(1) by (auto simp: enter_def split: if_splits)
  have "find_from ?h2 key inherited = find_from h key inherited"
    using find_from_path [of ?h2 inherited bs key] find_from_path [of h inherited bs key] assms(2) h1
    by (simp split: option.splits)
  then show ?thesis using h1(1)
    by (intro exI [of _ ?h2]) (simp add: group_with_task_def current_stop_token_def find_task_local_def find_local_def)
qed

theorem group_task_inherits_witness:
  "\<exists>h1 h2. enter 1 2 heap0 = Some h1 \<and> path (lnext heap0) (Some 3) [3] \<and> group_with_task 1 (Some 7) (Some 3) h1 = Some h2 \<and> current_stop_token 1 h2 = Some 7"
proof -
  obtain h1 where h1: "enter 1 2 heap0 = Some h1" by (simp add: enter_def heap0_def new_task_def)
  have p: "path (lnext heap0) (Some 3) [3]" by (simp add: heap0_def)
  show ?thesis using h1 p group_task_inherits [OF h1 p, of "Some 7"] by blast
qed



end
