(* ===== verification/Semaphore.thy ===== *)
theory Semaphore
  imports Prelude
begin

text \<open>
  \<open>sync_semaphore\<close> and \<open>sync_wait_group\<close> of \<open>coroactors/detail/atomic_semaphore.h\<close>.

  The value of a semaphore is four times its count plus the number of registered waiters,
  which saturates at three.  It is a signed machine integer of 32 bits (\<open>std::atomic<int>\<close>), whose
  arithmetic wraps around (\<open>wrap\<close>): no overflow happens while the permits ever given are fewer
  than \<open>2^29\<close>, which the properties assume.  The loops of \<open>acquire\<close> are given by their turns; how
  often a thread spins before it registers as a waiter depends on the clock and is left open.
\<close>

section \<open>Operations\<close>

definition wrap :: "int \<Rightarrow> int" where
  "wrap v = signed_take_bit 31 v"

lemma wrap_id [simp]: "- (2 ^ 31) \<le> v \<Longrightarrow> v < 2 ^ 31 \<Longrightarrow> wrap v = v"
  unfolding wrap_def by (rule signed_take_bit_int_eq_self)

definition waiters :: "int \<Rightarrow> int" where
  "waiters v = v mod 4"

definition semaphore :: "int \<Rightarrow> int" where
  "semaphore n = wrap (n * 4)"

datatype notify = NoNotify | NotifyOne | NotifyAll

definition sem_release :: "int \<Rightarrow> int \<Rightarrow> notify \<times> int" where
  "sem_release n v =
     (if waiters v \<noteq> 0 then (if n > 1 then NotifyAll else NotifyOne) else NoNotify, wrap (v + wrap (n * 4)))"

definition decremented_waiters :: "int \<Rightarrow> int" where
  "decremented_waiters cur = (if waiters cur = 3 then 0 else 1)"

text \<open>
  The program counters of \<open>acquire\<close>, with \<open>inc\<close> the increment of its count: the first
  compare-exchange, spinning with the value last seen, registering as a waiter, the slow loop,
  the comparison in \<open>wait\<close>, sleeping in it, the load after it.  A thread that wakes up in \<open>wait\<close>
  compares again, as the language requires.
\<close>

datatype acq_pc = AFast | ASpin int | ARegister int | ASlow int | AWait int | ASleep int | ALoad | AGot

definition increment :: "int \<Rightarrow> int" where
  "increment n = wrap (n * 4)"

definition acquire_fast :: "int \<Rightarrow> int \<Rightarrow> acq_pc \<times> int" where
  "acquire_fast inc v = (if v = inc then (AGot, 0) else (ASpin v, v))"

definition acquire_spin :: "int \<Rightarrow> int \<Rightarrow> bool \<Rightarrow> int \<Rightarrow> acq_pc \<times> int" where
  "acquire_spin inc cur spurious v =
     (if cur \<ge> inc then (if v = cur \<and> \<not> spurious then (AGot, wrap (cur - inc)) else (ASpin v, v))
      else (ASpin v, v))"

definition acquire_register :: "int \<Rightarrow> int \<Rightarrow> bool \<Rightarrow> int \<Rightarrow> acq_pc \<times> int" where
  "acquire_register inc cur spurious v =
     (if cur \<ge> inc then (if v = cur \<and> \<not> spurious then (AGot, wrap (cur - inc)) else (ARegister v, v))
      else if waiters cur = 3 then (ASlow cur, v)
      else if v = cur \<and> \<not> spurious then (ASlow (wrap (cur + 1)), wrap (cur + 1))
      else (ARegister v, v))"

definition acquire_slow :: "int \<Rightarrow> int \<Rightarrow> bool \<Rightarrow> int \<Rightarrow> acq_pc \<times> int" where
  "acquire_slow inc cur spurious v =
     (if cur \<ge> inc then
        (if v = cur \<and> \<not> spurious then (AGot, wrap (cur - inc - decremented_waiters cur)) else (ASlow v, v))
      else (AWait cur, v))"

definition acquire_wait :: "int \<Rightarrow> int \<Rightarrow> acq_pc" where
  "acquire_wait cur v = (if v = cur then ASleep cur else ALoad)"

section \<open>Interleaved executions\<close>

text \<open>
  Any number of threads acquire and release, with counts from the set \<open>K\<close>; a count is positive
  and four times an acquired count is in range.  \<open>notifies\<close> and \<open>notify_alls\<close> count the calls to
  \<open>notify_one\<close> and \<open>notify_all\<close> that are due but not made; \<open>got\<close> and \<open>released\<close> count the permits
  of completed operations.
\<close>

record sem_sys =
  val :: int
  acqs :: "(nat \<times> acq_pc) list"
  notifies :: nat
  notify_alls :: nat
  got :: nat
  released :: nat
  initial :: nat

definition sem_init :: "sem_sys \<Rightarrow> bool" where
  "sem_init s \<longleftrightarrow> val s = semaphore (int (initial s)) \<and> acqs s = [] \<and> notifies s = 0 \<and> notify_alls s = 0 \<and> got s = 0 \<and> released s = 0"

definition acquired :: "nat \<Rightarrow> acq_pc \<Rightarrow> nat" where
  "acquired k pc = (if pc = AGot then k else 0)"

definition keep :: "nat \<Rightarrow> acq_pc \<Rightarrow> (nat \<times> acq_pc) list" where
  "keep k pc = (if pc = AGot then [] else [(k, pc)])"

definition wake_up :: "nat \<times> acq_pc \<Rightarrow> nat \<times> acq_pc" where
  "wake_up p = (fst p, case snd p of ASleep cur \<Rightarrow> AWait cur | pc \<Rightarrow> pc)"

inductive sem_step :: "nat set \<Rightarrow> sem_sys \<Rightarrow> sem_sys \<Rightarrow> bool" for K :: "nat set" where
  s_begin: "k \<in> K \<Longrightarrow> 0 < k \<Longrightarrow> k < 2 ^ 29 \<Longrightarrow> sem_step K s (s\<lparr>acqs := (k, AFast) # acqs s\<rparr>)"
| s_fast: "acqs s = us @ (k, AFast) # vs \<Longrightarrow> acquire_fast (increment (int k)) (val s) = (pc, v) \<Longrightarrow>
     sem_step K s (s\<lparr>val := v, acqs := us @ keep k pc @ vs, got := got s + acquired k pc\<rparr>)"
| s_spin: "acqs s = us @ (k, ASpin cur) # vs \<Longrightarrow> acquire_spin (increment (int k)) cur spurious (val s) = (pc, v) \<Longrightarrow>
     sem_step K s (s\<lparr>val := v, acqs := us @ keep k pc @ vs, got := got s + acquired k pc\<rparr>)"
| s_give_up: "acqs s = us @ (k, ASpin cur) # vs \<Longrightarrow> sem_step K s (s\<lparr>acqs := us @ (k, ARegister cur) # vs\<rparr>)"
| s_register: "acqs s = us @ (k, ARegister cur) # vs \<Longrightarrow> acquire_register (increment (int k)) cur spurious (val s) = (pc, v) \<Longrightarrow>
     sem_step K s (s\<lparr>val := v, acqs := us @ keep k pc @ vs, got := got s + acquired k pc\<rparr>)"
| s_slow: "acqs s = us @ (k, ASlow cur) # vs \<Longrightarrow> acquire_slow (increment (int k)) cur spurious (val s) = (pc, v) \<Longrightarrow>
     sem_step K s (s\<lparr>val := v, acqs := us @ keep k pc @ vs, got := got s + acquired k pc\<rparr>)"
| s_wait: "acqs s = us @ (k, AWait cur) # vs \<Longrightarrow>
     sem_step K s (s\<lparr>acqs := us @ (k, acquire_wait cur (val s)) # vs\<rparr>)"
| s_load: "acqs s = us @ (k, ALoad) # vs \<Longrightarrow> sem_step K s (s\<lparr>acqs := us @ (k, ASlow (val s)) # vs\<rparr>)"
| s_wake: "acqs s = us @ (k, ASleep cur) # vs \<Longrightarrow> notifies s > 0 \<Longrightarrow>
     sem_step K s (s\<lparr>acqs := us @ (k, AWait cur) # vs, notifies := notifies s - 1\<rparr>)"
| s_notify_none: "\<forall>k cur. (k, ASleep cur) \<notin> set (acqs s) \<Longrightarrow> notifies s > 0 \<Longrightarrow>
     sem_step K s (s\<lparr>notifies := notifies s - 1\<rparr>)"
| s_wake_all: "notify_alls s > 0 \<Longrightarrow>
     sem_step K s (s\<lparr>acqs := map wake_up (acqs s), notify_alls := notify_alls s - 1\<rparr>)"
| s_spurious_wake: "acqs s = us @ (k, ASleep cur) # vs \<Longrightarrow> sem_step K s (s\<lparr>acqs := us @ (k, AWait cur) # vs\<rparr>)"
| s_release: "n \<in> K \<Longrightarrow> 0 < n \<Longrightarrow> sem_release (int n) (val s) = (nt, v) \<Longrightarrow>
     sem_step K s (s\<lparr>val := v, notifies := notifies s + (if nt = NotifyOne then 1 else 0),
       notify_alls := notify_alls s + (if nt = NotifyAll then 1 else 0), released := released s + n\<rparr>)"

section \<open>Invariant\<close>

fun asleep :: "nat \<times> acq_pc \<Rightarrow> bool" where
  "asleep (k, ASleep cur) = True"
| "asleep _ = False"

fun awake_waiter :: "nat \<times> acq_pc \<Rightarrow> bool" where
  "awake_waiter (k, ASlow cur) = True"
| "awake_waiter (k, AWait cur) = True"
| "awake_waiter (k, ALoad) = True"
| "awake_waiter _ = False"

definition sleepers :: "sem_sys \<Rightarrow> nat" where
  "sleepers s = length (filter asleep (acqs s))"

definition awake :: "sem_sys \<Rightarrow> nat" where
  "awake s = length (filter awake_waiter (acqs s))"

text \<open>\<open>n\<close> permits, \<open>w\<close> the waiter bits.  When every count is one, sleepers do not miss a permit.\<close>

definition sem_count :: "nat set \<Rightarrow> sem_sys \<Rightarrow> nat \<Rightarrow> nat \<Rightarrow> bool" where
  "sem_count K s n w \<longleftrightarrow> val s = 4 * int n + int w \<and> w \<le> 3 \<and>
     (w = 3 \<or> w = sleepers s + awake s) \<and>
     (K \<subseteq> {1} \<longrightarrow> sleepers s > 0 \<longrightarrow> n \<le> awake s + notifies s) \<and>
     n + got s = initial s + released s \<and> n < 2 ^ 29"

text \<open>Values read earlier: a waiter only goes to sleep when its permits are not there, and three waiters stay three.\<close>

definition sem_stale :: "nat set \<Rightarrow> (nat \<times> acq_pc) list \<Rightarrow> nat \<Rightarrow> bool" where
  "sem_stale K ps w \<longleftrightarrow> (\<forall>k pc. (k, pc) \<in> set ps \<longrightarrow> k \<in> K \<and> 0 < k \<and> k < 2 ^ 29) \<and>
     (\<forall>k cur. (k, AWait cur) \<in> set ps \<or> (k, ASleep cur) \<in> set ps \<longrightarrow> cur < 4 * int k) \<and>
     (\<forall>k cur. (k, ASpin cur) \<in> set ps \<or> (k, ARegister cur) \<in> set ps \<longrightarrow> waiters cur = 3 \<longrightarrow> w = 3)"

definition sem_rep :: "nat set \<Rightarrow> sem_sys \<Rightarrow> nat \<Rightarrow> nat \<Rightarrow> bool" where
  "sem_rep K s n w \<longleftrightarrow> sem_count K s n w \<and> sem_stale K (acqs s) w"

abbreviation count_ok :: "nat set \<Rightarrow> nat \<Rightarrow> bool" where
  "count_ok K k \<equiv> k \<in> K \<and> 0 < k \<and> k < 2 ^ 29"

lemma sem_stale_simps [simp]:
  "sem_stale K [] w" "sem_stale K (ps @ qs) w = (sem_stale K ps w \<and> sem_stale K qs w)"
  "sem_stale K ((k, AFast) # ps) w = (count_ok K k \<and> sem_stale K ps w)" "sem_stale K ((k, AGot) # ps) w = (count_ok K k \<and> sem_stale K ps w)"
  "sem_stale K ((k, ASlow cur) # ps) w = (count_ok K k \<and> sem_stale K ps w)" "sem_stale K ((k, ALoad) # ps) w = (count_ok K k \<and> sem_stale K ps w)"
  "sem_stale K ((k, ASleep cur) # ps) w = (cur < 4 * int k \<and> count_ok K k \<and> sem_stale K ps w)"
  "sem_stale K ((k, AWait cur) # ps) w = (cur < 4 * int k \<and> count_ok K k \<and> sem_stale K ps w)"
  "sem_stale K ((k, ASpin cur) # ps) w = ((waiters cur = 3 \<longrightarrow> w = 3) \<and> count_ok K k \<and> sem_stale K ps w)"
  "sem_stale K ((k, ARegister cur) # ps) w = ((waiters cur = 3 \<longrightarrow> w = 3) \<and> count_ok K k \<and> sem_stale K ps w)"
  by (auto simp: sem_stale_def)

lemma sem_stale_Cons: "sem_stale K (p # ps) w \<Longrightarrow> sem_stale K ps w \<and> count_ok K (fst p)"
  by (cases p) (auto simp: sem_stale_def)

definition sem_inv :: "nat set \<Rightarrow> sem_sys \<Rightarrow> bool" where
  "sem_inv K s \<longleftrightarrow> (initial s + released s < 2 ^ 29 \<longrightarrow> (\<exists>n w. sem_rep K s n w))"

lemma sem_invI: "sem_rep K s n w \<Longrightarrow> sem_inv K s"
  by (auto simp: sem_inv_def)

lemma sem_inv_init: "sem_init s \<Longrightarrow> sem_inv K s"
  unfolding sem_inv_def
  by (intro impI exI [of _ "initial s"] exI [of _ 0])
    (simp add: sem_init_def sem_rep_def sem_count_def semaphore_def sleepers_def awake_def)

lemma sem_repD:
  assumes "sem_rep K s n w"
  shows "waiters (val s) = int w" "val s \<ge> 4 * int k \<longleftrightarrow> n \<ge> k" "val s = 4 * int k \<longleftrightarrow> n = k \<and> w = 0"
    "sem_count K s n w" "sem_stale K (acqs s) w" "w \<le> 3" "0 \<le> val s" "val s < 2 ^ 31"
proof -
  have v: "val s = 4 * int n + int w" "w \<le> 3" "n < 2 ^ 29" using assms by (auto simp: sem_rep_def sem_count_def)
  show "waiters (val s) = int w" using v by (simp add: waiters_def)
  show "val s \<ge> 4 * int k \<longleftrightarrow> n \<ge> k" "val s = 4 * int k \<longleftrightarrow> n = k \<and> w = 0" "w \<le> 3" "0 \<le> val s" using v by presburger+
  have "int n < 2 ^ 29" using v(3) by simp
  then show "val s < 2 ^ 31" using v by simp
qed (use assms in \<open>auto simp: sem_rep_def\<close>)

lemma increment_ok [simp]: "k < 2 ^ 29 \<Longrightarrow> increment (int k) = 4 * int k"
  unfolding increment_def by (subst wrap_id) (simp_all add: mult.commute)

lemmas sem_defs = keep_def acquired_def sleepers_def awake_def

text \<open>A thread that is not registered as a waiter takes its permits, or reads the value again.\<close>

lemma take_inv:
  assumes "sem_rep K s n w" "acqs s = us @ (k, pc) # vs" "\<not> asleep (k, pc)" "\<not> awake_waiter (k, pc)" "val s \<ge> 4 * int k"
  shows "sem_inv K (s\<lparr>val := val s - 4 * int k, acqs := us @ vs, got := got s + k\<rparr>)"
proof (rule sem_invI [of _ _ "n - k" w])
  show "sem_rep K (s\<lparr>val := val s - 4 * int k, acqs := us @ vs, got := got s + k\<rparr>) (n - k) w"
    using sem_repD(2,4,5) [OF assms(1)] assms(2-5) sem_stale_Cons [of K "(k, pc)" vs w]
    by (auto simp: sem_rep_def sem_count_def sem_defs of_nat_diff)
qed

lemma wrap_take:
  assumes "sem_rep K s n w" "val s \<ge> 4 * int k"
  shows "wrap (val s - 4 * int k) = val s - 4 * int k"
  by (rule wrap_id) (use assms(2) sem_repD(8) [OF assms(1)] in linarith)+

lemma sem_member:
  assumes "sem_rep K s n w" "acqs s = us @ (k, pc) # vs"
  shows "count_ok K k" "increment (int k) = 4 * int k"
proof -
  show k: "count_ok K k" using sem_repD(5) [OF assms(1)] assms(2) by (auto simp: sem_stale_def)
  then show "increment (int k) = 4 * int k" by simp
qed

lemma fast_inv:
  assumes "sem_rep K s n w" "acqs s = us @ (k, AFast) # vs" "acquire_fast (increment (int k)) (val s) = (pc, v)"
  shows "sem_inv K (s\<lparr>val := v, acqs := us @ keep k pc @ vs, got := got s + acquired k pc\<rparr>)"
proof (cases "val s = 4 * int k")
  case True
  then show ?thesis using take_inv [OF assms(1,2)] assms(3) sem_member(2) [OF assms(1,2)]
    by (simp add: acquire_fast_def keep_def acquired_def split: if_splits)
next
  case False
  then have "pc = ASpin (val s)" "v = val s" using assms(3) sem_member(2) [OF assms(1,2)] by (auto simp: acquire_fast_def)
  moreover have "waiters (val s) = 3 \<longrightarrow> w = 3" using sem_repD(1) [OF assms(1)] by simp
  ultimately show ?thesis using sem_repD(4,5) [OF assms(1)] assms(2)
    by (intro sem_invI [of _ _ n w]) (auto simp: sem_rep_def sem_count_def sem_defs)
qed

lemma sem_move_inv:
  assumes "sem_rep K s n w" "acqs s = us @ (k, p) # vs" "\<not> asleep (k, p)" "\<not> awake_waiter (k, p)" "\<not> asleep (k, p')" "\<not> awake_waiter (k, p')"
    and "sem_stale K [(k, p')] w"
  shows "sem_inv K (s\<lparr>acqs := us @ (k, p') # vs\<rparr>)"
proof (rule sem_invI [of _ _ n w])
  have "sem_stale K (us @ (k, p') # vs) w"
    using sem_repD(5) [OF assms(1)] assms(2,7) unfolding sem_stale_def by auto
  then show "sem_rep K (s\<lparr>acqs := us @ (k, p') # vs\<rparr>) n w"
    using sem_repD(4) [OF assms(1)] assms(2-6) by (simp add: sem_rep_def sem_count_def sem_defs)
qed

lemma spin_inv:
  assumes "sem_rep K s n w" "acqs s = us @ (k, ASpin cur) # vs" "acquire_spin (increment (int k)) cur spurious (val s) = (pc, v)"
  shows "sem_inv K (s\<lparr>val := v, acqs := us @ keep k pc @ vs, got := got s + acquired k pc\<rparr>)"
  using assms(3) take_inv [OF assms(1,2)] sem_move_inv [OF assms(1,2), of "ASpin (val s)"] sem_repD(1) [OF assms(1)]
    sem_member [OF assms(1,2)] wrap_take [OF assms(1), of k]
  by (auto simp: acquire_spin_def keep_def acquired_def split: if_splits)

lemma register_inv:
  assumes "sem_rep K s n w" "acqs s = us @ (k, ARegister cur) # vs" "acquire_register (increment (int k)) cur spurious (val s) = (pc, v)"
  shows "sem_inv K (s\<lparr>val := v, acqs := us @ keep k pc @ vs, got := got s + acquired k pc\<rparr>)"
proof -
  note d = sem_repD [OF assms(1)] and k = sem_member [OF assms(1,2)]
  have sat: "sem_inv K (s\<lparr>acqs := us @ (k, ASlow cur) # vs\<rparr>)" if "waiters cur = 3"
    using d(4,5) assms(2) that by (intro sem_invI [of _ _ n w]) (auto simp: sem_rep_def sem_count_def sem_defs)
  have reg: "sem_inv K (s\<lparr>val := val s + 1, acqs := us @ (k, ASlow (val s + 1)) # vs\<rparr>)" "wrap (val s + 1) = val s + 1" if w3: "waiters (val s) \<noteq> 3"
  proof -
    have w: "w \<noteq> 3" using w3 d(1) by auto
    moreover have "sem_stale K (us @ vs) (w + 1)" using d(5) assms(2) w by (auto simp: sem_stale_def)
    ultimately have "sem_rep K (s\<lparr>val := val s + 1, acqs := us @ (k, ASlow (val s + 1)) # vs\<rparr>) n (w + 1)"
      using d(4) assms(2) k by (auto simp: sem_rep_def sem_count_def sem_defs)
    note r = this
    show "sem_inv K (s\<lparr>val := val s + 1, acqs := us @ (k, ASlow (val s + 1)) # vs\<rparr>)" by (rule sem_invI [OF r])
    show "wrap (val s + 1) = val s + 1" by (rule wrap_id) (use d(7) sem_repD(8) [OF r] in simp_all)
  qed
  show ?thesis
    using assms(3) take_inv [OF assms(1,2)] sem_move_inv [OF assms(1,2), of "ARegister (val s)"] sat reg d(1) k wrap_take [OF assms(1), of k]
    by (auto simp: acquire_register_def keep_def acquired_def split: if_splits)
qed

lemma slow_take_inv:
  assumes "sem_rep K s n w" "acqs s = us @ (k, ASlow cur) # vs" "val s \<ge> 4 * int k"
  shows "sem_inv K (s\<lparr>val := val s - 4 * int k - decremented_waiters (val s), acqs := us @ vs, got := got s + k\<rparr>)"
    "wrap (val s - 4 * int k - decremented_waiters (val s)) = val s - 4 * int k - decremented_waiters (val s)"
proof -
  note d = sem_repD [OF assms(1)]
  have n: "n \<ge> k" "k > 0" using d(2) assms(3) sem_member(1) [OF assms(1,2)] by auto
  show "sem_inv K (s\<lparr>val := val s - 4 * int k - decremented_waiters (val s), acqs := us @ vs, got := got s + k\<rparr>)"
  proof (cases "w = 3")
    case True
    then show ?thesis using d(1,4,5) n assms(2)
      by (intro sem_invI [of _ _ "n - k" 3]) (auto simp: sem_rep_def sem_count_def sem_defs decremented_waiters_def of_nat_diff)
  next
    case False
    then have "w > 0" "sem_stale K (us @ vs) (w - 1)" using d(4,5) assms(2) by (auto simp: sem_count_def sem_defs sem_stale_def)
    then show ?thesis using d(1,4) n assms(2) False
      by (intro sem_invI [of _ _ "n - k" "w - 1"]) (auto simp: sem_rep_def sem_count_def sem_defs decremented_waiters_def of_nat_diff)
  qed
  show "wrap (val s - 4 * int k - decremented_waiters (val s)) = val s - 4 * int k - decremented_waiters (val s)"
    by (rule wrap_id) (use assms(3) d(8) in \<open>simp_all add: decremented_waiters_def\<close>)
qed

lemma slow_inv:
  assumes "sem_rep K s n w" "acqs s = us @ (k, ASlow cur) # vs" "acquire_slow (increment (int k)) cur spurious (val s) = (pc, v)"
  shows "sem_inv K (s\<lparr>val := v, acqs := us @ keep k pc @ vs, got := got s + acquired k pc\<rparr>)"
proof -
  have "sem_inv K (s\<lparr>acqs := us @ (k, ASlow (val s)) # vs\<rparr>)" "cur < 4 * int k \<Longrightarrow> sem_inv K (s\<lparr>acqs := us @ (k, AWait cur) # vs\<rparr>)"
    using sem_repD(4,5) [OF assms(1)] assms(2)
    by (auto intro!: sem_invI [of _ _ n w] simp: sem_rep_def sem_count_def sem_defs)
  then show ?thesis using assms(3) slow_take_inv [OF assms(1,2)] sem_member [OF assms(1,2)]
    by (auto simp: acquire_slow_def keep_def acquired_def split: if_splits)
qed

lemma sem_wait_inv:
  assumes "sem_rep K s n w" "acqs s = us @ (k, AWait cur) # vs"
  shows "sem_inv K (s\<lparr>acqs := us @ (k, acquire_wait cur (val s)) # vs\<rparr>)"
proof -
  note d = sem_repD [OF assms(1)] and k = sem_member [OF assms(1,2)]
  have "cur < 4 * int k" using d(5) assms(2) by simp
  then have "val s = cur \<Longrightarrow> n < k" using d(2) [of k] by auto
  then have "val s = cur \<Longrightarrow> K \<subseteq> {1} \<Longrightarrow> n = 0" using k(1) by fastforce
  then show ?thesis using d(4,5) assms(2)
    by (intro sem_invI [of _ _ n w]) (auto simp: sem_rep_def sem_count_def acquire_wait_def sem_defs)
qed

lemma release_inv:
  assumes "sem_rep K s n w" "sem_release (int m) (val s) = (nt, v)" "m \<in> K" "0 < m"
  shows "sem_inv K (s\<lparr>val := v, notifies := notifies s + (if nt = NotifyOne then 1 else 0),
    notify_alls := notify_alls s + (if nt = NotifyAll then 1 else 0), released := released s + m\<rparr>)" (is "sem_inv K ?t")
  unfolding sem_inv_def
proof (intro impI exI)
  assume b: "initial ?t + released ?t < 2 ^ 29"
  note d = sem_repD [OF assms(1)]
  have z: "w = 0 \<Longrightarrow> sleepers s = 0" using d(4) by (auto simp: sem_count_def)
  have n: "n + m < 2 ^ 29" "val s = 4 * int n + int w" using b d(4) by (auto simp: sem_count_def)
  then have i: "int n + int m < 2 ^ 29" by simp
  then have "wrap (int m * 4) = int m * 4" by (intro wrap_id) simp_all
  moreover have "wrap (val s + int m * 4) = val s + int m * 4" by (rule wrap_id) (use i n(2) d(6) in simp_all)
  ultimately have v: "v = 4 * int (n + m) + int w" using assms(2) n(2) by (simp add: sem_release_def)
  have "K \<subseteq> {1} \<Longrightarrow> m = 1" using assms(3) by auto
  then show "sem_rep K ?t (n + m) w"
    using z n d(1,4,5) v assms(2) by (auto simp: sem_rep_def sem_count_def sleepers_def awake_def sem_release_def split: if_splits)
qed

lemma asleep_iff: "asleep p \<longleftrightarrow> (\<exists>k cur. p = (k, ASleep cur))"
  by (cases p rule: asleep.cases) auto

lemma wake_all_inv:
  assumes "sem_rep K s n w"
  shows "sem_inv K (s\<lparr>acqs := map wake_up (acqs s), notify_alls := m\<rparr>)"
proof (rule sem_invI [of _ _ n w])
  note d = sem_repD [OF assms(1)]
  have "filter asleep (map wake_up ps) = []" for ps
    by (induction ps) (auto simp: wake_up_def asleep_iff split: acq_pc.splits)
  moreover have "length (filter awake_waiter (map wake_up ps)) = length (filter awake_waiter ps) + length (filter asleep ps)" for ps
  proof (induction ps)
    case (Cons p ps)
    then show ?case by (cases p; cases "snd p") (auto simp: wake_up_def)
  qed simp
  moreover have "sem_stale K (map wake_up ps) w" if "sem_stale K ps w" for ps
    using that
  proof (induction ps)
    case (Cons p ps)
    then show ?case using sem_stale_Cons [OF Cons.prems] by (cases p; cases "snd p") (auto simp: wake_up_def)
  qed simp
  ultimately show "sem_rep K (s\<lparr>acqs := map wake_up (acqs s), notify_alls := m\<rparr>) n w"
    using d(4,5) by (auto simp: sem_rep_def sem_count_def sleepers_def awake_def)
qed

lemma sem_step_bound: "sem_step K s t \<Longrightarrow> initial t = initial s \<and> released s \<le> released t"
  by (cases rule: sem_step.cases) auto

lemma sem_step_inv:
  assumes "sem_inv K s" "sem_step K s t"
  shows "sem_inv K t"
proof (cases "initial s + released s < 2 ^ 29")
  case False
  then show ?thesis using sem_step_bound [OF assms(2)] by (auto simp: sem_inv_def)
next
  case True
  then obtain n w where r: "sem_rep K s n w" using assms(1) by (auto simp: sem_inv_def)
  note d = sem_repD(4,5) [OF r]
  from assms(2) show ?thesis
  proof cases
    case (s_begin k)
    then show ?thesis using d by (intro sem_invI [of _ _ n w]) (auto simp: sem_rep_def sem_count_def sem_defs)
  next
    case (s_fast us k vs pc v)
    then show ?thesis using fast_inv [OF r] by simp
  next
    case (s_spin us k cur vs spurious pc v)
    then show ?thesis using spin_inv [OF r] by simp
  next
    case (s_give_up us k cur vs)
    then show ?thesis using sem_move_inv [OF r s_give_up(2), of "ARegister cur"] d(2) by simp
  next
    case (s_register us k cur vs spurious pc v)
    then show ?thesis using register_inv [OF r] by simp
  next
    case (s_slow us k cur vs spurious pc v)
    then show ?thesis using slow_inv [OF r] by simp
  next
    case (s_wait us k cur vs)
    then show ?thesis using sem_wait_inv [OF r] by simp
  next
    case (s_load us k vs)
    then show ?thesis using d by (intro sem_invI [of _ _ n w]) (auto simp: sem_rep_def sem_count_def sem_defs)
  next
    case (s_wake us k cur vs)
    then show ?thesis using d by (intro sem_invI [of _ _ n w]) (auto simp: sem_rep_def sem_count_def sem_defs)
  next
    case s_notify_none
    then have "filter asleep (acqs s) = []" by (auto simp: filter_empty_conv asleep_iff)
    then show ?thesis using d s_notify_none(1) by (intro sem_invI [of _ _ n w]) (auto simp: sem_rep_def sem_count_def sem_defs)
  next
    case s_wake_all
    then show ?thesis using wake_all_inv [OF r] by simp
  next
    case (s_spurious_wake us k cur vs)
    then show ?thesis using d by (intro sem_invI [of _ _ n w]) (auto simp: sem_rep_def sem_count_def sem_defs)
  next
    case (s_release m nt v)
    then show ?thesis using release_inv [OF r] by simp
  qed
qed

interpretation sem: inv_system sem_init "sem_step K" "sem_inv K"
  by unfold_locales (auto intro: sem_inv_init sem_step_inv)

section \<open>Wait groups\<close>

definition wg_add :: "int \<Rightarrow> int \<Rightarrow> int" where
  "wg_add n v = wrap (v + n)"

definition wg_done :: "int \<Rightarrow> int \<Rightarrow> bool \<times> int" where
  "wg_done n v = (v = n, wrap (v - n))"

text \<open>\<open>wait\<close> against the values that its successive loads see.\<close>

fun wg_wait :: "int list \<Rightarrow> bool" where
  "wg_wait [] = False"
| "wg_wait (v # vs) = (v = 0 \<or> wg_wait vs)"

section \<open>Properties\<close>

text \<open>
  C23. Permits are neither lost nor invented.  As long as fewer than \<open>2^29\<close> permits were ever given,
  initially or by \<open>release\<close>, in every interleaving of acquisitions and releases of any counts the
  32-bit value of the semaphore is four times the permits left plus the waiter bits, and the
  permits left are the initial and the released ones less those acquired; so acquisitions never
  outnumber them.
\<close>

theorem semaphore_permits:
  assumes "reach sem_init (sem_step K) s" "initial s + released s < 2 ^ 29"
  shows "\<exists>n w. val s = 4 * int n + int w \<and> w \<le> 3 \<and> n + got s = initial s + released s"
  using sem.reach_inv [OF assms(1)] assms(2) by (auto simp: sem_inv_def sem_rep_def sem_count_def)

text \<open>A thread that waits and a release that has not called \<open>notify_one\<close> yet.\<close>

definition sem0 :: sem_sys where
  "sem0 = \<lparr>val = 0, acqs = [], notifies = 0, notify_alls = 0, got = 0, released = 0, initial = 0\<rparr>"

definition sem_sleeping :: sem_sys where
  "sem_sleeping = sem0\<lparr>val := 1, acqs := [(1, ASleep 1)]\<rparr>"

definition sem_notifying :: sem_sys where
  "sem_notifying = sem0\<lparr>val := 5, acqs := [(1, ASleep 1)], notifies := 1, released := 1\<rparr>"

lemma sem_notifying_reach: "reach sem_init (sem_step {1}) sem_notifying"
proof -
  have "reach sem_init (sem_step {1}) sem0" by (rule reach_init) (simp add: sem_init_def sem0_def semaphore_def)
  moreover have "follow (sem_step {1}) sem0 [sem0\<lparr>acqs := [(1, AFast)]\<rparr>, sem0\<lparr>acqs := [(1, ASpin 0)]\<rparr>, sem0\<lparr>acqs := [(1, ARegister 0)]\<rparr>,
    sem0\<lparr>val := 1, acqs := [(1, ASlow 1)]\<rparr>, sem0\<lparr>val := 1, acqs := [(1, AWait 1)]\<rparr>, sem_sleeping, sem_notifying]"
    using s_begin [of 1 "{1}" sem0] s_fast [of "sem0\<lparr>acqs := [(1, AFast)]\<rparr>" "[]" 1 "[]" "ASpin 0" 0 "{1}"]
      s_give_up [of "sem0\<lparr>acqs := [(1, ASpin 0)]\<rparr>" "[]" 1 0 "[]" "{1}"]
      s_register [of "sem0\<lparr>acqs := [(1, ARegister 0)]\<rparr>" "[]" 1 0 "[]" False "ASlow 1" 1 "{1}"]
      s_slow [of "sem0\<lparr>val := 1, acqs := [(1, ASlow 1)]\<rparr>" "[]" 1 1 "[]" False "AWait 1" 1 "{1}"]
      s_wait [of "sem0\<lparr>val := 1, acqs := [(1, AWait 1)]\<rparr>" "[]" 1 1 "[]" "{1}"]
      s_release [of 1 "{1}" sem_sleeping NotifyOne 5] increment_ok [of 1]
    by (simp add: sem0_def sem_sleeping_def sem_notifying_def keep_def acquired_def acquire_fast_def
        acquire_register_def acquire_slow_def acquire_wait_def sem_release_def waiters_def)
  ultimately show ?thesis using reach_last by fastforce
qed

theorem semaphore_permits_witness:
  "\<exists>n w. val sem_notifying = 4 * int n + int w \<and> n + got sem_notifying = 1"
  using semaphore_permits [OF sem_notifying_reach] by (auto simp: sem_notifying_def sem0_def)

text \<open>
  C24. No wakeup is lost.  When threads acquire and release one permit at a time, and fewer than
  \<open>2^29\<close> permits were ever given, then while a thread sleeps in \<open>acquire\<close>, every permit that is
  available has a registered waiter that is awake and will try again, or a \<open>notify_one\<close> that is
  about to wake one.
\<close>

theorem semaphore_no_lost_wakeup:
  assumes "reach sem_init (sem_step {1}) s" "initial s + released s < 2 ^ 29" "sleepers s > 0"
  shows "val s div 4 \<le> int (awake s + notifies s)"
proof -
  obtain n w where "sem_count {1} s n w" using sem.reach_inv [OF assms(1)] assms(2) by (auto simp: sem_inv_def sem_rep_def)
  moreover from this have "val s div 4 = int n" by (auto simp: sem_count_def)
  ultimately show ?thesis using assms(3) by (simp add: sem_count_def)
qed

theorem semaphore_no_lost_wakeup_witness:
  "sleepers sem_notifying = 1 \<and> val sem_notifying div 4 = 1 \<and> 1 \<le> int (awake sem_notifying + notifies sem_notifying)"
  using semaphore_no_lost_wakeup [OF sem_notifying_reach]
  by (simp add: sem_notifying_def sem0_def sleepers_def awake_def)

end
