(* ===== verification/Stop_Token.thy ===== *)
theory Stop_Token
  imports Prelude "HOL-Library.Word"
begin

text \<open>
  Cancellation: \<open>stop_state\<close> and the objects around it in
  \<open>coroactors/detail/stop_token_polyfill.h\<close>.

  The atomic word holds the stop flag, the waiting flag, a lock bit and the number of stop
  sources; callbacks are a doubly linked list protected by the lock bit.  The lock loops are
  given by their turns.  The word is the 32-bit \<open>int\<close> of a Linux futex.
\<close>

unbundle bit_operations_syntax

section \<open>The atomic word\<close>

type_synonym stop_word = "32 word"

definition FlagStopped :: stop_word where "FlagStopped = 1"
definition FlagWaiting :: stop_word where "FlagWaiting = 2"
definition FlagLocked :: stop_word where "FlagLocked = 4"
definition SourceCountIncrement :: stop_word where "SourceCountIncrement = 8"

definition has_flag :: "stop_word \<Rightarrow> stop_word \<Rightarrow> bool" where
  "has_flag v f \<longleftrightarrow> v AND f \<noteq> 0"

definition has_sources :: "stop_word \<Rightarrow> bool" where
  "has_sources v \<longleftrightarrow> \<not> sint v < sint SourceCountIncrement"

definition add_source :: "stop_word \<Rightarrow> stop_word" where
  "add_source v = v + SourceCountIncrement"

definition remove_source :: "stop_word \<Rightarrow> stop_word" where
  "remove_source v = v - SourceCountIncrement"

definition stop_requested :: "stop_word \<Rightarrow> bool" where
  "stop_requested v = has_flag v FlagStopped"

definition stop_possible :: "stop_word \<Rightarrow> bool" where
  "stop_possible v \<longleftrightarrow> has_flag v FlagStopped \<or> has_sources v"

text \<open>
  One turn of the loop of \<open>lock\<close> with the word \<open>cur\<close> read before: it takes the lock, sets the
  waiting flag, or reads the word again (after a spin, a failed exchange or a wait).
\<close>

datatype lock_out = LRetry stop_word | LLocked

definition lock_wait :: "stop_word \<Rightarrow> bool \<Rightarrow> stop_word \<Rightarrow> lock_out \<times> stop_word" where
  "lock_wait cur spurious v =
     (if \<not> has_flag cur FlagWaiting \<and> v = cur \<and> \<not> spurious then (LRetry (v OR FlagWaiting), v OR FlagWaiting)
      else (LRetry v, v))"

definition lock_try :: "stop_word \<Rightarrow> bool \<Rightarrow> stop_word \<Rightarrow> lock_out \<times> stop_word" where
  "lock_try cur spurious v =
     (if \<not> has_flag cur FlagLocked then
        (if v = cur \<and> \<not> spurious then (LLocked, v OR FlagLocked) else (LRetry v, v))
      else lock_wait cur spurious v)"

definition unlock :: "stop_word \<Rightarrow> stop_word" where
  "unlock v = v - FlagLocked"

text \<open>The loops of \<open>lock_stop\<close> and \<open>add_callback\<close>, which may end without the lock.\<close>

datatype stop_lock_out = SStopped | SNoSources | STurn lock_out

definition lock_stop_try :: "stop_word \<Rightarrow> bool \<Rightarrow> stop_word \<Rightarrow> stop_lock_out \<times> stop_word" where
  "lock_stop_try cur spurious v =
     (if has_flag cur FlagStopped then (SStopped, v)
      else if \<not> has_flag cur FlagLocked then
        (if v = cur \<and> \<not> spurious then (STurn LLocked, (v OR FlagLocked) OR FlagStopped) else (STurn (LRetry v), v))
      else apfst STurn (lock_wait cur spurious v))"

definition add_lock_try :: "stop_word \<Rightarrow> bool \<Rightarrow> stop_word \<Rightarrow> stop_lock_out \<times> stop_word" where
  "add_lock_try cur spurious v =
     (if has_flag cur FlagStopped then (SStopped, v)
      else if \<not> has_sources cur then (SNoSources, v)
      else apfst STurn (lock_try cur spurious v))"

text \<open>What a word means: \<open>n\<close> sources, locked, waiting and stopped bits.\<close>

definition enc :: "nat \<Rightarrow> bool \<Rightarrow> bool \<Rightarrow> bool \<Rightarrow> stop_word" where
  "enc n l w s = of_nat (8 * n + (if l then 4 else 0) + (if w then 2 else 0) + (if s then 1 else 0))"

definition max_sources :: nat where
  "max_sources = 2 ^ 28"

lemma unat_enc: "n < max_sources \<Longrightarrow>
   unat (enc n l w s) = 8 * n + (if l then 4 else 0) + (if w then 2 else 0) + (if s then 1 else 0)"
  unfolding enc_def unsigned_of_nat by (simp only: of_nat_id, rule take_bit_nat_eq_self) (auto simp: max_sources_def)

lemma bit_enc:
  assumes "n < max_sources"
  shows "bit (enc n l w s) 0 = s" "bit (enc n l w s) 1 = w" "bit (enc n l w s) 2 = l"
proof -
  have b: "bit v k = odd (unat v div 2 ^ k)" if "k < 32" for v :: stop_word and k
    using that bit_unsigned_iff [of v k, where ?'a = nat] by (simp add: bit_iff_odd)
  have "bit v 0 = odd (unat v)" "bit v 1 = odd (unat v div 2)" "bit v 2 = odd (unat v div 4)" for v :: stop_word
    using b [of 0 v] b [of 1 v] b [of 2 v] by simp_all
  note bits = this
  show "bit (enc n l w s) 0 = s" unfolding bits unat_enc [OF assms]
    by (cases l; cases w; cases s; simp only: if_True if_False simp_thms; presburger)
  show "bit (enc n l w s) 1 = w" unfolding bits unat_enc [OF assms]
    by (cases l; cases w; cases s; simp only: if_True if_False simp_thms; presburger)
  show "bit (enc n l w s) 2 = l" unfolding bits unat_enc [OF assms]
    by (cases l; cases w; cases s; simp only: if_True if_False simp_thms; presburger)
qed

lemma enc_flags [simp]:
  assumes "n < max_sources"
  shows "has_flag (enc n l w s) FlagStopped = s" "has_flag (enc n l w s) FlagWaiting = w"
    "has_flag (enc n l w s) FlagLocked = l"
proof -
  have e: "v AND 2 ^ k = 0 \<longleftrightarrow> \<not> bit v k" if "k < 32" for v :: stop_word and k
    using that by (simp add: and_exp_eq_0_iff_not_bit)
  show "has_flag (enc n l w s) FlagStopped = s" "has_flag (enc n l w s) FlagWaiting = w"
    "has_flag (enc n l w s) FlagLocked = l"
    using e [of 0 "enc n l w s"] e [of 1 "enc n l w s"] e [of 2 "enc n l w s"] bit_enc [OF assms, of l w s]
    by (simp_all add: has_flag_def FlagStopped_def FlagWaiting_def FlagLocked_def)
qed

lemma word_or_add: "\<not> bit (v :: stop_word) k \<Longrightarrow> k < 32 \<Longrightarrow> v OR 2 ^ k = v + 2 ^ k"
  by (rule disjunctive_add [symmetric]) (auto simp: bit_exp_iff)

lemma enc_or [simp]:
  assumes "n < max_sources"
  shows "enc n False w s OR FlagLocked = enc n True w s" "enc n l False s OR FlagWaiting = enc n l True s"
    "enc n l w False OR FlagStopped = enc n l w True"
  using word_or_add [of "enc n False w s" 2] word_or_add [of "enc n l False s" 1] word_or_add [of "enc n l w False" 0]
    bit_enc [OF assms]
  by (simp_all add: FlagLocked_def FlagWaiting_def FlagStopped_def) (simp_all add: enc_def)

lemma enc_unlock [simp]: "unlock (enc n True w s) = enc n False w s"
  by (simp add: unlock_def FlagLocked_def enc_def)

lemma enc_add_source [simp]: "add_source (enc n l w s) = enc (Suc n) l w s"
  by (simp add: add_source_def SourceCountIncrement_def enc_def)

lemma enc_remove_source [simp]: "n > 0 \<Longrightarrow> remove_source (enc n l w s) = enc (n - 1) l w s"
  by (cases n) (simp_all add: remove_source_def SourceCountIncrement_def enc_def)

lemma enc_sources [simp]: "n < max_sources \<Longrightarrow> has_sources (enc n l w s) \<longleftrightarrow> n > 0"
proof -
  assume n: "n < max_sources"
  then have "unat (enc n l w s) < 2 ^ 31" by (simp add: unat_enc max_sources_def)
  then have "uint (enc n l w s) < 2 ^ 31"
    unfolding uint_nat by (metis of_nat_less_iff of_nat_numeral of_nat_power)
  then have "sint (enc n l w s) = uint (enc n l w s)"
    using signed_take_bit_int_eq_self [of 31 "uint (enc n l w s)"] unsigned_greater_eq [of "enc n l w s", where ?'a = int]
    by (simp add: sint_uint)
  then have "sint (enc n l w s) = int (unat (enc n l w s))" by (simp only: uint_nat)
  then show ?thesis using n by (auto simp: has_sources_def SourceCountIncrement_def unat_enc)
qed

section \<open>The list of callbacks\<close>

record stop_state =
  word :: stop_word
  head :: "addr option"
  nx :: "addr \<Rightarrow> addr option"
  pv :: "addr \<Rightarrow> addr option"
  running_thread :: "tid option"
  removed_ptr :: "addr \<Rightarrow> bool"
  done_sem :: "addr \<Rightarrow> nat"

definition stop_state :: stop_state where
  "stop_state = \<lparr>word = 0, head = None, nx = (\<lambda>_. None), pv = (\<lambda>_. None), running_thread = None,
     removed_ptr = (\<lambda>_. False), done_sem = (\<lambda>_. 0)\<rparr>"

text \<open>The part of \<open>add_callback\<close> under the lock.\<close>

definition link_callback :: "addr \<Rightarrow> stop_state \<Rightarrow> stop_state" where
  "link_callback c s = (case head s of
       None \<Rightarrow> s\<lparr>head := Some c\<rparr>
     | Some h \<Rightarrow> s\<lparr>nx := (nx s)(c := Some h), pv := (pv s)(h := Some c), head := Some c\<rparr>)"

definition remove_callback_locked :: "addr \<Rightarrow> stop_state \<Rightarrow> bool \<times> stop_state" where
  "remove_callback_locked c s =
     (if head s = Some c then
        (True, s\<lparr>head := nx s c,
                 pv := (case nx s c of Some d \<Rightarrow> (pv s)(d := None) | None \<Rightarrow> pv s),
                 nx := (nx s)(c := None)\<rparr>)
      else (case pv s c of
          Some p \<Rightarrow>
            (True, s\<lparr>nx := (case nx s c of Some d \<Rightarrow> (nx s)(p := Some d, c := None) | None \<Rightarrow> (nx s)(p := None)),
                     pv := (case nx s c of Some d \<Rightarrow> (pv s)(d := Some p, c := None) | None \<Rightarrow> (pv s)(c := None))\<rparr>)
        | None \<Rightarrow> (False, s)))"

text \<open>The head of the loop of \<open>request_stop\<close>: take the first callback and tell whether more follow.\<close>

definition pop_callback :: "stop_state \<Rightarrow> (addr \<times> bool \<times> stop_state) option" where
  "pop_callback s = (case head s of
       None \<Rightarrow> None
     | Some c \<Rightarrow> Some (c, nx s c = None,
         s\<lparr>head := nx s c,
           pv := (case nx s c of Some d \<Rightarrow> (pv s)(d := None) | None \<Rightarrow> pv s),
           nx := (nx s)(c := None),
           removed_ptr := (removed_ptr s)(c := True)\<rparr>))"

text \<open>\<open>prevs f p xs\<close>: the \<open>prev\<close> pointers of the nodes \<open>xs\<close>, the first pointing to \<open>p\<close>.\<close>

fun prevs :: "(addr \<Rightarrow> addr option) \<Rightarrow> addr option \<Rightarrow> addr list \<Rightarrow> bool" where
  "prevs f p [] = True"
| "prevs f p (a # xs) = (f a = p \<and> prevs f (Some a) xs)"

definition dll :: "stop_state \<Rightarrow> addr list \<Rightarrow> bool" where
  "dll s xs \<longleftrightarrow> path (nx s) (head s) xs \<and> prevs (pv s) None xs \<and> distinct xs \<and>
     (\<forall>c. c \<notin> set xs \<longrightarrow> nx s c = None \<and> pv s c = None)"

lemma prevs_upd [simp]: "a \<notin> set xs \<Longrightarrow> prevs (f(a := q)) p xs = prevs f p xs"
  by (induction xs arbitrary: p) auto

lemma dll_head: "dll s xs \<Longrightarrow> head s = (case xs of [] \<Rightarrow> None | c # _ \<Rightarrow> Some c)"
  by (cases xs) (auto simp: dll_def)

lemma dll_word [simp]: "dll (s\<lparr>word := v\<rparr>) xs = dll s xs" "dll (s\<lparr>running_thread := r\<rparr>) xs = dll s xs"
  "dll (s\<lparr>removed_ptr := f\<rparr>) xs = dll s xs" "dll (s\<lparr>done_sem := g\<rparr>) xs = dll s xs"
  by (simp_all add: dll_def)

lemma link_dll:
  assumes "dll s xs" "c \<notin> set xs"
  shows "dll (link_callback c s) (c # xs)"
  using assms by (cases xs) (auto simp: dll_def link_callback_def)

lemma unlink_head_dll:
  assumes "dll s (c # xs)"
  shows "dll (s\<lparr>head := nx s c, pv := (case nx s c of Some d \<Rightarrow> (pv s)(d := None) | None \<Rightarrow> pv s), nx := (nx s)(c := None)\<rparr>) xs"
    "nx s c = None \<longleftrightarrow> xs = []"
  using assms by (cases xs; auto simp: dll_def)+

lemma pop_dll:
  assumes "dll s (c # xs)"
  shows "\<exists>s'. pop_callback s = Some (c, xs = [], s') \<and> dll s' xs \<and> word s' = word s \<and> running_thread s' = running_thread s \<and>
    removed_ptr s' = (removed_ptr s)(c := True) \<and> done_sem s' = done_sem s"
  using unlink_head_dll [OF assms] dll_head [OF assms] by (simp add: pop_callback_def dll_def)

lemma path_unlink: "path f h (ys @ p # c # zs) \<Longrightarrow> distinct (ys @ p # c # zs) \<Longrightarrow> path (f(p := f c)) h (ys @ p # zs)"
  by (induction ys arbitrary: h) auto

lemma prevs_unlink: "prevs f q (ys @ p # c # zs) \<Longrightarrow> distinct (ys @ p # c # zs) \<Longrightarrow>
   prevs (case zs of [] \<Rightarrow> f | d # _ \<Rightarrow> f(d := Some p)) q (ys @ p # zs) \<and> f c = Some p"
  by (induction ys arbitrary: q) (auto split: list.splits)

lemma path_next: "path f h (ys @ c # zs) \<Longrightarrow> f c = (case zs of [] \<Rightarrow> None | d # _ \<Rightarrow> Some d)"
  by (induction ys arbitrary: h) (auto split: list.splits)

lemma remove_inner_dll:
  assumes "dll s (ys @ p # c # zs)"
  shows "\<exists>s'. remove_callback_locked c s = (True, s') \<and> dll s' (ys @ p # zs)"
proof -
  have p: "path (nx s) (head s) (ys @ p # c # zs)" and b: "prevs (pv s) None (ys @ p # c # zs)"
    and d: "distinct (ys @ p # c # zs)" and n: "\<And>a. a \<notin> set (ys @ p # c # zs) \<Longrightarrow> nx s a = None \<and> pv s a = None"
    using assms by (auto simp: dll_def)
  have h: "head s \<noteq> Some c" using p d by (cases ys) auto
  have c: "pv s c = Some p" "nx s c = (case zs of [] \<Rightarrow> None | d # _ \<Rightarrow> Some d)"
    using prevs_unlink [OF b d] path_next [of "nx s" "head s" "ys @ [p]" c zs] p by auto
  have p': "path ((nx s)(p := nx s c, c := None)) (head s) (ys @ p # zs)"
    using path_unlink [OF p d] d by simp
  have b': "prevs ((case zs of [] \<Rightarrow> pv s | d # _ \<Rightarrow> (pv s)(d := Some p))(c := None)) None (ys @ p # zs)"
    using prevs_unlink [OF b d] d by simp
  have d': "distinct (ys @ p # zs)" using d by auto
  let ?s = "s\<lparr>nx := (nx s)(p := nx s c, c := None), pv := (case zs of [] \<Rightarrow> pv s | d # _ \<Rightarrow> (pv s)(d := Some p))(c := None)\<rparr>"
  have "dll ?s (ys @ p # zs)" unfolding dll_def
    using p' b' d' n by (auto split: list.splits)
  moreover have "(case nx s c of Some d \<Rightarrow> (nx s)(p := Some d, c := None) | None \<Rightarrow> (nx s)(p := None)) = (nx s)(p := nx s c, c := None)"
    using c(2) by (auto split: option.splits simp: fun_eq_iff)
  ultimately show ?thesis using h c by (cases zs) (auto simp: remove_callback_locked_def)
qed

lemma remove_dll:
  assumes "dll s xs"
  shows "\<exists>s'. remove_callback_locked c s = (c \<in> set xs, s') \<and> dll s' (remove1 c xs)"
proof (cases "c \<in> set xs")
  case False
  then have "head s \<noteq> Some c" "pv s c = None" using assms dll_head [OF assms] by (auto simp: dll_def split: list.splits)
  then show ?thesis using False assms by (simp add: remove_callback_locked_def remove1_idem)
next
  case True
  then obtain us zs where xs: "xs = us @ c # zs" "c \<notin> set us" by (meson split_list_first)
  show ?thesis
  proof (cases us rule: rev_cases)
    case Nil
    then show ?thesis using unlink_head_dll(1) [of s c zs] dll_head [OF assms] assms xs
      by (simp add: remove_callback_locked_def)
  next
    case (snoc ys p)
    then show ?thesis using remove_inner_dll [of s ys p c zs] assms xs True by (auto simp: remove1_append)
  qed
qed

lemma remove_keeps:
  "remove_callback_locked c s = (b, s') \<Longrightarrow> word s' = word s \<and> running_thread s' = running_thread s \<and>
   removed_ptr s' = removed_ptr s \<and> done_sem s' = done_sem s"
  by (auto simp: remove_callback_locked_def split: if_splits option.splits)

lemma link_keeps [simp]: "word (link_callback c s) = word s" "running_thread (link_callback c s) = running_thread s"
  "removed_ptr (link_callback c s) = removed_ptr s" "done_sem (link_callback c s) = done_sem s"
  by (simp_all add: link_callback_def split: option.splits)

section \<open>The lock\<close>

text \<open>
  Threads that run \<open>lock\<close>, \<open>lock_stop\<close> and the loop of \<open>add_callback\<close> against the word,
  with stop sources coming and going.  \<open>stops\<close> counts the successful calls to
  \<open>lock_stop\<close>.
\<close>

datatype lock_pc = WantLock stop_word | WantStop stop_word | WantAdd stop_word | Holds

record lock_sys =
  lword :: stop_word
  lthreads :: "lock_pc list"
  sources :: nat
  stops :: nat

definition lock_init :: "lock_sys \<Rightarrow> bool" where
  "lock_init s \<longleftrightarrow> lword s = 0 \<and> lthreads s = [] \<and> sources s = 0 \<and> stops s = 0"

definition lock_next :: "(stop_word \<Rightarrow> lock_pc) \<Rightarrow> lock_out \<Rightarrow> lock_pc" where
  "lock_next f r = (case r of LRetry w \<Rightarrow> f w | LLocked \<Rightarrow> Holds)"

definition stop_lock_next :: "(stop_word \<Rightarrow> lock_pc) \<Rightarrow> stop_lock_out \<Rightarrow> lock_pc list" where
  "stop_lock_next f r = (case r of STurn t \<Rightarrow> [lock_next f t] | _ \<Rightarrow> [])"

inductive lock_step :: "lock_sys \<Rightarrow> lock_sys \<Rightarrow> bool" where
  l_begin: "pc \<in> {WantLock (lword s), WantStop (lword s), WantAdd (lword s)} \<Longrightarrow>
     lock_step s (s\<lparr>lthreads := pc # lthreads s\<rparr>)"
| l_lock: "lthreads s = us @ WantLock w # vs \<Longrightarrow> lock_try w spurious (lword s) = (r, v) \<Longrightarrow>
     lock_step s (s\<lparr>lword := v, lthreads := us @ lock_next WantLock r # vs\<rparr>)"
| l_stop: "lthreads s = us @ WantStop w # vs \<Longrightarrow> lock_stop_try w spurious (lword s) = (r, v) \<Longrightarrow>
     lock_step s (s\<lparr>lword := v, lthreads := us @ stop_lock_next WantStop r @ vs,
       stops := (if r = STurn LLocked then stops s + 1 else stops s)\<rparr>)"
| l_add: "lthreads s = us @ WantAdd w # vs \<Longrightarrow> add_lock_try w spurious (lword s) = (r, v) \<Longrightarrow>
     lock_step s (s\<lparr>lword := v, lthreads := us @ stop_lock_next WantAdd r @ vs\<rparr>)"
| l_unlock: "lthreads s = us @ Holds # vs \<Longrightarrow>
     lock_step s (s\<lparr>lword := unlock (lword s), lthreads := us @ vs\<rparr>)"
| l_source: "Suc (sources s) < max_sources \<Longrightarrow>
     lock_step s (s\<lparr>lword := add_source (lword s), sources := Suc (sources s)\<rparr>)"
| l_unsource: "sources s > 0 \<Longrightarrow>
     lock_step s (s\<lparr>lword := remove_source (lword s), sources := sources s - 1\<rparr>)"

abbreviation lock_holders :: "lock_sys \<Rightarrow> nat" where
  "lock_holders s \<equiv> length (filter (\<lambda>pc. pc = Holds) (lthreads s))"

definition lock_ok :: "lock_sys \<Rightarrow> bool" where
  "lock_ok s \<longleftrightarrow> sources s < max_sources \<and> lock_holders s \<le> 1 \<and> stops s \<le> 1 \<and>
     (\<exists>w. lword s = enc (sources s) (lock_holders s = 1) w (stops s = 1))"

lemma lock_okI:
  "sources s < max_sources \<Longrightarrow> lock_holders s = (if l then 1 else 0) \<Longrightarrow> stops s = (if p then 1 else 0) \<Longrightarrow>
   lword s = enc (sources s) l w p \<Longrightarrow> lock_ok s"
  by (auto simp: lock_ok_def)

lemma lock_okE:
  assumes "lock_ok s"
  obtains l w p where "sources s < max_sources" "lock_holders s = (if l then 1 else 0)" "stops s = (if p then 1 else 0)"
    "lword s = enc (sources s) l w p"
proof -
  obtain w where w: "lword s = enc (sources s) (lock_holders s = 1) w (stops s = 1)" using assms by (auto simp: lock_ok_def)
  have "lock_holders s = (if lock_holders s = 1 then 1 else 0)" "stops s = (if stops s = 1 then 1 else 0)"
    using assms by (auto simp: lock_ok_def le_Suc_eq)
  then show ?thesis using that [OF _ _ _ w] assms by (simp add: lock_ok_def)
qed

lemma lock_wait_cases:
  assumes "lock_wait cur spurious (enc n l w p) = (r, v)" "n < max_sources"
  shows "\<exists>w'. r = LRetry (enc n l w' p) \<and> v = enc n l w' p"
  using assms by (cases w) (auto simp: lock_wait_def split: if_splits)

lemma lock_try_cases:
  assumes "lock_try cur spurious (enc n l w p) = (r, v)" "n < max_sources"
  shows "(\<exists>w'. r = LRetry (enc n l w' p) \<and> v = enc n l w' p) \<or> (\<not> l \<and> r = LLocked \<and> v = enc n True w p)"
proof (cases "\<not> has_flag cur FlagLocked \<and> enc n l w p = cur \<and> \<not> spurious")
  case True
  then have "\<not> l" using enc_flags(3) [OF assms(2), of l w p] by auto
  then show ?thesis using True assms by (auto simp: lock_try_def)
next
  case False
  then show ?thesis using assms lock_wait_cases [of cur spurious n l w p r v]
    by (auto simp: lock_try_def split: if_splits)
qed

lemma lock_stop_try_cases:
  assumes "lock_stop_try cur spurious (enc n l w p) = (r, v)" "n < max_sources"
  shows "(r = SStopped \<and> v = enc n l w p) \<or> (\<exists>w'. r = STurn (LRetry (enc n l w' p)) \<and> v = enc n l w' p) \<or>
    (\<not> l \<and> \<not> p \<and> r = STurn LLocked \<and> v = enc n True w True)"
proof (cases "\<not> has_flag cur FlagStopped \<and> \<not> has_flag cur FlagLocked \<and> enc n l w p = cur \<and> \<not> spurious")
  case True
  then have "\<not> l" "\<not> p" using enc_flags(1,3) [OF assms(2), of l w p] by auto
  then show ?thesis using True assms by (auto simp: lock_stop_try_def)
next
  case False
  then show ?thesis using assms lock_wait_cases [of cur spurious n l w p]
    by (cases "lock_wait cur spurious (enc n l w p)") (auto simp: lock_stop_try_def split: if_splits)
qed

lemma add_lock_try_cases:
  assumes "add_lock_try cur spurious (enc n l w p) = (r, v)" "n < max_sources"
  shows "(r \<in> {SStopped, SNoSources} \<and> v = enc n l w p) \<or> (\<exists>w'. r = STurn (LRetry (enc n l w' p)) \<and> v = enc n l w' p) \<or>
    (\<not> l \<and> r = STurn LLocked \<and> v = enc n True w p)"
  using assms lock_try_cases [of cur spurious n l w p]
  by (cases "lock_try cur spurious (enc n l w p)") (auto simp: add_lock_try_def split: if_splits)

lemma lock_step_inv:
  assumes "lock_ok s" "lock_step s t"
  shows "lock_ok t"
proof -
  obtain l w p where i: "sources s < max_sources" "lock_holders s = (if l then 1 else 0)" "stops s = (if p then 1 else 0)"
    "lword s = enc (sources s) l w p" using lock_okE [OF assms(1)] by blast
  from assms(2) show ?thesis
  proof cases
    case (l_begin pc)
    then show ?thesis using i by (intro lock_okI [of _ l p w]) auto
  next
    case (l_lock us w' vs spurious r v)
    then consider w2 where "r = LRetry v" "v = enc (sources s) l w2 p" | "\<not> l" "r = LLocked" "v = enc (sources s) True w p"
      using lock_try_cases [of w' spurious "sources s" l w p r v] i by auto
    then show ?thesis
    proof cases
      case (1 w2)
      then show ?thesis using i l_lock(1,2) by (intro lock_okI [of _ l p w2]) (auto simp: lock_next_def)
    next
      case 2
      then show ?thesis using i l_lock(1,2) by (intro lock_okI [of _ True p w]) (auto simp: lock_next_def)
    qed
  next
    case (l_stop us w' vs spurious r v)
    then consider "r = SStopped" "v = enc (sources s) l w p" | w2 where "r = STurn (LRetry v)" "v = enc (sources s) l w2 p"
      | "\<not> l" "\<not> p" "r = STurn LLocked" "v = enc (sources s) True w True"
      using lock_stop_try_cases [of w' spurious "sources s" l w p r v] i by auto
    then show ?thesis
    proof cases
      case 1
      then show ?thesis using i l_stop(1,2) by (intro lock_okI [of _ l p w]) (auto simp: stop_lock_next_def)
    next
      case (2 w2)
      then show ?thesis using i l_stop(1,2) by (intro lock_okI [of _ l p w2]) (auto simp: stop_lock_next_def lock_next_def)
    next
      case 3
      then show ?thesis using i l_stop(1,2) by (intro lock_okI [of _ True True w]) (auto simp: stop_lock_next_def lock_next_def)
    qed
  next
    case (l_add us w' vs spurious r v)
    then consider "r \<in> {SStopped, SNoSources}" "v = enc (sources s) l w p" | w2 where "r = STurn (LRetry v)" "v = enc (sources s) l w2 p"
      | "\<not> l" "r = STurn LLocked" "v = enc (sources s) True w p"
      using add_lock_try_cases [of w' spurious "sources s" l w p r v] i by auto
    then show ?thesis
    proof cases
      case 1
      then show ?thesis using i l_add(1,2) by (intro lock_okI [of _ l p w]) (auto simp: stop_lock_next_def)
    next
      case (2 w2)
      then show ?thesis using i l_add(1,2) by (intro lock_okI [of _ l p w2]) (auto simp: stop_lock_next_def lock_next_def)
    next
      case 3
      then show ?thesis using i l_add(1,2) by (intro lock_okI [of _ True p w]) (auto simp: stop_lock_next_def lock_next_def)
    qed
  next
    case (l_unlock us vs)
    then have "l" using i by (auto split: if_splits)
    then show ?thesis using i l_unlock by (intro lock_okI [of _ False p w]) auto
  next
    case l_source
    then show ?thesis using i by (intro lock_okI [of _ l p w]) auto
  next
    case l_unsource
    then show ?thesis using i by (intro lock_okI [of _ l p w]) auto
  qed
qed

lemma lock_init_inv: "lock_init s \<Longrightarrow> lock_ok s"
  by (rule lock_okI [of _ False False False]) (auto simp: lock_init_def max_sources_def enc_def)

interpretation stop_lock: inv_system lock_init lock_step lock_ok
  by unfold_locales (auto intro: lock_init_inv lock_step_inv)

section \<open>Callbacks\<close>

text \<open>
  The operations on callbacks, with the code between \<open>lock\<close> and \<open>unlock\<close> as one step.
  \<open>add_callback\<close> tells what happens to the callback; \<open>remove_callback\<close> is its locked part,
  followed by \<open>remove_check\<close> when the callback was not in the list.
\<close>

datatype add_out = Added | RunInline | NeverRuns

definition add_callback :: "addr \<Rightarrow> stop_state \<Rightarrow> add_out \<times> stop_state" where
  "add_callback c s =
     (if has_flag (word s) FlagStopped then (RunInline, s)
      else if \<not> has_sources (word s) then (NeverRuns, s)
      else (Added, link_callback c s))"

text \<open>\<open>remove_check\<close>: whether the caller returns (rather than waits), and whether it sets \<open>*removed\<close>.\<close>

definition remove_check :: "tid \<Rightarrow> addr \<Rightarrow> stop_state \<Rightarrow> bool \<times> bool" where
  "remove_check i c s = (running_thread s = Some i, running_thread s = Some i \<and> removed_ptr s c)"

datatype request_out = AlreadyStopped | NoCallbacks | Callback addr bool

definition request_begin :: "tid \<Rightarrow> stop_state \<Rightarrow> request_out \<times> stop_state" where
  "request_begin i s =
     (if has_flag (word s) FlagStopped then (AlreadyStopped, s)
      else let s = s\<lparr>word := word s OR FlagStopped\<rparr>
           in if head s = None then (NoCallbacks, s)
              else (case pop_callback (s\<lparr>running_thread := Some i\<rparr>) of
                  Some (c, e, s') \<Rightarrow> (Callback c e, s')
                | None \<Rightarrow> (NoCallbacks, s\<lparr>running_thread := Some i\<rparr>)))"

definition request_next :: "stop_state \<Rightarrow> request_out \<times> stop_state" where
  "request_next s = (case pop_callback s of
       Some (c, e, s') \<Rightarrow> (Callback c e, s')
     | None \<Rightarrow> (NoCallbacks, s))"

text \<open>After a callback returned: unless it was removed in this thread, clear \<open>removed\<close> and release.\<close>

definition request_after :: "addr \<Rightarrow> bool \<Rightarrow> stop_state \<Rightarrow> stop_state" where
  "request_after c removed s =
     (if removed then s
      else s\<lparr>removed_ptr := (removed_ptr s)(c := False), done_sem := (done_sem s)(c := done_sem s c + 1)\<rparr>)"

text \<open>
  Activities of threads, most recent first.  A thread may begin another operation only when it
  has none in progress or is inside the body of a callback (\<open>AddRun\<close>, \<open>ReqBody\<close>), and a
  body ends only after the operations begun in it.  \<open>rflag\<close> is the local \<open>removed\<close> of the
  running \<open>request_stop\<close>.  \<open>used\<close>, \<open>added\<close>, \<open>removing\<close>, \<open>dead\<close>: the callbacks
  constructed, registered, whose destructor began, and destroyed.  \<open>sbad\<close>: a destroyed
  callback was touched.
\<close>

datatype cb_pc = AddRun addr | RemCheck addr | RemWait addr | ReqRun addr bool | ReqBody addr bool | ReqNext

record cb_sys =
  cs :: stop_state
  acts :: "(tid \<times> cb_pc) list"
  rflag :: bool
  runs :: "addr \<Rightarrow> nat"
  used :: "addr set"
  added :: "addr set"
  removing :: "addr set"
  dead :: "addr set"
  sbad :: bool

definition cb_init :: "cb_sys \<Rightarrow> bool" where
  "cb_init s \<longleftrightarrow> cs s = stop_state \<and> acts s = [] \<and> runs s = (\<lambda>_. 0) \<and> used s = {} \<and> added s = {} \<and>
     removing s = {} \<and> dead s = {} \<and> \<not> sbad s \<and> \<not> rflag s"

fun is_body :: "cb_pc \<Rightarrow> bool" where
  "is_body (AddRun c) = True"
| "is_body (ReqBody c e) = True"
| "is_body _ = False"

definition may_begin :: "tid \<Rightarrow> (tid \<times> cb_pc) list \<Rightarrow> bool" where
  "may_begin i as \<longleftrightarrow> (\<forall>pc. (i, pc) \<in> set as \<longrightarrow> is_body pc)"

definition idle_in :: "tid \<Rightarrow> (tid \<times> cb_pc) list \<Rightarrow> bool" where
  "idle_in i as \<longleftrightarrow> i \<notin> fst ` set as"

definition request_acts :: "tid \<Rightarrow> request_out \<Rightarrow> (tid \<times> cb_pc) list" where
  "request_acts i r = (case r of Callback c e \<Rightarrow> [(i, ReqRun c e)] | _ \<Rightarrow> [])"

inductive cb_step :: "cb_sys \<Rightarrow> cb_sys \<Rightarrow> bool" where
  b_source: "word (cs s) = enc n False w p \<Longrightarrow> Suc n < max_sources \<Longrightarrow>
     cb_step s (s\<lparr>cs := (cs s)\<lparr>word := add_source (word (cs s))\<rparr>\<rparr>)"
| b_unsource: "word (cs s) = enc n False w p \<Longrightarrow> 0 < n \<Longrightarrow> n < max_sources \<Longrightarrow>
     cb_step s (s\<lparr>cs := (cs s)\<lparr>word := remove_source (word (cs s))\<rparr>\<rparr>)"
| b_add: "may_begin i (acts s) \<Longrightarrow> c \<notin> used s \<Longrightarrow> add_callback c (cs s) = (Added, k) \<Longrightarrow>
     cb_step s (s\<lparr>cs := k, used := insert c (used s), added := insert c (added s)\<rparr>)"
| b_add_inline: "may_begin i (acts s) \<Longrightarrow> c \<notin> used s \<Longrightarrow> add_callback c (cs s) = (RunInline, k) \<Longrightarrow>
     cb_step s (s\<lparr>cs := k, used := insert c (used s), runs := (runs s)(c := runs s c + 1), acts := (i, AddRun c) # acts s\<rparr>)"
| b_add_never: "may_begin i (acts s) \<Longrightarrow> c \<notin> used s \<Longrightarrow> add_callback c (cs s) = (NeverRuns, k) \<Longrightarrow>
     cb_step s (s\<lparr>cs := k, used := insert c (used s)\<rparr>)"
| b_add_end: "acts s = us @ (i, AddRun c) # vs \<Longrightarrow> idle_in i us \<Longrightarrow>
     cb_step s (s\<lparr>acts := us @ vs\<rparr>)"
| b_remove: "may_begin i (acts s) \<Longrightarrow> c \<in> added s - removing s \<Longrightarrow> remove_callback_locked c (cs s) = (True, k) \<Longrightarrow>
     cb_step s (s\<lparr>cs := k, removing := insert c (removing s), dead := insert c (dead s)\<rparr>)"
| b_remove_late: "may_begin i (acts s) \<Longrightarrow> c \<in> added s - removing s \<Longrightarrow> remove_callback_locked c (cs s) = (False, k) \<Longrightarrow>
     cb_step s (s\<lparr>cs := k, removing := insert c (removing s), acts := (i, RemCheck c) # acts s\<rparr>)"
| b_check: "acts s = us @ (i, RemCheck c) # vs \<Longrightarrow> remove_check i c (cs s) = (True, f) \<Longrightarrow>
     cb_step s (s\<lparr>acts := us @ vs, rflag := rflag s \<or> f, dead := insert c (dead s)\<rparr>)"
| b_check_wait: "acts s = us @ (i, RemCheck c) # vs \<Longrightarrow> remove_check i c (cs s) = (False, f) \<Longrightarrow>
     cb_step s (s\<lparr>acts := us @ (i, RemWait c) # vs\<rparr>)"
| b_wait: "acts s = us @ (i, RemWait c) # vs \<Longrightarrow> done_sem (cs s) c > 0 \<Longrightarrow>
     cb_step s (s\<lparr>cs := (cs s)\<lparr>done_sem := (done_sem (cs s))(c := done_sem (cs s) c - 1)\<rparr>, acts := us @ vs, dead := insert c (dead s)\<rparr>)"
| b_request: "may_begin i (acts s) \<Longrightarrow> request_begin i (cs s) = (r, k) \<Longrightarrow>
     cb_step s (s\<lparr>cs := k, acts := request_acts i r @ acts s, rflag := (case r of Callback c e \<Rightarrow> False | _ \<Rightarrow> rflag s)\<rparr>)"
| b_run: "acts s = us @ (i, ReqRun c e) # vs \<Longrightarrow>
     cb_step s (s\<lparr>acts := us @ (i, ReqBody c e) # vs, runs := (runs s)(c := runs s c + 1), sbad := (sbad s \<or> c \<in> dead s)\<rparr>)"
| b_after: "acts s = us @ (i, ReqBody c e) # vs \<Longrightarrow> idle_in i us \<Longrightarrow>
     cb_step s (s\<lparr>cs := request_after c (rflag s) (cs s), acts := us @ (if e then [] else [(i, ReqNext)]) @ vs,
       sbad := (sbad s \<or> \<not> rflag s \<and> c \<in> dead s)\<rparr>)"
| b_next: "acts s = us @ (i, ReqNext) # vs \<Longrightarrow> request_next (cs s) = (r, k) \<Longrightarrow>
     cb_step s (s\<lparr>cs := k, acts := us @ request_acts i r @ vs, rflag := (case r of Callback c e \<Rightarrow> False | _ \<Rightarrow> rflag s)\<rparr>)"

section \<open>Invariant of the callbacks\<close>

fun is_req :: "tid \<times> cb_pc \<Rightarrow> bool" where
  "is_req (i, ReqRun c e) = True"
| "is_req (i, ReqBody c e) = True"
| "is_req (i, ReqNext) = True"
| "is_req _ = False"

fun removes :: "addr \<Rightarrow> tid \<times> cb_pc \<Rightarrow> bool" where
  "removes c (i, RemCheck d) = (c = d)"
| "removes c (i, RemWait d) = (c = d)"
| "removes c _ = False"

text \<open>\<open>current as c\<close>: \<open>request_stop\<close> has taken \<open>c\<close> from the list and is not done with it.\<close>

fun takes :: "addr \<Rightarrow> tid \<times> cb_pc \<Rightarrow> bool" where
  "takes c (i, ReqRun d e) = (c = d)"
| "takes c (i, ReqBody d e) = (c = d)"
| "takes c _ = False"

definition current :: "(tid \<times> cb_pc) list \<Rightarrow> addr \<Rightarrow> bool" where
  "current as c \<longleftrightarrow> (\<exists>a \<in> set as. takes c a)"

lemma current_simps [simp]: "\<not> current [] c" "current (a # as) c = (takes c a \<or> current as c)"
  "current (as @ bs) c = (current as c \<or> current bs c)"
  by (auto simp: current_def)

fun act_ok :: "cb_sys \<Rightarrow> addr list \<Rightarrow> tid \<times> cb_pc \<Rightarrow> bool" where
  "act_ok s xs (i, AddRun c) = (c \<in> used s \<and> c \<notin> added s)"
| "act_ok s xs (i, RemCheck c) = (c \<in> removing s \<and> c \<notin> dead s \<and> c \<notin> set xs)"
| "act_ok s xs (i, RemWait c) = (c \<in> removing s \<and> c \<notin> dead s \<and> c \<notin> set xs)"
| "act_ok s xs (i, ReqRun c e) = (running_thread (cs s) = Some i \<and> c \<in> added s \<and> c \<notin> set xs \<and> c \<notin> dead s \<and>
     runs s c = 0 \<and> done_sem (cs s) c = 0 \<and> removed_ptr (cs s) c \<and> \<not> rflag s \<and> (e \<longrightarrow> xs = []))"
| "act_ok s xs (i, ReqBody c e) = (running_thread (cs s) = Some i \<and> c \<in> added s \<and> c \<notin> set xs \<and> (c \<in> dead s \<longleftrightarrow> rflag s) \<and>
     runs s c = 1 \<and> done_sem (cs s) c = 0 \<and> removed_ptr (cs s) c \<and> (e \<longrightarrow> xs = []))"
| "act_ok s xs (i, ReqNext) = (running_thread (cs s) = Some i)"

text \<open>The operations of one thread nest: below the first, each is the body of a callback.\<close>

fun nested :: "(tid \<times> cb_pc) list \<Rightarrow> bool" where
  "nested [] = True"
| "nested ((i, pc) # as) = ((\<forall>pc'. (i, pc') \<in> set as \<longrightarrow> is_body pc') \<and> nested as)"

definition cb_sets :: "cb_sys \<Rightarrow> addr list \<Rightarrow> bool" where
  "cb_sets s xs \<longleftrightarrow> set xs \<subseteq> added s - dead s \<and> dead s \<subseteq> removing s \<and> removing s \<subseteq> added s \<and> added s \<subseteq> used s \<and>
     (\<forall>c \<in> set xs. runs s c = 0 \<and> done_sem (cs s) c = 0) \<and>
     (\<forall>c. c \<notin> used s \<longrightarrow> runs s c = 0) \<and> (\<forall>c. runs s c \<le> 1) \<and>
     (\<forall>c. c \<notin> added s \<longrightarrow> done_sem (cs s) c = 0) \<and>
     (\<forall>c. removed_ptr (cs s) c \<longrightarrow> current (acts s) c \<or> c \<in> dead s) \<and>
     (\<forall>c \<in> added s. c \<in> set xs \<or> c \<in> dead s \<or> runs s c = 1 \<or> current (acts s) c)"

definition stopped :: "cb_sys \<Rightarrow> bool" where
  "stopped s \<longleftrightarrow> stop_requested (word (cs s))"

definition cb_word :: "cb_sys \<Rightarrow> addr list \<Rightarrow> bool" where
  "cb_word s xs \<longleftrightarrow> (\<exists>n w p. n < max_sources \<and> word (cs s) = enc n False w p) \<and>
     (\<not> stopped s \<longrightarrow> filter is_req (acts s) = []) \<and> (stopped s \<and> filter is_req (acts s) = [] \<longrightarrow> xs = [])"

definition cb_acts :: "cb_sys \<Rightarrow> addr list \<Rightarrow> bool" where
  "cb_acts s xs \<longleftrightarrow> (\<forall>a \<in> set (acts s). act_ok s xs a) \<and> length (filter is_req (acts s)) \<le> 1 \<and>
     (\<forall>c. length (filter (removes c) (acts s)) \<le> 1) \<and> nested (acts s)"

definition cb_inv :: "cb_sys \<Rightarrow> bool" where
  "cb_inv s \<longleftrightarrow> \<not> sbad s \<and> (\<exists>xs. dll (cs s) xs \<and> cb_sets s xs \<and> cb_word s xs \<and> cb_acts s xs)"

lemma cb_invI: "\<not> sbad s \<Longrightarrow> dll (cs s) xs \<Longrightarrow> cb_sets s xs \<Longrightarrow> cb_word s xs \<Longrightarrow> cb_acts s xs \<Longrightarrow> cb_inv s"
  by (auto simp: cb_inv_def)

lemma cb_init_inv: "cb_init s \<Longrightarrow> cb_inv s"
  by (rule cb_invI [of _ "[]"])
    (auto simp: cb_init_def stop_state_def dll_def cb_sets_def cb_word_def cb_acts_def max_sources_def enc_def
      stopped_def stop_requested_def has_flag_def intro!: exI [of _ 0] exI [of _ False])

lemma nested_append: "nested (us @ vs) \<longleftrightarrow> nested us \<and> nested vs \<and>
   (\<forall>i pc. i \<in> fst ` set us \<longrightarrow> (i, pc) \<in> set vs \<longrightarrow> is_body pc)"
proof (induction us)
  case Nil
  then show ?case by simp
next
  case (Cons a us)
  then show ?case by (cases a) auto
qed

lemma nested_drop: "nested (us @ a # vs) \<Longrightarrow> nested (us @ vs)"
  by (cases a) (auto simp: nested_append)

lemma nested_replace: "nested (us @ (i, pc) # vs) \<Longrightarrow> \<not> is_body pc \<or> idle_in i us \<Longrightarrow> nested (us @ (i, pc') # vs)"
  by (auto simp: nested_append idle_in_def)

lemma nested_top: "nested (us @ (i, pc) # vs) \<Longrightarrow> \<not> is_body pc \<Longrightarrow> (i, pc') \<in> set (us @ vs) \<Longrightarrow> is_body pc'"
  by (auto simp: nested_append) force

text \<open>The requester is unique, and so is the destructor of a callback.\<close>

lemma unique_in_list: "length (filter P (us @ a # vs)) \<le> 1 \<Longrightarrow> P a \<Longrightarrow> b \<in> set (us @ vs) \<Longrightarrow> \<not> P b"
  by (auto simp: filter_empty_conv)

lemma no_req: "filter is_req as = [] \<Longrightarrow> a \<in> set as \<Longrightarrow> \<not> is_req a"
  by (auto simp: filter_empty_conv)

lemma takes_is_req: "takes c a \<Longrightarrow> is_req a"
  by (cases "(c, a)" rule: takes.cases) auto

lemma no_req_current: "filter is_req as = [] \<Longrightarrow> \<not> current as c"
  using takes_is_req by (auto simp: current_def filter_empty_conv)

lemma removes_unique:
  assumes "cb_acts s xs" "acts s = us @ a # vs" "removes c a" "b \<in> set (us @ vs)"
  shows "\<not> removes c b"
proof -
  have "length (filter (removes c) (acts s)) \<le> 1" using assms(1) unfolding cb_acts_def by blast
  then show ?thesis unfolding assms(2) using assms(3,4) by (rule unique_in_list [of "removes c" us a vs b])
qed

lemma act_ok_word [simp]: "act_ok (s\<lparr>cs := (cs s)\<lparr>word := v\<rparr>\<rparr>) xs a = act_ok s xs a"
  by (cases "(s, xs, a)" rule: act_ok.cases) simp_all

lemma act_ok_acts [simp]: "act_ok (s\<lparr>acts := as\<rparr>) xs a = act_ok s xs a"
  by (cases "(s, xs, a)" rule: act_ok.cases) simp_all

lemma word_step_inv:
  assumes "\<not> sbad s" "dll (cs s) xs" "cb_sets s xs" "cb_word s xs" "cb_acts s xs"
    and "word (cs s) = enc n False w p" "n < max_sources" "m < max_sources"
  shows "cb_inv (s\<lparr>cs := (cs s)\<lparr>word := enc m False w p\<rparr>\<rparr>)"
proof (rule cb_invI [of _ xs])
  have "stopped s = p" using assms(6,7) by (simp add: stopped_def stop_requested_def)
  then show "cb_word (s\<lparr>cs := (cs s)\<lparr>word := enc m False w p\<rparr>\<rparr>) xs"
    using assms(4,8) by (auto simp: cb_word_def stopped_def stop_requested_def)
qed (use assms in \<open>auto simp: cb_sets_def cb_acts_def\<close>)

lemma add_inv:
  assumes "\<not> sbad s" "dll (cs s) xs" "cb_sets s xs" "cb_word s xs" "cb_acts s xs"
    and "c \<notin> used s" "add_callback c (cs s) = (Added, k)"
  shows "cb_inv (s\<lparr>cs := k, used := insert c (used s), added := insert c (added s)\<rparr>)" (is "cb_inv ?t")
proof (rule cb_invI [of _ "c # xs"])
  have k: "k = link_callback c (cs s)" "\<not> has_flag (word (cs s)) FlagStopped"
    using assms(7) by (auto simp: add_callback_def split: if_splits)
  have c: "c \<notin> set xs" "c \<notin> added s" "c \<notin> removing s" "c \<notin> dead s" using assms(3,6) by (auto simp: cb_sets_def)
  have p: "\<not> stopped s" using k(2) by (simp add: stopped_def stop_requested_def)
  then have r: "filter is_req (acts s) = []" using assms(4) by (simp add: cb_word_def)
  show "dll (cs ?t) (c # xs)" using link_dll [OF assms(2) c(1)] k(1) by simp
  show "cb_sets ?t (c # xs)" using assms(3,6) c k(1) by (auto simp: cb_sets_def)
  show "cb_word ?t (c # xs)" using assms(4) p r k(1) by (simp add: cb_word_def stopped_def)
  have "act_ok ?t (c # xs) a" if "a \<in> set (acts s)" for a
  proof -
    have "act_ok s xs a" "\<not> is_req a" using assms(5) that no_req [OF r] by (auto simp: cb_acts_def)
    then show ?thesis using c assms(3,6) by (cases "(s, xs, a)" rule: act_ok.cases) (auto simp: cb_sets_def)
  qed
  then show "cb_acts ?t (c # xs)" using assms(5) by (simp add: cb_acts_def)
qed (use assms(1) in simp)

lemma add_inline_inv:
  assumes "\<not> sbad s" "dll (cs s) xs" "cb_sets s xs" "cb_word s xs" "cb_acts s xs"
    and "c \<notin> used s" "may_begin i (acts s)"
  shows "cb_inv (s\<lparr>used := insert c (used s), runs := (runs s)(c := runs s c + 1), acts := (i, AddRun c) # acts s\<rparr>)" (is "cb_inv ?t")
    and "cb_inv (s\<lparr>used := insert c (used s)\<rparr>)" (is "cb_inv ?u")
proof -
  have c: "c \<notin> set xs" "c \<notin> added s" "c \<notin> dead s" "runs s c = 0" using assms(3,6) by (auto simp: cb_sets_def)
  have a: "act_ok ?t xs a \<and> act_ok ?u xs a" if "a \<in> set (acts s)" for a
  proof -
    have "act_ok s xs a" using assms(5) that by (auto simp: cb_acts_def)
    then show ?thesis using c assms(3,6) by (cases "(s, xs, a)" rule: act_ok.cases) (auto simp: cb_sets_def)
  qed
  have n: "nested ((i, AddRun c) # acts s)" using assms(5,7) by (simp add: cb_acts_def may_begin_def)
  have s: "cb_sets ?t xs" "cb_sets ?u xs" using assms(3,6) c by (auto simp: cb_sets_def)
  show "cb_inv ?t" by (rule cb_invI [of _ xs]) (use assms s a n c in \<open>auto simp: cb_word_def cb_acts_def stopped_def\<close>)
  show "cb_inv ?u" by (rule cb_invI [of _ xs]) (use assms s a in \<open>auto simp: cb_word_def cb_acts_def stopped_def\<close>)
qed

lemma add_end_inv:
  assumes "\<not> sbad s" "dll (cs s) xs" "cb_sets s xs" "cb_word s xs" "cb_acts s xs"
    and "acts s = us @ (i, AddRun c) # vs"
  shows "cb_inv (s\<lparr>acts := us @ vs\<rparr>)" (is "cb_inv ?t")
proof (rule cb_invI [of _ xs])
  show "cb_sets ?t xs" using assms(3,6) by (simp add: cb_sets_def)
  show "cb_word ?t xs" using assms(4,6) by (simp add: cb_word_def stopped_def)
  show "cb_acts ?t xs" using assms(5,6) nested_drop [of us "(i, AddRun c)" vs] by (auto simp: cb_acts_def)
qed (use assms in auto)

lemma remove_inv:
  assumes "\<not> sbad s" "dll (cs s) xs" "cb_sets s xs" "cb_word s xs" "cb_acts s xs"
    and "c \<in> added s - removing s" "remove_callback_locked c (cs s) = (True, k)"
  shows "cb_inv (s\<lparr>cs := k, removing := insert c (removing s), dead := insert c (dead s)\<rparr>)" (is "cb_inv ?t")
proof (rule cb_invI [of _ "remove1 c xs"])
  have x: "c \<in> set xs" "dll k (remove1 c xs)" using remove_dll [OF assms(2), of c] assms(7) by auto
  have d: "distinct xs" "c \<notin> dead s" using assms(2,3,6) by (auto simp: dll_def cb_sets_def)
  note k = remove_keeps [OF assms(7)]
  show "dll (cs ?t) (remove1 c xs)" using x(2) by simp
  show "cb_sets ?t (remove1 c xs)" using assms(3,6) k d x(1) by (auto simp: cb_sets_def)
  show "cb_word ?t (remove1 c xs)" using assms(4) k by (simp add: cb_word_def stopped_def)
  have "act_ok ?t (remove1 c xs) a" if "a \<in> set (acts s)" for a
  proof -
    have "act_ok s xs a" using assms(5) that by (auto simp: cb_acts_def)
    then show ?thesis using x(1) d assms(6) k by (cases "(s, xs, a)" rule: act_ok.cases) auto
  qed
  then show "cb_acts ?t (remove1 c xs)" using assms(5) by (simp add: cb_acts_def)
qed (use assms(1) in simp)

lemma remove_late_inv:
  assumes "\<not> sbad s" "dll (cs s) xs" "cb_sets s xs" "cb_word s xs" "cb_acts s xs"
    and "c \<in> added s - removing s" "remove_callback_locked c (cs s) = (False, k)" "may_begin i (acts s)"
  shows "cb_inv (s\<lparr>cs := k, removing := insert c (removing s), acts := (i, RemCheck c) # acts s\<rparr>)" (is "cb_inv ?t")
proof (rule cb_invI [of _ xs])
  have x: "c \<notin> set xs" "dll k xs" using remove_dll [OF assms(2), of c] assms(7) by (auto simp: remove1_idem)
  have c: "c \<notin> dead s" using assms(3,6) by (auto simp: cb_sets_def)
  note k = remove_keeps [OF assms(7)]
  show "dll (cs ?t) xs" using x(2) by simp
  show "cb_sets ?t xs" using assms(3,6) k by (auto simp: cb_sets_def)
  show "cb_word ?t xs" using assms(4) k by (simp add: cb_word_def stopped_def)
  have a: "act_ok ?t xs a" if "a \<in> set (acts s)" for a
  proof -
    have "act_ok s xs a" using assms(5) that by (auto simp: cb_acts_def)
    then show ?thesis using k by (cases "(s, xs, a)" rule: act_ok.cases) auto
  qed
  have "\<not> removes c a" if "a \<in> set (acts s)" for a
  proof -
    have "act_ok s xs a" using assms(5) that by (auto simp: cb_acts_def)
    then show ?thesis using assms(6) by (cases "(s, xs, a)" rule: act_ok.cases) auto
  qed
  then have "filter (removes c) (acts s) = []" by (simp add: filter_empty_conv)
  moreover have "act_ok ?t xs (i, RemCheck c)" using x(1) c by simp
  ultimately show "cb_acts ?t xs" using assms(5,8) a by (auto simp: cb_acts_def may_begin_def)
qed (use assms(1) in simp)

lemma current_unique:
  assumes "cb_acts s xs" "acts s = us @ a # vs" "is_req a" "current (acts s) d"
  shows "takes d a"
proof -
  have "\<not> is_req b" if "b \<in> set (us @ vs)" for b
    using unique_in_list [of is_req us a vs b] assms(1-3) that by (simp add: cb_acts_def)
  then have "\<not> takes d b" if "b \<in> set (us @ vs)" for b using takes_is_req that by blast
  then show ?thesis using assms(2,4) by (auto simp: current_def)
qed

lemma cb_acts_drop:
  assumes "cb_acts s xs" "acts s = us @ a # vs" "acts t = us @ vs" "\<And>b. b \<in> set (us @ vs) \<Longrightarrow> act_ok t xs b"
  shows "cb_acts t xs"
proof -
  have "length (filter P (us @ a # vs)) \<le> 1 \<Longrightarrow> length (filter P (us @ vs)) \<le> 1" for P by (simp split: if_splits)
  then show ?thesis using assms nested_drop [of us a vs] unfolding cb_acts_def by metis
qed

lemma check_inv:
  assumes "\<not> sbad s" "dll (cs s) xs" "cb_sets s xs" "cb_word s xs" "cb_acts s xs"
    and "acts s = us @ (i, RemCheck c) # vs" "running_thread (cs s) = Some i"
  shows "cb_inv (s\<lparr>acts := us @ vs, rflag := rflag s \<or> removed_ptr (cs s) c, dead := insert c (dead s)\<rparr>)" (is "cb_inv ?t")
proof (rule cb_invI [of _ xs])
  have c: "c \<in> removing s" "c \<notin> dead s" "c \<notin> set xs" using assms(5,6) by (auto simp: cb_acts_def)
  show "cb_sets ?t xs" using assms(3,6) c by (auto simp: cb_sets_def)
  show "cb_word ?t xs" using assms(4,6) by (simp add: cb_word_def stopped_def)
  have n: "nested (us @ (i, RemCheck c) # vs)" using assms(5,6) by (simp add: cb_acts_def)
  have a: "act_ok ?t xs a" if a: "a \<in> set (us @ vs)" for a
  proof -
    have ok: "act_ok s xs a" using assms(5,6) a by (auto simp: cb_acts_def)
    have r: "\<not> removes c a" using removes_unique [OF assms(5,6)] a by simp
    obtain j pc where j: "a = (j, pc)" by fastforce
    have run: "is_body pc" if "j = i" using nested_top [OF n, of pc] a that j by simp
    have body: "removed_ptr (cs s) c \<longleftrightarrow> d = c" if "pc = ReqBody d e" for d e
    proof -
      obtain us' vs' where u: "acts s = us' @ a # vs'" using split_list [of a "acts s"] a assms(6) by auto
      have "removed_ptr (cs s) c \<Longrightarrow> current (acts s) c" using assms(3) c(2) by (auto simp: cb_sets_def)
      then show ?thesis using current_unique [OF assms(5) u, of c] that ok j by auto
    qed
    show ?thesis using ok r run body assms(7) c j by (cases pc) auto
  qed
  then show "cb_acts ?t xs" using cb_acts_drop [OF assms(5,6)] by simp
qed (use assms in auto)

lemma check_wait_inv:
  assumes "\<not> sbad s" "dll (cs s) xs" "cb_sets s xs" "cb_word s xs" "cb_acts s xs"
    and "acts s = us @ (i, RemCheck c) # vs"
  shows "cb_inv (s\<lparr>acts := us @ (i, RemWait c) # vs\<rparr>)" (is "cb_inv ?t")
proof (rule cb_invI [of _ xs])
  show "cb_sets ?t xs" using assms(3,6) by (simp add: cb_sets_def)
  show "cb_word ?t xs" using assms(4,6) by (simp add: cb_word_def stopped_def)
  have "nested (us @ (i, RemWait c) # vs)" using assms(5,6) nested_replace [of us i "RemCheck c" vs] by (simp add: cb_acts_def)
  moreover have "length (filter (removes d) (us @ (i, RemWait c) # vs)) = length (filter (removes d) (acts s))" for d
    using assms(6) by simp
  ultimately show "cb_acts ?t xs" using assms(5,6) by (simp add: cb_acts_def)
qed (use assms in auto)

lemma cb_wait_inv:
  assumes "\<not> sbad s" "dll (cs s) xs" "cb_sets s xs" "cb_word s xs" "cb_acts s xs"
    and "acts s = us @ (i, RemWait c) # vs" "done_sem (cs s) c > 0"
  shows "cb_inv (s\<lparr>cs := (cs s)\<lparr>done_sem := (done_sem (cs s))(c := done_sem (cs s) c - 1)\<rparr>, acts := us @ vs, dead := insert c (dead s)\<rparr>)"
    (is "cb_inv ?t")
proof (rule cb_invI [of _ xs])
  have c: "c \<in> removing s" "c \<notin> dead s" "c \<notin> set xs" using assms(5,6) by (auto simp: cb_acts_def)
  show "cb_sets ?t xs" using assms(3,6) c by (auto simp: cb_sets_def)
  show "cb_word ?t xs" using assms(4,6) by (simp add: cb_word_def stopped_def)
  have n: "nested (us @ (i, RemWait c) # vs)" using assms(5,6) by (simp add: cb_acts_def)
  have "act_ok ?t xs a" if a: "a \<in> set (us @ vs)" for a
  proof -
    have "act_ok s xs a" using assms(5,6) a by (auto simp: cb_acts_def)
    moreover have "\<not> removes c a" using removes_unique [OF assms(5,6)] a by simp
    ultimately show ?thesis using assms(7) c by (cases "(s, xs, a)" rule: act_ok.cases) auto
  qed
  then show "cb_acts ?t xs" using cb_acts_drop [OF assms(5,6)] by simp
qed (use assms in auto)

text \<open>Steps of the requester: every other activity is not one.\<close>

lemma others_not_req:
  assumes "cb_acts s xs" "acts s = us @ a # vs" "is_req a"
  shows "\<And>b. b \<in> set (us @ vs) \<Longrightarrow> act_ok s xs b \<and> \<not> is_req b" "filter is_req us = []" "filter is_req vs = []"
proof -
  have "length (filter is_req (us @ a # vs)) \<le> 1" using assms(1,2) by (simp add: cb_acts_def)
  then show n: "act_ok s xs b \<and> \<not> is_req b" if "b \<in> set (us @ vs)" for b
    using unique_in_list [of is_req us a vs b] assms that by (auto simp: cb_acts_def)
  then show "filter is_req us = []" "filter is_req vs = []" by (auto simp: filter_empty_conv)
qed

lemma req_stopped: "cb_word s xs \<Longrightarrow> acts s = us @ a # vs \<Longrightarrow> is_req a \<Longrightarrow> stopped s"
  by (auto simp: cb_word_def)

lemma act_ok_other:
  assumes "act_ok s xs b" "\<not> is_req b" "used t = used s" "added t = added s" "removing t = removing s" "dead t = dead s"
    "set ys \<subseteq> set xs"
  shows "act_ok t ys b"
  using assms by (cases "(s, xs, b)" rule: act_ok.cases) auto

lemma cb_acts_replace:
  assumes "cb_acts s xs" "acts s = us @ (i, pc) # vs" "is_req (i, pc)" "acts t = us @ as @ vs"
    and "as = [] \<or> (\<exists>pc'. as = [(i, pc')] \<and> act_ok t ys (i, pc') \<and> is_req (i, pc'))" "\<not> is_body pc \<or> idle_in i us"
    and "used t = used s" "added t = added s" "removing t = removing s" "dead t = dead s" "set ys \<subseteq> set xs"
  shows "cb_acts t ys"
proof -
  note o = others_not_req [OF assms(1-3)]
  have n: "nested (us @ (i, pc) # vs)" and l: "\<And>c. length (filter (removes c) (us @ (i, pc) # vs)) \<le> 1"
    using assms(1,2) by (simp_all add: cb_acts_def)
  have r: "\<not> removes c (i, pc')" if "is_req (i, pc')" for c pc' using that by (cases pc') auto
  have "act_ok t ys b" if "b \<in> set (us @ vs)" for b using act_ok_other o(1) [OF that] assms(7-11) by blast
  moreover have "nested (us @ as @ vs)"
    using assms(5,6) n nested_drop [OF n] nested_replace [OF n] by auto
  moreover have "length (filter (removes c) (us @ as @ vs)) \<le> 1" for c
    using l [of c] assms(3,5) r by (auto split: if_splits)
  moreover have "length (filter is_req (us @ as @ vs)) \<le> 1" using o(2,3) assms(5) by auto
  ultimately show ?thesis using assms(5) unfolding cb_acts_def assms(4) by auto
qed

lemma run_inv:
  assumes "\<not> sbad s" "dll (cs s) xs" "cb_sets s xs" "cb_word s xs" "cb_acts s xs"
    and "acts s = us @ (i, ReqRun c e) # vs"
  shows "cb_inv (s\<lparr>acts := us @ (i, ReqBody c e) # vs, runs := (runs s)(c := runs s c + 1), sbad := (sbad s \<or> c \<in> dead s)\<rparr>)"
    (is "cb_inv ?t")
proof (rule cb_invI [of _ xs])
  have ok: "act_ok s xs (i, ReqRun c e)" using assms(5,6) by (auto simp: cb_acts_def)
  show "\<not> sbad ?t" using assms(1) ok by simp
  show "cb_sets ?t xs" using assms(3,6) ok by (auto simp: cb_sets_def)
  show "cb_word ?t xs" using assms(4,6) by (simp add: cb_word_def stopped_def)
  show "cb_acts ?t xs" by (rule cb_acts_replace [OF assms(5,6), where as = "[(i, ReqBody c e)]"]) (use ok in auto)
qed (use assms in auto)

lemma after_inv:
  assumes "\<not> sbad s" "dll (cs s) xs" "cb_sets s xs" "cb_word s xs" "cb_acts s xs"
    and "acts s = us @ (i, ReqBody c e) # vs" "idle_in i us"
  shows "cb_inv (s\<lparr>cs := request_after c (rflag s) (cs s), acts := us @ (if e then [] else [(i, ReqNext)]) @ vs,
       sbad := (sbad s \<or> \<not> rflag s \<and> c \<in> dead s)\<rparr>)" (is "cb_inv ?t")
proof (rule cb_invI [of _ xs])
  have ok: "act_ok s xs (i, ReqBody c e)" using assms(5,6) by (auto simp: cb_acts_def)
  have cur: "\<forall>d. current (acts s) d \<longrightarrow> d = c" using current_unique [OF assms(5,6)] by auto
  show "\<not> sbad ?t" using assms(1) ok by simp
  show "dll (cs ?t) xs" using assms(2) by (simp add: request_after_def)
  have rp: "\<forall>d. removed_ptr (cs s) d \<longrightarrow> d = c \<or> d \<in> dead s" using assms(3) cur by (auto simp: cb_sets_def)
  have ad: "\<forall>d \<in> added s. d \<in> set xs \<or> d \<in> dead s \<or> runs s d = 1" using assms(3) cur ok by (auto simp: cb_sets_def)
  show "cb_sets ?t xs" using assms(3) ok rp ad by (auto simp: cb_sets_def request_after_def)
  show "cb_word ?t xs" using assms(4) req_stopped [OF assms(4,6)] ok
    by (simp add: cb_word_def stopped_def request_after_def)
  show "cb_acts ?t xs" by (rule cb_acts_replace [OF assms(5,6), where as = "if e then [] else [(i, ReqNext)]"])
    (use ok assms(7) in \<open>auto simp: request_after_def\<close>)
qed

lemma next_inv:
  assumes "\<not> sbad s" "dll (cs s) xs" "cb_sets s xs" "cb_word s xs" "cb_acts s xs"
    and "acts s = us @ (i, ReqNext) # vs" "request_next (cs s) = (r, k)"
  shows "cb_inv (s\<lparr>cs := k, acts := us @ request_acts i r @ vs, rflag := (case r of Callback c e \<Rightarrow> False | _ \<Rightarrow> rflag s)\<rparr>)"
    (is "cb_inv ?t")
proof (cases xs)
  case Nil
  then have r: "r = NoCallbacks" "k = cs s" using assms(7) dll_head [OF assms(2)]
    by (auto simp: request_next_def pop_callback_def)
  show ?thesis
  proof (rule cb_invI [of _ xs])
    show "cb_sets ?t xs" using assms(3,6) r by (auto simp: cb_sets_def request_acts_def)
    show "cb_word ?t xs" using assms(4) req_stopped [OF assms(4,6)] r Nil by (simp add: cb_word_def stopped_def)
    show "cb_acts ?t xs" by (rule cb_acts_replace [OF assms(5,6), where as = "[]"]) (use r in \<open>auto simp: request_acts_def\<close>)
  qed (use assms r in auto)
next
  case (Cons c ys)
  obtain k' where "pop_callback (cs s) = Some (c, ys = [], k')" "dll k' ys" "word k' = word (cs s)"
    "running_thread k' = running_thread (cs s)" "removed_ptr k' = (removed_ptr (cs s))(c := True)" "done_sem k' = done_sem (cs s)"
    using pop_dll [of "cs s" c ys] assms(2) Cons by blast
  then have r: "r = Callback c (ys = [])" and k: "dll k ys" "word k = word (cs s)" "running_thread k = running_thread (cs s)"
    "removed_ptr k = (removed_ptr (cs s))(c := True)" "done_sem k = done_sem (cs s)"
    using assms(7) by (auto simp: request_next_def)
  have d: "c \<notin> set ys" using assms(2) Cons by (auto simp: dll_def)
  have ok: "running_thread (cs s) = Some i" using assms(5,6) by (auto simp: cb_acts_def)
  have c: "c \<in> added s" "c \<notin> dead s" "runs s c = 0" "done_sem (cs s) c = 0" using assms(3) Cons by (auto simp: cb_sets_def)
  show ?thesis
  proof (rule cb_invI [of _ ys])
    show "dll (cs ?t) ys" using k(1) by simp
    show "cb_sets ?t ys" using assms(3,6) Cons c k d by (auto simp: cb_sets_def request_acts_def r)
    show "cb_word ?t ys" using assms(4) req_stopped [OF assms(4,6)] k by (simp add: cb_word_def stopped_def request_acts_def r)
    show "cb_acts ?t ys" by (rule cb_acts_replace [OF assms(5,6), where as = "[(i, ReqRun c (ys = []))]"])
      (use c d k ok Cons in \<open>auto simp: request_acts_def r\<close>)
  qed (use assms(1) in simp)
qed

lemma cb_acts_new_req:
  assumes "cb_acts s xs" "filter is_req (acts s) = []" "may_begin i (acts s)" "acts t = (i, pc) # acts s"
    and "act_ok t ys (i, pc)" "is_req (i, pc)"
    and "used t = used s" "added t = added s" "removing t = removing s" "dead t = dead s" "set ys \<subseteq> set xs"
  shows "cb_acts t ys"
proof -
  have "act_ok t ys b" if "b \<in> set (acts s)" for b
    using act_ok_other [of s xs b t ys] no_req [OF assms(2) that] assms(1,7-11) that by (auto simp: cb_acts_def)
  moreover have "\<not> removes c (i, pc)" for c using assms(6) by (cases pc) auto
  moreover have "nested ((i, pc) # acts s)" using assms(1,3) by (simp add: cb_acts_def may_begin_def)
  ultimately show ?thesis using assms(1,2,5) unfolding cb_acts_def assms(4) by auto
qed

lemma request_inv:
  assumes "\<not> sbad s" "dll (cs s) xs" "cb_sets s xs" "cb_word s xs" "cb_acts s xs"
    and "may_begin i (acts s)" "request_begin i (cs s) = (r, k)"
  shows "cb_inv (s\<lparr>cs := k, acts := request_acts i r @ acts s, rflag := (case r of Callback c e \<Rightarrow> False | _ \<Rightarrow> rflag s)\<rparr>)"
    (is "cb_inv ?t")
proof (cases "stopped s")
  case True
  then have "r = AlreadyStopped" "k = cs s" using assms(7) by (auto simp: request_begin_def stopped_def stop_requested_def)
  then show ?thesis using assms(1-5) by (intro cb_invI [of _ xs]) (auto simp: request_acts_def)
next
  case False
  then have nr: "filter is_req (acts s) = []" using assms(4) by (simp add: cb_word_def)
  obtain n w p where w: "n < max_sources" "word (cs s) = enc n False w p" using assms(4) by (auto simp: cb_word_def)
  then have w': "word (cs s) OR FlagStopped = enc n False w True" "has_flag (enc n False w True) FlagStopped"
    using False by (cases p, auto simp: stopped_def stop_requested_def)
  show ?thesis
  proof (cases xs)
    case Nil
    then have r: "r = NoCallbacks" "k = (cs s)\<lparr>word := enc n False w True\<rparr>"
      using assms(7) dll_head [OF assms(2)] False w' by (auto simp: request_begin_def stopped_def stop_requested_def)
    have "cb_sets ?t xs" using assms(3) r by (auto simp: cb_sets_def request_acts_def)
    moreover have "cb_word ?t xs" using w(1) w'(2) Nil r by (auto simp: cb_word_def stopped_def stop_requested_def)
    moreover have "cb_acts ?t xs"
      using assms(5) act_ok_other [of s xs _ ?t xs] no_req [OF nr] r by (auto simp: cb_acts_def request_acts_def)
    ultimately show ?thesis using assms(1,2) r by (intro cb_invI [of _ xs]) auto
  next
    case (Cons c ys)
    let ?k = "(cs s)\<lparr>word := enc n False w True, running_thread := Some i\<rparr>"
    obtain k' where k': "pop_callback ?k = Some (c, ys = [], k')" "dll k' ys" "word k' = enc n False w True"
      "running_thread k' = Some i" "removed_ptr k' = (removed_ptr (cs s))(c := True)" "done_sem k' = done_sem (cs s)"
      using pop_dll [of ?k c ys] assms(2) Cons by auto
    then have r: "r = Callback c (ys = [])" "k = k'"
      using assms(7) dll_head [OF assms(2)] False w' Cons by (auto simp: request_begin_def stopped_def stop_requested_def)
    have d: "c \<notin> set ys" using assms(2) Cons by (auto simp: dll_def)
    have c: "c \<in> added s" "c \<notin> dead s" "runs s c = 0" "done_sem (cs s) c = 0" using assms(3) Cons by (auto simp: cb_sets_def)
    show ?thesis
    proof (rule cb_invI [of _ ys])
      show "dll (cs ?t) ys" using k'(2) r by simp
      show "cb_sets ?t ys" using assms(3) Cons c k' d by (auto simp: cb_sets_def request_acts_def r)
      show "cb_word ?t ys" using k' w(1) w'(2) r by (auto simp: cb_word_def stopped_def stop_requested_def request_acts_def)
      show "cb_acts ?t ys" by (rule cb_acts_new_req [OF assms(5) nr assms(6), where pc = "ReqRun c (ys = [])"])
        (use c d k' Cons in \<open>auto simp: request_acts_def r\<close>)
    qed (use assms(1) in simp)
  qed
qed

lemma cb_step_inv:
  assumes "cb_inv s" "cb_step s t"
  shows "cb_inv t"
proof -
  obtain xs where i: "\<not> sbad s" "dll (cs s) xs" "cb_sets s xs" "cb_word s xs" "cb_acts s xs"
    using assms(1) by (auto simp: cb_inv_def)
  from assms(2) show ?thesis
  proof cases
    case (b_source n w p)
    then show ?thesis using word_step_inv [OF i b_source(2), of "Suc n"] by simp
  next
    case (b_unsource n w p)
    then show ?thesis using word_step_inv [OF i b_unsource(2,4), of "n - 1"] by simp
  next
    case (b_add i' c k)
    then show ?thesis using add_inv [OF i] by simp
  next
    case (b_add_inline i' c k)
    then have "k = cs s" by (auto simp: add_callback_def split: if_splits)
    then show ?thesis using add_inline_inv(1) [OF i b_add_inline(3,2)] b_add_inline(1) by simp
  next
    case (b_add_never i' c k)
    then have "k = cs s" by (auto simp: add_callback_def split: if_splits)
    then show ?thesis using add_inline_inv(2) [OF i b_add_never(3,2)] b_add_never(1) by simp
  next
    case (b_add_end us i' c vs)
    then show ?thesis using add_end_inv [OF i] by simp
  next
    case (b_remove i' c k)
    then show ?thesis using remove_inv [OF i] by simp
  next
    case (b_remove_late i' c k)
    then show ?thesis using remove_late_inv [OF i] by simp
  next
    case (b_check us i' c vs f)
    then have "running_thread (cs s) = Some i'" "f = removed_ptr (cs s) c" by (auto simp: remove_check_def)
    then show ?thesis using check_inv [OF i b_check(2)] b_check(1) by simp
  next
    case (b_check_wait us i' c vs f)
    then show ?thesis using check_wait_inv [OF i] by simp
  next
    case (b_wait us i' c vs)
    then show ?thesis using cb_wait_inv [OF i] by simp
  next
    case (b_request i' r k)
    then show ?thesis using request_inv [OF i] by simp
  next
    case (b_run us i' c e vs)
    then show ?thesis using run_inv [OF i] by simp
  next
    case (b_after us i' c e vs)
    then show ?thesis using after_inv [OF i] by simp
  next
    case (b_next us i' vs r k)
    then show ?thesis using next_inv [OF i] by simp
  qed
qed

interpretation stop_cb: inv_system cb_init cb_step cb_inv
  by unfold_locales (auto intro: cb_init_inv cb_step_inv)

section \<open>Properties\<close>

text \<open>
  C30. The word implements a lock with a stop flag and a source counter: in every interleaving at most
  one thread holds the lock, the lock bit is set exactly while one does, \<open>lock_stop\<close>
  succeeds at most once and the stop bit tells whether it did, and the rest of the word counts
  the stop sources.
\<close>

theorem stop_lock_exclusive:
  assumes "reach lock_init lock_step s"
  shows "lock_holders s \<le> 1 \<and> (has_flag (lword s) FlagLocked \<longleftrightarrow> lock_holders s = 1) \<and>
    stops s \<le> 1 \<and> (stop_requested (lword s) \<longleftrightarrow> stops s = 1) \<and> (has_sources (lword s) \<longleftrightarrow> sources s > 0)"
proof -
  obtain l w p where "sources s < max_sources" "lock_holders s = (if l then 1 else 0)" "stops s = (if p then 1 else 0)"
    "lword s = enc (sources s) l w p" using lock_okE [OF stop_lock.reach_inv [OF assms]] by blast
  then show ?thesis by (simp add: stop_requested_def)
qed

definition lock0 :: lock_sys where
  "lock0 = \<lparr>lword = 0, lthreads = [], sources = 0, stops = 0\<rparr>"

definition lock_stopped :: lock_sys where
  "lock_stopped = \<lparr>lword = 5, lthreads = [Holds], sources = 0, stops = 1\<rparr>"

lemma lock_stopped_reach: "reach lock_init lock_step lock_stopped"
proof -
  have "reach lock_init lock_step lock0" by (rule reach_init) (simp add: lock_init_def lock0_def)
  moreover have "lock_step lock0 (lock0\<lparr>lthreads := [WantStop 0]\<rparr>)"
    using l_begin [of "WantStop 0" lock0] by (simp add: lock0_def)
  moreover have "lock_step (lock0\<lparr>lthreads := [WantStop 0]\<rparr>) lock_stopped"
    using l_stop [of "lock0\<lparr>lthreads := [WantStop 0]\<rparr>" "[]" 0 "[]" False "STurn LLocked" 5]
    by (simp add: lock0_def lock_stopped_def lock_stop_try_def has_flag_def stop_lock_next_def lock_next_def
        FlagLocked_def FlagStopped_def)
  ultimately show ?thesis by (blast intro: reach_step)
qed

theorem stop_lock_exclusive_witness:
  "has_flag (lword lock_stopped) FlagLocked \<and> stop_requested (lword lock_stopped) \<and> \<not> has_sources (lword lock_stopped)"
  using stop_lock_exclusive [OF lock_stopped_reach] by (simp add: lock_stopped_def)

text \<open>
  C31. Whatever threads add, remove and run callbacks, and also when callbacks remove themselves or
  start further operations, no callback runs more than once and no destroyed callback is
  touched.
\<close>

theorem stop_callbacks_once:
  assumes "reach cb_init cb_step s"
  shows "runs s c \<le> 1 \<and> \<not> sbad s"
  using stop_cb.reach_inv [OF assms] by (auto simp: cb_inv_def cb_sets_def)

text \<open>Callback 5 is registered, thread 1 requests stop and runs it.\<close>

definition cb0 :: cb_sys where
  "cb0 = \<lparr>cs = stop_state, acts = [], rflag = False, runs = (\<lambda>_. 0), used = {}, added = {}, removing = {}, dead = {}, sbad = False\<rparr>"

definition cb_added :: cb_sys where
  "cb_added = cb0\<lparr>cs := stop_state\<lparr>word := 8, head := Some 5\<rparr>, used := {5}, added := {5}\<rparr>"

definition cb_running :: cb_sys where
  "cb_running = cb_added\<lparr>cs := stop_state\<lparr>word := 9, head := None, nx := (\<lambda>_. None)(5 := None), running_thread := Some 1,
     removed_ptr := (\<lambda>_. False)(5 := True)\<rparr>, acts := [(1, ReqBody 5 True)], runs := (\<lambda>_. 0)(5 := 1)\<rparr>"

definition cb_finished :: cb_sys where
  "cb_finished = cb_running\<lparr>cs := (cs cb_running)\<lparr>removed_ptr := (\<lambda>_. False)(5 := True, 5 := False), done_sem := (\<lambda>_. 0)(5 := 1)\<rparr>, acts := []\<rparr>"

lemmas cb_example_defs = cb0_def cb_added_def cb_running_def cb_finished_def stop_state_def

lemma cb_added_reach: "reach cb_init cb_step cb_added"
proof -
  let ?a = "cb0\<lparr>cs := stop_state\<lparr>word := 8\<rparr>\<rparr>"
  have "reach cb_init cb_step cb0" by (rule reach_init) (simp add: cb_init_def cb0_def)
  moreover have "cb_step cb0 ?a"
    using b_source [of cb0 0 False False] by (simp add: cb_example_defs enc_def max_sources_def add_source_def SourceCountIncrement_def)
  moreover have "cb_step ?a cb_added"
    using b_add [of 0 ?a 5]
    by (simp add: cb_example_defs may_begin_def add_callback_def has_flag_def FlagStopped_def has_sources_def
        SourceCountIncrement_def link_callback_def)
  ultimately show ?thesis by (blast intro: reach_step)
qed

lemma cb_running_reach: "reach cb_init cb_step cb_running"
proof -
  let ?a = "cb_running\<lparr>acts := [(1, ReqRun 5 True)], runs := (\<lambda>_. 0)\<rparr>"
  have "cb_step cb_added ?a"
    using b_request [of 1 cb_added "Callback 5 True"]
    by (simp add: cb_example_defs may_begin_def request_begin_def pop_callback_def has_flag_def FlagStopped_def request_acts_def)
  moreover have "cb_step ?a cb_running"
    using b_run [of ?a "[]" 1 5 True "[]"] by (simp add: cb_example_defs)
  ultimately show ?thesis using cb_added_reach by (blast intro: reach_step)
qed

lemma cb_finished_reach: "reach cb_init cb_step cb_finished"
proof -
  have "cb_step cb_running cb_finished"
    using b_after [of cb_running "[]" 1 5 True "[]"] by (simp add: cb_example_defs idle_in_def request_after_def)
  then show ?thesis using cb_running_reach by (blast intro: reach_step)
qed

theorem stop_callbacks_once_witness: "runs cb_running 5 = 1 \<and> runs cb_running 5 \<le> 1 \<and> \<not> sbad cb_running"
  using stop_callbacks_once [OF cb_running_reach, of 5] by (simp add: cb_running_def)

text \<open>
  A requested stop reaches everybody: when stop was requested and the call that requested it has
  returned, every callback that was registered and not destroyed has run.
\<close>

theorem stop_callbacks_all:
  assumes "reach cb_init cb_step s" "stopped s" "filter is_req (acts s) = []" "c \<in> added s" "c \<notin> dead s"
  shows "runs s c = 1"
proof -
  obtain xs where "cb_sets s xs" "cb_word s xs" using stop_cb.reach_inv [OF assms(1)] by (auto simp: cb_inv_def)
  then show ?thesis using assms(2-5) no_req_current [OF assms(3), of c] by (auto simp: cb_sets_def cb_word_def)
qed

theorem stop_callbacks_all_witness: "stopped cb_finished \<and> runs cb_finished 5 = 1"
proof -
  have "stopped cb_finished" by (simp add: cb_example_defs stopped_def stop_requested_def has_flag_def FlagStopped_def)
  then show ?thesis using stop_callbacks_all [OF cb_finished_reach, of 5] by (simp add: cb_example_defs)
qed

text \<open>
  C35. The destructor of a callback is a barrier: when it has returned, the callback never runs again,
  and it is in no step of a running \<open>request_stop\<close> except the body of the callback that
  destroyed itself.
\<close>

theorem stop_callback_barrier:
  assumes "reach cb_init cb_step s" "c \<in> dead s" "cb_step s t"
  shows "runs t c = runs s c \<and> c \<in> dead t \<and> (\<forall>i e. (i, ReqRun c e) \<notin> set (acts s)) \<and>
    (\<forall>i e. (i, ReqBody c e) \<in> set (acts s) \<longrightarrow> rflag s)"
proof -
  obtain xs where x: "cb_sets s xs" "cb_acts s xs" using stop_cb.reach_inv [OF assms(1)] by (auto simp: cb_inv_def)
  have n: "(i, ReqRun c e) \<notin> set (acts s)" "(i, ReqBody c e) \<in> set (acts s) \<Longrightarrow> rflag s" for i e
    using x(2) assms(2) by (auto simp: cb_acts_def)
  have m: "acts s = us @ (i, ReqRun d e) # vs \<Longrightarrow> d \<noteq> c" for us i d e vs using n(1) by auto
  have "c \<in> used s" using x(1) assms(2) by (auto simp: cb_sets_def)
  then have "runs t c = runs s c \<and> c \<in> dead t"
    using assms(2,3) by (auto elim!: cb_step.cases dest: m)
  then show ?thesis using n by blast
qed

theorem stop_callback_barrier_witness:
  "\<exists>s t. reach cb_init cb_step s \<and> cb_step s t \<and> 5 \<in> dead s \<and> runs t 5 = runs s 5"
proof -
  let ?s = "cb_added\<lparr>cs := stop_state\<lparr>word := 8, head := None, nx := (\<lambda>_. None)(5 := None)\<rparr>, removing := {5}, dead := {5}\<rparr>"
  let ?t = "?s\<lparr>cs := (cs ?s)\<lparr>word := 16\<rparr>\<rparr>"
  have "cb_step cb_added ?s"
    using b_remove [of 0 cb_added 5] by (simp add: cb_example_defs may_begin_def remove_callback_locked_def)
  then have r: "reach cb_init cb_step ?s" using cb_added_reach by (blast intro: reach_step)
  have st: "cb_step ?s ?t"
    using b_source [of ?s 1 False False] by (simp add: cb_example_defs enc_def max_sources_def add_source_def SourceCountIncrement_def)
  have "runs ?t 5 = runs ?s 5" using stop_callback_barrier [OF r _ st, of 5] by (simp add: cb_example_defs)
  then show ?thesis using r st by (intro exI [of _ ?s] exI [of _ ?t]) simp
qed

text \<open>
  C37. The doubly linked list behaves as a sequence: adding puts a callback in front, removing a
  callback unlinks it wherever it is and reports whether it was there, and the callback taken
  by \<open>request_stop\<close> is the first one, reported as the last exactly when none is left.
\<close>

theorem callback_list_refines:
  assumes "dll s xs"
  shows "(c \<notin> set xs \<longrightarrow> dll (link_callback c s) (c # xs)) \<and>
    (\<exists>s'. remove_callback_locked c s = (c \<in> set xs, s') \<and> dll s' (remove1 c xs)) \<and>
    (\<forall>d ys. xs = d # ys \<longrightarrow> (\<exists>s'. pop_callback s = Some (d, ys = [], s') \<and> dll s' ys))"
  using link_dll [OF assms] remove_dll [OF assms] pop_dll assms by blast

theorem callback_list_refines_witness:
  "\<exists>s'. remove_callback_locked 5 (cs cb_added) = (True, s') \<and> dll s' []"
proof -
  have "dll (cs cb_added) [5]" by (simp add: cb_example_defs dll_def)
  then show ?thesis using callback_list_refines [of "cs cb_added" "[5]" 5] by auto
qed

end
