(* ===== verification/Stop_Source.thy ===== *)
theory Stop_Source
  imports Stop_Token
begin

text \<open>
  The handles on a stop state: \<open>stop_source\<close>, \<open>stop_token\<close> and \<open>stop_callback\<close> of
  \<open>coroactors/detail/stop_token_polyfill.h\<close> and \<open>scoped_stop_source\<close> of
  \<open>coroactors/stop_token.h\<close>.  Which states are still referenced is the business of
  \<open>intrusive_ptr\<close>; here handles only name their state, and sources count themselves in the word
  of the state.  A local variable \<open>prev\<close> of an assignment is a value, not a handle.
\<close>

type_synonym handle_id = nat
type_synonym state_id = nat

record stop_objs =
  sources :: "handle_id \<Rightarrow> state_id option"
  tokens :: "handle_id \<Rightarrow> state_id option"
  callbacks :: "addr \<Rightarrow> state_id option"
  sstates :: "state_id \<Rightarrow> stop_state"

definition set_source :: "handle_id \<Rightarrow> state_id option \<Rightarrow> stop_objs \<Rightarrow> stop_objs" where
  "set_source l p s = s\<lparr>sources := (sources s)(l := p)\<rparr>"

definition upd_word :: "(stop_word \<Rightarrow> stop_word) \<Rightarrow> state_id option \<Rightarrow> stop_objs \<Rightarrow> stop_objs" where
  "upd_word f p s = (case p of
       None \<Rightarrow> s
     | Some x \<Rightarrow> s\<lparr>sstates := (sstates s)(x := (sstates s x)\<lparr>word := f (word (sstates s x))\<rparr>)\<rparr>)"

definition source_new :: "handle_id \<Rightarrow> state_id \<Rightarrow> stop_objs \<Rightarrow> stop_objs" where
  "source_new l x s = upd_word add_source (Some x) (set_source l (Some x) (s\<lparr>sstates := (sstates s)(x := stop_state)\<rparr>))"

definition source_nostate :: "handle_id \<Rightarrow> stop_objs \<Rightarrow> stop_objs" where
  "source_nostate l s = set_source l None s"

definition source_copy :: "handle_id \<Rightarrow> handle_id \<Rightarrow> stop_objs \<Rightarrow> stop_objs" where
  "source_copy l r s = upd_word add_source (sources s r) (set_source l (sources s r) s)"

definition source_move :: "handle_id \<Rightarrow> handle_id \<Rightarrow> stop_objs \<Rightarrow> stop_objs" where
  "source_move l r s = set_source r None (set_source l (sources s r) s)"

definition source_destroy :: "handle_id \<Rightarrow> stop_objs \<Rightarrow> stop_objs" where
  "source_destroy l s = set_source l None (upd_word remove_source (sources s l) s)"

definition source_assign :: "handle_id \<Rightarrow> handle_id \<Rightarrow> stop_objs \<Rightarrow> stop_objs" where
  "source_assign l r s =
     (if l = r then s
      else let prev = sources s l; s = set_source l (sources s r) s
           in upd_word remove_source prev (upd_word add_source (sources s l) s))"

definition source_move_assign :: "handle_id \<Rightarrow> handle_id \<Rightarrow> stop_objs \<Rightarrow> stop_objs" where
  "source_move_assign l r s =
     (if l = r then s
      else let prev = sources s l; s = set_source r None (set_source l (sources s r) s)
           in upd_word remove_source prev s)"

definition source_swap :: "handle_id \<Rightarrow> handle_id \<Rightarrow> stop_objs \<Rightarrow> stop_objs" where
  "source_swap l r s = s\<lparr>sources := (sources s)(l := sources s r, r := sources s l)\<rparr>"

text \<open>The first part of \<open>request_stop\<close> (\<open>Stop_Token\<close> has the rest); \<open>None\<close> without a state.\<close>

definition source_request :: "tid \<Rightarrow> handle_id \<Rightarrow> stop_objs \<Rightarrow> request_out option \<times> stop_objs" where
  "source_request i l s = (case sources s l of
       None \<Rightarrow> (None, s)
     | Some x \<Rightarrow> (case request_begin i (sstates s x) of (out, k) \<Rightarrow> (Some out, s\<lparr>sstates := (sstates s)(x := k)\<rparr>)))"

definition source_possible :: "handle_id \<Rightarrow> stop_objs \<Rightarrow> bool" where
  "source_possible l s = (sources s l \<noteq> None)"

definition source_requested :: "handle_id \<Rightarrow> stop_objs \<Rightarrow> bool" where
  "source_requested l s = (case sources s l of None \<Rightarrow> False | Some x \<Rightarrow> stop_requested (word (sstates s x)))"

definition get_token :: "handle_id \<Rightarrow> handle_id \<Rightarrow> stop_objs \<Rightarrow> stop_objs" where
  "get_token k l s = s\<lparr>tokens := (tokens s)(k := sources s l)\<rparr>"

definition token_possible :: "handle_id \<Rightarrow> stop_objs \<Rightarrow> bool" where
  "token_possible k s = (case tokens s k of None \<Rightarrow> False | Some x \<Rightarrow> stop_possible (word (sstates s x)))"

definition token_requested :: "handle_id \<Rightarrow> stop_objs \<Rightarrow> bool" where
  "token_requested k s = (case tokens s k of None \<Rightarrow> False | Some x \<Rightarrow> stop_requested (word (sstates s x)))"

text \<open>\<open>stop_callback\<close> keeps the state only when the callback was added to its list.\<close>

definition callback_new :: "addr \<Rightarrow> handle_id \<Rightarrow> stop_objs \<Rightarrow> add_out \<times> stop_objs" where
  "callback_new c k s = (case tokens s k of
       None \<Rightarrow> (NeverRuns, s\<lparr>callbacks := (callbacks s)(c := None)\<rparr>)
     | Some x \<Rightarrow> (case add_callback c (sstates s x) of (out, v) \<Rightarrow>
         (out, s\<lparr>sstates := (sstates s)(x := v), callbacks := (callbacks s)(c := (if out = Added then Some x else None))\<rparr>)))"

definition callback_destroy :: "addr \<Rightarrow> stop_objs \<Rightarrow> bool \<times> stop_objs" where
  "callback_destroy c s = (case callbacks s c of
       None \<Rightarrow> (True, s)
     | Some x \<Rightarrow> (case remove_callback_locked c (sstates s x) of (b, v) \<Rightarrow> (b, s\<lparr>sstates := (sstates s)(x := v)\<rparr>)))"

text \<open>\<open>scoped_stop_source\<close> requests a stop before the source is destroyed.\<close>

definition scoped_destroy :: "tid \<Rightarrow> handle_id \<Rightarrow> stop_objs \<Rightarrow> request_out option \<times> stop_objs" where
  "scoped_destroy i l s = (case source_request i l s of (out, s') \<Rightarrow> (out, source_destroy l s'))"

datatype source_op = SNew handle_id state_id | SNoState handle_id | SCopy handle_id handle_id | SMove handle_id handle_id
  | SDestroy handle_id | SAssign handle_id handle_id | SMoveAssign handle_id handle_id | SSwap handle_id handle_id
  | SRequest tid handle_id | SScoped tid handle_id | SToken handle_id handle_id | SCallback addr handle_id | SUncallback addr

fun source_exec :: "source_op \<Rightarrow> stop_objs \<Rightarrow> stop_objs" where
  "source_exec (SNew l x) s = source_new l x s"
| "source_exec (SNoState l) s = source_nostate l s"
| "source_exec (SCopy l r) s = source_copy l r s"
| "source_exec (SMove l r) s = source_move l r s"
| "source_exec (SDestroy l) s = source_destroy l s"
| "source_exec (SAssign l r) s = source_assign l r s"
| "source_exec (SMoveAssign l r) s = source_move_assign l r s"
| "source_exec (SSwap l r) s = source_swap l r s"
| "source_exec (SRequest i l) s = snd (source_request i l s)"
| "source_exec (SScoped i l) s = snd (scoped_destroy i l s)"
| "source_exec (SToken k l) s = get_token k l s"
| "source_exec (SCallback c k) s = snd (callback_new c k s)"
| "source_exec (SUncallback c) s = snd (callback_destroy c s)"

section \<open>Counting sources\<close>

definition nsources :: "stop_objs \<Rightarrow> state_id \<Rightarrow> nat" where
  "nsources s x = card {l. sources s l = Some x}"

text \<open>
  A program constructs a handle where none is, and a state that was never used.  \<open>known\<close> are the
  states created so far; there are fewer handles than the word can count.
\<close>

fun source_legal :: "source_op \<Rightarrow> stop_objs \<Rightarrow> state_id set \<Rightarrow> bool" where
  "source_legal (SNew l x) s known = (sources s l = None \<and> x \<notin> known)"
| "source_legal (SNoState l) s known = (sources s l = None)"
| "source_legal (SCopy l r) s known = (sources s l = None)"
| "source_legal (SMove l r) s known = (sources s l = None \<and> l \<noteq> r)"
| "source_legal op s known = True"

fun source_known :: "source_op \<Rightarrow> state_id set \<Rightarrow> state_id set" where
  "source_known (SNew l x) known = insert x known"
| "source_known op known = known"

definition source_inv :: "stop_objs \<Rightarrow> state_id set \<Rightarrow> bool" where
  "source_inv s known \<longleftrightarrow> finite {l. sources s l \<noteq> None} \<and> ran (sources s) \<subseteq> known \<and>
     (\<forall>x \<in> known. \<exists>l w p. word (sstates s x) = enc (nsources s x) l w p)"

definition few_sources :: "stop_objs \<Rightarrow> bool" where
  "few_sources s \<longleftrightarrow> card {l. sources s l \<noteq> None} < max_sources"

lemma nsources_set:
  assumes "finite {l. sources s l \<noteq> None}"
  shows "nsources (set_source l p s) x + of_bool (sources s l = Some x) = nsources s x + of_bool (p = Some x)"
proof -
  let ?A = "{k. k \<noteq> l \<and> sources s k = Some x}"
  have f: "finite ?A" using assms by (rule rev_finite_subset) auto
  have "{k. sources (set_source l p s) k = Some x} = (if p = Some x then insert l ?A else ?A)"
    "{k. sources s k = Some x} = (if sources s l = Some x then insert l ?A else ?A)"
    by (auto simp: set_source_def)
  then show ?thesis using f by (auto simp: nsources_def)
qed

lemma finite_set_source: "finite {l. sources s l \<noteq> None} \<Longrightarrow> finite {k. sources (set_source l p s) k \<noteq> None}"
  by (rule finite_subset [of _ "insert l {l. sources s l \<noteq> None}"]) (auto simp: set_source_def)

lemma sources_simps [simp]:
  "sources (upd_word f p s) = sources s" "sources (set_source l p s) = (sources s)(l := p)"
  "sstates (set_source l p s) = sstates s"
  by (auto simp: upd_word_def set_source_def split: option.splits)

lemma upd_word_word: "word (sstates (upd_word f p s) x) = (if p = Some x then f (word (sstates s x)) else word (sstates s x))"
  by (auto simp: upd_word_def split: option.splits)

text \<open>
  Every operation on sources writes a handle and adjusts the counters of the old and the new
  state.  \<open>counts s known n\<close>: the counters of the known states are \<open>n\<close>.
\<close>

definition counts :: "stop_objs \<Rightarrow> state_id set \<Rightarrow> (state_id \<Rightarrow> nat) \<Rightarrow> bool" where
  "counts s known n \<longleftrightarrow> (\<forall>x \<in> known. \<exists>l w p. word (sstates s x) = enc (n x) l w p)"

lemma counts_cong: "(\<And>x. x \<in> known \<Longrightarrow> n x = m x) \<Longrightarrow> counts s known n \<Longrightarrow> counts s known m"
  by (auto simp: counts_def)

lemma counts_set [simp]: "counts (set_source l p s) known n = counts s known n"
  by (simp add: counts_def)

lemma counts_add: "counts s known n \<Longrightarrow> counts (upd_word add_source p s) known (\<lambda>x. n x + of_bool (p = Some x))"
  unfolding counts_def by (fastforce simp: upd_word_word)

lemma counts_remove:
  assumes "counts s known n" "\<And>x. p = Some x \<Longrightarrow> n x > 0"
  shows "counts (upd_word remove_source p s) known (\<lambda>x. n x - of_bool (p = Some x))"
  unfolding counts_def
proof
  fix x assume "x \<in> known"
  then obtain l w f where "word (sstates s x) = enc (n x) l w f" using assms(1) by (auto simp: counts_def)
  then show "\<exists>l w pa. word (sstates (upd_word remove_source p s) x) = enc (n x - of_bool (p = Some x)) l w pa"
    using assms(2) [of x] by (auto simp: upd_word_word)
qed

lemma source_inv_counts: "source_inv s known \<longleftrightarrow> finite {l. sources s l \<noteq> None} \<and> ran (sources s) \<subseteq> known \<and> counts s known (nsources s)"
  by (simp add: source_inv_def counts_def)

lemma nsources_pos: "finite {l. sources s l \<noteq> None} \<Longrightarrow> sources s l = Some x \<Longrightarrow> nsources s x > 0"
  using finite_subset [of "{l. sources s l = Some x}" "{l. sources s l \<noteq> None}"] by (auto simp: nsources_def card_gt_0_iff)

lemma nsources_less:
  assumes "source_inv s known" "few_sources s"
  shows "nsources s x < max_sources"
proof -
  have "nsources s x \<le> card {l. sources s l \<noteq> None}"
    using assms(1) unfolding nsources_def source_inv_def by (intro card_mono) auto
  then show ?thesis using assms(2) by (simp add: few_sources_def)
qed

section \<open>Preservation\<close>

lemma ran_upd: "ran m \<subseteq> A \<Longrightarrow> (\<And>x. p = Some x \<Longrightarrow> x \<in> A) \<Longrightarrow> ran (m(l := p)) \<subseteq> A"
  by (auto simp: ran_def split: if_splits)

lemma nsources_cong: "sources s = sources t \<Longrightarrow> nsources s = nsources t"
  by (simp add: nsources_def fun_eq_iff)

lemma write_inv:
  assumes "source_inv s known" "\<And>x. p = Some x \<Longrightarrow> x \<in> known" "sources t = (sources s)(l := p)"
    and "counts t known (\<lambda>x. nsources s x - of_bool (sources s l = Some x) + of_bool (p = Some x))"
  shows "source_inv t known"
proof -
  have f: "finite {l. sources s l \<noteq> None}" "ran (sources s) \<subseteq> known" using assms(1) by (auto simp: source_inv_def)
  have e: "sources t = sources (set_source l p s)" using assms(3) by simp
  have "nsources t x = nsources s x - of_bool (sources s l = Some x) + of_bool (p = Some x)" for x
  proof -
    have "nsources t x + of_bool (sources s l = Some x) = nsources s x + of_bool (p = Some x)"
      using nsources_set [OF f(1), of l p x] unfolding nsources_cong [OF e] .
    then show ?thesis using nsources_pos [OF f(1), of l x] by (cases "sources s l = Some x") simp_all
  qed
  then have "counts t known (nsources t)" using counts_cong [OF _ assms(4), of "nsources t"] by simp
  moreover have "finite {k. sources t k \<noteq> None}" unfolding e by (rule finite_set_source [OF f(1)])
  moreover have "ran (sources t) \<subseteq> known" unfolding assms(3) using f(2) assms(2) by (rule ran_upd)
  ultimately show ?thesis by (simp add: source_inv_counts)
qed

lemma known_source: "source_inv s known \<Longrightarrow> sources s r = Some x \<Longrightarrow> x \<in> known"
  by (auto simp: source_inv_def ran_def)

lemma move_nsources:
  assumes "finite {l. sources s l \<noteq> None}" "l \<noteq> r"
  shows "nsources (set_source r None (set_source l (sources s r) s)) x + of_bool (sources s l = Some x) = nsources s x"
  using nsources_set [OF assms(1), of l "sources s r" x] nsources_set [OF finite_set_source [OF assms(1)], of r None l "sources s r" x] assms(2)
  by simp

lemma move_inv_source:
  assumes "source_inv s known" "l \<noteq> r" "sources t = (sources s)(l := sources s r, r := None)"
    and "counts t known (\<lambda>x. nsources s x - of_bool (sources s l = Some x))"
  shows "source_inv t known"
proof -
  have f: "finite {l. sources s l \<noteq> None}" "ran (sources s) \<subseteq> known" using assms(1) by (auto simp: source_inv_def)
  have e: "sources t = sources (set_source r None (set_source l (sources s r) s))" using assms(3) by simp
  have "nsources t x = nsources s x - of_bool (sources s l = Some x)" for x
  proof -
    have "nsources t x + of_bool (sources s l = Some x) = nsources s x"
      using move_nsources [OF f(1) assms(2), of x] unfolding nsources_cong [OF e] .
    then show ?thesis by simp
  qed
  then have "counts t known (nsources t)" using counts_cong [OF _ assms(4), of "nsources t"] by simp
  moreover have "finite {k. sources t k \<noteq> None}" unfolding e by (intro finite_set_source f)
  moreover have "ran (sources t) \<subseteq> known" unfolding assms(3)
    using f(2) known_source [OF assms(1)] by (intro ran_upd) auto
  ultimately show ?thesis by (simp add: source_inv_counts)
qed

lemma same_sources_inv:
  assumes "source_inv s known" "sources t = sources s"
    and "\<And>x. x \<in> known \<Longrightarrow> \<exists>l w p. word (sstates s x) = enc (nsources s x) l w p \<Longrightarrow> \<exists>l w p. word (sstates t x) = enc (nsources s x) l w p"
  shows "source_inv t known"
  using assms nsources_cong [OF assms(2)] by (simp add: source_inv_def)

lemma same_words_inv:
  assumes "source_inv s known" "sources t = sources s" "\<And>x. word (sstates t x) = word (sstates s x)"
  shows "source_inv t known"
  using assms nsources_cong [OF assms(2)] by (simp add: source_inv_def)

lemma pop_callback_word: "pop_callback s = Some (c, e, s') \<Longrightarrow> word s' = word s"
  by (auto simp: pop_callback_def split: option.splits)

lemma request_begin_word:
  "request_begin i s = (out, k) \<Longrightarrow> word k = (if has_flag (word s) FlagStopped then word s else word s OR FlagStopped)"
  by (auto simp: request_begin_def Let_def dest: pop_callback_word split: if_splits option.splits)

lemma request_inv_source:
  assumes "source_inv s known" "few_sources s"
  shows "source_inv (snd (source_request i l s)) known"
proof (rule same_sources_inv [OF assms(1)])
  show "sources (snd (source_request i l s)) = sources s"
    by (simp add: source_request_def split: option.splits prod.splits)
  fix x assume "x \<in> known" "\<exists>a w p. word (sstates s x) = enc (nsources s x) a w p"
  then obtain a w p where e: "word (sstates s x) = enc (nsources s x) a w p" by blast
  have n: "nsources s x < max_sources" using nsources_less [OF assms] .
  have "word k = enc (nsources s x) a w True" if "request_begin i (sstates s x) = (out, k)" for out k
    using request_begin_word [OF that] e n by (cases p) simp_all
  then have "word (sstates (snd (source_request i l s)) x) \<in> {enc (nsources s x) a w p, enc (nsources s x) a w True}"
    using e by (auto simp: source_request_def split: option.splits prod.splits)
  then show "\<exists>a w p. word (sstates (snd (source_request i l s)) x) = enc (nsources s x) a w p" by auto
qed

lemma destroy_inv_source:
  assumes "source_inv s known"
  shows "source_inv (source_destroy l s) known"
proof (rule write_inv [OF assms, of None _ l])
  have f: "finite {l. sources s l \<noteq> None}" "counts s known (nsources s)" using assms by (simp_all add: source_inv_counts)
  have "counts (upd_word remove_source (sources s l) s) known (\<lambda>x. nsources s x - of_bool (sources s l = Some x))"
    by (rule counts_remove [OF f(2)]) (auto intro: nsources_pos [OF f(1)])
  then show "counts (source_destroy l s) known (\<lambda>x. nsources s x - of_bool (sources s l = Some x) + of_bool (None = Some x))"
    by (simp add: source_destroy_def)
qed (simp_all add: source_destroy_def)

lemma new_inv_source:
  assumes "source_inv s known" "sources s l = None" "x \<notin> known"
  shows "source_inv (source_new l x s) (insert x known)"
proof -
  let ?s = "s\<lparr>sstates := (sstates s)(x := stop_state)\<rparr>"
  have "{l. sources s l = Some x} = {}" using known_source [OF assms(1)] assms(3) by auto
  then have n: "nsources s x = 0" by (simp add: nsources_def)
  have w: "word (sstates ?s x) = enc 0 False False False" by (simp add: stop_state_def enc_def)
  have c: "counts ?s (insert x known) (nsources s)"
    using assms(1,3) w n by (auto simp: counts_def source_inv_def)
  have s: "source_inv ?s (insert x known)" using assms(1) c nsources_cong [of ?s s] by (auto simp: source_inv_counts)
  show ?thesis
  proof (rule write_inv [OF s, of "Some x" _ l])
    show "counts (source_new l x s) (insert x known) (\<lambda>y. nsources ?s y - of_bool (sources ?s l = Some y) + of_bool (Some x = Some y))"
      using counts_add [of "set_source l (Some x) ?s" "insert x known" "nsources s" "Some x"] c assms(2) nsources_cong [of ?s s]
      by (simp add: source_new_def)
  qed (simp_all add: source_new_def)
qed

lemma assign_inv_source:
  assumes "source_inv s known" "l \<noteq> r"
  shows "source_inv (source_assign l r s) known"
proof (rule write_inv [OF assms(1), of "sources s r" _ l])
  have f: "finite {l. sources s l \<noteq> None}" "counts s known (nsources s)" using assms by (simp_all add: source_inv_counts)
  have a: "counts (upd_word add_source (sources s r) (set_source l (sources s r) s)) known (\<lambda>x. nsources s x + of_bool (sources s r = Some x))"
    using counts_add [of "set_source l (sources s r) s" known "nsources s" "sources s r"] f(2) by simp
  have "counts (upd_word remove_source (sources s l) (upd_word add_source (sources s r) (set_source l (sources s r) s))) known
      (\<lambda>x. nsources s x + of_bool (sources s r = Some x) - of_bool (sources s l = Some x))"
    by (rule counts_remove [OF a]) (auto dest: nsources_pos [OF f(1)])
  then have "counts (source_assign l r s) known (\<lambda>x. nsources s x + of_bool (sources s r = Some x) - of_bool (sources s l = Some x))"
    using assms(2) by (simp add: source_assign_def Let_def)
  then show "counts (source_assign l r s) known (\<lambda>x. nsources s x - of_bool (sources s l = Some x) + of_bool (sources s r = Some x))"
    by (rule counts_cong [rotated]) (auto dest: nsources_pos [OF f(1)])
  show "sources (source_assign l r s) = (sources s)(l := sources s r)" using assms(2) by (simp add: source_assign_def Let_def)
qed (auto intro: known_source [OF assms(1)])

lemma move_assign_inv_source:
  assumes "source_inv s known" "l \<noteq> r"
  shows "source_inv (source_move_assign l r s) known"
proof (rule move_inv_source [OF assms])
  have f: "finite {l. sources s l \<noteq> None}" "counts s known (nsources s)" using assms by (simp_all add: source_inv_counts)
  show "counts (source_move_assign l r s) known (\<lambda>x. nsources s x - of_bool (sources s l = Some x))"
    using counts_remove [of "set_source r None (set_source l (sources s r) s)" known "nsources s" "sources s l"] f assms(2) nsources_pos [OF f(1), of l]
    by (simp add: source_move_assign_def Let_def)
qed (use assms(2) in \<open>auto simp: source_move_assign_def Let_def\<close>)

lemma swap_inv_source:
  assumes "source_inv s known"
  shows "source_inv (source_swap l r s) known"
proof -
  have f: "finite {l. sources s l \<noteq> None}" "ran (sources s) \<subseteq> known" using assms by (auto simp: source_inv_def)
  have e: "sources (source_swap l r s) = sources (set_source r (sources s l) (set_source l (sources s r) s))" by (simp add: source_swap_def)
  have "nsources (source_swap l r s) x = nsources s x" for x
    using nsources_set [OF f(1), of l "sources s r" x] nsources_set [OF finite_set_source [OF f(1)], of r "sources s l" l "sources s r" x]
    unfolding nsources_cong [OF e] by (cases "l = r") simp_all
  moreover have "finite {k. sources (source_swap l r s) k \<noteq> None}" unfolding e by (intro finite_set_source f)
  moreover have "ran (sources (source_swap l r s)) \<subseteq> known"
    using f(2) by (auto simp: source_swap_def ran_def split: if_splits)
  ultimately show ?thesis using assms by (simp add: source_inv_def source_swap_def)
qed

lemma source_exec_inv:
  assumes "source_inv s known" "source_legal op s known" "few_sources s"
  shows "source_inv (source_exec op s) (source_known op known)"
proof (cases op)
  case (SNew l x) then show ?thesis using new_inv_source assms by simp
next
  case (SNoState l)
  then have "source_exec op s = s" using assms(2) by (simp add: source_nostate_def set_source_def fun_upd_idem)
  then show ?thesis using assms(1) SNoState by simp
next
  case (SCopy l r)
  have "source_inv (source_copy l r s) known"
  proof (rule write_inv [OF assms(1), of "sources s r" _ l])
    show "counts (source_copy l r s) known (\<lambda>x. nsources s x - of_bool (sources s l = Some x) + of_bool (sources s r = Some x))"
      using counts_add [of "set_source l (sources s r) s" known "nsources s" "sources s r"] assms(1,2) SCopy
      by (simp add: source_copy_def source_inv_counts)
  qed (auto simp: source_copy_def intro: known_source [OF assms(1)])
  then show ?thesis using SCopy by simp
next
  case (SMove l r)
  have "source_inv (source_move l r s) known"
    by (rule move_inv_source [OF assms(1), of l r]) (use assms SMove in \<open>simp_all add: source_move_def source_inv_counts\<close>)
  then show ?thesis using SMove by simp
next
  case (SDestroy l) then show ?thesis using destroy_inv_source assms by simp
next
  case (SAssign l r) then show ?thesis using assign_inv_source assms by (cases "l = r") (simp_all add: source_assign_def)
next
  case (SMoveAssign l r) then show ?thesis using move_assign_inv_source assms by (cases "l = r") (simp_all add: source_move_assign_def)
next
  case (SSwap l r) then show ?thesis using swap_inv_source assms by simp
next
  case (SRequest i l) then show ?thesis using request_inv_source assms by simp
next
  case (SScoped i l)
  then show ?thesis using destroy_inv_source [OF request_inv_source [OF assms(1,3), of i l], of l]
    by (cases "source_request i l s") (simp add: scoped_destroy_def)
next
  case (SToken k l) then show ?thesis using assms(1) nsources_cong [of "get_token k l s" s] by (simp add: source_inv_def get_token_def)
next
  case (SCallback c k)
  have "word v = word u" if "add_callback c u = (out, v)" for u v out
    using that by (auto simp: add_callback_def link_callback_def split: if_splits option.splits)
  then have "source_inv (snd (callback_new c k s)) known"
    by (intro same_words_inv [OF assms(1)]) (auto simp: callback_new_def split: option.splits prod.splits)
  then show ?thesis using SCallback by simp
next
  case (SUncallback c)
  have "word v = word u" if "remove_callback_locked c u = (b, v)" for u v b
    using that by (auto simp: remove_callback_locked_def split: if_splits option.splits)
  then have "source_inv (snd (callback_destroy c s)) known"
    by (intro same_words_inv [OF assms(1)]) (auto simp: callback_destroy_def split: option.splits prod.splits)
  then show ?thesis using SUncallback by simp
qed

fun run_sources :: "source_op list \<Rightarrow> stop_objs \<times> state_id set \<Rightarrow> stop_objs \<times> state_id set" where
  "run_sources [] c = c"
| "run_sources (op # ops) (s, known) = run_sources ops (source_exec op s, source_known op known)"

fun legal_sources :: "source_op list \<Rightarrow> stop_objs \<Rightarrow> state_id set \<Rightarrow> bool" where
  "legal_sources [] s known = few_sources s"
| "legal_sources (op # ops) s known =
     (few_sources s \<and> source_legal op s known \<and> legal_sources ops (source_exec op s) (source_known op known))"

lemma run_sources_inv:
  "source_inv s known \<Longrightarrow> legal_sources ops s known \<Longrightarrow> run_sources ops (s, known) = (t, known') \<Longrightarrow> source_inv t known' \<and> few_sources t"
proof (induction ops arbitrary: s known)
  case (Cons op ops)
  then show ?case using source_exec_inv [of s known op] by simp
qed simp

definition stop_objs0 :: stop_objs where
  "stop_objs0 = \<lparr>sources = (\<lambda>_. None), tokens = (\<lambda>_. None), callbacks = (\<lambda>_. None), sstates = (\<lambda>_. stop_state)\<rparr>"

lemma stop_objs0_inv: "source_inv stop_objs0 {}"
  by (simp add: source_inv_def stop_objs0_def)

section \<open>Properties\<close>

text \<open>
  C36. Whatever a program does with stop sources (creating, copying, moving, assigning, swapping,
  destroying them, requesting a stop, adding and removing callbacks), the count in the 32-bit
  word of a stop state is the number of sources that refer to it and does not touch the flags
  below it, as long as there are fewer than 2 to the 28 sources.  Hence \<open>stop_possible\<close> of a
  token is true exactly when a stop was requested or some source of its state is left.
\<close>

theorem source_count_exact:
  assumes "legal_sources ops stop_objs0 {}" "run_sources ops (stop_objs0, {}) = (s, known)" "x \<in> known"
  shows "unat (word (sstates s x)) div 8 = card {l. sources s l = Some x} \<and>
    (tokens s k = Some x \<longrightarrow> token_possible k s = (token_requested k s \<or> (\<exists>l. sources s l = Some x)))"
proof -
  have i: "source_inv s known" "few_sources s" using run_sources_inv [OF stop_objs0_inv assms(1,2)] by auto
  have n: "nsources s x < max_sources" using nsources_less [OF i] .
  obtain l w p where w: "word (sstates s x) = enc (nsources s x) l w p" using i(1) assms(3) by (auto simp: source_inv_def)
  have "finite {l. sources s l = Some x}" using i(1) by (auto simp: source_inv_def elim: rev_finite_subset)
  then have "nsources s x > 0 \<longleftrightarrow> (\<exists>l. sources s l = Some x)" by (auto simp: nsources_def card_gt_0_iff)
  then show ?thesis using w n
    by (auto simp: unat_enc token_possible_def token_requested_def stop_possible_def stop_requested_def nsources_def)
qed

theorem source_count_exact_witness:
  "\<exists>s known. run_sources [SNew 4 10, SToken 2 4, SCopy 3 4, SDestroy 4] (stop_objs0, {}) = (s, known) \<and> token_possible 2 s \<and>
    \<not> token_requested 2 s \<and> unat (word (sstates s 10)) div 8 = 1"
proof -
  let ?ops = "[SNew 4 10, SToken 2 4, SCopy 3 4, SDestroy 4]"
  obtain s known where r: "run_sources ?ops (stop_objs0, {}) = (s, known)" by fastforce
  have src: "{l. l = (3::nat)} = {3}" "{l. l = (4::nat)} = {4}" "{l. l \<noteq> 4 \<longrightarrow> l = (3::nat)} = {3, 4}" "{l. l \<noteq> 3 \<longrightarrow> l = (4::nat)} = {3, 4}" by auto
  have "legal_sources ?ops stop_objs0 {}"
    by (simp add: few_sources_def max_sources_def stop_objs0_def source_new_def source_copy_def source_destroy_def get_token_def upd_word_def set_source_def src cong: if_cong)
  moreover have s: "sources s = (\<lambda>l. if l = 3 then Some 10 else None)" "tokens s 2 = Some 10" "10 \<in> known" "\<not> token_requested 2 s"
    using r by (auto simp: stop_objs0_def source_new_def source_copy_def source_destroy_def get_token_def upd_word_def set_source_def
      token_requested_def stop_requested_def has_flag_def FlagStopped_def add_source_def remove_source_def SourceCountIncrement_def stop_state_def)
  ultimately have "unat (word (sstates s 10)) div 8 = card {l. sources s l = Some 10} \<and>
      (tokens s 2 = Some 10 \<longrightarrow> token_possible 2 s = (token_requested 2 s \<or> (\<exists>l. sources s l = Some 10)))"
    using source_count_exact [OF _ r, of 10 2] by blast
  then show ?thesis using r s by (auto simp: src)
qed

text \<open>
  A \<open>scoped_stop_source\<close> never leaves its state unstopped: after it is destroyed, every token
  of the state reports that a stop was requested.
\<close>

theorem scoped_source_stops:
  assumes "source_inv s known" "few_sources s" "sources s l = Some x" "tokens s k = Some x"
  shows "token_requested k (snd (scoped_destroy i l s)) \<and> sources (snd (scoped_destroy i l s)) l = None"
proof -
  have n: "nsources s x < max_sources" using nsources_less [OF assms(1,2)] .
  have x: "x \<in> known" using known_source [OF assms(1,3)] .
  then obtain a w p where e: "word (sstates s x) = enc (nsources s x) a w p" using assms(1) by (auto simp: source_inv_def)
  have g: "nsources s x > 0" using nsources_pos [OF _ assms(3)] assms(1) by (auto simp: source_inv_def)
  obtain out v where r: "request_begin i (sstates s x) = (out, v)" by fastforce
  have v: "word v = enc (nsources s x) a w True" using request_begin_word [OF r] e n by (cases p) simp_all
  then have "remove_source (word v) = enc (nsources s x - 1) a w True" using g by simp
  then have "stop_requested (remove_source (word v))" using n enc_flags(1) [of "nsources s x - 1" a w True] by (simp add: stop_requested_def)
  then show ?thesis using assms(3,4) r
    by (simp add: scoped_destroy_def source_request_def source_destroy_def token_requested_def upd_word_def set_source_def)
qed

theorem scoped_source_stops_witness:
  "token_requested 2 (snd (scoped_destroy 0 1 (get_token 2 1 (source_new 1 10 stop_objs0))))"
proof -
  let ?s = "get_token 2 1 (source_new 1 10 stop_objs0)"
  have f: "few_sources stop_objs0" by (simp add: few_sources_def stop_objs0_def max_sources_def)
  have i: "source_inv (source_new 1 10 stop_objs0) {10}" using source_exec_inv [OF stop_objs0_inv _ f, of "SNew 1 10"] by (simp add: stop_objs0_def)
  have s: "sources ?s = (\<lambda>l. if l = 1 then Some 10 else None)" "tokens ?s 2 = Some 10"
    by (auto simp: stop_objs0_def source_new_def get_token_def upd_word_def set_source_def)
  have "{l. (if l = 1 then Some 10 else None) \<noteq> (None :: nat option)} = {1 :: nat}" by auto
  then have fs: "few_sources ?s" "few_sources (source_new 1 10 stop_objs0)"
    using s(1) by (simp_all add: few_sources_def max_sources_def get_token_def)
  have "source_inv ?s {10}" using source_exec_inv [OF i _ fs(2), of "SToken 2 1"] by simp
  from scoped_source_stops [OF this fs(1), of 1 10 2 0] show ?thesis using s by simp
qed

end
