(* ===== verification/Asio_Awaitable.thy ===== *)
theory Asio_Awaitable
  imports Prelude Result "HOL-Library.Word"
begin

text \<open>
  The continuation between asio operations and coroutines,
  \<open>coroactors/detail/asio_awaitable.h\<close>: \<open>asio_continuation\<close>, the completion handlers and
  \<open>asio_awaiter_t\<close>.  The state is one 64-bit word: the address of the suspended coroutine,
  whose two low bits are clear, and two markers, \<open>MarkerCancel\<close> while a cancellation is being
  emitted and \<open>MarkerResult\<close> once the result was published.

  Three activities race: the awaiting coroutine, the completion handler, which asio calls
  once, and the stop callback, which runs at most once.  \<open>asio_step\<close> interleaves their atomic
  accesses.  The asio library is not modelled: when the handler runs and what
  \<open>emit\<close> does are free.
\<close>

unbundle bit_operations_syntax

section \<open>The state word\<close>

type_synonym uintptr = "64 word"

definition MarkerCancel :: uintptr where "MarkerCancel = 1"
definition MarkerResult :: uintptr where "MarkerResult = 2"
definition MarkerMask :: uintptr where "MarkerMask = 3"

definition get_marker :: "uintptr \<Rightarrow> uintptr" where
  "get_marker a = a AND MarkerMask"

definition with_marker :: "uintptr \<Rightarrow> uintptr \<Rightarrow> uintptr" where
  "with_marker a k = a OR k"

definition without_marker :: "uintptr \<Rightarrow> uintptr \<Rightarrow> uintptr" where
  "without_marker a k = a AND NOT k"

definition without_markers :: "uintptr \<Rightarrow> uintptr" where
  "without_markers a = a AND NOT MarkerMask"

section \<open>Operations\<close>

text \<open>
  One definition per atomic access: \<open>v\<close> is the current word, \<open>cur\<close> the value read before,
  \<open>spurious\<close> a spurious failure of a weak compare-exchange.  \<open>SetAssert\<close>: the assertion at the
  end of \<open>set_continuation\<close> fails; compiled without assertions it returns \<open>false\<close>.
\<close>

datatype set_out = SetReturn bool | SetTurn uintptr | SetAssert

definition set_check :: "uintptr \<Rightarrow> set_out" where
  "set_check a = (if a = MarkerCancel then SetTurn a else if a = MarkerResult then SetReturn False else SetAssert)"

definition set_first :: "uintptr \<Rightarrow> uintptr \<Rightarrow> (set_out \<times> uintptr) option" where
  "set_first c v =
     (if get_marker c \<noteq> 0 then None
      else if v = 0 then Some (SetReturn True, c)
      else Some (set_check v, v))"

definition set_turn :: "uintptr \<Rightarrow> uintptr \<Rightarrow> bool \<Rightarrow> uintptr \<Rightarrow> set_out \<times> uintptr" where
  "set_turn c cur spurious v =
     (if v = cur \<and> \<not> spurious then (SetReturn True, with_marker c MarkerCancel)
      else (set_check v, v))"

datatype unset_out = UnsetDone | UnsetTurn uintptr

definition unset_turn :: "uintptr \<Rightarrow> bool \<Rightarrow> uintptr \<Rightarrow> unset_out \<times> uintptr" where
  "unset_turn cur spurious v =
     (let target = with_marker 0 (get_marker cur)
      in if cur = target then (UnsetDone, v)
         else if v = cur \<and> \<not> spurious then (UnsetDone, target)
         else (UnsetTurn v, v))"

datatype begin_out = BeginTrue | BeginFalse | BeginTurn uintptr | BeginFail

definition begin_turn :: "uintptr \<Rightarrow> bool \<Rightarrow> uintptr \<Rightarrow> begin_out \<times> uintptr" where
  "begin_turn cur spurious v =
     (if cur = MarkerResult then (BeginFalse, v)
      else if get_marker cur \<noteq> 0 then (BeginFail, v)
      else if v = cur \<and> \<not> spurious then (BeginTrue, with_marker cur MarkerCancel)
      else (BeginTurn v, v))"

datatype end_out = EndDone | EndTurn uintptr | EndTake uintptr | EndFail

definition end_turn :: "uintptr \<Rightarrow> bool \<Rightarrow> uintptr \<Rightarrow> end_out \<times> uintptr" where
  "end_turn cur spurious v =
     (if get_marker cur AND MarkerCancel = 0 then (EndFail, v)
      else let target = without_marker cur MarkerCancel
           in if v = cur \<and> \<not> spurious then
                (if get_marker target AND MarkerResult \<noteq> 0 \<and> target \<noteq> MarkerResult then (EndTake target, target)
                 else (EndDone, target))
              else (EndTurn v, v))"

text \<open>The second compare-exchange of \<open>end_cancellation\<close>: the coroutine to resume.\<close>

definition end_take :: "uintptr \<Rightarrow> uintptr \<Rightarrow> (uintptr option \<times> uintptr) option" where
  "end_take target v =
     (if v = target then
        (let a = without_marker target MarkerResult
         in if get_marker a \<noteq> 0 then None else Some (Some a, 0))
      else Some (None, v))"

datatype finish_out = FinishTurn uintptr | FinishDone "uintptr option"

definition finish_turn :: "uintptr \<Rightarrow> bool \<Rightarrow> uintptr \<Rightarrow> finish_out \<times> uintptr" where
  "finish_turn cur spurious v =
     (let target = (if get_marker cur AND MarkerCancel \<noteq> 0 then with_marker cur MarkerResult else with_marker 0 MarkerResult)
      in if v = cur \<and> \<not> spurious then
           (FinishDone (if get_marker cur = 0 \<and> cur \<noteq> 0 then Some cur else None), target)
         else (FinishTurn v, v))"

definition asio_ready :: "uintptr \<Rightarrow> bool" where
  "asio_ready v = (v = MarkerResult)"

text \<open>
  The completion handlers store their arguments: the value, or the exception made from an
  error code or given as an exception pointer.  \<open>None\<close> as the first argument: no error.
\<close>

definition handler_default :: "'a \<Rightarrow> 'a result \<Rightarrow> 'a result" where
  "handler_default x r = set_value x r"

definition handler_error :: "exn option \<Rightarrow> 'a \<Rightarrow> 'a result \<Rightarrow> 'a result" where
  "handler_error e x r = (case e of Some e \<Rightarrow> set_exception e r | None \<Rightarrow> set_value x r)"

text \<open>
  \<open>asio_awaiter_t::await_ready\<close> after the operation was initiated: \<open>v1\<close> is the word when
  \<open>ready\<close> is asked first, \<open>v2\<close> the word after a cancellation was emitted.  The second
  component tells whether the stop callback was installed, the third whether it emitted.
\<close>

definition asio_await_ready :: "bool \<Rightarrow> bool \<Rightarrow> uintptr \<Rightarrow> uintptr \<Rightarrow> bool \<times> bool \<times> bool" where
  "asio_await_ready stop_possible stop_requested v1 v2 =
     (if asio_ready v1 then (True, False, False)
      else if stop_possible then
        (if stop_requested then (asio_ready v2, False, True) else (False, True, False))
      else (False, False, False))"

section \<open>Interleavings\<close>

datatype handler_pc = HIdle | HTurn uintptr | HResume uintptr | HDone
datatype cancel_pc = KIdle | KBegin uintptr | KEmit | KEnd uintptr | KTake uintptr | KResume uintptr | KDone
datatype await_pc = WInit | WFirst | WTurn uintptr | WSuspended | WRunning

record asio_sys =
  word_of :: uintptr
  co :: uintptr
  hpc :: handler_pc
  kpc :: cancel_pc
  wpc :: await_pc
  wakeups :: nat
  asserted :: bool
  broken :: bool

definition asio_init :: "asio_sys \<Rightarrow> bool" where
  "asio_init s \<longleftrightarrow> word_of s = 0 \<and> co s \<noteq> 0 \<and> get_marker (co s) = 0 \<and> hpc s = HIdle \<and> kpc s = KIdle \<and> wpc s = WInit \<and>
     wakeups s = 0 \<and> \<not> asserted s \<and> \<not> broken s"

definition wake :: "uintptr \<Rightarrow> asio_sys \<Rightarrow> asio_sys" where
  "wake c s = s\<lparr>wpc := WRunning, wakeups := wakeups s + 1, broken := (broken s \<or> wpc s \<noteq> WSuspended \<or> c \<noteq> co s)\<rparr>"

definition set_next :: "set_out \<Rightarrow> await_pc" where
  "set_next out = (case out of SetReturn True \<Rightarrow> WSuspended | SetReturn False \<Rightarrow> WRunning | SetTurn v \<Rightarrow> WTurn v | SetAssert \<Rightarrow> WRunning)"

inductive asio_step :: "asio_sys \<Rightarrow> asio_sys \<Rightarrow> bool" where
  w_ready: "wpc s = WInit \<Longrightarrow>
     asio_step s (s\<lparr>wpc := (if asio_ready (word_of s) then WRunning else WFirst)\<rparr>)"
| w_first: "wpc s = WFirst \<Longrightarrow> set_first (co s) (word_of s) = Some (out, v) \<Longrightarrow>
     asio_step s (s\<lparr>word_of := v, wpc := set_next out, asserted := (asserted s \<or> out = SetAssert)\<rparr>)"
| w_first_fails: "wpc s = WFirst \<Longrightarrow> set_first (co s) (word_of s) = None \<Longrightarrow> asio_step s (s\<lparr>broken := True\<rparr>)"
| w_turn: "wpc s = WTurn cur \<Longrightarrow> set_turn (co s) cur spurious (word_of s) = (out, v) \<Longrightarrow>
     asio_step s (s\<lparr>word_of := v, wpc := set_next out, asserted := (asserted s \<or> out = SetAssert)\<rparr>)"
| h_load: "hpc s = HIdle \<Longrightarrow> asio_step s (s\<lparr>hpc := HTurn (word_of s)\<rparr>)"
| h_turn: "hpc s = HTurn cur \<Longrightarrow> finish_turn cur spurious (word_of s) = (out, v) \<Longrightarrow>
     asio_step s (s\<lparr>word_of := v, hpc := (case out of FinishTurn u \<Rightarrow> HTurn u | FinishDone None \<Rightarrow> HDone | FinishDone (Some c) \<Rightarrow> HResume c)\<rparr>)"
| h_resume: "hpc s = HResume c \<Longrightarrow> asio_step s ((wake c s)\<lparr>hpc := HDone\<rparr>)"
| k_load: "kpc s = KIdle \<Longrightarrow> wpc s \<noteq> WInit \<Longrightarrow> asio_step s (s\<lparr>kpc := KBegin (word_of s)\<rparr>)"
| k_begin: "kpc s = KBegin cur \<Longrightarrow> begin_turn cur spurious (word_of s) = (out, v) \<Longrightarrow>
     asio_step s (s\<lparr>word_of := v, kpc := (case out of BeginTrue \<Rightarrow> KEmit | BeginTurn u \<Rightarrow> KBegin u | _ \<Rightarrow> KDone),
       broken := (broken s \<or> out = BeginFail)\<rparr>)"
| k_emit: "kpc s = KEmit \<Longrightarrow> asio_step s (s\<lparr>kpc := KEnd (word_of s)\<rparr>)"
| k_end: "kpc s = KEnd cur \<Longrightarrow> end_turn cur spurious (word_of s) = (out, v) \<Longrightarrow>
     asio_step s (s\<lparr>word_of := v, kpc := (case out of EndTurn u \<Rightarrow> KEnd u | EndTake t \<Rightarrow> KTake t | _ \<Rightarrow> KDone),
       broken := (broken s \<or> out = EndFail)\<rparr>)"
| k_take: "kpc s = KTake t \<Longrightarrow> end_take t (word_of s) = Some (c, v) \<Longrightarrow>
     asio_step s (s\<lparr>word_of := v, kpc := (case c of Some c \<Rightarrow> KResume c | None \<Rightarrow> KDone)\<rparr>)"
| k_take_fails: "kpc s = KTake t \<Longrightarrow> end_take t (word_of s) = None \<Longrightarrow> asio_step s (s\<lparr>broken := True\<rparr>)"
| k_resume: "kpc s = KResume c \<Longrightarrow> asio_step s ((wake c s)\<lparr>kpc := KDone\<rparr>)"

section \<open>The word as a pointer and two flags\<close>

definition flag :: "bool \<Rightarrow> uintptr \<Rightarrow> uintptr" where
  "flag b k = (if b then k else 0)"

definition encw :: "uintptr \<Rightarrow> bool \<Rightarrow> bool \<Rightarrow> bool \<Rightarrow> uintptr" where
  "encw c p k r = flag p c OR (flag k MarkerCancel OR flag r MarkerResult)"

lemmas marker_defs = MarkerCancel_def MarkerResult_def MarkerMask_def

lemma asio_low_bits: "x AND 3 = 0 \<Longrightarrow> x AND 1 = 0" "x AND 3 = 0 \<Longrightarrow> x AND 2 = 0" for x :: uintptr
proof -
  have "x AND 1 = (x AND 3) AND 1" "x AND 2 = (x AND 3) AND 2" by (simp_all add: and.assoc)
  then show "x AND 3 = 0 \<Longrightarrow> x AND 1 = 0" "x AND 3 = 0 \<Longrightarrow> x AND 2 = 0" by simp_all
qed

lemma get_marker_enc: "c AND 3 = 0 \<Longrightarrow> get_marker (encw c p k r) = flag k 1 OR flag r 2"
  by (auto simp: encw_def get_marker_def marker_defs flag_def bit.conj_disj_distrib2)

lemma get_marker_enc_iff:
  assumes "c AND 3 = 0"
  shows "get_marker (encw c p k r) = 0 \<longleftrightarrow> \<not> k \<and> \<not> r" "get_marker (encw c p k r) AND MarkerCancel = 0 \<longleftrightarrow> \<not> k"
    "get_marker (encw c p k r) AND MarkerResult = 0 \<longleftrightarrow> \<not> r"
  by (auto simp: get_marker_enc [OF assms] flag_def marker_defs)

lemma strip_enc: "c AND 3 = 0 \<Longrightarrow> encw c p k r AND NOT 3 = flag p c"
proof -
  assume c: "c AND 3 = 0"
  have "c AND NOT 3 = c"
  proof -
    have "c = (c AND 3) OR (c AND NOT 3)" by (simp add: bit.conj_disj_distrib [symmetric])
    then show ?thesis using c by simp
  qed
  then show ?thesis by (auto simp: encw_def marker_defs flag_def bit.conj_disj_distrib2)
qed

lemma encw_inject:
  assumes "c AND 3 = 0" "c \<noteq> 0"
  shows "encw c p k r = encw c p' k' r' \<longleftrightarrow> p = p' \<and> k = k' \<and> r = r'"
proof
  assume e: "encw c p k r = encw c p' k' r'"
  have "flag p c = flag p' c" using strip_enc [OF assms(1)] e by metis
  moreover have "k = k'" "r = r'" using get_marker_enc_iff(2,3) [OF assms(1)] e by metis+
  ultimately show "p = p' \<and> k = k' \<and> r = r'" using assms(2) by (auto simp: flag_def split: if_splits)
qed simp

lemma asio_enc_values:
  "0 = encw c False False False" "MarkerCancel = encw c False True False" "MarkerResult = encw c False False True"
  "c = encw c True False False"
  by (simp_all add: encw_def flag_def)

lemma with_enc:
  "with_marker (encw c p k r) MarkerCancel = encw c p True r" "with_marker (encw c p k r) MarkerResult = encw c p k True"
  by (auto simp: with_marker_def encw_def flag_def marker_defs or.assoc)

lemma without_enc:
  assumes "c AND 3 = 0"
  shows "without_marker (encw c p k r) MarkerCancel = encw c p False r" "without_marker (encw c p k r) MarkerResult = encw c p k False"
proof -
  have 1: "x AND NOT k = x" if "x AND k = 0" for x k :: uintptr
  proof -
    have "x = (x AND k) OR (x AND NOT k)" by (simp add: bit.conj_disj_distrib [symmetric])
    then show ?thesis using that by simp
  qed
  show "without_marker (encw c p k r) MarkerCancel = encw c p False r" "without_marker (encw c p k r) MarkerResult = encw c p k False"
    using asio_low_bits [OF assms] 1 [of c 1] 1 [of c 2]
    by (auto simp: without_marker_def encw_def flag_def marker_defs bit.conj_disj_distrib2)
qed

text \<open>The operations on encoded words.\<close>

definition aligned :: "uintptr \<Rightarrow> bool" where
  "aligned c \<longleftrightarrow> c \<noteq> 0 \<and> c AND 3 = 0"

lemma asio_enc_eq:
  assumes "aligned c"
  shows "encw c p k r = encw c p' k' r' \<longleftrightarrow> p = p' \<and> k = k' \<and> r = r'"
    "encw c p k r = 0 \<longleftrightarrow> \<not> p \<and> \<not> k \<and> \<not> r"
    "encw c p k r = MarkerCancel \<longleftrightarrow> \<not> p \<and> k \<and> \<not> r" "encw c p k r = MarkerResult \<longleftrightarrow> \<not> p \<and> \<not> k \<and> r"
    "encw c p k r = c \<longleftrightarrow> p \<and> \<not> k \<and> \<not> r"
proof -
  note i = encw_inject [of c p k r] assms [unfolded aligned_def]
  show "encw c p k r = encw c p' k' r' \<longleftrightarrow> p = p' \<and> k = k' \<and> r = r'" using i by blast
  show "encw c p k r = 0 \<longleftrightarrow> \<not> p \<and> \<not> k \<and> \<not> r" using i asio_enc_values(1) [of c] by metis
  show "encw c p k r = MarkerCancel \<longleftrightarrow> \<not> p \<and> k \<and> \<not> r" using i asio_enc_values(2) [of c] by metis
  show "encw c p k r = MarkerResult \<longleftrightarrow> \<not> p \<and> \<not> k \<and> r" using i asio_enc_values(3) [of c] by metis
  show "encw c p k r = c \<longleftrightarrow> p \<and> \<not> k \<and> \<not> r" using i asio_enc_values(4) [of c] by metis
qed

lemma set_check_enc:
  "aligned c \<Longrightarrow> set_check (encw c p k r) =
     (if \<not> p \<and> k \<and> \<not> r then SetTurn MarkerCancel else if \<not> p \<and> \<not> k \<and> r then SetReturn False else SetAssert)"
  by (simp add: set_check_def asio_enc_eq)

lemma set_first_enc:
  assumes "aligned c"
  shows "set_first c (encw c p k r) =
    Some (if \<not> p \<and> \<not> k \<and> \<not> r then (SetReturn True, encw c True False False) else (set_check (encw c p k r), encw c p k r))"
proof -
  have "get_marker c = 0" using assms by (simp add: get_marker_def aligned_def marker_defs)
  then show ?thesis using assms asio_enc_values(4) [of c] by (simp add: set_first_def asio_enc_eq)
qed

lemma set_turn_enc:
  assumes "aligned c"
  shows "set_turn c MarkerCancel spurious (encw c p k r) =
    (if \<not> p \<and> k \<and> \<not> r \<and> \<not> spurious then (SetReturn True, encw c True True False) else (set_check (encw c p k r), encw c p k r))"
proof -
  have "with_marker c MarkerCancel = encw c True True False" using with_enc(1) [of c True False False] asio_enc_values(4) [of c] by simp
  then show ?thesis using assms by (simp add: set_turn_def asio_enc_eq)
qed

lemma finish_turn_enc:
  assumes "aligned c" "finish_turn cur spurious (encw c p k r) = (out, v)"
  shows "out = FinishTurn (encw c p k r) \<and> v = encw c p k r \<or>
    out = FinishDone (if p \<and> \<not> k \<and> \<not> r then Some c else None) \<and> v = (if k then encw c p True True else encw c False False True)"
proof (cases "encw c p k r = cur \<and> \<not> spurious")
  case True
  have "with_marker 0 MarkerResult = encw c False False True" using with_enc(2) [of c False False False] asio_enc_values(1) [of c] by simp
  moreover have "p \<and> \<not> k \<and> \<not> r \<Longrightarrow> cur = c" using True assms(1) asio_enc_eq(5) by blast
  ultimately show ?thesis using assms True get_marker_enc_iff [of c p k r]
    by (auto simp: finish_turn_def Let_def aligned_def with_enc asio_enc_eq split: if_splits)
next
  case False
  then show ?thesis using assms(2) by (auto simp: finish_turn_def Let_def)
qed

lemma begin_turn_enc:
  assumes "aligned c" "cur \<in> {0, MarkerResult, c}" "begin_turn cur spurious (encw c p k r) = (out, v)"
  shows "out = BeginFalse \<and> v = encw c p k r \<and> cur = MarkerResult \<or> out = BeginTurn (encw c p k r) \<and> v = encw c p k r \<or>
    out = BeginTrue \<and> \<not> k \<and> \<not> r \<and> v = encw c p True r"
proof -
  have "get_marker 0 = 0" "get_marker c = 0" using assms(1) by (simp_all add: get_marker_def aligned_def marker_defs)
  then show ?thesis using assms
    by (auto simp: begin_turn_def asio_enc_eq with_enc split: if_splits)
qed

lemma end_turn_enc:
  assumes "aligned c" "end_turn (encw c p' True r') spurious (encw c p k r) = (out, v)"
  shows "out = EndTurn (encw c p k r) \<and> v = encw c p k r \<or>
    k \<and> v = encw c p False r \<and> out = (if p \<and> r then EndTake (encw c True False True) else EndDone)"
  using assms get_marker_enc_iff [of c p' True r'] get_marker_enc_iff [of c p' False r'] without_enc [of c p' True r']
  by (auto simp: end_turn_def Let_def asio_enc_eq aligned_def split: if_splits)

lemma end_take_enc:
  assumes "aligned c"
  shows "end_take (encw c True False True) (encw c True False True) = Some (Some c, encw c False False False)"
proof -
  have "without_marker (encw c True False True) MarkerResult = c" using without_enc(2) [of c True False True] assms asio_enc_values(4) [of c]
    by (simp add: aligned_def)
  then show ?thesis using assms asio_enc_values(1) [of c] by (simp add: end_take_def Let_def get_marker_def aligned_def marker_defs)
qed

section \<open>Invariant\<close>

definition published :: "asio_sys \<Rightarrow> bool" where
  "published s \<longleftrightarrow> hpc s = HDone \<or> (\<exists>c. hpc s = HResume c)"

fun cancel_ok :: "cancel_pc \<Rightarrow> asio_sys \<Rightarrow> bool \<Rightarrow> bool \<Rightarrow> bool \<Rightarrow> bool" where
  "cancel_ok KIdle s p k r = (\<not> k)"
| "cancel_ok (KBegin cur) s p k r = (\<not> k \<and> cur \<in> {0, MarkerResult, co s})"
| "cancel_ok KEmit s p k r = k"
| "cancel_ok (KEnd cur) s p k r = (k \<and> (\<exists>p' r'. cur = encw (co s) p' True r'))"
| "cancel_ok (KTake t) s p k r = (t = encw (co s) True False True \<and> p \<and> \<not> k \<and> r)"
| "cancel_ok (KResume c) s p k r = (c = co s \<and> wpc s = WSuspended \<and> \<not> p \<and> \<not> k \<and> hpc s = HDone)"
| "cancel_ok KDone s p k r = (\<not> k)"

fun handler_ok :: "handler_pc \<Rightarrow> asio_sys \<Rightarrow> bool \<Rightarrow> bool \<Rightarrow> bool" where
  "handler_ok HIdle s p r = (\<not> r)"
| "handler_ok (HTurn cur) s p r = (\<not> r)"
| "handler_ok (HResume c) s p r = (c = co s \<and> wpc s = WSuspended \<and> \<not> p)"
| "handler_ok HDone s p r = (p \<longrightarrow> r)"

fun await_ok :: "await_pc \<Rightarrow> asio_sys \<Rightarrow> bool \<Rightarrow> bool \<Rightarrow> bool" where
  "await_ok WInit s p r = (\<not> p \<and> kpc s = KIdle \<and> r = published s)"
| "await_ok WFirst s p r = (\<not> p \<and> r = published s)"
| "await_ok (WTurn cur) s p r = (\<not> p \<and> r = published s \<and> cur = MarkerCancel)"
| "await_ok WSuspended s p r = (p \<or> hpc s = HResume (co s) \<or> kpc s = KResume (co s))"
| "await_ok WRunning s p r = (\<not> p \<and> (published s \<or> asserted s))"

definition asio_ok :: "asio_sys \<Rightarrow> bool \<Rightarrow> bool \<Rightarrow> bool \<Rightarrow> bool" where
  "asio_ok s p k r \<longleftrightarrow> word_of s = encw (co s) p k r \<and> cancel_ok (kpc s) s p k r \<and> handler_ok (hpc s) s p r \<and>
     await_ok (wpc s) s p r \<and> (p \<and> r \<and> \<not> k \<longrightarrow> (\<exists>t. kpc s = KTake t)) \<and>
     (wpc s \<noteq> WRunning \<longrightarrow> wakeups s = 0 \<and> \<not> asserted s) \<and> wakeups s \<le> 1"

definition asio_inv :: "asio_sys \<Rightarrow> bool" where
  "asio_inv s \<longleftrightarrow> aligned (co s) \<and> \<not> broken s \<and> (\<exists>p k r. asio_ok s p k r)"

lemma asio_invI: "aligned (co s) \<Longrightarrow> \<not> broken s \<Longrightarrow> asio_ok s p k r \<Longrightarrow> asio_inv s"
  unfolding asio_inv_def by blast

lemma asio_init_inv: "asio_init s \<Longrightarrow> asio_inv s"
  using asio_enc_values(1) [of "co s"]
  by (intro asio_invI [of s False False False])
    (simp_all add: asio_init_def aligned_def asio_ok_def published_def get_marker_def marker_defs)

lemma asio_await_first_inv:
  assumes "aligned (co s)" "\<not> broken s" "asio_ok s p k r" "wpc s \<in> {WFirst, WTurn cur}"
    and "set_first (co s) (word_of s) = Some (out, v) \<and> wpc s = WFirst \<or> set_turn (co s) cur spurious (word_of s) = (out, v) \<and> wpc s = WTurn cur"
  shows "asio_inv (s\<lparr>word_of := v, wpc := set_next out, asserted := (asserted s \<or> out = SetAssert)\<rparr>)"
    (is "asio_inv ?s")
proof -
  have w: "word_of s = encw (co s) p k r" "\<not> p" "r = published s" "\<not> asserted s" "wakeups s = 0"
    using assms(3,4) by (auto simp: asio_ok_def)
  have c: "cur = MarkerCancel" if "wpc s = WTurn cur" using assms(3) that by (simp add: asio_ok_def)
  have "out = SetReturn True \<and> \<not> r \<and> v = encw (co s) True k r \<or> out = set_check (encw (co s) p k r) \<and> v = encw (co s) p k r"
    using assms(5) w(1,2) c set_first_enc [OF assms(1), of p k r] set_turn_enc [OF assms(1), of spurious p k r]
    by (auto split: if_splits)
  then show ?thesis
  proof
    assume o: "out = SetReturn True \<and> \<not> r \<and> v = encw (co s) True k r"
    have "cancel_ok (kpc s) ?s True k r" using assms(3) o w assms(4) by (cases "kpc s") (auto simp: asio_ok_def)
    moreover have "handler_ok (hpc s) ?s True r" using assms(3) o w assms(4) by (cases "hpc s") (auto simp: asio_ok_def published_def)
    ultimately have "asio_ok ?s True k r" using o w by (simp add: asio_ok_def set_next_def)
    then show ?thesis using assms(1,2) by (intro asio_invI [of ?s True k r]) simp_all
  next
    assume o: "out = set_check (encw (co s) p k r) \<and> v = encw (co s) p k r"
    have x: "out = SetTurn MarkerCancel \<or> out = SetReturn False \<and> r \<or> out = SetAssert"
      using o set_check_enc [OF assms(1), of p k r] w(2) by (auto split: if_splits)
    have "cancel_ok (kpc s) ?s p k r" using assms(3) o w assms(4) by (cases "kpc s") (auto simp: asio_ok_def)
    moreover have "handler_ok (hpc s) ?s p r" using assms(3) o w assms(4) by (cases "hpc s") (auto simp: asio_ok_def)
    ultimately have "asio_ok ?s p k r" using o w x by (auto simp: asio_ok_def set_next_def published_def)
    then show ?thesis using assms(1,2) by (intro asio_invI [of ?s p k r]) simp_all
  qed
qed

lemma asio_handler_turn_inv:
  assumes "aligned (co s)" "\<not> broken s" "asio_ok s p k r" "hpc s = HTurn cur" "finish_turn cur spurious (word_of s) = (out, v)"
  shows "asio_inv (s\<lparr>word_of := v, hpc := (case out of FinishTurn u \<Rightarrow> HTurn u | FinishDone None \<Rightarrow> HDone | FinishDone (Some c) \<Rightarrow> HResume c)\<rparr>)"
    (is "asio_inv ?s")
proof -
  have w: "word_of s = encw (co s) p k r" "\<not> r" "\<not> published s" using assms(3,4) by (auto simp: asio_ok_def published_def)
  have "out = FinishTurn (encw (co s) p k r) \<and> v = encw (co s) p k r \<or>
    out = FinishDone (if p \<and> \<not> k then Some (co s) else None) \<and> v = (if k then encw (co s) p True True else encw (co s) False False True)"
    using finish_turn_enc [OF assms(1), of cur spurious p k r out v] assms(5) w by auto
  then show ?thesis
  proof
    assume o: "out = FinishTurn (encw (co s) p k r) \<and> v = encw (co s) p k r"
    have "cancel_ok (kpc s) ?s p k r" using assms(3,4) o by (cases "kpc s") (auto simp: asio_ok_def)
    moreover have "await_ok (wpc s) ?s p r" using assms(3,4) o by (cases "wpc s") (auto simp: asio_ok_def published_def)
    ultimately have "asio_ok ?s p k r" using assms(3,4) o by (simp add: asio_ok_def)
    then show ?thesis using assms(1,2) by (intro asio_invI [of ?s p k r]) simp_all
  next
    assume o: "out = FinishDone (if p \<and> \<not> k then Some (co s) else None) \<and> v = (if k then encw (co s) p True True else encw (co s) False False True)"
    have nr: "kpc s \<noteq> KResume x" "kpc s \<noteq> KTake y" for x y using assms(3,4) w by (auto simp: asio_ok_def)
    have p: "p \<longrightarrow> wpc s = WSuspended" "wpc s = WSuspended \<longrightarrow> p" using assms(3,4) nr by (cases "wpc s"; auto simp: asio_ok_def)+
    have "cancel_ok (kpc s) ?s (p \<and> k) k True" using assms(3) o nr by (cases "kpc s") (auto simp: asio_ok_def)
    moreover have "await_ok (wpc s) ?s (p \<and> k) True" using assms(3) o p by (cases "wpc s") (auto simp: asio_ok_def published_def)
    ultimately have "asio_ok ?s (p \<and> k) k True" using assms(3) o p by (auto simp: asio_ok_def)
    then show ?thesis using assms(1,2) by (intro asio_invI [of ?s "p \<and> k" k True]) simp_all
  qed
qed

lemma asio_begin_inv:
  assumes "aligned (co s)" "\<not> broken s" "asio_ok s p k r" "kpc s = KBegin cur" "begin_turn cur spurious (word_of s) = (out, v)"
  shows "asio_inv (s\<lparr>word_of := v, kpc := (case out of BeginTrue \<Rightarrow> KEmit | BeginTurn u \<Rightarrow> KBegin u | _ \<Rightarrow> KDone),
       broken := (broken s \<or> out = BeginFail)\<rparr>)"
    (is "asio_inv ?s")
proof -
  have w: "word_of s = encw (co s) p k r" "\<not> k" "cur \<in> {0, MarkerResult, co s}" "\<not> (p \<and> r)" using assms(3,4) by (auto simp: asio_ok_def)
  have wp: "wpc s = WSuspended \<longrightarrow> p \<or> hpc s = HResume (co s)" "wpc s \<noteq> WInit" using assms(3,4) by (cases "wpc s"; auto simp: asio_ok_def)+
  have v: "encw (co s) p False r \<in> {0, MarkerResult, co s}" using w(4) asio_enc_values [of "co s"] by (cases p; cases r) auto
  have "out = BeginFalse \<and> v = word_of s \<or> out = BeginTurn (word_of s) \<and> v = word_of s \<or> out = BeginTrue \<and> \<not> r \<and> v = encw (co s) p True r"
    using begin_turn_enc [OF assms(1) w(3), of spurious p k r out v] assms(5) w(1) by auto
  then have ok: "asio_ok ?s p (out = BeginTrue) r \<and> out \<noteq> BeginFail"
  proof (elim disjE)
    assume o: "out = BeginFalse \<and> v = word_of s"
    have "await_ok (wpc s) ?s p r" using assms(3) o wp by (cases "wpc s") (auto simp: asio_ok_def published_def)
    moreover have "handler_ok (hpc s) ?s p r" using assms(3) o by (cases "hpc s") (auto simp: asio_ok_def)
    ultimately show ?thesis using assms(3) o w by (auto simp: asio_ok_def)
  next
    assume o: "out = BeginTurn (word_of s) \<and> v = word_of s"
    have "await_ok (wpc s) ?s p r" using assms(3) o wp by (cases "wpc s") (auto simp: asio_ok_def published_def)
    moreover have "handler_ok (hpc s) ?s p r" using assms(3) o by (cases "hpc s") (auto simp: asio_ok_def)
    ultimately show ?thesis using assms(3) o w v by (auto simp: asio_ok_def)
  next
    assume o: "out = BeginTrue \<and> \<not> r \<and> v = encw (co s) p True r"
    have "await_ok (wpc s) ?s p r" using assms(3) o wp by (cases "wpc s") (auto simp: asio_ok_def published_def)
    moreover have "handler_ok (hpc s) ?s p r" using assms(3) o by (cases "hpc s") (auto simp: asio_ok_def)
    ultimately show ?thesis using assms(3) o w by (auto simp: asio_ok_def)
  qed
  have "aligned (co ?s)" "\<not> broken ?s" using assms(1,2) ok by simp_all
  then show ?thesis using ok by (blast intro: asio_invI)
qed

lemma asio_end_inv:
  assumes "aligned (co s)" "\<not> broken s" "asio_ok s p k r" "kpc s = KEnd cur" "end_turn cur spurious (word_of s) = (out, v)"
  shows "asio_inv (s\<lparr>word_of := v, kpc := (case out of EndTurn u \<Rightarrow> KEnd u | EndTake t \<Rightarrow> KTake t | _ \<Rightarrow> KDone),
       broken := (broken s \<or> out = EndFail)\<rparr>)"
    (is "asio_inv ?s")
proof -
  obtain p' r' where w: "word_of s = encw (co s) p k r" "k" "cur = encw (co s) p' True r'" using assms(3,4) by (auto simp: asio_ok_def)
  have wp: "wpc s = WSuspended \<longrightarrow> p \<or> hpc s = HResume (co s)" "wpc s \<noteq> WInit" using assms(3,4) by (cases "wpc s"; auto simp: asio_ok_def)+
  have "out = EndTurn (word_of s) \<and> v = word_of s \<or>
    v = encw (co s) p False r \<and> out = (if p \<and> r then EndTake (encw (co s) True False True) else EndDone)"
    using end_turn_enc [OF assms(1), of p' r' spurious p k r out v] assms(5) w by auto
  then have ok: "\<exists>k. asio_ok ?s p k r \<and> out \<noteq> EndFail"
  proof
    assume o: "out = EndTurn (word_of s) \<and> v = word_of s"
    have "await_ok (wpc s) ?s p r" using assms(3) o wp by (cases "wpc s") (auto simp: asio_ok_def published_def)
    moreover have "handler_ok (hpc s) ?s p r" using assms(3) o by (cases "hpc s") (auto simp: asio_ok_def)
    ultimately have "asio_ok ?s p True r" using assms(3) o w by (auto simp: asio_ok_def)
    then show ?thesis using o by blast
  next
    assume o: "v = encw (co s) p False r \<and> out = (if p \<and> r then EndTake (encw (co s) True False True) else EndDone)"
    have "await_ok (wpc s) ?s p r" using assms(3) o wp by (cases "wpc s") (auto simp: asio_ok_def published_def)
    moreover have "handler_ok (hpc s) ?s p r" using assms(3) o by (cases "hpc s") (auto simp: asio_ok_def)
    ultimately have "asio_ok ?s p False r" using assms(3) o w by (auto simp: asio_ok_def)
    then show ?thesis using o by auto
  qed
  have "aligned (co ?s)" "\<not> broken ?s" using assms(1,2) ok by auto
  then show ?thesis using ok by (blast intro: asio_invI)
qed

lemma asio_take_inv:
  assumes "aligned (co s)" "\<not> broken s" "asio_ok s p k r" "kpc s = KTake t"
  shows "\<exists>v. end_take t (word_of s) = Some (Some (co s), v) \<and> asio_inv (s\<lparr>word_of := v, kpc := KResume (co s)\<rparr>)"
proof -
  let ?s = "s\<lparr>word_of := encw (co s) False False False, kpc := KResume (co s)\<rparr>"
  have w: "word_of s = encw (co s) True False True" "t = encw (co s) True False True" "p" "r" "\<not> k" using assms(3,4) by (auto simp: asio_ok_def)
  have wp: "wpc s = WSuspended" using assms(3) w by (cases "wpc s") (auto simp: asio_ok_def)
  moreover have "hpc s = HDone" using assms(3) w by (cases "hpc s") (auto simp: asio_ok_def)
  ultimately have "asio_ok ?s False False False" using assms(3) by (simp add: asio_ok_def)
  then have "asio_inv ?s" using assms(1,2) by (intro asio_invI [of ?s]) simp_all
  then show ?thesis using w end_take_enc [OF assms(1)] by simp
qed

lemma asio_wake_inv:
  assumes "aligned (co s)" "\<not> broken s" "asio_ok s p k r"
  shows "hpc s = HResume c \<Longrightarrow> asio_inv ((wake c s)\<lparr>hpc := HDone\<rparr>)" "kpc s = KResume c \<Longrightarrow> asio_inv ((wake c s)\<lparr>kpc := KDone\<rparr>)"
proof -
  assume h: "hpc s = HResume c"
  let ?s = "(wake c s)\<lparr>hpc := HDone\<rparr>"
  have "c = co s" "wpc s = WSuspended" "\<not> p" "wakeups s = 0" using assms(3) h by (auto simp: asio_ok_def)
  moreover have "cancel_ok (kpc s) ?s p k r" using assms(3) h by (cases "kpc s") (auto simp: asio_ok_def wake_def)
  ultimately have "asio_ok ?s p k r" "\<not> broken ?s" using assms(2,3) by (auto simp: asio_ok_def wake_def published_def)
  then show "asio_inv ?s" using assms(1) by (intro asio_invI [of ?s p k r]) (simp_all add: wake_def)
next
  assume h: "kpc s = KResume c"
  let ?s = "(wake c s)\<lparr>kpc := KDone\<rparr>"
  have "c = co s" "wpc s = WSuspended" "\<not> p" "wakeups s = 0" "hpc s = HDone" "\<not> k" using assms(3) h by (auto simp: asio_ok_def)
  then have "asio_ok ?s p k r" "\<not> broken ?s" using assms(2,3) by (auto simp: asio_ok_def wake_def published_def)
  then show "asio_inv ?s" using assms(1) by (intro asio_invI [of ?s p k r]) (simp_all add: wake_def)
qed

lemma asio_load_inv:
  assumes "aligned (co s)" "\<not> broken s" "asio_ok s p k r"
  shows "hpc s = HIdle \<Longrightarrow> asio_inv (s\<lparr>hpc := HTurn x\<rparr>)"
    "kpc s = KIdle \<Longrightarrow> wpc s \<noteq> WInit \<Longrightarrow> asio_inv (s\<lparr>kpc := KBegin (word_of s)\<rparr>)"
    "kpc s = KEmit \<Longrightarrow> asio_inv (s\<lparr>kpc := KEnd (word_of s)\<rparr>)"
    "wpc s = WInit \<Longrightarrow> asio_inv (s\<lparr>wpc := (if asio_ready (word_of s) then WRunning else WFirst)\<rparr>)"
proof -
  assume h: "hpc s = HIdle"
  let ?s = "s\<lparr>hpc := HTurn x\<rparr>"
  have "cancel_ok (kpc s) ?s p k r" using assms(3) h by (cases "kpc s") (auto simp: asio_ok_def)
  moreover have "await_ok (wpc s) ?s p r" using assms(3) h by (cases "wpc s") (auto simp: asio_ok_def published_def)
  ultimately have "asio_ok ?s p k r" using assms(3) h by (auto simp: asio_ok_def)
  then show "asio_inv ?s" using assms(1,2) by (intro asio_invI [of ?s p k r]) simp_all
next
  assume h: "kpc s = KIdle" "wpc s \<noteq> WInit"
  let ?s = "s\<lparr>kpc := KBegin (word_of s)\<rparr>"
  have "\<not> (p \<and> r)" "\<not> k" using assms(3) h by (auto simp: asio_ok_def)
  then have "word_of s \<in> {0, MarkerResult, co s}" using assms(3) asio_enc_values [of "co s"] by (cases p; cases r) (auto simp: asio_ok_def)
  moreover have "await_ok (wpc s) ?s p r" using assms(3) h by (cases "wpc s") (auto simp: asio_ok_def published_def)
  moreover have "handler_ok (hpc s) ?s p r" using assms(3) h by (cases "hpc s") (auto simp: asio_ok_def)
  ultimately have "asio_ok ?s p k r" using assms(3) h by (auto simp: asio_ok_def)
  then show "asio_inv ?s" using assms(1,2) by (intro asio_invI [of ?s p k r]) simp_all
next
  assume h: "kpc s = KEmit"
  let ?s = "s\<lparr>kpc := KEnd (word_of s)\<rparr>"
  have "await_ok (wpc s) ?s p r" using assms(3) h by (cases "wpc s") (auto simp: asio_ok_def published_def)
  moreover have "handler_ok (hpc s) ?s p r" using assms(3) h by (cases "hpc s") (auto simp: asio_ok_def)
  ultimately have "asio_ok ?s p k r" using assms(3) h by (auto simp: asio_ok_def)
  then show "asio_inv ?s" using assms(1,2) by (intro asio_invI [of ?s p k r]) simp_all
next
  assume h: "wpc s = WInit"
  let ?s = "s\<lparr>wpc := (if asio_ready (word_of s) then WRunning else WFirst)\<rparr>"
  have "asio_ready (word_of s) \<longrightarrow> r" using assms(1,3) by (auto simp: asio_ok_def asio_ready_def asio_enc_eq)
  moreover have "handler_ok (hpc s) ?s p r" using assms(3) h by (cases "hpc s") (auto simp: asio_ok_def)
  ultimately have "asio_ok ?s p k r" using assms(3) h by (auto simp: asio_ok_def published_def)
  then show "asio_inv ?s" using assms(1,2) by (intro asio_invI [of ?s p k r]) simp_all
qed

lemma asio_step_inv:
  assumes "asio_inv s" "asio_step s t"
  shows "asio_inv t"
proof -
  obtain p k r where i: "aligned (co s)" "\<not> broken s" "asio_ok s p k r" using assms(1) by (auto simp: asio_inv_def)
  from assms(2) show ?thesis
  proof cases
    case w_ready then show ?thesis using asio_load_inv(4) [OF i] by simp
  next
    case (w_first out v) then show ?thesis using asio_await_first_inv [OF i, of 0 out v] by simp
  next
    case w_first_fails then show ?thesis using i set_first_enc [OF i(1), of p k r] by (simp add: asio_ok_def)
  next
    case (w_turn cur spurious out v) then show ?thesis using asio_await_first_inv [OF i, of cur out v spurious] by simp
  next
    case h_load then show ?thesis using asio_load_inv(1) [OF i] by simp
  next
    case (h_turn cur spurious out v) then show ?thesis using asio_handler_turn_inv [OF i] by simp
  next
    case (h_resume c) then show ?thesis using asio_wake_inv(1) [OF i] by simp
  next
    case k_load then show ?thesis using asio_load_inv(2) [OF i] by simp
  next
    case (k_begin cur spurious out v) then show ?thesis using asio_begin_inv [OF i] by simp
  next
    case k_emit then show ?thesis using asio_load_inv(3) [OF i] by simp
  next
    case (k_end cur spurious out v) then show ?thesis using asio_end_inv [OF i] by simp
  next
    case (k_take u c v) then show ?thesis using asio_take_inv [OF i, of u] by auto
  next
    case (k_take_fails u) then show ?thesis using asio_take_inv [OF i, of u] by auto
  next
    case (k_resume c) then show ?thesis using asio_wake_inv(2) [OF i] by simp
  qed
qed

interpretation asio: inv_system asio_init asio_step asio_inv
  by unfold_locales (auto intro: asio_init_inv asio_step_inv)

section \<open>Properties\<close>

text \<open>
  C27. In every interleaving of the awaiting coroutine, the completion handler and the stop
  callback, the coroutine is resumed at most once, and only while it is suspended; no other
  assertion than that of \<open>set_continuation\<close> fails; and unless that one failed, the coroutine
  goes on only after the result was published.
\<close>

theorem asio_resumes_once:
  assumes "reach asio_init asio_step s"
  shows "\<not> broken s \<and> wakeups s \<le> 1 \<and> (wpc s \<noteq> WRunning \<longrightarrow> wakeups s = 0) \<and> (wpc s = WRunning \<and> \<not> asserted s \<longrightarrow> published s)"
  using asio.reach_inv [OF assms] by (auto simp: asio_inv_def asio_ok_def)

text \<open>A run: the coroutine suspends, the handler finishes and resumes it.\<close>

definition asio0 :: asio_sys where
  "asio0 = \<lparr>word_of = 0, co = 16, hpc = HIdle, kpc = KIdle, wpc = WInit, wakeups = 0, asserted = False, broken = False\<rparr>"

definition asio_suspended :: asio_sys where
  "asio_suspended = asio0\<lparr>wpc := WSuspended, word_of := 16\<rparr>"

definition asio_finished :: asio_sys where
  "asio_finished = asio_suspended\<lparr>word_of := 2, hpc := HResume 16\<rparr>"

lemma asio0_reach: "reach asio_init asio_step asio0"
  by (rule reach_init) (simp add: asio_init_def asio0_def get_marker_def marker_defs)

lemma asio_suspended_reach: "reach asio_init asio_step asio_suspended"
proof -
  have "asio_step asio0 (asio0\<lparr>wpc := WFirst\<rparr>)" using w_ready [of asio0] by (simp add: asio0_def asio_ready_def marker_defs)
  moreover have "asio_step (asio0\<lparr>wpc := WFirst\<rparr>) asio_suspended"
    using w_first [of "asio0\<lparr>wpc := WFirst\<rparr>" "SetReturn True" 16]
    by (simp add: asio0_def asio_suspended_def set_first_def get_marker_def marker_defs set_next_def)
  ultimately show ?thesis using asio0_reach by (blast intro: reach_step)
qed

lemma asio_finished_reach: "reach asio_init asio_step asio_finished"
proof -
  have "asio_step asio_suspended (asio_suspended\<lparr>hpc := HTurn 16\<rparr>)" using h_load [of asio_suspended] by (simp add: asio0_def asio_suspended_def)
  moreover have "asio_step (asio_suspended\<lparr>hpc := HTurn 16\<rparr>) asio_finished"
    using h_turn [of "asio_suspended\<lparr>hpc := HTurn 16\<rparr>" 16 False "FinishDone (Some 16)" 2]
    by (simp add: asio0_def asio_suspended_def asio_finished_def finish_turn_def get_marker_def with_marker_def marker_defs)
  ultimately show ?thesis using asio_suspended_reach by (blast intro: reach_step)
qed

theorem asio_resumes_once_witness:
  "\<exists>t. asio_step asio_finished t \<and> wpc t = WRunning \<and> published t \<and> wakeups t = 1 \<and> wakeups t \<le> 1 \<and> \<not> broken t"
proof -
  let ?t = "(wake 16 asio_finished)\<lparr>hpc := HDone\<rparr>"
  have st: "asio_step asio_finished ?t" using h_resume [of asio_finished 16] by (simp add: asio_finished_def)
  have "\<not> broken ?t \<and> wakeups ?t \<le> 1 \<and> (wpc ?t = WRunning \<and> \<not> asserted ?t \<longrightarrow> published ?t)"
    using asio_resumes_once [OF reach_step [OF asio_finished_reach st]] by blast
  then show ?thesis using st
    by (intro exI [of _ ?t]) (simp add: wake_def asio_finished_def asio_suspended_def asio0_def)
qed

text \<open>
  C28. No wake-up is lost: while the coroutine is suspended and the result was published,
  either the handler or the stop callback is about to resume it, or the stop callback is still
  emitting the cancellation, will find the result and resume the coroutine then.
\<close>

theorem asio_no_lost_wakeup:
  assumes "reach asio_init asio_step s" "wpc s = WSuspended" "published s"
  shows "hpc s = HResume (co s) \<or> kpc s \<in> {KResume (co s), KEmit, KTake (word_of s)} \<or> (\<exists>cur. kpc s = KEnd cur)"
proof -
  obtain p k r where i: "asio_ok s p k r" using asio.reach_inv [OF assms(1)] by (auto simp: asio_inv_def)
  show ?thesis
  proof (cases "p \<and> \<not> hpc s = HResume (co s)")
    case False
    then show ?thesis using i assms(2) by (auto simp: asio_ok_def)
  next
    case True
    then have "hpc s = HDone" using i assms(3) by (auto simp: asio_ok_def published_def)
    then have "r" using i True by (auto simp: asio_ok_def)
    then show ?thesis using i True by (cases "kpc s") (auto simp: asio_ok_def)
  qed
qed

theorem asio_no_lost_wakeup_witness: "wpc asio_finished = WSuspended \<and> published asio_finished \<and> hpc asio_finished = HResume 16"
  using asio_no_lost_wakeup [OF asio_finished_reach]
  by (simp add: asio_finished_def asio_suspended_def asio0_def published_def)

definition asio_raced :: asio_sys where
  "asio_raced = asio0\<lparr>wpc := WRunning, kpc := KDone, asserted := True\<rparr>"

text \<open>
  \<open>set_continuation\<close> does not expect that a cancellation ends between its two
  compare-exchanges: the stop callback marks the word, the first attempt to install the
  coroutine fails, the callback removes the mark, and the second attempt finds the word zero.
  The assertion fails; compiled without it, \<open>await_suspend\<close> returns \<open>false\<close> and the coroutine
  goes on although the operation has not finished and no result was published.
\<close>

theorem set_continuation_race:
  "reach asio_init asio_step asio_raced \<and> wpc asio_raced = WRunning \<and> asserted asio_raced \<and> \<not> published asio_raced \<and> hpc asio_raced = HIdle"
proof -
  let ?a = "asio0\<lparr>wpc := WFirst\<rparr>" and ?d = "asio0\<lparr>wpc := WTurn 1, kpc := KEmit, word_of := 1\<rparr>"
  note d = asio0_def get_marker_def with_marker_def without_marker_def marker_defs
  have "asio_step asio0 ?a" using w_ready [of asio0] by (simp add: d asio_ready_def)
  note r = reach_step [OF asio0_reach this]
  have "asio_step ?a (?a\<lparr>kpc := KBegin 0\<rparr>)" using k_load [of ?a] by (simp add: d)
  note r = reach_step [OF r this]
  have "asio_step (?a\<lparr>kpc := KBegin 0\<rparr>) (?a\<lparr>kpc := KEmit, word_of := 1\<rparr>)"
    using k_begin [of "?a\<lparr>kpc := KBegin 0\<rparr>" 0 False BeginTrue 1] by (simp add: d begin_turn_def)
  note r = reach_step [OF r this]
  have "asio_step (?a\<lparr>kpc := KEmit, word_of := 1\<rparr>) ?d"
    using w_first [of "?a\<lparr>kpc := KEmit, word_of := 1\<rparr>" "SetTurn 1" 1] by (simp add: d set_first_def set_check_def set_next_def)
  note r = reach_step [OF r this]
  have "asio_step ?d (?d\<lparr>kpc := KEnd 1\<rparr>)" using k_emit [of ?d] by (simp add: d)
  note r = reach_step [OF r this]
  have "asio_step (?d\<lparr>kpc := KEnd 1\<rparr>) (?d\<lparr>kpc := KDone, word_of := 0\<rparr>)"
    using k_end [of "?d\<lparr>kpc := KEnd 1\<rparr>" 1 False EndDone 0] by (simp add: d end_turn_def)
  note r = reach_step [OF r this]
  have "asio_step (?d\<lparr>kpc := KDone, word_of := 0\<rparr>) asio_raced"
    using w_turn [of "?d\<lparr>kpc := KDone, word_of := 0\<rparr>" 1 False SetAssert 0]
    by (simp add: d asio_raced_def set_turn_def set_check_def set_next_def)
  note reach_step [OF r this]
  then show ?thesis by (simp add: asio_raced_def asio0_def published_def)
qed

text \<open>
  The destructor of the awaiter forgets the coroutine: \<open>unset_continuation\<close> run alone
  needs at most one successful compare-exchange, keeps the markers and removes the address, so
  that neither the handler nor the end of a cancellation returns the coroutine afterwards.
\<close>

theorem unset_forgets_coroutine:
  assumes "c AND 3 = 0" "c \<noteq> 0"
  shows "unset_turn (encw c p k r) False (encw c p k r) = (UnsetDone, encw c False k r) \<and>
    (\<forall>cur out v. finish_turn cur False (encw c False k r) = (out, v) \<longrightarrow> out = FinishDone None \<or> out = FinishTurn (encw c False k r)) \<and>
    (\<forall>cur out v. k \<longrightarrow> end_turn (encw c False True cur) False (encw c False k r) = (out, v) \<longrightarrow> out = EndDone \<or> out = EndTurn (encw c False k r))"
proof -
  have a: "aligned c" using assms by (simp add: aligned_def)
  have "with_marker 0 (get_marker (encw c p k r)) = encw c False k r"
    unfolding get_marker_enc [OF assms(1)] by (simp add: with_marker_def encw_def flag_def marker_defs)
  then have "unset_turn (encw c p k r) False (encw c p k r) = (UnsetDone, encw c False k r)"
    by (auto simp: unset_turn_def Let_def)
  then show ?thesis using finish_turn_enc [OF a] end_turn_enc [OF a] by fastforce
qed

theorem unset_forgets_coroutine_witness:
  "unset_turn 17 False 17 = (UnsetDone, 1)"
  using unset_forgets_coroutine [of 16 True True False] by (simp add: encw_def flag_def marker_defs)

end
