(* ===== verification/Blocking_Queue.thy ===== *)
theory Blocking_Queue
  imports Link_Chain
begin

text \<open>
  The multiple-producer multiple-consumer queue of \<open>coroactors/detail/blocking_queue.h\<close>.

  The head word of the queue is a node (unlocked), or null or the first of a list of waiting
  threads (locked).  A node's \<open>next\<close> is null, a node, or the first of a list of threads that
  wait for the next item.  A thread's \<open>blocking_queue_waiter\<close> is thread-local, so that waiters
  are named by threads; its semaphore is the number of its permits (\<open>Semaphore\<close> shows what
  \<open>sync_semaphore\<close> does with them).  Every turn below performs one access to a word that other
  threads use, together with the accesses to waiter lists that only the running thread owns.
  How long \<open>pop\<close> spins depends on a clock and is left open.

  \<open>bfailed\<close> records a failed assertion, an access to a deleted node or a waiter list without an
  end.  The assertion of \<open>try_unlock_no_item\<close> has a flag of its own, \<open>basserted\<close>: it can fail.
\<close>

section \<open>State\<close>

datatype bword = BNull | BWaiter tid | BNode addr

fun is_waiter :: "bword \<Rightarrow> bool" where
  "is_waiter (BWaiter w) = True"
| "is_waiter v = False"

fun is_node :: "bword \<Rightarrow> bool" where
  "is_node (BNode a) = True"
| "is_node v = False"

fun decode_waiter :: "bword \<Rightarrow> tid option" where
  "decode_waiter (BWaiter w) = Some w"
| "decode_waiter v = None"

text \<open>
  Where a thread is: in \<open>push\<close>, in \<open>pop\<close>, in \<open>unlock_taken\<close> (which frees the old head afterwards),
  in \<open>try_pop\<close> or in \<open>try_unlock_no_item\<close>.  Arguments are the values of local variables.
\<close>

datatype bq_pc =
    BIdle
  | PushLink addr addr
  | PushNotify tid
  | PopStart
  | PopHead bword
  | PopInstall
  | PopWaitHead
  | PopNext addr
  | PopTake addr addr
  | PopEnqueue addr bword
  | PopWaiting addr
  | PopWaitNext
  | UTaken addr addr
  | UGrab addr addr
  | UTry addr addr bword
  | URelease addr addr
  | UMore addr addr
  | UNotify addr tid
  | UFree addr
  | TryHead bword
  | TryNext addr
  | NTurn addr bword
  | NGrab addr bword

text \<open>
  \<open>bchain\<close>, \<open>bpushed\<close> and \<open>bpopped\<close> are ghost variables: the nodes from the head to the tail, the
  items in the order of the \<open>tail_\<close> exchange, and the items returned.
\<close>

record bq_sys =
  bq_head :: bword
  bq_tail :: addr
  bnext :: "addr \<Rightarrow> bword"
  bitem :: "addr \<Rightarrow> nat"
  bnodes :: "addr set"
  wnext :: "tid \<Rightarrow> tid option"
  permits :: "tid \<Rightarrow> nat"
  bpend :: "tid \<Rightarrow> tid option"
  bpendlast :: "tid \<Rightarrow> tid option"
  bpc :: "tid \<Rightarrow> bq_pc"
  bchain :: "addr list"
  bpushed :: "nat list"
  bpopped :: "nat list"
  bfailed :: bool
  basserted :: bool

definition blocking_queue :: "addr \<Rightarrow> bq_sys" where
  "blocking_queue n = \<lparr>bq_head = BNode n, bq_tail = n, bnext = (\<lambda>_. BNull), bitem = (\<lambda>_. 0), bnodes = {n},
     wnext = (\<lambda>_. None), permits = (\<lambda>_. 0), bpend = (\<lambda>_. None), bpendlast = (\<lambda>_. None), bpc = (\<lambda>_. BIdle),
     bchain = [n], bpushed = [], bpopped = [], bfailed = False, basserted = False\<rparr>"

definition bput :: "tid \<Rightarrow> bq_pc \<Rightarrow> bq_sys \<Rightarrow> bq_sys" where
  "bput t p s = s\<lparr>bpc := (bpc s)(t := p)\<rparr>"

definition bfail :: "bq_sys \<Rightarrow> bq_sys" where
  "bfail s = s\<lparr>bfailed := True\<rparr>"

text \<open>An access to the node \<open>a\<close>.\<close>

definition bload :: "addr \<Rightarrow> (bword \<Rightarrow> bq_sys) \<Rightarrow> bq_sys \<Rightarrow> bq_sys" where
  "bload a k s = (if a \<in> bnodes s then k (bnext s a) else bfail s)"

section \<open>Waiter lists\<close>

partial_function (option) find_last :: "(tid \<Rightarrow> tid option) \<Rightarrow> tid \<Rightarrow> tid option" where
  "find_last nx w = (case nx w of None \<Rightarrow> Some w | Some v \<Rightarrow> find_last nx v)"

text \<open>The list that starts at \<open>f\<close> is put in front of, or behind, the pending list of the thread.\<close>

definition add_front :: "tid \<Rightarrow> tid \<Rightarrow> bq_sys \<Rightarrow> bq_sys" where
  "add_front t f s = (case find_last (wnext s) f of
       None \<Rightarrow> bfail s
     | Some l \<Rightarrow> (case bpend s t of
           Some p \<Rightarrow> s\<lparr>wnext := (wnext s)(l := Some p), bpend := (bpend s)(t := Some f)\<rparr>
         | None \<Rightarrow> s\<lparr>bpendlast := (bpendlast s)(t := Some l), bpend := (bpend s)(t := Some f)\<rparr>))"

definition add_back :: "tid \<Rightarrow> tid \<Rightarrow> bq_sys \<Rightarrow> bq_sys" where
  "add_back t f s = (case find_last (wnext s) f of
       None \<Rightarrow> bfail s
     | Some l \<Rightarrow> (case (bpend s t, bpendlast s t) of
           (None, _) \<Rightarrow> s\<lparr>bpend := (bpend s)(t := Some f), bpendlast := (bpendlast s)(t := Some l)\<rparr>
         | (Some p, Some q) \<Rightarrow> s\<lparr>wnext := (wnext s)(q := Some f), bpendlast := (bpendlast s)(t := Some l)\<rparr>
         | _ \<Rightarrow> bfail s))"

text \<open>\<open>last->next = v\<close> for the last pending waiter.\<close>

definition link_last :: "tid \<Rightarrow> tid option \<Rightarrow> bq_sys \<Rightarrow> bq_sys" where
  "link_last t v s = (case bpendlast s t of
       None \<Rightarrow> bfail s
     | Some q \<Rightarrow> s\<lparr>wnext := (wnext s)(q := v)\<rparr>)"

section \<open>push\<close>

definition push_begin :: "tid \<Rightarrow> addr \<Rightarrow> nat \<Rightarrow> bq_sys \<Rightarrow> bq_sys" where
  "push_begin t n x s = bput t (PushLink (bq_tail s) n)
     (s\<lparr>bnodes := insert n (bnodes s), bnext := (bnext s)(n := BNull), bitem := (bitem s)(n := x),
        bq_tail := n, bchain := bchain s @ [n], bpushed := bpushed s @ [x]\<rparr>)"

definition push_link :: "tid \<Rightarrow> addr \<Rightarrow> addr \<Rightarrow> bq_sys \<Rightarrow> bq_sys" where
  "push_link t prev n s = bload prev (\<lambda>v. (let s' = s\<lparr>bnext := (bnext s)(prev := BNode n)\<rparr> in
       case v of
         BNull \<Rightarrow> bput t BIdle s'
       | BWaiter w \<Rightarrow> bput t (PushNotify w) s'
       | BNode _ \<Rightarrow> bfail s)) s"

definition bnotify :: "tid \<Rightarrow> tid \<Rightarrow> bq_pc \<Rightarrow> bq_sys \<Rightarrow> bq_sys" where
  "bnotify t w p s = bput t p (s\<lparr>permits := (permits s)(w := permits s w + 1)\<rparr>)"

section \<open>pop\<close>

definition pop_start :: "tid \<Rightarrow> bq_pc \<Rightarrow> bq_sys \<Rightarrow> bq_sys" where
  "pop_start t p s = bput t p (s\<lparr>bpend := (bpend s)(t := None), bpendlast := (bpendlast s)(t := None)\<rparr>)"

definition pop_reload :: "tid \<Rightarrow> bq_sys \<Rightarrow> bq_sys" where
  "pop_reload t s = bput t (PopHead (bq_head s)) s"

text \<open>Locking the head, or taking the waiters found there.\<close>

definition pop_lock :: "tid \<Rightarrow> bword \<Rightarrow> bq_sys \<Rightarrow> bq_sys" where
  "pop_lock t hv s =
     (if hv = BNull then bput t PopInstall s
      else (let s' = s\<lparr>bq_head := BNull\<rparr> in
        case bq_head s of
          BNode h \<Rightarrow> bput t (PopNext h) s'
        | BWaiter f \<Rightarrow> bput t PopInstall (add_front t f s')
        | BNull \<Rightarrow> bput t PopInstall s'))"

definition pop_install :: "tid \<Rightarrow> bq_sys \<Rightarrow> bq_sys" where
  "pop_install t s =
     (if bq_head s = BNull then bput t PopWaitHead (s\<lparr>bq_head := BWaiter t\<rparr>)
      else bput t (PopHead (bq_head s)) s)"

text \<open>After \<open>wait()\<close>: waiters that were queued behind this thread are pending now.\<close>

definition woken :: "tid \<Rightarrow> (tid \<Rightarrow> bq_sys \<Rightarrow> bq_sys) \<Rightarrow> bq_sys \<Rightarrow> bq_sys" where
  "woken t add s = (let s = s\<lparr>permits := (permits s)(t := permits s t - 1)\<rparr> in
     bput t PopStart (case wnext s t of
         None \<Rightarrow> s
       | Some f \<Rightarrow> (let s = add f s in s\<lparr>wnext := (wnext s)(t := None)\<rparr>)))"

definition pop_woken_head :: "tid \<Rightarrow> bq_sys \<Rightarrow> bq_sys" where
  "pop_woken_head t s = woken t (add_front t) s"

definition pop_woken_next :: "tid \<Rightarrow> bq_sys \<Rightarrow> bq_sys" where
  "pop_woken_next t s = woken t (add_back t) s"

definition pop_next_pc :: "addr \<Rightarrow> bword \<Rightarrow> bq_pc" where
  "pop_next_pc h v = (case v of BNode n \<Rightarrow> PopTake h n | _ \<Rightarrow> PopEnqueue h v)"

definition pop_load :: "tid \<Rightarrow> addr \<Rightarrow> bq_sys \<Rightarrow> bq_sys" where
  "pop_load t h s = bload h (\<lambda>v. bput t (pop_next_pc h v) s) s"

text \<open>The item is moved out; then \<open>unlock_taken_guard\<close> unlocks and the old head is deleted.\<close>

definition pop_take :: "tid \<Rightarrow> addr \<Rightarrow> addr \<Rightarrow> bq_sys \<Rightarrow> bq_sys" where
  "pop_take t h n s = bload n (\<lambda>_. bput t (UTaken h n)
     (s\<lparr>bchain := tl (bchain s), bpopped := bpopped s @ [bitem s n]\<rparr>)) s"

text \<open>
  Installing this thread, then the pending list, then the waiters that are there.  On success the
  variable \<open>pending\<close> is not used again before it is assigned.
\<close>

definition pop_enqueue :: "tid \<Rightarrow> addr \<Rightarrow> bword \<Rightarrow> bq_sys \<Rightarrow> bq_sys" where
  "pop_enqueue t h nv s = bload h (\<lambda>v.
     (let s1 = (case bpend s t of
           Some p \<Rightarrow> link_last t (decode_waiter nv) (s\<lparr>wnext := (wnext s)(t := Some p)\<rparr>)
         | None \<Rightarrow> s\<lparr>wnext := (wnext s)(t := decode_waiter nv)\<rparr>)
      in if v = nv then bput t (PopWaiting h) (s1\<lparr>bnext := (bnext s)(h := BWaiter t), bpend := (bpend s)(t := None)\<rparr>)
         else if is_node v then
           (let s2 = (if bpend s t \<noteq> None then link_last t None s1 else s1)
            in bput t (pop_next_pc h v) (s2\<lparr>wnext := (wnext s2)(t := None)\<rparr>))
         else bfail s)) s"

definition unlock_waiting :: "tid \<Rightarrow> addr \<Rightarrow> bq_sys \<Rightarrow> bq_sys" where
  "unlock_waiting t h s = (let s' = s\<lparr>bq_head := BNode h\<rparr> in
     case bq_head s of
       BNode _ \<Rightarrow> bfail s
     | BNull \<Rightarrow> bput t PopWaitNext (s'\<lparr>bpend := (bpend s)(t := None), bpendlast := (bpendlast s)(t := None)\<rparr>)
     | BWaiter f \<Rightarrow> bput t PopWaitNext (add_front t f (s'\<lparr>bpend := (bpend s)(t := None)\<rparr>)))"

section \<open>unlock\_taken\<close>

definition taken_next_pc :: "addr \<Rightarrow> addr \<Rightarrow> bword \<Rightarrow> bq_pc" where
  "taken_next_pc h n v = (if is_node v then URelease h n else UTry h n v)"

definition taken_turn :: "tid \<Rightarrow> addr \<Rightarrow> addr \<Rightarrow> bq_sys \<Rightarrow> bq_sys" where
  "taken_turn t h n s =
     (if bpend s t = None then
        (if bq_head s = BNull then bput t (UFree h) (s\<lparr>bq_head := BNode n\<rparr>) else bput t (UGrab h n) s)
      else bload n (\<lambda>v. bput t (taken_next_pc h n v) s) s)"

text \<open>Waiters that came to the head meanwhile; another thread may have taken them.\<close>

definition grab_turn :: "tid \<Rightarrow> bq_pc \<Rightarrow> bq_sys \<Rightarrow> bq_sys" where
  "grab_turn t p s = (case bq_head s of
       BNode _ \<Rightarrow> bfail s
     | BNull \<Rightarrow> bput t p s
     | BWaiter f \<Rightarrow> bput t p (add_front t f (s\<lparr>bq_head := BNull\<rparr>)))"

definition taken_try :: "tid \<Rightarrow> addr \<Rightarrow> addr \<Rightarrow> bword \<Rightarrow> bq_sys \<Rightarrow> bq_sys" where
  "taken_try t h n nv s = bload n (\<lambda>v. (case bpend s t of
       None \<Rightarrow> bfail s
     | Some w \<Rightarrow>
         if v = nv then
           (let s1 = (if nv \<noteq> BNull then link_last t (decode_waiter nv) s else s)
            in bput t (UTaken h n) (s1\<lparr>bnext := (bnext s)(n := BWaiter w), bpend := (bpend s)(t := None)\<rparr>))
         else if is_node v then bput t (URelease h n) (link_last t None s)
         else bfail s)) s"

definition taken_release :: "tid \<Rightarrow> addr \<Rightarrow> addr \<Rightarrow> bq_sys \<Rightarrow> bq_sys" where
  "taken_release t h n s = (case bpend s t of
       None \<Rightarrow> bfail s
     | Some w \<Rightarrow>
         if bq_head s = BNull then bput t (UNotify h w) (s\<lparr>bq_head := BNode n, bpend := (bpend s)(t := None)\<rparr>)
         else bput t (UMore h n) s)"

definition bfree :: "tid \<Rightarrow> addr \<Rightarrow> bq_sys \<Rightarrow> bq_sys" where
  "bfree t h s = bload h (\<lambda>_. bput t BIdle (s\<lparr>bnodes := bnodes s - {h}\<rparr>)) s"

section \<open>try\_pop\<close>

definition try_next_pc :: "addr \<Rightarrow> bword \<Rightarrow> bq_pc" where
  "try_next_pc h v = (case v of BNode n \<Rightarrow> PopTake h n | _ \<Rightarrow> NTurn h v)"

definition try_head :: "tid \<Rightarrow> bword \<Rightarrow> bool \<Rightarrow> bq_sys \<Rightarrow> bq_sys" where
  "try_head t hv spurious s = (case hv of
       BNode h \<Rightarrow>
         if bq_head s = hv \<and> \<not> spurious then bput t (TryNext h) (s\<lparr>bq_head := BNull\<rparr>)
         else bput t (TryHead (bq_head s)) s
     | _ \<Rightarrow> bput t BIdle s)"

definition try_load :: "tid \<Rightarrow> addr \<Rightarrow> bq_sys \<Rightarrow> bq_sys" where
  "try_load t h s = bload h (\<lambda>v. bput t (try_next_pc h v) s) s"

text \<open>
  \<open>try_unlock_no_item\<close>.  A successful exchange leaves \<open>nextValue\<close> as it was.  When the assertion on
  the value found fails, the flag is set and the code goes on as without assertions.
\<close>

definition no_item_turn :: "tid \<Rightarrow> addr \<Rightarrow> bword \<Rightarrow> bq_sys \<Rightarrow> bq_sys" where
  "no_item_turn t h nv s = (case bpend s t of
       None \<Rightarrow> if bq_head s = BNull then bput t BIdle (s\<lparr>bq_head := BNode h\<rparr>) else bput t (NGrab h nv) s
     | Some w \<Rightarrow> bload h (\<lambda>v.
         if v = nv then
           (let s1 = (if nv \<noteq> BNull then link_last t (decode_waiter nv) s else s)
            in bput t (NTurn h nv) (s1\<lparr>bnext := (bnext s)(h := BWaiter w), bpend := (bpend s)(t := None)\<rparr>))
         else bput t (try_next_pc h v) ((link_last t None s)\<lparr>basserted := basserted s \<or> \<not> is_node v\<rparr>)) s)"

section \<open>Interleavings\<close>

inductive bq_step :: "bq_sys \<Rightarrow> bq_sys \<Rightarrow> bool" where
  b_push: "bpc s t = BIdle \<Longrightarrow> n \<notin> bnodes s \<Longrightarrow> bq_step s (push_begin t n x s)"
| b_link: "bpc s t = PushLink prev n \<Longrightarrow> bq_step s (push_link t prev n s)"
| b_push_notify: "bpc s t = PushNotify w \<Longrightarrow> bq_step s (bnotify t w BIdle s)"
| b_pop: "bpc s t = BIdle \<Longrightarrow> bq_step s (pop_start t PopStart s)"
| b_reload: "bpc s t = PopStart \<Longrightarrow> bq_step s (pop_reload t s)"
| b_spin: "bpc s t = PopHead hv \<Longrightarrow> \<not> is_node hv \<Longrightarrow> bq_step s (pop_reload t s)"
| b_lock: "bpc s t = PopHead hv \<Longrightarrow> bq_step s (pop_lock t hv s)"
| b_install: "bpc s t = PopInstall \<Longrightarrow> bq_step s (pop_install t s)"
| b_woken_head: "bpc s t = PopWaitHead \<Longrightarrow> permits s t > 0 \<Longrightarrow> bq_step s (pop_woken_head t s)"
| b_load: "bpc s t = PopNext h \<Longrightarrow> bq_step s (pop_load t h s)"
| b_take: "bpc s t = PopTake h n \<Longrightarrow> bq_step s (pop_take t h n s)"
| b_enqueue: "bpc s t = PopEnqueue h nv \<Longrightarrow> bq_step s (pop_enqueue t h nv s)"
| b_unlock_waiting: "bpc s t = PopWaiting h \<Longrightarrow> bq_step s (unlock_waiting t h s)"
| b_woken_next: "bpc s t = PopWaitNext \<Longrightarrow> permits s t > 0 \<Longrightarrow> bq_step s (pop_woken_next t s)"
| b_taken: "bpc s t = UTaken h n \<Longrightarrow> bq_step s (taken_turn t h n s)"
| b_grab: "bpc s t = UGrab h n \<Longrightarrow> bq_step s (grab_turn t (UTaken h n) s)"
| b_try: "bpc s t = UTry h n nv \<Longrightarrow> bq_step s (taken_try t h n nv s)"
| b_release: "bpc s t = URelease h n \<Longrightarrow> bq_step s (taken_release t h n s)"
| b_more: "bpc s t = UMore h n \<Longrightarrow> bq_step s (grab_turn t (URelease h n) s)"
| b_notify: "bpc s t = UNotify h w \<Longrightarrow> bq_step s (bnotify t w (UFree h) s)"
| b_free: "bpc s t = UFree h \<Longrightarrow> bq_step s (bfree t h s)"
| b_try_pop: "bpc s t = BIdle \<Longrightarrow> bq_step s (pop_start t (TryHead (bq_head s)) s)"
| b_try_head: "bpc s t = TryHead hv \<Longrightarrow> bq_step s (try_head t hv spurious s)"
| b_try_load: "bpc s t = TryNext h \<Longrightarrow> bq_step s (try_load t h s)"
| b_no_item: "bpc s t = NTurn h nv \<Longrightarrow> bq_step s (no_item_turn t h nv s)"
| b_no_item_grab: "bpc s t = NGrab h nv \<Longrightarrow> bq_step s (grab_turn t (NTurn h nv) s)"

text \<open>The destructor, when no thread uses the queue: the nodes left, \<open>None\<close> is \<open>std::terminate\<close>.\<close>

partial_function (option) destroy_nodes :: "(addr \<Rightarrow> bword) \<Rightarrow> addr \<Rightarrow> addr set \<Rightarrow> addr set option" where
  "destroy_nodes nx a nodes =
     (if a \<notin> nodes then None
      else (case nx a of
          BWaiter _ \<Rightarrow> None
        | BNull \<Rightarrow> Some (nodes - {a})
        | BNode b \<Rightarrow> destroy_nodes nx b (nodes - {a})))"

definition bq_destroy :: "bq_sys \<Rightarrow> addr set option" where
  "bq_destroy s = (case bq_head s of BNode h \<Rightarrow> destroy_nodes (bnext s) h (bnodes s) | _ \<Rightarrow> None)"

definition bq_init :: "bq_sys \<Rightarrow> bool" where
  "bq_init s \<longleftrightarrow> (\<exists>n. s = blocking_queue n)"

end
