(* ===== verification/Blocking_Queue_Nodes.thy ===== *)
theory Blocking_Queue_Nodes
  imports Blocking_Queue
begin

text \<open>
  The nodes and the lock of the blocking queue: the chain of nodes with the links that pushes
  still owe, the one thread that holds the lock and what it knows about the \<open>next\<close> word of the
  head, and the nodes that wait to be deleted.  One lemma for each kind of write.
\<close>

section \<open>Nodes and the lock\<close>

text \<open>The node at the head while a thread holds the lock, and the node it deletes at the end.\<close>

fun held :: "bq_pc \<Rightarrow> addr option" where
  "held (PopNext h) = Some h"
| "held (PopTake h n) = Some h"
| "held (PopEnqueue h v) = Some h"
| "held (PopWaiting h) = Some h"
| "held (UTaken h n) = Some n"
| "held (UGrab h n) = Some n"
| "held (UTry h n v) = Some n"
| "held (URelease h n) = Some n"
| "held (UMore h n) = Some n"
| "held (TryNext h) = Some h"
| "held (NTurn h v) = Some h"
| "held (NGrab h v) = Some h"
| "held p = None"

fun frees :: "bq_pc \<Rightarrow> addr option" where
  "frees (UTaken h n) = Some h"
| "frees (UGrab h n) = Some h"
| "frees (UTry h n v) = Some h"
| "frees (URelease h n) = Some h"
| "frees (UMore h n) = Some h"
| "frees (UNotify h w) = Some h"
| "frees (UFree h) = Some h"
| "frees p = None"

fun pushes :: "bq_pc \<Rightarrow> (addr \<times> addr) option" where
  "pushes (PushLink a b) = Some (a, b)"
| "pushes p = None"

text \<open>What a thread knows about the \<open>next\<close> word \<open>v\<close> of the head.\<close>

fun knows :: "bq_pc \<Rightarrow> bword \<Rightarrow> bool" where
  "knows (PopTake h n) v = (v = BNode n)"
| "knows (PopEnqueue h nv) v = (\<not> is_node nv \<and> (v = nv \<or> is_node v))"
| "knows (UTry h n nv) v = (\<not> is_node nv \<and> (v = nv \<or> is_node v))"
| "knows (NTurn h nv) v = (\<not> is_node nv)"
| "knows (NGrab h nv) v = (\<not> is_node nv)"
| "knows p v = True"

fun link_of :: "bword \<Rightarrow> link" where
  "link_of BNull = Null"
| "link_of (BWaiter w) = Unlocked"
| "link_of (BNode a) = Ptr a"

definition links :: "(addr \<Rightarrow> bword) \<Rightarrow> addr \<Rightarrow> link" where
  "links f a = link_of (f a)"

definition owned :: "(bq_pc \<Rightarrow> 'a option) \<Rightarrow> (tid \<Rightarrow> bq_pc) \<Rightarrow> 'a set" where
  "owned g pc = {x. \<exists>t. g (pc t) = Some x}"

abbreviation pushing :: "(tid \<Rightarrow> bq_pc) \<Rightarrow> (addr \<times> addr) set" where
  "pushing pc \<equiv> owned pushes pc"

abbreviation freeing :: "(tid \<Rightarrow> bq_pc) \<Rightarrow> addr set" where
  "freeing pc \<equiv> owned frees pc"

text \<open>Every link is owed by one push, every old head is deleted by one thread.\<close>

definition one_owner :: "(bq_pc \<Rightarrow> 'a option) \<Rightarrow> (tid \<Rightarrow> bq_pc) \<Rightarrow> bool" where
  "one_owner g pc \<longleftrightarrow> (\<forall>t u x. g (pc t) = Some x \<longrightarrow> g (pc u) = Some x \<longrightarrow> t = u)"

definition bhead :: "bq_sys \<Rightarrow> addr" where
  "bhead s = hd (bchain s)"

definition chain_ok :: "bq_sys \<Rightarrow> bool" where
  "chain_ok s \<longleftrightarrow> bchain s \<noteq> [] \<and> distinct (bchain s) \<and> last (bchain s) = bq_tail s \<and>
     pushing (bpc s) \<subseteq> adj (bchain s) \<and> linked (links (bnext s)) (pushing (bpc s)) (bchain s) \<and>
     (\<forall>a \<in> set (tl (bchain s)). \<not> is_waiter (bnext s a)) \<and>
     bpushed s = bpopped s @ map (bitem s) (tl (bchain s))"

definition holder_ok :: "bq_sys \<Rightarrow> bool" where
  "holder_ok s \<longleftrightarrow> (if is_node (bq_head s) then bq_head s = BNode (bhead s) \<and> (\<forall>t. held (bpc s t) = None)
     else (\<exists>t. held (bpc s t) = Some (bhead s) \<and> (\<forall>u. u \<noteq> t \<longrightarrow> held (bpc s u) = None) \<and> knows (bpc s t) (bnext s (bhead s))))"

definition nodes_ok :: "bq_sys \<Rightarrow> bool" where
  "nodes_ok s \<longleftrightarrow> freeing (bpc s) \<inter> set (bchain s) = {} \<and> bnodes s = set (bchain s) \<union> freeing (bpc s) \<and>
     one_owner frees (bpc s) \<and> one_owner pushes (bpc s)"

definition core_inv :: "bq_sys \<Rightarrow> bool" where
  "core_inv s \<longleftrightarrow> chain_ok s \<and> holder_ok s \<and> nodes_ok s"

lemma bput_simps [simp]:
  "bq_head (bput t p s) = bq_head s" "bq_tail (bput t p s) = bq_tail s" "bnext (bput t p s) = bnext s" "bitem (bput t p s) = bitem s"
  "bnodes (bput t p s) = bnodes s" "wnext (bput t p s) = wnext s" "permits (bput t p s) = permits s" "bpend (bput t p s) = bpend s"
  "bpendlast (bput t p s) = bpendlast s" "bpc (bput t p s) = (bpc s)(t := p)" "bchain (bput t p s) = bchain s"
  "bpushed (bput t p s) = bpushed s" "bpopped (bput t p s) = bpopped s" "bfailed (bput t p s) = bfailed s" "bhead (bput t p s) = bhead s"
  "basserted (bput t p s) = basserted s"
  by (simp_all add: bput_def bhead_def)

lemma links_upd [simp]: "links (f(a := v)) = (links f)(a := link_of v)"
  by (simp add: links_def fun_eq_iff)

lemma link_of_simps [simp]: "link_of v = Null \<or> link_of v = Unlocked \<longleftrightarrow> \<not> is_node v" "link_of v = Ptr a \<longleftrightarrow> v = BNode a"
  by (cases v; simp)+

text \<open>The part of the state that the invariant reads.\<close>

definition same_core :: "bq_sys \<Rightarrow> bq_sys \<Rightarrow> bool" where
  "same_core s t \<longleftrightarrow> bq_head s = bq_head t \<and> bq_tail s = bq_tail t \<and> bnext s = bnext t \<and> bitem s = bitem t \<and> bnodes s = bnodes t \<and>
     bpc s = bpc t \<and> bchain s = bchain t \<and> bpushed s = bpushed t \<and> bpopped s = bpopped t"

lemma core_cong: "same_core s t \<Longrightarrow> core_inv s = core_inv t"
  by (simp add: same_core_def core_inv_def chain_ok_def holder_ok_def nodes_ok_def bhead_def)

lemma owned_same: "g p = g (pc t) \<Longrightarrow> owned g (pc(t := p)) = owned g pc"
  unfolding owned_def by (auto split: if_splits)

lemma owned_add: "g (pc t) = None \<Longrightarrow> owned g (pc(t := p)) = set_option (g p) \<union> owned g pc"
  unfolding owned_def by auto (metis option.distinct(1))

lemma owned_remove:
  assumes "one_owner g pc" "g (pc t) = Some x" "g p = None"
  shows "owned g (pc(t := p)) = owned g pc - {x}"
  using assms unfolding owned_def one_owner_def by auto (metis option.inject)

lemma one_owner_add:
  assumes "one_owner g pc" "g p = Some x" "x \<notin> owned g pc"
  shows "one_owner g (pc(t := p))"
  using assms unfolding owned_def one_owner_def by auto

lemma one_owner_upd: "g p = None \<or> g p = g (pc t) \<Longrightarrow> one_owner g pc \<Longrightarrow> one_owner g (pc(t := p))"
  unfolding one_owner_def by (auto split: if_splits) metis+

lemma held_knows:
  assumes "holder_ok s" "held (bpc s t) = Some h"
  shows "h = bhead s" "\<not> is_node (bq_head s)" "\<And>u. u \<noteq> t \<Longrightarrow> held (bpc s u) = None" "knows (bpc s t) (bnext s h)"
  using assms unfolding holder_ok_def by (auto split: if_splits) (metis option.distinct(1) option.inject)+

text \<open>A thread moves on without touching head, links or nodes.\<close>

lemma lock_pc:
  assumes "holder_ok s" "held p = held (bpc s t)" "held p \<noteq> None \<Longrightarrow> knows p (bnext s (bhead s))"
  shows "holder_ok (bput t p s)"
  using assms unfolding holder_ok_def by (auto split: if_splits) metis+

lemma core_pc:
  assumes "core_inv s" "held p = held (bpc s t)" "frees p = frees (bpc s t)" "pushes p = pushes (bpc s t)"
    "held p \<noteq> None \<Longrightarrow> knows p (bnext s (bhead s))"
  shows "core_inv (bput t p s)"
proof -
  have "holder_ok (bput t p s)" using lock_pc [OF _ assms(2,5)] assms(1) by (simp add: core_inv_def)
  then show ?thesis using assms(1,3,4) owned_same [of pushes p "bpc s" t] owned_same [of frees p "bpc s" t]
      one_owner_upd [of frees p "bpc s" t] one_owner_upd [of pushes p "bpc s" t]
    by (simp add: core_inv_def chain_ok_def nodes_ok_def)
qed

text \<open>The kinds of writes: to the head word, to the \<open>next\<close> word of the head, to the chain.\<close>

lemma core_invD:
  assumes "core_inv s"
  shows "bchain s \<noteq> []" "distinct (bchain s)" "bhead s \<in> set (bchain s)" "bhead s \<in> bnodes s" "bq_tail s \<in> set (bchain s)"
    "set (bchain s) \<subseteq> bnodes s"
  using assms last_in_set [of "bchain s"] by (auto simp: core_inv_def chain_ok_def nodes_ok_def bhead_def)

lemma core_head: "core_inv s \<Longrightarrow> \<not> is_node (bq_head s) \<Longrightarrow> \<not> is_node v \<Longrightarrow> core_inv (s\<lparr>bq_head := v\<rparr>)"
  by (simp add: core_inv_def chain_ok_def holder_ok_def nodes_ok_def bhead_def)

lemma core_lock:
  assumes "core_inv s" "bq_head s = BNode h" "\<not> is_node v" "held p = Some h" "frees p = None" "frees (bpc s t) = None"
    "pushes p = None" "pushes (bpc s t) = None" "\<And>v. knows p v"
  shows "core_inv (bput t p (s\<lparr>bq_head := v\<rparr>))"
proof -
  have "holder_ok (bput t p (s\<lparr>bq_head := v\<rparr>))"
    using assms(1-4,9) unfolding core_inv_def holder_ok_def by (auto simp: bhead_def)
  then show ?thesis using assms(1,5-8) owned_same [of pushes p "bpc s" t] owned_same [of frees p "bpc s" t]
      one_owner_upd [of frees p "bpc s" t] one_owner_upd [of pushes p "bpc s" t]
    by (simp add: core_inv_def chain_ok_def nodes_ok_def)
qed

lemma core_unlock:
  assumes "core_inv s" "held (bpc s t) = Some h" "held p = None" "frees p = frees (bpc s t)" "pushes p = None"
  shows "core_inv (bput t p (s\<lparr>bq_head := BNode h\<rparr>))"
proof -
  have l: "holder_ok s" using assms(1) by (simp add: core_inv_def)
  have "pushes (bpc s t) = None" using assms(2) by (cases "bpc s t") simp_all
  moreover have "holder_ok (bput t p (s\<lparr>bq_head := BNode h\<rparr>))"
    using held_knows [OF l assms(2)] assms(3) unfolding holder_ok_def by (auto simp: bhead_def)
  ultimately show ?thesis using assms(1,4,5) owned_same [of pushes p "bpc s" t] owned_same [of frees p "bpc s" t]
      one_owner_upd [of frees p "bpc s" t] one_owner_upd [of pushes p "bpc s" t]
    by (simp add: core_inv_def chain_ok_def nodes_ok_def)
qed

lemma linked_head_waiter:
  assumes "chain_ok s" "\<not> is_node (bnext s (bhead s))" "\<not> is_node v"
  shows "linked (links ((bnext s)(bhead s := v))) (pushing (bpc s)) (bchain s)"
  using assms linked_head_marker [of "links (bnext s)" "pushing (bpc s)" "bchain s" "bhead s" "link_of v"]
  by (simp add: chain_ok_def bhead_def) (simp add: links_def)

lemma core_install:
  assumes "core_inv s" "held (bpc s t) = Some h" "\<not> is_node (bnext s h)" "held p = Some h" "frees p = frees (bpc s t)" "pushes p = None"
    "knows p (BWaiter w)"
  shows "core_inv (bput t p (s\<lparr>bnext := (bnext s)(h := BWaiter w)\<rparr>))"
proof -
  have l: "holder_ok s" "chain_ok s" using assms(1) by (simp_all add: core_inv_def)
  note h = held_knows [OF l(1) assms(2)]
  have "pushes (bpc s t) = None" using assms(2) by (cases "bpc s t") simp_all
  then have ps: "pushing ((bpc s)(t := p)) = pushing (bpc s)" using assms(6) by (simp add: owned_same)
  have "h \<notin> set (tl (bchain s))" using core_invD [OF assms(1)] h(1) by (cases "bchain s") (auto simp: bhead_def)
  then have "chain_ok (bput t p (s\<lparr>bnext := (bnext s)(h := BWaiter w)\<rparr>))"
    using l(2) ps linked_head_waiter [OF l(2), of "BWaiter w"] assms(3) h(1) by (auto simp: chain_ok_def)
  moreover have "holder_ok (bput t p (s\<lparr>bnext := (bnext s)(h := BWaiter w)\<rparr>))"
    using h assms(4,7) unfolding holder_ok_def by (auto simp: bhead_def)
  ultimately show ?thesis using assms(1,5,6) owned_same [of frees p "bpc s" t]
      one_owner_upd [of frees p "bpc s" t] one_owner_upd [of pushes p "bpc s" t]
    by (simp add: core_inv_def nodes_ok_def)
qed

text \<open>Taking the item of the next node, which becomes the head.\<close>

lemma chain_next:
  assumes "core_inv s" "bnext s (bhead s) = BNode n"
  shows "\<exists>ns. bchain s = bhead s # n # ns \<and> (bhead s, n) \<notin> pushing (bpc s)"
proof -
  have c: "bchain s \<noteq> []" "linked (links (bnext s)) (pushing (bpc s)) (bchain s)" using assms(1) by (simp_all add: core_inv_def chain_ok_def)
  then show ?thesis using assms(2)
    by (cases "(links (bnext s), pushing (bpc s), bchain s)" rule: linked.cases) (auto simp: bhead_def links_def)
qed

lemma core_take:
  assumes "core_inv s" "bpc s t = PopTake h n"
  shows "core_inv (bput t (UTaken h n) (s\<lparr>bchain := tl (bchain s), bpopped := bpopped s @ [bitem s n]\<rparr>))"
    "n \<in> bnodes s"
proof -
  let ?s = "bput t (UTaken h n) (s\<lparr>bchain := tl (bchain s), bpopped := bpopped s @ [bitem s n]\<rparr>)"
  have l: "holder_ok s" "chain_ok s" "nodes_ok s" using assms(1) by (simp_all add: core_inv_def)
  have k: "h = bhead s" "bnext s h = BNode n" "\<not> is_node (bq_head s)" "\<And>u. u \<noteq> t \<Longrightarrow> held (bpc s u) = None"
    using held_knows [OF l(1), of t h] assms(2) by auto
  obtain ns where ns: "bchain s = h # n # ns" "(h, n) \<notin> pushing (bpc s)" using chain_next [OF assms(1)] k(1,2) by auto
  then show "n \<in> bnodes s" using core_invD [OF assms(1)] by auto
  have ps: "pushing ((bpc s)(t := UTaken h n)) = pushing (bpc s)" using assms(2) by (simp add: owned_same)
  have d: "h \<notin> set (n # ns)" "distinct (n # ns)" using core_invD(2) [OF assms(1)] ns(1) by auto
  have "pushing (bpc s) \<subseteq> adj (n # ns)" using l(2) ns by (auto simp: chain_ok_def)
  then have "chain_ok ?s" using l(2) ns ps by (auto simp: chain_ok_def)
  moreover have "holder_ok ?s" using k ns(1) unfolding holder_ok_def by (auto simp: bhead_def)
  moreover have "freeing ((bpc s)(t := UTaken h n)) = insert h (freeing (bpc s))"
    using owned_add [of frees "bpc s" t "UTaken h n"] assms(2) by simp
  moreover have "h \<notin> freeing (bpc s)" using l(3) ns(1) by (auto simp: nodes_ok_def)
  ultimately have "nodes_ok ?s"
    using l(3) ns(1) d assms(2) one_owner_upd [of pushes "UTaken h n" "bpc s" t] one_owner_add [of frees "bpc s" "UTaken h n" h t]
    by (auto simp: nodes_ok_def)
  with \<open>chain_ok ?s\<close> \<open>holder_ok ?s\<close> show "core_inv ?s" by (simp add: core_inv_def)
qed

text \<open>The two halves of \<open>push\<close>.\<close>

lemma core_push:
  assumes "core_inv s" "bpc s t = BIdle" "n \<notin> bnodes s"
  shows "core_inv (push_begin t n x s)"
proof -
  let ?s = "push_begin t n x s" let ?p = "PushLink (bq_tail s) n"
  have l: "holder_ok s" "chain_ok s" "nodes_ok s" using assms(1) by (simp_all add: core_inv_def)
  have n: "n \<notin> set (bchain s)" "n \<notin> freeing (bpc s)" using l(3) assms(3) by (auto simp: nodes_ok_def)
  have c: "bchain s \<noteq> []" "distinct (bchain s)" "last (bchain s) = bq_tail s" using l(2) by (auto simp: chain_ok_def)
  have hd: "hd (bchain s @ [n]) = bhead s" "bhead s \<noteq> n" using c n by (auto simp: bhead_def)
  have ps: "pushing ((bpc s)(t := ?p)) = insert (bq_tail s, n) (pushing (bpc s))"
    using owned_add [of pushes "bpc s" t ?p] assms(2) by simp
  have "linked ((links (bnext s))(n := Null)) (insert (last (bchain s), n) (pushing (bpc s))) (bchain s @ [n])"
    using linked_snoc [OF c(1) _ c(2) n(1), of "links (bnext s)" "pushing (bpc s)" Null] l(2) by (auto simp: chain_ok_def)
  moreover have "map ((bitem s)(n := x)) (tl (bchain s)) = map (bitem s) (tl (bchain s))"
    using n by (cases "bchain s") auto
  moreover have "n \<notin> set (tl (bchain s))" using n by (cases "bchain s") auto
  moreover have "pushing (bpc s) \<subseteq> adj (bchain s @ [n])" using l(2) adj_snoc [OF c(1), of n] by (auto simp: chain_ok_def)
  ultimately have "chain_ok ?s" using l(2) n ps c adj_snoc [OF c(1), of n] by (auto simp: chain_ok_def push_begin_def)
  moreover have "holder_ok ?s" using l(1) assms(2) hd unfolding holder_ok_def push_begin_def
    by (auto simp: bhead_def split: if_splits) (metis held.simps(13) option.distinct(1))+
  moreover have "(bq_tail s, n) \<notin> pushing (bpc s)" using l(2) n adj_notin(2) by (auto simp: chain_ok_def)
  then have "nodes_ok ?s" using l(3) n c assms(2) owned_same [of frees ?p "bpc s" t]
      one_owner_upd [of frees ?p "bpc s" t] one_owner_add [of pushes "bpc s" ?p _ t]
    by (auto simp: nodes_ok_def push_begin_def)
  ultimately show ?thesis by (simp add: core_inv_def)
qed

lemma knows_node: "knows p v \<Longrightarrow> \<not> is_node v \<Longrightarrow> knows p (BNode b)"
  by (cases p) auto

lemma pushing_word:
  assumes "core_inv s" "bpc s t = PushLink a b"
  shows "a \<in> set (bchain s)" "a \<in> bnodes s" "\<not> is_node (bnext s a)" "is_waiter (bnext s a) \<Longrightarrow> a = bhead s"
proof -
  have l: "chain_ok s" using assms(1) by (simp add: core_inv_def)
  have p: "(a, b) \<in> pushing (bpc s)" using assms(2) unfolding owned_def by (auto intro: exI [of _ t])
  then have ad: "(a, b) \<in> adj (bchain s)" using l by (auto simp: chain_ok_def)
  then show a: "a \<in> set (bchain s)" using adj_in_set by blast
  then show "a \<in> bnodes s" using core_invD(6) [OF assms(1)] by auto
  show "\<not> is_node (bnext s a)" using linked_waiting [OF _ p ad, of "links (bnext s)"] l by (auto simp: chain_ok_def links_def)
  show "a = bhead s" if "is_waiter (bnext s a)"
    using that a l by (cases "bchain s") (auto simp: chain_ok_def bhead_def)
qed

lemma core_link:
  assumes "core_inv s" "bpc s t = PushLink a b" "held p = None" "pushes p = None" "frees p = None"
  shows "core_inv (bput t p (s\<lparr>bnext := (bnext s)(a := BNode b)\<rparr>))"
proof -
  let ?s = "bput t p (s\<lparr>bnext := (bnext s)(a := BNode b)\<rparr>)"
  have l: "holder_ok s" "chain_ok s" "nodes_ok s" using assms(1) by (simp_all add: core_inv_def)
  note w = pushing_word [OF assms(1,2)]
  have "(a, b) \<in> pushing (bpc s)" using assms(2) unfolding owned_def by (auto intro: exI [of _ t])
  then have ad: "(a, b) \<in> adj (bchain s)" using l(2) by (auto simp: chain_ok_def)
  have ps: "pushing ((bpc s)(t := p)) = pushing (bpc s) - {(a, b)}"
    using owned_remove [of pushes "bpc s" t "(a, b)" p] l(3) assms(2,4) by (simp add: nodes_ok_def)
  have "linked ((links (bnext s))(a := Ptr b)) (pushing (bpc s) - {(a, b)}) (bchain s)"
    using linked_publish [OF _ _ ad, of "links (bnext s)" "pushing (bpc s)"] l(2) by (simp add: chain_ok_def)
  then have "chain_ok ?s" using l(2) ps by (auto simp: chain_ok_def)
  moreover have "holder_ok ?s"
  proof (cases "is_node (bq_head s)")
    case True
    then show ?thesis using l(1) assms(3) by (auto simp: holder_ok_def bhead_def)
  next
    case False
    then obtain u where u: "held (bpc s u) = Some (bhead s)" "\<And>v. v \<noteq> u \<Longrightarrow> held (bpc s v) = None" "knows (bpc s u) (bnext s (bhead s))"
      using l(1) by (auto simp: holder_ok_def)
    then have "u \<noteq> t" using assms(2) by auto
    moreover have "knows (bpc s u) (((bnext s)(a := BNode b)) (bhead s))" using u(3) w(3) knows_node by auto
    ultimately show ?thesis using u False assms(3) unfolding holder_ok_def by (auto simp: bhead_def intro!: exI [of _ u])
  qed
  moreover have "nodes_ok ?s" using l(3) assms(2,4,5) owned_same [of frees p "bpc s" t]
      one_owner_upd [of frees p "bpc s" t] one_owner_upd [of pushes p "bpc s" t]
    by (auto simp: nodes_ok_def)
  ultimately show ?thesis by (simp add: core_inv_def)
qed

lemma core_free:
  assumes "core_inv s" "bpc s t = UFree h"
  shows "h \<in> bnodes s" "core_inv (bput t BIdle (s\<lparr>bnodes := bnodes s - {h}\<rparr>))"
proof -
  let ?s = "bput t BIdle (s\<lparr>bnodes := bnodes s - {h}\<rparr>)"
  have l: "holder_ok s" "chain_ok s" "nodes_ok s" using assms(1) by (simp_all add: core_inv_def)
  have h: "h \<in> freeing (bpc s)" using assms(2) unfolding owned_def by (auto intro: exI [of _ t])
  then show "h \<in> bnodes s" using l(3) by (auto simp: nodes_ok_def)
  have "chain_ok ?s" using l(2) owned_same [of pushes BIdle "bpc s" t] assms(2) by (simp add: chain_ok_def)
  moreover have "holder_ok (s\<lparr>bnodes := bnodes s - {h}\<rparr>)" using l(1) by (auto simp: holder_ok_def bhead_def split: if_splits)
  then have "holder_ok ?s" using lock_pc [of "s\<lparr>bnodes := bnodes s - {h}\<rparr>" BIdle t] assms(2) by simp
  moreover have "nodes_ok ?s" using l(3) h assms(2) owned_remove [of frees "bpc s" t h BIdle]
      one_owner_upd [of frees BIdle "bpc s" t] one_owner_upd [of pushes BIdle "bpc s" t]
    by (auto simp: nodes_ok_def)
  ultimately show "core_inv ?s" by (simp add: core_inv_def)
qed

end
