(* ===== verification/Blocking_Queue_Waiters.thy ===== *)
theory Blocking_Queue_Waiters
  imports Blocking_Queue_Nodes
begin

text \<open>
  The waiting threads of the blocking queue, the preservation of the whole invariant and the
  properties of the queue.  Waiter lists are described by their roots and the operations that
  move lists between them; that nobody waits for himself is the acyclicity of \<open>served\<close>.
\<close>

section \<open>Waiting threads\<close>

text \<open>
  A thread between the exchange that installs it and its return from \<open>wait()\<close> is installed; it is
  queued while nobody has decided to notify it.  Every queued thread is in exactly one list:
  the one at the head of the queue, the one at the \<open>next\<close> word of the head, the pending list of
  a thread, or the list behind a thread that was notified and has not collected it yet.
\<close>

fun installed :: "bq_pc \<Rightarrow> bool" where
  "installed (PopWaiting h) = True"
| "installed PopWaitHead = True"
| "installed PopWaitNext = True"
| "installed p = False"

fun notifies :: "bq_pc \<Rightarrow> tid option" where
  "notifies (PushNotify w) = Some w"
| "notifies (UNotify h w) = Some w"
| "notifies p = None"

definition queued :: "bq_sys \<Rightarrow> tid \<Rightarrow> bool" where
  "queued s t \<longleftrightarrow> installed (bpc s t) \<and> permits s t = 0 \<and> t \<notin> owned notifies (bpc s)"

datatype root = RHead | RNext | RPend tid | RTail tid

fun root_ptr :: "bq_sys \<Rightarrow> root \<Rightarrow> tid option" where
  "root_ptr s RHead = decode_waiter (bq_head s)"
| "root_ptr s RNext = decode_waiter (bnext s (bhead s))"
| "root_ptr s (RPend t) = bpend s t"
| "root_ptr s (RTail t) = (if queued s t then None else wnext s t)"

text \<open>\<open>(x, u)\<close>: the thread \<open>x\<close> is in a list that the thread \<open>u\<close> will serve.\<close>

definition served :: "(root \<Rightarrow> tid list) \<Rightarrow> (tid \<times> tid) set" where
  "served L = {(x, u). x \<in> set (L (RPend u)) \<union> set (L (RTail u))}"

text \<open>\<open>shape nx ptr L\<close>: the roots start the disjoint lists \<open>L\<close>.\<close>

definition shape :: "(tid \<Rightarrow> tid option) \<Rightarrow> (root \<Rightarrow> tid option) \<Rightarrow> (root \<Rightarrow> tid list) \<Rightarrow> bool" where
  "shape nx ptr L \<longleftrightarrow> (\<forall>r. path nx (ptr r) (L r) \<and> distinct (L r)) \<and> (\<forall>r q x. x \<in> set (L r) \<longrightarrow> x \<in> set (L q) \<longrightarrow> r = q)"

definition lists_ok :: "bq_sys \<Rightarrow> (root \<Rightarrow> tid list) \<Rightarrow> bool" where
  "lists_ok s L \<longleftrightarrow> shape (wnext s) (root_ptr s) L \<and> (\<forall>t. queued s t \<longleftrightarrow> (\<exists>r. t \<in> set (L r))) \<and> acyclic (served L)"

text \<open>When a thread has, or has not, a pending list.\<close>

fun pend_ok :: "bq_pc \<Rightarrow> bool \<Rightarrow> bool" where
  "pend_ok (UTry h n v) b = b"
| "pend_ok (URelease h n) b = b"
| "pend_ok (UMore h n) b = b"
| "pend_ok BIdle b = (\<not> b)"
| "pend_ok (PushLink a n) b = (\<not> b)"
| "pend_ok (PushNotify w) b = (\<not> b)"
| "pend_ok (UNotify h w) b = (\<not> b)"
| "pend_ok (UFree h) b = (\<not> b)"
| "pend_ok (TryHead v) b = (\<not> b)"
| "pend_ok (TryNext h) b = (\<not> b)"
| "pend_ok (PopWaiting h) b = (\<not> b)"
| "pend_ok p b = True"

definition permits_ok :: "bq_sys \<Rightarrow> bool" where
  "permits_ok s \<longleftrightarrow> one_owner notifies (bpc s) \<and>
     (\<forall>t. permits s t \<le> 1 \<and> (permits s t = 1 \<longrightarrow> installed (bpc s t) \<and> t \<notin> owned notifies (bpc s))) \<and>
     (\<forall>t \<in> owned notifies (bpc s). installed (bpc s t))"

definition threads_ok :: "bq_sys \<Rightarrow> (root \<Rightarrow> tid list) \<Rightarrow> bool" where
  "threads_ok s L \<longleftrightarrow> finite {t. bpc s t \<noteq> BIdle} \<and>
     (\<forall>t. (installed (bpc s t) \<or> wnext s t = None) \<and> pend_ok (bpc s t) (bpend s t \<noteq> None) \<and>
        (bpend s t = None \<or> bpendlast s t = Some (last (L (RPend t)))) \<and>
        (\<forall>h. bpc s t = PopWaiting h \<longrightarrow> queued s t \<longrightarrow> bnext s (bhead s) = BWaiter t))"

definition wait_inv :: "bq_sys \<Rightarrow> (root \<Rightarrow> tid list) \<Rightarrow> bool" where
  "wait_inv s L \<longleftrightarrow> lists_ok s L \<and> permits_ok s \<and> threads_ok s L"

definition bq_inv :: "bq_sys \<Rightarrow> bool" where
  "bq_inv s \<longleftrightarrow> core_inv s \<and> \<not> bfailed s \<and> (\<exists>L. wait_inv s L)"

section \<open>Operations on lists\<close>

lemma acyclic_serve:
  assumes "acyclic r" "r' \<subseteq> r \<union> (UNIV \<times> {u})" "u \<notin> Domain r'"
  shows "acyclic r'"
proof -
  have "(x, y) \<in> r\<^sup>+ \<or> y = u" if "(x, y) \<in> r'\<^sup>+" for x y using that
  proof (induction rule: trancl_induct)
    case (base y)
    then show ?case using assms(2) by auto
  next
    case (step y z)
    then have "y \<noteq> u" using assms(3) by auto
    then show ?case using step assms(2) by (auto intro: trancl_into_trancl)
  qed
  moreover have "(u, u) \<notin> r'\<^sup>+" using assms(3) by (metis Domain.DomainI tranclD)
  ultimately show ?thesis using assms(1) unfolding acyclic_def by metis
qed

lemma find_last_path: "path nx (Some f) xs \<Longrightarrow> find_last nx f = Some (last xs)"
proof (induction xs arbitrary: f)
  case (Cons a xs)
  then show ?case by (cases xs) (auto simp: find_last.simps)
qed simp

lemma path_append:
  "path nx p xs \<Longrightarrow> xs \<noteq> [] \<Longrightarrow> distinct xs \<Longrightarrow> path nx q ys \<Longrightarrow> last xs \<notin> set ys \<Longrightarrow> path (nx(last xs := q)) p (xs @ ys)"
proof (induction xs arbitrary: p)
  case (Cons a xs)
  then show ?case using path_upd [of a ys nx q q] by (cases xs) (auto simp: fun_upd_def)
qed simp

lemma path_last: "path nx p xs \<Longrightarrow> xs \<noteq> [] \<Longrightarrow> nx (last xs) = None"
  by (induction xs arbitrary: p) (auto split: if_splits)

lemma shapeD:
  assumes "shape nx ptr L"
  shows "path nx (ptr r) (L r)" "distinct (L r)" "r \<noteq> q \<Longrightarrow> x \<in> set (L r) \<Longrightarrow> x \<notin> set (L q)"
    "ptr r = None \<longleftrightarrow> L r = []" "ptr r = Some w \<Longrightarrow> L r \<noteq> [] \<and> hd (L r) = w"
proof -
  show p: "path nx (ptr r) (L r)" "distinct (L r)" using assms by (auto simp: shape_def)
  show "x \<notin> set (L q)" if "r \<noteq> q" "x \<in> set (L r)" using assms that by (auto simp: shape_def)
  show "ptr r = None \<longleftrightarrow> L r = []" using p(1) by (cases "L r") auto
  show "ptr r = Some w \<Longrightarrow> L r \<noteq> [] \<and> hd (L r) = w" using p(1) by (cases "L r") auto
qed

text \<open>Putting the list of one root in front of that of another; \<open>d\<close> is the root of the result.\<close>

lemma shape_join:
  assumes "shape nx ptr L" "r \<noteq> q" "L r \<noteq> []" "d = r \<or> d = q"
  shows "shape (nx(last (L r) := ptr q)) (ptr(r := None, q := None, d := ptr r)) (L(r := [], q := [], d := L r @ L q))"
proof -
  note D = shapeD [OF assms(1)]
  have l: "last (L r) \<in> set (L r)" "last (L r) \<notin> set (L q)" using assms(2,3) D(3) by auto
  have "path (nx(last (L r) := ptr q)) (ptr r) (L r @ L q)" using path_append [OF D(1) assms(3) D(2) D(1) l(2)] .
  moreover have "path (nx(last (L r) := ptr q)) (ptr e) (L e)" if "e \<noteq> r" for e
    using that D(1) [of e] D(3) [of r e] l(1) by simp
  moreover have "set (L r) \<inter> set (L q) = {}" using assms(1,2) by (auto simp: shape_def)
  then have "distinct (L r @ L q)" using D(2) by simp
  moreover have "x \<in> set (L e) \<Longrightarrow> x \<in> set (L f) \<Longrightarrow> e = f" for x e f using assms(1) by (simp add: shape_def)
  ultimately show ?thesis using assms(2,4) D(2) unfolding shape_def by (auto split: if_splits)
qed

lemma shape_move:
  assumes "shape nx ptr L" "r \<noteq> d" "L d = []"
  shows "shape nx (ptr(r := None, d := ptr r)) (L(r := [], d := L r))"
  using assms unfolding shape_def by auto

lemma shape_write: "shape nx ptr L \<Longrightarrow> (\<And>r. x \<notin> set (L r)) \<Longrightarrow> shape (nx(x := v)) ptr L"
  by (simp add: shape_def)

lemma shape_cons:
  assumes "shape nx ptr L" "\<And>q. x \<notin> set (L q)"
  shows "shape (nx(x := ptr r)) (ptr(r := Some x)) (L(r := x # L r))"
  using assms unfolding shape_def by auto

lemma shape_uncons:
  assumes "shape nx ptr L" "L r = w # ws" "r \<noteq> d" "L d = []"
  shows "shape nx (ptr(r := None, d := nx w)) (L(r := [], d := ws))"
proof -
  have "x \<in> set (L e) \<Longrightarrow> x \<in> set (L f) \<Longrightarrow> e = f" for x e f using assms(1) by (simp add: shape_def)
  moreover have "path nx (nx w) ws" "distinct ws" "set ws \<subseteq> set (L r)" using shapeD(1,2) [OF assms(1), of r] assms(2) by auto
  ultimately show ?thesis using assms(1,3,4) unfolding shape_def by (auto split: if_splits)
qed

lemma members_join:
  assumes "r \<noteq> q" "set xs = set (L r) \<union> set (L q)"
  shows "(\<exists>e. u \<in> set ((L(r := [], q := xs)) e)) \<longleftrightarrow> (\<exists>e. u \<in> set (L e))"
proof
  assume "\<exists>e. u \<in> set ((L(r := [], q := xs)) e)"
  then obtain e where "u \<in> set ((L(r := [], q := xs)) e)" by blast
  then show "\<exists>e. u \<in> set (L e)" using assms(2) by (cases "e = q"; cases "e = r") auto
next
  assume "\<exists>e. u \<in> set (L e)"
  then obtain e where e: "u \<in> set (L e)" by blast
  show "\<exists>e. u \<in> set ((L(r := [], q := xs)) e)"
  proof (cases "e = r \<or> e = q")
    case True
    then show ?thesis using e assms by (intro exI [of _ q]) auto
  next
    case False
    then show ?thesis using e by (intro exI [of _ e]) simp
  qed
qed

section \<open>Steps on the lists\<close>

lemma decode_Some [simp]: "decode_waiter v = Some w \<longleftrightarrow> v = BWaiter w"
  by (cases v) auto

lemma not_idle_finite: "finite {t. pc t \<noteq> BIdle} \<Longrightarrow> finite {u. (pc(t := p)) u \<noteq> BIdle}"
  by (rule finite_subset [of _ "insert t {t. pc t \<noteq> BIdle}"]) auto

lemma wait_invD:
  assumes "wait_inv s L"
  shows "shape (wnext s) (root_ptr s) L" "queued s t \<longleftrightarrow> (\<exists>r. t \<in> set (L r))" "acyclic (served L)" "permits_ok s" "threads_ok s L"
    "\<not> queued s t \<Longrightarrow> t \<notin> set (L r)"
  using assms by (auto simp: wait_inv_def lists_ok_def)

lemma threads_okD:
  assumes "threads_ok s L"
  shows "finite {t. bpc s t \<noteq> BIdle}" "installed (bpc s t) \<or> wnext s t = None" "pend_ok (bpc s t) (bpend s t \<noteq> None)"
    "bpend s t = Some p \<Longrightarrow> bpendlast s t = Some (last (L (RPend t)))"
    "bpc s t = PopWaiting h \<Longrightarrow> queued s t \<Longrightarrow> bnext s (bhead s) = BWaiter t"
proof -
  note c = conjunct2 [OF assms [unfolded threads_ok_def], THEN spec, of t]
  show "finite {t. bpc s t \<noteq> BIdle}" using assms by (simp add: threads_ok_def)
  show "installed (bpc s t) \<or> wnext s t = None" "pend_ok (bpc s t) (bpend s t \<noteq> None)" using c by simp_all
  show "bpend s t = Some p \<Longrightarrow> bpendlast s t = Some (last (L (RPend t)))" using c by simp
  show "bpc s t = PopWaiting h \<Longrightarrow> queued s t \<Longrightarrow> bnext s (bhead s) = BWaiter t" using c by simp
qed

text \<open>A step that leaves waiters alone.\<close>

lemma wait_quiet:
  assumes "wait_inv s L" "wnext s' = wnext s" "permits s' = permits s" "bpend s' = bpend s" "\<And>u. bpendlast s' u = bpendlast s u \<or> bpend s u = None"
    "decode_waiter (bq_head s') = decode_waiter (bq_head s)" "decode_waiter (bnext s' (bhead s')) = decode_waiter (bnext s (bhead s))"
    "bpc s' = (bpc s)(t := p)" "installed p = installed (bpc s t)" "\<And>h. p \<noteq> PopWaiting h" "notifies p = None" "notifies (bpc s t) = None"
    "pend_ok p (bpend s t \<noteq> None)"
  shows "wait_inv s' L"
proof -
  have o: "owned notifies (bpc s') = owned notifies (bpc s)" using assms(8,11,12) owned_same [of notifies p "bpc s" t] by simp
  have "queued s' u = queued s u" for u using assms(3,9) unfolding queued_def o by (auto simp: assms(8))
  then have q: "queued s' = queued s" by (rule ext)
  have r: "root_ptr s' = root_ptr s"
  proof
    fix r show "root_ptr s' r = root_ptr s r" using q assms(2,4,6,7) by (cases r) auto
  qed
  have "lists_ok s' L" using assms(1,2) q r by (simp add: wait_inv_def lists_ok_def)
  moreover have "permits_ok s'" using assms(1,3,8,9,11) o one_owner_upd [of notifies p "bpc s" t]
    by (auto simp: wait_inv_def permits_ok_def)
  moreover have "threads_ok s' L"
  proof -
    have t: "threads_ok s L" using assms(1) by (simp add: wait_inv_def)
    have "bnext s' (bhead s') = BWaiter u" if "bpc s' u = PopWaiting h" "queued s' u" for u h
      using threads_okD(5) [OF t, of u h] that q assms(7,8,10) by (auto split: if_splits)
    moreover have "bpend s' u = None \<or> bpendlast s' u = Some (last (L (RPend u)))" for u
      using threads_okD(4) [OF t, of u] assms(4) assms(5) [of u] by (cases "bpend s u") auto
    moreover have "installed (bpc s' u) \<or> wnext s' u = None" for u
      using threads_okD(2) [OF t, of u] assms(2,8,9) by auto
    ultimately show ?thesis using threads_okD(1,3) [OF t] assms(4,8,13) not_idle_finite [of "bpc s" t p] by (auto simp: threads_ok_def)
  qed
  ultimately show ?thesis by (simp add: wait_inv_def)
qed

text \<open>Taking the waiters at the head of the queue.\<close>

lemma add_front_list:
  assumes "path (wnext s) (Some f) xs" "bpend s t = None \<longleftrightarrow> ys = []" "bpend s t \<noteq> None \<Longrightarrow> bpendlast s t = Some (last ys)"
  shows "add_front t f s = s\<lparr>wnext := (wnext s)(last xs := bpend s t), bpend := (bpend s)(t := Some f),
    bpendlast := (bpendlast s)(t := Some (last (xs @ ys)))\<rparr>"
proof -
  have ne: "xs \<noteq> []" using assms(1) by auto
  have l: "find_last (wnext s) f = Some (last xs)" using find_last_path [OF assms(1)] .
  show ?thesis
  proof (cases "bpend s t")
    case None
    then show ?thesis using l assms(2) path_last [OF assms(1) ne] by (simp add: add_front_def fun_upd_idem)
  next
    case (Some p)
    then have "(bpendlast s)(t := Some (last ys)) = bpendlast s" using assms(3) by (simp add: fun_upd_idem)
    then show ?thesis using l assms(2) Some by (simp add: add_front_def)
  qed
qed

lemma add_back_list:
  assumes "path (wnext s) (Some f) xs" "bpend s t = None \<longleftrightarrow> ys = []" "bpend s t \<noteq> None \<Longrightarrow> bpendlast s t = Some (last ys)"
  shows "add_back t f s = s\<lparr>wnext := (if ys = [] then wnext s else (wnext s)(last ys := Some f)),
    bpend := (bpend s)(t := (if ys = [] then Some f else bpend s t)), bpendlast := (bpendlast s)(t := Some (last (ys @ xs)))\<rparr>"
proof -
  have "xs \<noteq> []" using assms(1) by auto
  then show ?thesis using assms find_last_path [OF assms(1)] by (cases "bpend s t") (auto simp: add_back_def fun_upd_idem)
qed

lemma pend_facts:
  assumes "wait_inv s L"
  shows "bpend s t = None \<longleftrightarrow> L (RPend t) = []" "bpend s t \<noteq> None \<Longrightarrow> bpendlast s t = Some (last (L (RPend t)))"
  using shapeD(4) [OF wait_invD(1) [OF assms], of "RPend t"] threads_okD(4) [OF wait_invD(5) [OF assms], of t] by auto

lemma wait_collect:
  assumes w: "wait_inv s L" and h: "bq_head s = BWaiter f" and v: "decode_waiter v = None"
    and t: "t \<notin> set (L RHead)" "\<And>u. t \<notin> set (L (RPend u)) \<and> t \<notin> set (L (RTail u))"
    and p: "installed p = installed (bpc s t)" "notifies p = None" "notifies (bpc s t) = None" "pend_ok p True" "\<And>h. p \<noteq> PopWaiting h"
  shows "\<exists>L'. wait_inv (bput t p (add_front t f (s\<lparr>bq_head := v\<rparr>))) L'"
proof -
  let ?s = "bput t p (add_front t f (s\<lparr>bq_head := v\<rparr>))" let ?L = "L(RHead := [], RPend t := L RHead @ L (RPend t))"
  note W = wait_invD [OF w]
  have a: "add_front t f (s\<lparr>bq_head := v\<rparr>) = s\<lparr>bq_head := v, wnext := (wnext s)(last (L RHead) := bpend s t),
      bpend := (bpend s)(t := Some f), bpendlast := (bpendlast s)(t := Some (last (L RHead @ L (RPend t))))\<rparr>"
    using add_front_list [of "s\<lparr>bq_head := v\<rparr>" f "L RHead" t "L (RPend t)"] shapeD(1) [OF W(1), of RHead] h pend_facts [OF w, of t] by simp
  have ne: "L RHead \<noteq> []" "last (L RHead) \<in> set (L RHead)" using shapeD(5) [OF W(1), of RHead] h by auto
  have ql: "queued s (last (L RHead))" using W(2) ne(2) by blast
  have o: "owned notifies ((bpc s)(t := p)) = owned notifies (bpc s)" using p(2,3) by (simp add: owned_same)
  have "queued ?s u = queued s u" for u using p(1) unfolding queued_def by (simp add: a o)
  then have q: "queued ?s = queued s" by (rule ext)
  have "root_ptr ?s r = ((root_ptr s)(RHead := None, RPend t := None, RPend t := root_ptr s RHead)) r" for r
    using ql q v h by (cases r) (auto simp: a bhead_def)
  then have r: "root_ptr ?s = (root_ptr s)(RHead := None, RPend t := None, RPend t := root_ptr s RHead)" by (rule ext)
  have "shape (wnext ?s) (root_ptr ?s) ?L" using shape_join [OF W(1), of RHead "RPend t" "RPend t"] ne(1) unfolding r by (simp add: a)
  moreover have "queued ?s u \<longleftrightarrow> (\<exists>r. u \<in> set (?L r))" for u
    unfolding q W(2) by (rule members_join [symmetric]) auto
  moreover have "acyclic (served ?L)"
    by (rule acyclic_serve [OF W(3), of _ t]) (use t in \<open>auto simp: served_def split: if_splits\<close>)
  ultimately have "lists_ok ?s ?L" by (simp add: lists_ok_def)
  moreover have "permits_ok ?s" using W(4) p(1,2) o one_owner_upd [of notifies p "bpc s" t]
    by (auto simp: permits_ok_def a)
  moreover have "threads_ok ?s ?L"
  proof -
    have "bnext ?s (bhead ?s) = BWaiter u" if "bpc ?s u = PopWaiting h" "queued ?s u" for u h
      using threads_okD(5) [OF W(5), of u h] that q p(5) by (auto simp: a bhead_def split: if_splits)
    moreover have "installed (bpc ?s u) \<or> wnext ?s u = None" for u
      using threads_okD(2) [OF W(5), of u] ql p(1) by (auto simp: a queued_def)
    ultimately show ?thesis using W(5) p(4) not_idle_finite [of "bpc s" t p] unfolding threads_ok_def by (auto simp: a)
  qed
  ultimately show ?thesis unfolding wait_inv_def by blast
qed

text \<open>
  The pending list goes in front of the waiters at the \<open>next\<close> word of the head.  Only the holder of
  the lock does this, so that no thread is between installing itself and unlocking.
\<close>

lemma wait_publish:
  assumes w: "wait_inv s L" and b: "bpend s t = Some x" and np: "\<And>u h. bpc s u \<noteq> PopWaiting h"
    and p: "\<not> installed p" "\<not> installed (bpc s t)" "notifies p = None" "notifies (bpc s t) = None" "pend_ok p False"
    and s': "wnext s' = (wnext s)(last (L (RPend t)) := decode_waiter (bnext s (bhead s)))" "permits s' = permits s"
      "bpend s' = (bpend s)(t := None)" "bpendlast s' = bpendlast s" "bq_head s' = bq_head s" "bnext s' (bhead s') = BWaiter x"
      "bpc s' = (bpc s)(t := p)"
  shows "\<exists>L'. wait_inv s' L'"
proof -
  let ?L = "L(RPend t := [], RNext := L (RPend t) @ L RNext)" let ?l = "last (L (RPend t))"
  note W = wait_invD [OF w]
  have ne: "L (RPend t) \<noteq> []" "?l \<in> set (L (RPend t))" using shapeD(5) [OF W(1), of "RPend t"] b by auto
  have ql: "queued s ?l" using W(2) ne(2) by blast
  have o: "owned notifies (bpc s') = owned notifies (bpc s)" unfolding s'(7) using p(3,4) by (simp add: owned_same)
  have "queued s' u = queued s u" for u using p(1,2) unfolding queued_def o by (simp add: s'(2,7))
  then have q: "queued s' = queued s" by (rule ext)
  have "root_ptr s' r = ((root_ptr s)(RPend t := None, RNext := None, RNext := root_ptr s (RPend t))) r" for r
    using ql q b by (cases r) (auto simp: s')
  then have r: "root_ptr s' = (root_ptr s)(RPend t := None, RNext := None, RNext := root_ptr s (RPend t))" by (rule ext)
  have "shape (wnext s') (root_ptr s') ?L" using shape_join [OF W(1), of "RPend t" RNext RNext] ne(1) unfolding r by (simp add: s'(1))
  moreover have "queued s' u \<longleftrightarrow> (\<exists>r. u \<in> set (?L r))" for u
    unfolding q W(2) by (rule members_join [symmetric]) auto
  moreover have "served ?L \<subseteq> served L" by (auto simp: served_def split: if_splits)
  then have "acyclic (served ?L)" using W(3) acyclic_subset by blast
  ultimately have "lists_ok s' ?L" by (simp add: lists_ok_def)
  moreover have "permits_ok s'" using W(4) p(1-3) o one_owner_upd [of notifies p "bpc s" t]
    by (auto simp: permits_ok_def s')
  moreover have "threads_ok s' ?L"
  proof -
    have "bpc s' u \<noteq> PopWaiting h" for u h using np p(1) by (auto simp: s')
    moreover have "installed (bpc s' u) \<or> wnext s' u = None" for u
      using threads_okD(2) [OF W(5), of u] ql p(1,2) by (auto simp: s' queued_def)
    ultimately show ?thesis using W(5) p(5) not_idle_finite [of "bpc s" t p] unfolding threads_ok_def by (auto simp: s'(3,4,7))
  qed
  ultimately show ?thesis unfolding wait_inv_def by blast
qed

text \<open>Deciding to notify the first waiter of a list; the others stay behind it.\<close>

lemma wait_choose:
  assumes w: "wait_inv s L" and R: "R = RNext \<or> R = RPend t" "root_ptr s R = Some x"
    and np: "\<And>u h. bpc s u = PopWaiting h \<Longrightarrow> R = RNext \<or> bnext s' (bhead s') = bnext s (bhead s)"
    and p: "\<not> installed p" "\<not> installed (bpc s t)" "notifies p = Some x" "notifies (bpc s t) = None" "pend_ok p False"
      "R = RNext \<Longrightarrow> bpend s t = None"
    and s': "wnext s' = wnext s" "permits s' = permits s" "bpend s' = (bpend s)(t := None)" "bpendlast s' = bpendlast s"
      "root_ptr s' RHead = root_ptr s RHead" "root_ptr s' RNext = (if R = RNext then None else root_ptr s RNext)" "bpc s' = (bpc s)(t := p)"
  shows "\<exists>L'. wait_inv s' L'"
proof -
  note W = wait_invD [OF w]
  obtain xs where xs: "L R = x # xs" using shapeD(5) [OF W(1) R(2)] by (cases "L R") auto
  let ?L = "L(R := [], RTail x := xs)"
  have qx: "queued s x" using W(2) xs by (metis list.set_intros(1))
  then have tx: "L (RTail x) = []" "x \<noteq> t" using shapeD(4) [OF W(1), of "RTail x"] p(2) by (auto simp: queued_def)
  have "x \<notin> owned notifies (bpc s)" using qx by (simp add: queued_def)
  then have one: "one_owner notifies (bpc s')" using one_owner_add [of notifies "bpc s" p x t] W(4) p(3) by (simp add: s' permits_ok_def)
  have o: "owned notifies (bpc s') = insert x (owned notifies (bpc s))" unfolding s'(7) using p(3,4) by (simp add: owned_add)
  have q: "queued s' u \<longleftrightarrow> queued s u \<and> u \<noteq> x" for u using p(1,2) unfolding queued_def o by (auto simp: s'(2,7))
  have "root_ptr s' r = ((root_ptr s)(R := None, RTail x := wnext s x)) r" for r
  proof (cases r)
    case RHead
    then show ?thesis using s'(5) R(1) by auto
  next
    case RNext
    then show ?thesis using s'(6) R(1) by auto
  next
    case (RPend u)
    then show ?thesis using R(1) p(6) by (auto simp: s'(3))
  next
    case (RTail u)
    then show ?thesis using R(1) q [of u] by (auto simp: s'(1))
  qed
  then have r: "root_ptr s' = (root_ptr s)(R := None, RTail x := wnext s x)" by (rule ext)
  have nR: "R \<noteq> RTail x" using R(1) by auto
  have "shape (wnext s') (root_ptr s') ?L" unfolding r s'(1) by (rule shape_uncons [OF W(1) xs nR tx(1)])
  moreover have x: "x \<notin> set xs" "\<And>r. r \<noteq> R \<Longrightarrow> x \<notin> set (L r)"
    using shapeD(2) [OF W(1), of R] shapeD(3) [OF W(1), of R _ x] xs by auto
  moreover have "queued s' u \<longleftrightarrow> (\<exists>r. u \<in> set (?L r))" for u
  proof -
    have "(\<exists>r. u \<in> set (?L r)) \<longleftrightarrow> (\<exists>r. u \<in> set ((L(R := xs)) r))"
      using members_join [of R "RTail x" xs "L(R := xs)" u] nR tx(1) by simp
    also have "\<dots> \<longleftrightarrow> (\<exists>r. u \<in> set (L r)) \<and> u \<noteq> x"
    proof (cases "u = x")
      case True
      then show ?thesis using x by auto
    next
      case False
      then have "u \<in> set (L r) \<longleftrightarrow> u \<in> set ((L(R := xs)) r)" for r using xs by (cases "r = R") auto
      then show ?thesis using False by simp
    qed
    finally show ?thesis using W(2) [of u] q [of u] by simp
  qed
  moreover have "acyclic (served ?L)"
  proof (rule acyclic_serve [OF W(3), of _ x])
    show "served ?L \<subseteq> served L \<union> UNIV \<times> {x}" by (auto simp: served_def split: if_splits)
    show "x \<notin> Domain (served ?L)" using x by (auto simp: served_def split: if_splits)
  qed
  ultimately have "lists_ok s' ?L" by (simp add: lists_ok_def)
  moreover have "permits_ok s'" using W(4) p(1,2) o one qx by (auto simp: permits_ok_def s' queued_def)
  moreover have "threads_ok s' ?L"
  proof -
    have "bnext s' (bhead s') = BWaiter u" if "bpc s' u = PopWaiting h" "queued s' u" for u h
    proof -
      have "bpc s u = PopWaiting h" "queued s u" "u \<noteq> x" using that q p(1) by (auto simp: s' split: if_splits)
      then show ?thesis using threads_okD(5) [OF W(5), of u h] np [of u h] R by auto
    qed
    then show ?thesis using W(5) p(1,2,5) R(1) not_idle_finite [of "bpc s" t p] unfolding threads_ok_def by (auto simp: s'(1,3,4,7))
  qed
  ultimately show ?thesis unfolding wait_inv_def by blast
qed

text \<open>The notification itself.\<close>

lemma wait_notify:
  assumes w: "wait_inv s L" and x: "notifies (bpc s t) = Some x" "\<not> installed (bpc s t)" "bpend s t = None"
    and p: "\<not> installed p" "notifies p = None" "pend_ok p False"
  shows "wait_inv (bnotify t x p s) L"
proof -
  let ?s = "bnotify t x p s"
  note W = wait_invD [OF w]
  have f: "wnext ?s = wnext s" "bpend ?s = bpend s" "bpendlast ?s = bpendlast s" "bq_head ?s = bq_head s" "bnext ?s = bnext s" "bhead ?s = bhead s"
    "bpc ?s = (bpc s)(t := p)" "permits ?s = (permits s)(x := permits s x + 1)" by (simp_all add: bnotify_def bhead_def)
  have P: "one_owner notifies (bpc s)" "\<And>u. permits s u \<le> 1" "\<And>u. permits s u = 1 \<Longrightarrow> installed (bpc s u) \<and> u \<notin> owned notifies (bpc s)"
    "\<And>u. u \<in> owned notifies (bpc s) \<Longrightarrow> installed (bpc s u)" using W(4) by (auto simp: permits_ok_def)
  have ox: "x \<in> owned notifies (bpc s)" using x(1) unfolding owned_def by blast
  then have x0: "permits s x = 0" "installed (bpc s x)" "x \<noteq> t" using P(2,3) [of x] P(4) [of x] x(2) by (auto simp: le_Suc_eq)
  have o: "owned notifies ((bpc s)(t := p)) = owned notifies (bpc s) - {x}" using owned_remove [OF P(1) x(1) p(2)] .
  have "queued ?s u = queued s u" for u using x(2) p(1) ox unfolding queued_def f o by auto
  then have q: "queued ?s = queued s" by (rule ext)
  have "root_ptr ?s r = root_ptr s r" for r using q by (cases r) (auto simp: f)
  then have "root_ptr ?s = root_ptr s" by (rule ext)
  then have "lists_ok ?s L" using W(1,2,3) q by (simp add: lists_ok_def f)
  moreover have "permits_ok ?s" unfolding permits_ok_def f o using P x0 x(2) p(1,2) one_owner_upd [of notifies p "bpc s" t] by auto
  moreover have "threads_ok ?s L"
    using W(5) x(2,3) p(1,3) not_idle_finite [of "bpc s" t p] unfolding threads_ok_def f q by auto
  ultimately show ?thesis by (simp add: wait_inv_def)
qed

text \<open>A thread that installs itself at the locked head.\<close>

lemma wait_install:
  assumes w: "wait_inv s L" and t: "bpc s t = PopInstall" "bq_head s = BNull"
  shows "\<exists>L'. wait_inv (bput t PopWaitHead (s\<lparr>bq_head := BWaiter t\<rparr>)) L'"
proof -
  let ?s = "bput t PopWaitHead (s\<lparr>bq_head := BWaiter t\<rparr>)" let ?L = "L(RHead := t # L RHead)"
  note W = wait_invD [OF w]
  have f: "wnext ?s = wnext s" "bpend ?s = bpend s" "bpendlast ?s = bpendlast s" "bq_head ?s = BWaiter t" "bnext ?s = bnext s" "bhead ?s = bhead s"
    "bpc ?s = (bpc s)(t := PopWaitHead)" "permits ?s = permits s" by (simp_all add: bhead_def)
  have o: "owned notifies ((bpc s)(t := PopWaitHead)) = owned notifies (bpc s)" using t(1) by (simp add: owned_same)
  have nt: "permits s t = 0" "t \<notin> owned notifies (bpc s)" "wnext s t = None"
    using W(4) threads_okD(2) [OF W(5), of t] t(1) unfolding permits_ok_def by (auto simp: le_Suc_eq)
  have q: "queued ?s u \<longleftrightarrow> queued s u \<or> u = t" for u using t(1) nt unfolding queued_def f o by auto
  have tn: "t \<notin> set (L r)" for r using W(6) [of t r] t(1) by (simp add: queued_def)
  have h: "root_ptr s RHead = None" using t(2) by simp
  have "root_ptr ?s r = ((root_ptr s)(RHead := Some t)) r" for r using q nt(3) by (cases r) (auto simp: f bhead_def)
  then have r: "root_ptr ?s = (root_ptr s)(RHead := Some t)" by (rule ext)
  have "(wnext s)(t := root_ptr s RHead) = wnext s" using nt(3) h by (simp add: fun_upd_idem)
  then have "shape (wnext ?s) (root_ptr ?s) ?L" using shape_cons [OF W(1) tn, where r = RHead] unfolding r f by simp
  moreover have "queued ?s u \<longleftrightarrow> (\<exists>r. u \<in> set (?L r))" for u
    using q W(2) [of u] by (metis fun_upd_apply list.set_intros(1,2) set_ConsD)
  moreover have "served ?L = served L" by (simp add: served_def)
  ultimately have "lists_ok ?s ?L" using W(3) by (simp add: lists_ok_def)
  moreover have "permits_ok ?s" using W(4) one_owner_upd [of notifies PopWaitHead "bpc s" t] unfolding permits_ok_def f o by auto
  moreover have "threads_ok ?s ?L"
  proof -
    have "bnext s (bhead s) = BWaiter u" if "((bpc s)(t := PopWaitHead)) u = PopWaiting h" "queued ?s u" for u h
      using threads_okD(5) [OF W(5), of u h] that q t(1) by (auto split: if_splits)
    then show ?thesis using W(5) not_idle_finite [of "bpc s" t PopWaitHead] unfolding threads_ok_def f by auto
  qed
  ultimately show ?thesis unfolding wait_inv_def by blast
qed

text \<open>A thread that installs itself, with its pending list, at the \<open>next\<close> word of the head.\<close>

lemma enqueue_shape:
  assumes "shape nx ptr L" "r \<noteq> q" "\<And>e. t \<notin> set (L e)"
  shows "shape (case ptr r of Some x \<Rightarrow> nx(t := Some x, last (L r) := ptr q) | None \<Rightarrow> nx(t := ptr q))
    (ptr(r := None, q := Some t)) (L(r := [], q := t # L r @ L q))"
proof (cases "L r = []")
  case True
  then have "ptr r = None" using shapeD(4) [OF assms(1)] by simp
  moreover have "ptr(r := None) = ptr" "L(r := []) = L" using True calculation by (simp_all add: fun_upd_idem)
  ultimately show ?thesis using shape_cons [OF assms(1,3), of q] True by simp
next
  case False
  then obtain x where x: "ptr r = Some x" using shapeD(4) [OF assms(1), of r] by auto
  have "last (L r) \<noteq> t" using assms(3) [of r] last_in_set [OF False] by auto
  then have n: "nx(t := Some x, last (L r) := ptr q) = (nx(last (L r) := ptr q))(t := Some x)" by (simp add: fun_upd_twist)
  have "t \<notin> set ((L(r := [], q := [], q := L r @ L q)) e)" for e using assms(3) by simp
  from shape_cons [OF shape_join [OF assms(1,2) False, of q], OF _ this, of q]
  have "shape ((nx(last (L r) := ptr q))(t := Some x)) (ptr(r := None, q := Some t)) (L(r := [], q := t # L r @ L q))" using x by simp
  then show ?thesis using x n by simp
qed

lemma wait_enqueue:
  assumes w: "wait_inv s L" and t: "bpc s t = PopEnqueue h nv" and np: "\<And>u h. bpc s u \<noteq> PopWaiting h"
    and s': "wnext s' = (case bpend s t of Some x \<Rightarrow> (wnext s)(t := Some x, last (L (RPend t)) := decode_waiter (bnext s (bhead s)))
        | None \<Rightarrow> (wnext s)(t := decode_waiter (bnext s (bhead s))))" "permits s' = permits s"
      "bpend s' = (bpend s)(t := None)" "bpendlast s' = bpendlast s" "bq_head s' = bq_head s" "bnext s' (bhead s') = BWaiter t"
      "bpc s' = (bpc s)(t := PopWaiting h)"
  shows "\<exists>L'. wait_inv s' L'"
proof -
  let ?L = "L(RPend t := [], RNext := t # L (RPend t) @ L RNext)"
  note W = wait_invD [OF w]
  have o: "owned notifies (bpc s') = owned notifies (bpc s)" unfolding s'(7) using t by (simp add: owned_same)
  have nt: "permits s t = 0" "t \<notin> owned notifies (bpc s)" "wnext s t = None"
    using W(4) threads_okD(2) [OF W(5), of t] t unfolding permits_ok_def by (auto simp: le_Suc_eq)
  have q: "queued s' u \<longleftrightarrow> queued s u \<or> u = t" for u using t nt unfolding queued_def o by (auto simp: s'(2,7))
  have tn: "t \<notin> set (L r)" for r using W(6) [of t r] t by (simp add: queued_def)
  have ql: "queued s (last (L (RPend t)))" if "bpend s t \<noteq> None"
  proof -
    have "last (L (RPend t)) \<in> set (L (RPend t))" using that shapeD(4) [OF W(1), of "RPend t"] by auto
    then show ?thesis using W(2) by blast
  qed
  have ws: "wnext s' u = wnext s u" if "\<not> queued s u" "u \<noteq> t" for u
    using that ql by (auto simp: s'(1) split: option.splits)
  have "root_ptr s' r = ((root_ptr s)(RPend t := None, RNext := Some t)) r" for r
    using q nt(3) ws by (cases r) (auto simp: s'(3,5,6))
  then have r: "root_ptr s' = (root_ptr s)(RPend t := None, RNext := Some t)" by (rule ext)
  have "shape (wnext s') (root_ptr s') ?L"
    using enqueue_shape [OF W(1), of "RPend t" RNext t] tn unfolding r s'(1) root_ptr.simps by simp
  moreover have "queued s' u \<longleftrightarrow> (\<exists>r. u \<in> set (?L r))" for u
  proof -
    have "(\<exists>r. u \<in> set (?L r)) \<longleftrightarrow> u = t \<or> (\<exists>r. u \<in> set ((L(RPend t := [], RNext := L (RPend t) @ L RNext)) r))"
      by (auto split: if_splits)
    also have "(\<exists>r. u \<in> set ((L(RPend t := [], RNext := L (RPend t) @ L RNext)) r)) \<longleftrightarrow> (\<exists>r. u \<in> set (L r))"
      by (rule members_join) auto
    finally show ?thesis using q [of u] W(2) [of u] by blast
  qed
  moreover have "served ?L \<subseteq> served L" by (auto simp: served_def split: if_splits)
  then have "acyclic (served ?L)" using W(3) acyclic_subset by blast
  ultimately have "lists_ok s' ?L" by (simp add: lists_ok_def)
  moreover have "permits_ok s'" using W(4) o one_owner_upd [of notifies "PopWaiting h" "bpc s" t]
    by (auto simp: permits_ok_def s'(2,7))
  moreover have "threads_ok s' ?L"
  proof -
    have "bnext s' (bhead s') = BWaiter u" if "bpc s' u = PopWaiting k" for u k using that np by (auto simp: s'(6,7) split: if_splits)
    moreover have "installed (bpc s' u) \<or> wnext s' u = None" for u
      using threads_okD(2) [OF W(5), of u] ws [of u] by (cases "queued s u") (auto simp: s'(7) queued_def)
    ultimately show ?thesis using W(5) not_idle_finite [of "bpc s" t "PopWaiting h"] unfolding threads_ok_def by (auto simp: s'(3,4,7))
  qed
  ultimately show ?thesis unfolding wait_inv_def by blast
qed

text \<open>A thread that was notified collects the waiters behind it.\<close>

lemma wait_woken:
  assumes w: "wait_inv s L" and t: "installed (bpc s t)" "permits s t = 1" and sh: "shape nx ptr L'"
    and ptr: "ptr = (root_ptr s)(RTail t := None, RPend t := bpend s' t)"
    and L': "L' = L(RTail t := [], RPend t := xs)" "set xs = set (L (RTail t)) \<union> set (L (RPend t))"
    and nx: "\<And>u. \<not> queued s u \<Longrightarrow> nx u = wnext s u"
    and s': "wnext s' = nx(t := None)" "permits s' = (permits s)(t := 0)" "\<And>u. u \<noteq> t \<Longrightarrow> bpend s' u = bpend s u"
      "\<And>u. u \<noteq> t \<Longrightarrow> bpendlast s' u = bpendlast s u" "bpend s' t = None \<or> bpendlast s' t = Some (last xs)"
      "bq_head s' = bq_head s" "bnext s' = bnext s" "bhead s' = bhead s" "bpc s' = (bpc s)(t := PopStart)"
  shows "wait_inv s' L'"
proof -
  note W = wait_invD [OF w]
  have o: "owned notifies (bpc s') = owned notifies (bpc s)" unfolding s'(9) using t(1) by (intro owned_same) (cases "bpc s t"; simp)
  have q: "queued s' u = queued s u" for u using t unfolding queued_def o by (auto simp: s'(2,9))
  then have "queued s' = queued s" by (rule ext)
  have nq: "\<not> queued s t" using t(2) by (simp add: queued_def)
  have "root_ptr s' r = ptr r" for r using q nx s' nq unfolding ptr by (cases r) auto
  then have r: "root_ptr s' = ptr" by (rule ext)
  have m: "(\<exists>r. u \<in> set (L' r)) \<longleftrightarrow> (\<exists>r. u \<in> set (L r))" for u unfolding L'(1) by (rule members_join) (use L'(2) in auto)
  have "t \<notin> set (L' r)" for r using m [of t] W(2) [of t] nq by blast
  then have "shape (wnext s') (root_ptr s') L'" unfolding r s'(1) by (rule shape_write [OF sh])
  moreover have "served L' = served L" using L'(2) unfolding L'(1) by (auto simp: served_def split: if_splits)
  ultimately have "lists_ok s' L'" using W(2,3) q m by (simp add: lists_ok_def)
  moreover have "permits_ok s'" using W(4) t(2) o one_owner_upd [of notifies PopStart "bpc s" t] by (auto simp: permits_ok_def s'(2,9))
  moreover have "threads_ok s' L'"
  proof -
    have T: "installed (bpc s u) \<or> wnext s u = None" "pend_ok (bpc s u) (bpend s u \<noteq> None)" "bpend s u = None \<or> bpendlast s u = Some (last (L (RPend u)))"
      "\<And>h. bpc s u = PopWaiting h \<Longrightarrow> queued s u \<Longrightarrow> bnext s (bhead s) = BWaiter u" for u using W(5) by (auto simp: threads_ok_def)
    have "installed (bpc s' u) \<or> wnext s' u = None" for u using T(1) [of u] nx [of u] by (cases "queued s u") (auto simp: s'(1,9) queued_def)
    moreover have "bpend s' u = None \<or> bpendlast s' u = Some (last (L' (RPend u)))" for u
      using T(3) [of u] s'(3,4) [of u] s'(5) unfolding L'(1) by (cases "u = t") auto
    ultimately show ?thesis using T(2,4) W(5) q not_idle_finite [of "bpc s" t PopStart] s'(3) unfolding threads_ok_def by (auto simp: s'(7,8,9))
  qed
  ultimately show ?thesis by (simp add: wait_inv_def)
qed

section \<open>Every step keeps the invariant\<close>

lemma bq_quiet:
  assumes "bq_inv s" "core_inv s'" "bfailed s' = bfailed s" "wnext s' = wnext s" "permits s' = permits s" "bpend s' = bpend s"
    "\<And>u. bpendlast s' u = bpendlast s u \<or> bpend s u = None"
    "decode_waiter (bq_head s') = decode_waiter (bq_head s)" "decode_waiter (bnext s' (bhead s')) = decode_waiter (bnext s (bhead s))"
    "bpc s' = (bpc s)(t := p)" "installed p = installed (bpc s t)" "\<And>h. p \<noteq> PopWaiting h" "notifies p = None" "notifies (bpc s t) = None"
    "pend_ok p (bpend s t \<noteq> None)"
  shows "bq_inv s'"
proof -
  obtain L where "wait_inv s L" using assms(1) by (auto simp: bq_inv_def)
  then have "wait_inv s' L" by (rule wait_quiet [where t = t and p = p]) (use assms in auto)
  then show ?thesis using assms(1-3) by (auto simp: bq_inv_def)
qed

text \<open>The common case: only the program counter changes.\<close>

lemma bq_move:
  assumes "bq_inv s" "held p = held (bpc s t)" "frees p = frees (bpc s t)" "pushes p = pushes (bpc s t)" "held p \<noteq> None \<Longrightarrow> knows p (bnext s (bhead s))"
    "installed p = installed (bpc s t)" "\<And>h. p \<noteq> PopWaiting h" "notifies p = None" "notifies (bpc s t) = None" "pend_ok p (bpend s t \<noteq> None)"
  shows "bq_inv (bput t p s)"
proof -
  have "core_inv (bput t p s)" using core_pc [OF _ assms(2-5)] assms(1) by (simp add: bq_inv_def)
  then show ?thesis by (rule bq_quiet [OF assms(1), where t = t and p = p]) (use assms(6-10) in simp_all)
qed

lemma bload_alive [simp]: "a \<in> bnodes s \<Longrightarrow> bload a k s = k (bnext s a)"
  by (simp add: bload_def)

lemma bq_invD:
  assumes "bq_inv s"
  shows "core_inv s" "\<not> bfailed s" "held (bpc s t) = Some h \<Longrightarrow> h = bhead s \<and> h \<in> bnodes s \<and> \<not> is_node (bq_head s) \<and> knows (bpc s t) (bnext s h)"
    "pend_ok (bpc s t) (bpend s t \<noteq> None)" "installed (bpc s t) \<or> wnext s t = None"
    "held (bpc s t) \<noteq> None \<Longrightarrow> held (bpc s u) \<noteq> None \<Longrightarrow> t = u"
proof -
  show c: "core_inv s" "\<not> bfailed s" using assms by (auto simp: bq_inv_def)
  show "h = bhead s \<and> h \<in> bnodes s \<and> \<not> is_node (bq_head s) \<and> knows (bpc s t) (bnext s h)" if "held (bpc s t) = Some h"
    using held_knows [of s t h] core_invD(4) [OF c(1)] c(1) that by (auto simp: core_inv_def)
  show "held (bpc s t) \<noteq> None \<Longrightarrow> held (bpc s u) \<noteq> None \<Longrightarrow> t = u"
    using held_knows(3) [of s t _ u] c(1) by (cases "u = t") (auto simp: core_inv_def)
  obtain L where "wait_inv s L" using assms by (auto simp: bq_inv_def)
  then have "threads_ok s L" by (rule wait_invD(5))
  then show "pend_ok (bpc s t) (bpend s t \<noteq> None)" "installed (bpc s t) \<or> wnext s t = None"
    by (rule threads_okD(3), rule threads_okD(2))
qed

lemma step_push: "bq_inv s \<Longrightarrow> bpc s t = BIdle \<Longrightarrow> n \<notin> bnodes s \<Longrightarrow> bq_inv (push_begin t n x s)"
proof (rule bq_quiet [where t = t and p = "PushLink (bq_tail s) n"])
  assume a: "bq_inv s" "bpc s t = BIdle" "n \<notin> bnodes s"
  note D = core_invD [OF bq_invD(1) [OF a(1)]]
  show "core_inv (push_begin t n x s)" using core_push [OF bq_invD(1) [OF a(1)] a(2,3)] .
  have "bhead (push_begin t n x s) = bhead s" "n \<noteq> bhead s" using D a(3) by (auto simp: push_begin_def bhead_def)
  then show "decode_waiter (bnext (push_begin t n x s) (bhead (push_begin t n x s))) = decode_waiter (bnext s (bhead s))"
    by (simp add: push_begin_def)
  show "pend_ok (PushLink (bq_tail s) n) (bpend s t \<noteq> None)" using bq_invD(4) [OF a(1), of t] a(2) by simp
qed (simp_all add: push_begin_def)

lemma step_link:
  assumes "bq_inv s" "bpc s t = PushLink a b"
  shows "bq_inv (push_link t a b s)"
proof -
  note c = bq_invD(1) [OF assms(1)]
  note w = pushing_word [OF c assms(2)]
  have pn: "bpend s t = None" using bq_invD(4) [OF assms(1), of t] assms(2) by simp
  show ?thesis
  proof (cases "bnext s a")
    case BNull
    have "core_inv (bput t BIdle (s\<lparr>bnext := (bnext s)(a := BNode b)\<rparr>))" using core_link [OF c assms(2)] by simp
    then have "bq_inv (bput t BIdle (s\<lparr>bnext := (bnext s)(a := BNode b)\<rparr>))"
      by (rule bq_quiet [OF assms(1), where t = t and p = BIdle]) (use assms(2) pn BNull in \<open>auto simp: bhead_def\<close>)
    then show ?thesis using w(2) BNull by (simp add: push_link_def)
  next
    case (BWaiter x)
    let ?s = "bput t (PushNotify x) (s\<lparr>bnext := (bnext s)(a := BNode b)\<rparr>)"
    obtain L where L: "wait_inv s L" using assms(1) by (auto simp: bq_inv_def)
    have a: "a = bhead s" using w(4) BWaiter by simp
    have "core_inv ?s" using core_link [OF c assms(2)] by simp
    moreover have "\<exists>L'. wait_inv ?s L'"
      by (rule wait_choose [OF L, where R = RNext and x = x and t = t and p = "PushNotify x"])
         (use assms(2) pn BWaiter a in \<open>auto simp: bhead_def fun_upd_idem\<close>)
    ultimately show ?thesis using w(2) BWaiter bq_invD(2) [OF assms(1)] by (simp add: push_link_def bq_inv_def)
  next
    case (BNode n)
    then show ?thesis using w(3) by simp
  qed
qed

lemma step_notify:
  assumes "bq_inv s" "notifies (bpc s t) = Some x" "held p = held (bpc s t)" "frees p = frees (bpc s t)" "pushes p = None" "held p = None"
    "\<not> installed p" "notifies p = None" "pend_ok p False" "\<not> pend_ok (bpc s t) True"
  shows "bq_inv (bnotify t x p s)"
proof -
  obtain L where L: "wait_inv s L" using assms(1) by (auto simp: bq_inv_def)
  have i: "\<not> installed (bpc s t)" "pushes p = pushes (bpc s t)" using assms(2,5) by (cases "bpc s t"; simp)+
  have pn: "bpend s t = None" using bq_invD(4) [OF assms(1), of t] assms(10) by (cases "bpend s t") auto
  have "core_inv (bput t p s)" using core_pc [OF bq_invD(1) [OF assms(1)] assms(3,4) i(2)] assms(6) by simp
  then have "core_inv (bnotify t x p s)" using core_cong [of "bnotify t x p s" "bput t p s"] by (simp add: same_core_def bnotify_def)
  moreover have "wait_inv (bnotify t x p s) L" using wait_notify [OF L assms(2) i(1) pn assms(7,8,9)] .
  ultimately show ?thesis using bq_invD(2) [OF assms(1)] by (auto simp: bq_inv_def bnotify_def)
qed

lemma step_start:
  assumes "bq_inv s" "bpc s t = BIdle" "p = PopStart \<or> p = TryHead v"
  shows "bq_inv (pop_start t p s)"
proof -
  have pn: "bpend s t = None" using bq_invD(4) [OF assms(1), of t] assms(2) by simp
  have "core_inv (bput t p s)" using assms bq_invD(1) [OF assms(1)] by (intro core_pc) auto
  then have c: "core_inv (pop_start t p s)" using core_cong [of "pop_start t p s" "bput t p s"] by (simp add: same_core_def pop_start_def)
  show ?thesis
    by (rule bq_quiet [OF assms(1) c, where t = t and p = p]) (use assms pn in \<open>auto simp: pop_start_def bhead_def fun_upd_idem\<close>)
qed

lemma step_reload: "bq_inv s \<Longrightarrow> bpc s t = PopStart \<or> bpc s t = PopHead v \<Longrightarrow> bq_inv (pop_reload t s)"
  unfolding pop_reload_def by (rule bq_move) auto

text \<open>A thread that is not installed is in no list.\<close>

lemma collect_free:
  assumes "bq_inv s" "bq_head s = BWaiter f" "core_inv (bput t p (s\<lparr>bq_head := BNull\<rparr>))" "\<not> installed p" "\<not> installed (bpc s t)"
    "notifies p = None" "notifies (bpc s t) = None" "pend_ok p True"
  shows "bq_inv (bput t p (add_front t f (s\<lparr>bq_head := BNull\<rparr>)))"
proof -
  obtain L where L: "wait_inv s L" using assms(1) by (auto simp: bq_inv_def)
  have n: "t \<notin> set (L r)" for r using wait_invD(6) [OF L, of t r] assms(5) by (simp add: queued_def)
  have a: "add_front t f (s\<lparr>bq_head := BNull\<rparr>) = s\<lparr>bq_head := BNull, wnext := (wnext s)(last (L RHead) := bpend s t),
      bpend := (bpend s)(t := Some f), bpendlast := (bpendlast s)(t := Some (last (L RHead @ L (RPend t))))\<rparr>"
    using add_front_list [of "s\<lparr>bq_head := BNull\<rparr>" f "L RHead" t "L (RPend t)"] shapeD(1) [OF wait_invD(1) [OF L], of RHead]
      assms(2) pend_facts [OF L, of t] by simp
  have "\<exists>L'. wait_inv (bput t p (add_front t f (s\<lparr>bq_head := BNull\<rparr>))) L'"
    by (rule wait_collect [OF L assms(2)]) (use n assms in auto)
  moreover have "core_inv (bput t p (add_front t f (s\<lparr>bq_head := BNull\<rparr>)))"
    using assms(3) core_cong [of "bput t p (add_front t f (s\<lparr>bq_head := BNull\<rparr>))" "bput t p (s\<lparr>bq_head := BNull\<rparr>)"]
    by (simp add: same_core_def a)
  ultimately show ?thesis using bq_invD(2) [OF assms(1)] by (simp add: bq_inv_def a)
qed

lemma step_lock:
  assumes "bq_inv s" "bpc s t = PopHead v"
  shows "bq_inv (pop_lock t v s)"
proof -
  note c = bq_invD(1) [OF assms(1)]
  let ?s = "s\<lparr>bq_head := BNull\<rparr>"
  have i: "bq_inv (bput t PopInstall s)" by (rule bq_move [OF assms(1)]) (use assms(2) in auto)
  moreover have "bq_inv (bput t PopInstall ?s)" if "bq_head s = BNull"
  proof -
    have "?s = s" using that by simp
    then show ?thesis using i by metis
  qed
  moreover have "bq_inv (bput t (PopNext h) ?s)" if "bq_head s = BNode h" for h
  proof -
    have "core_inv (bput t (PopNext h) ?s)" by (rule core_lock [OF c that]) (use assms(2) in auto)
    then show ?thesis by (rule bq_quiet [OF assms(1), where t = t and p = "PopNext h"]) (use assms(2) that in \<open>auto simp: bhead_def\<close>)
  qed
  moreover have "bq_inv (bput t PopInstall (add_front t f ?s))" if "bq_head s = BWaiter f" for f
  proof (rule collect_free [OF assms(1) that])
    show "core_inv (bput t PopInstall ?s)" by (rule core_pc [OF core_head [OF c]]) (use assms(2) that in auto)
  qed (use assms(2) in auto)
  ultimately show ?thesis by (auto simp: pop_lock_def Let_def split: bword.splits)
qed

lemma step_install:
  assumes "bq_inv s" "bpc s t = PopInstall"
  shows "bq_inv (pop_install t s)"
proof (cases "bq_head s = BNull")
  case True
  obtain L where L: "wait_inv s L" using assms(1) by (auto simp: bq_inv_def)
  note c = bq_invD(1) [OF assms(1)]
  have "core_inv (bput t PopWaitHead (s\<lparr>bq_head := BWaiter t\<rparr>))"
    by (rule core_pc [OF core_head [OF c]]) (use assms(2) True in auto)
  then show ?thesis using wait_install [OF L assms(2) True] True bq_invD(2) [OF assms(1)] by (simp add: pop_install_def bq_inv_def)
next
  case False
  have "bq_inv (bput t (PopHead (bq_head s)) s)" by (rule bq_move [OF assms(1)]) (use assms(2) in auto)
  then show ?thesis using False by (simp add: pop_install_def)
qed

lemma step_load:
  assumes "bq_inv s" "bpc s t = PopNext h"
  shows "bq_inv (pop_load t h s)"
proof -
  have h: "h = bhead s" "h \<in> bnodes s" using bq_invD(3) [OF assms(1), of t h] assms(2) by auto
  have "bq_inv (bput t (pop_next_pc h (bnext s h)) s)"
    by (rule bq_move [OF assms(1)]) (use assms(2) h in \<open>auto simp: pop_next_pc_def split: bword.splits\<close>)
  then show ?thesis using h by (simp add: pop_load_def)
qed

lemma step_take:
  assumes "bq_inv s" "bpc s t = PopTake h n"
  shows "bq_inv (pop_take t h n s)"
proof -
  let ?s = "bput t (UTaken h n) (s\<lparr>bchain := tl (bchain s), bpopped := bpopped s @ [bitem s n]\<rparr>)"
  note c = bq_invD(1) [OF assms(1)]
  note k = core_take [OF c assms(2)]
  have h: "h = bhead s" "bnext s h = BNode n" using bq_invD(3) [OF assms(1), of t h] assms(2) by auto
  obtain ns where ns: "bchain s = h # n # ns" using chain_next [OF c] h by auto
  have "bhead ?s = n" using ns by (simp add: bhead_def)
  moreover have "\<not> is_waiter (bnext s n)" using c ns by (simp add: core_inv_def chain_ok_def)
  ultimately have d: "decode_waiter (bnext ?s (bhead ?s)) = decode_waiter (bnext s (bhead s))"
    using h by (cases "bnext s n") auto
  have "bq_inv ?s" by (rule bq_quiet [OF assms(1) k(1), where t = t and p = "UTaken h n"]) (use assms(2) d in simp_all)
  then show ?thesis using k(2) by (simp add: pop_take_def)
qed

lemma step_free:
  assumes "bq_inv s" "bpc s t = UFree h"
  shows "bq_inv (bfree t h s)"
proof -
  note k = core_free [OF bq_invD(1) [OF assms(1)] assms(2)]
  have pn: "bpend s t = None" using bq_invD(4) [OF assms(1), of t] assms(2) by simp
  have "bq_inv (bput t BIdle (s\<lparr>bnodes := bnodes s - {h}\<rparr>))"
    by (rule bq_quiet [OF assms(1) k(2), where t = t and p = BIdle]) (use assms(2) pn in \<open>simp_all add: bhead_def\<close>)
  then show ?thesis using k(1) by (simp add: bfree_def)
qed

text \<open>Linking the last pending waiter to nothing changes nothing.\<close>

lemma link_last_None:
  assumes "bq_inv s" "bpend s t \<noteq> None"
  shows "link_last t None s = s"
proof -
  obtain L where L: "wait_inv s L" using assms(1) by (auto simp: bq_inv_def)
  have l: "bpendlast s t = Some (last (L (RPend t)))" "L (RPend t) \<noteq> []" using pend_facts [OF L, of t] assms(2) by auto
  have "wnext s (last (L (RPend t))) = None" using path_last [OF shapeD(1) [OF wait_invD(1) [OF L]] l(2)] .
  then show ?thesis using l(1) by (simp add: link_last_def fun_upd_idem)
qed

lemma no_other_waiting:
  assumes "bq_inv s" "held (bpc s t) \<noteq> None" "\<And>h. bpc s t \<noteq> PopWaiting h"
  shows "bpc s u \<noteq> PopWaiting h"
  using bq_invD(6) [OF assms(1,2), of u] assms(3) [of h] by (cases "u = t") auto

lemma step_enqueue:
  assumes "bq_inv s" "bpc s t = PopEnqueue h v"
  shows "bq_inv (pop_enqueue t h v s)"
proof -
  note c = bq_invD(1) [OF assms(1)]
  have h: "h = bhead s" "h \<in> bnodes s" "\<not> is_node v" "bnext s h = v \<or> is_node (bnext s h)"
    using bq_invD(3) [OF assms(1), of t h] assms(2) by auto
  have wt: "wnext s t = None" using bq_invD(5) [OF assms(1), of t] assms(2) by simp
  obtain L where L: "wait_inv s L" using assms(1) by (auto simp: bq_inv_def)
  note pf = pend_facts [OF L, of t]
  have lt: "last (L (RPend t)) \<noteq> t" if "bpend s t \<noteq> None"
  proof -
    have "last (L (RPend t)) \<in> set (L (RPend t))" using that pf(1) by auto
    moreover have "t \<notin> set (L (RPend t))" using wait_invD(6) [OF L, of t "RPend t"] assms(2) by (simp add: queued_def)
    ultimately show ?thesis by metis
  qed
  show ?thesis
  proof (cases "bnext s h = v")
    case True
    let ?s = "bput t (PopWaiting h) (s\<lparr>wnext := (case bpend s t of Some x \<Rightarrow> (wnext s)(t := Some x, last (L (RPend t)) := decode_waiter v)
        | None \<Rightarrow> (wnext s)(t := decode_waiter v)), bnext := (bnext s)(h := BWaiter t), bpend := (bpend s)(t := None)\<rparr>)"
    have "core_inv (bput t (PopWaiting h) (s\<lparr>bnext := (bnext s)(h := BWaiter t)\<rparr>))"
      by (rule core_install [OF c]) (use assms(2) h True in auto)
    then have "core_inv ?s" by (subst core_cong [of _ "bput t (PopWaiting h) (s\<lparr>bnext := (bnext s)(h := BWaiter t)\<rparr>)"]) (simp_all add: same_core_def)
    moreover have "\<exists>L'. wait_inv ?s L'"
      by (rule wait_enqueue [OF L assms(2)]) (use no_other_waiting [OF assms(1), of t] assms(2) h(1) True in \<open>auto simp: bhead_def split: option.splits\<close>)
    moreover have "pop_enqueue t h v s = ?s"
      using True h(2) pf(2) by (cases "bpend s t") (auto simp: pop_enqueue_def Let_def link_last_def)
    ultimately show ?thesis using bq_invD(2) [OF assms(1)] by (simp add: bq_inv_def)
  next
    case False
    then have n: "is_node (bnext s h)" using h(4) by simp
    have "bq_inv (bput t (pop_next_pc h (bnext s h)) s)"
      by (rule bq_move [OF assms(1)]) (use assms(2) h(1) n in \<open>auto simp: pop_next_pc_def split: bword.splits\<close>)
    moreover have "pop_enqueue t h v s = bput t (pop_next_pc h (bnext s h)) s"
    proof (cases "bpend s t")
      case None
      then show ?thesis using False n h(2) wt by (simp add: pop_enqueue_def Let_def fun_upd_idem)
    next
      case (Some x)
      then have "wnext s (last (L (RPend t))) = None" using pf(1) path_last [OF shapeD(1) [OF wait_invD(1) [OF L], of "RPend t"]] by simp
      then have "(wnext s)(t := None, last (L (RPend t)) := None) = wnext s" using wt by (simp add: fun_upd_idem)
      then show ?thesis using False n h(2) Some pf(2) lt by (simp add: pop_enqueue_def Let_def link_last_def fun_upd_twist)
    qed
    ultimately show ?thesis by simp
  qed
qed

lemma step_unlock_waiting:
  assumes "bq_inv s" "bpc s t = PopWaiting h"
  shows "bq_inv (unlock_waiting t h s)"
proof -
  note c = bq_invD(1) [OF assms(1)]
  have nd: "\<not> is_node (bq_head s)" using bq_invD(3) [OF assms(1), of t h] assms(2) by auto
  have pn: "bpend s t = None" using bq_invD(4) [OF assms(1), of t] assms(2) by simp
  obtain L where L: "wait_inv s L" using assms(1) by (auto simp: bq_inv_def)
  note W = wait_invD [OF L]
  have k: "core_inv (bput t PopWaitNext (s\<lparr>bq_head := BNode h\<rparr>))" by (rule core_unlock [OF c]) (use assms(2) in auto)
  show ?thesis
  proof (cases "bq_head s")
    case BNull
    let ?s = "bput t PopWaitNext (s\<lparr>bq_head := BNode h, bpend := (bpend s)(t := None), bpendlast := (bpendlast s)(t := None)\<rparr>)"
    have "core_inv ?s" using k by (subst core_cong [of _ "bput t PopWaitNext (s\<lparr>bq_head := BNode h\<rparr>)"]) (simp_all add: same_core_def)
    then have "bq_inv ?s" by (rule bq_quiet [OF assms(1), where t = t and p = PopWaitNext])
        (use assms(2) pn BNull in \<open>auto simp: bhead_def fun_upd_idem\<close>)
    then show ?thesis using BNull by (simp add: unlock_waiting_def)
  next
    case (BWaiter f)
    have s0: "s\<lparr>bpend := (bpend s)(t := None)\<rparr> = s" using pn by (simp add: fun_upd_idem)
    have "t \<in> set (L RNext) \<or> \<not> queued s t"
      using threads_okD(5) [OF W(5) assms(2)] shapeD(5) [OF W(1), of RNext t] hd_in_set [of "L RNext"] by auto
    then have n: "r \<noteq> RNext \<Longrightarrow> t \<notin> set (L r)" for r using shapeD(3) [OF W(1), of RNext r t] W(6) by auto
    let ?s = "bput t PopWaitNext (add_front t f (s\<lparr>bq_head := BNode h\<rparr>))"
    have a: "add_front t f (s\<lparr>bq_head := BNode h\<rparr>) = s\<lparr>bq_head := BNode h, wnext := (wnext s)(last (L RHead) := bpend s t),
        bpend := (bpend s)(t := Some f), bpendlast := (bpendlast s)(t := Some (last (L RHead @ L (RPend t))))\<rparr>"
      using add_front_list [of "s\<lparr>bq_head := BNode h\<rparr>" f "L RHead" t "L (RPend t)"] shapeD(1) [OF W(1), of RHead] BWaiter pend_facts [OF L, of t]
      by simp
    have "core_inv ?s" using k by (subst core_cong [of _ "bput t PopWaitNext (s\<lparr>bq_head := BNode h\<rparr>)"]) (simp_all add: same_core_def a)
    moreover have "\<exists>L'. wait_inv ?s L'" by (rule wait_collect [OF L BWaiter]) (use assms(2) n in auto)
    moreover have "unlock_waiting t h s = ?s" using BWaiter s0 by (simp add: unlock_waiting_def Let_def pn fun_upd_idem)
    ultimately show ?thesis using bq_invD(2) [OF assms(1)] by (simp add: bq_inv_def a)
  qed (use nd in simp)
qed

lemma step_taken:
  assumes "bq_inv s" "bpc s t = UTaken h n"
  shows "bq_inv (taken_turn t h n s)"
proof -
  note c = bq_invD(1) [OF assms(1)]
  have n: "n = bhead s" "n \<in> bnodes s" using bq_invD(3) [OF assms(1), of t n] assms(2) by auto
  show ?thesis
  proof (cases "bpend s t")
    case None
    have "bq_inv (bput t (UFree h) (s\<lparr>bq_head := BNode n\<rparr>))" if "bq_head s = BNull"
    proof -
      have "core_inv (bput t (UFree h) (s\<lparr>bq_head := BNode n\<rparr>))" by (rule core_unlock [OF c]) (use assms(2) in auto)
      then show ?thesis by (rule bq_quiet [OF assms(1), where t = t and p = "UFree h"]) (use assms(2) that None in \<open>auto simp: bhead_def\<close>)
    qed
    moreover have "bq_inv (bput t (UGrab h n) s)" by (rule bq_move [OF assms(1)]) (use assms(2) in auto)
    ultimately show ?thesis using None by (simp add: taken_turn_def)
  next
    case (Some x)
    have "bq_inv (bput t (taken_next_pc h n (bnext s n)) s)"
      by (rule bq_move [OF assms(1)]) (use assms(2) Some n in \<open>auto simp: taken_next_pc_def\<close>)
    then show ?thesis using Some n by (simp add: taken_turn_def)
  qed
qed

lemma step_grab:
  assumes "bq_inv s" "held p = held (bpc s t)" "held p \<noteq> None" "frees p = frees (bpc s t)" "pushes p = pushes (bpc s t)" "knows p (bnext s (bhead s))"
    "\<not> installed p" "\<not> installed (bpc s t)" "notifies p = None" "notifies (bpc s t) = None" "pend_ok p True" "pend_ok p (bpend s t \<noteq> None)"
  shows "bq_inv (grab_turn t p s)"
proof -
  obtain a where a: "held (bpc s t) = Some a" using assms(2,3) by auto
  have nd: "\<not> is_node (bq_head s)" using bq_invD(3) [OF assms(1) a] by simp
  note c = bq_invD(1) [OF assms(1)]
  have "bq_inv (bput t p s)" by (rule bq_move [OF assms(1)]) (use assms in auto)
  moreover have "bq_inv (bput t p (add_front t f (s\<lparr>bq_head := BNull\<rparr>)))" if "bq_head s = BWaiter f" for f
  proof (rule collect_free [OF assms(1) that])
    show "core_inv (bput t p (s\<lparr>bq_head := BNull\<rparr>))" by (rule core_pc [OF core_head [OF c nd]]) (use assms in \<open>auto simp: bhead_def\<close>)
  qed (use assms in auto)
  ultimately show ?thesis using nd by (auto simp: grab_turn_def split: bword.splits)
qed

text \<open>Both unlocking loops publish the pending list in the same way.\<close>

lemma publish_pending:
  assumes "bq_inv s" "held (bpc s t) = Some a" "bpend s t = Some x" "bnext s a = v" "\<not> is_node v" "held p = Some a" "frees p = frees (bpc s t)"
    "pushes p = None" "knows p (BWaiter x)" "\<not> installed p" "\<not> installed (bpc s t)" "notifies p = None" "notifies (bpc s t) = None" "pend_ok p False"
  shows "bq_inv (bput t p ((if v \<noteq> BNull then link_last t (decode_waiter v) s else s)\<lparr>bnext := (bnext s)(a := BWaiter x), bpend := (bpend s)(t := None)\<rparr>))"
proof -
  note c = bq_invD(1) [OF assms(1)]
  have a: "a = bhead s" using bq_invD(3) [OF assms(1,2)] by simp
  obtain L where L: "wait_inv s L" using assms(1) by (auto simp: bq_inv_def)
  note pf = pend_facts [OF L, of t]
  have ln: "wnext s (last (L (RPend t))) = None" using path_last [OF shapeD(1) [OF wait_invD(1) [OF L], of "RPend t"]] pf(1) assms(3) by simp
  have e: "(if v \<noteq> BNull then link_last t (decode_waiter v) s else s) = s\<lparr>wnext := (wnext s)(last (L (RPend t)) := decode_waiter v)\<rparr>"
    using pf(2) assms(3) ln by (auto simp: link_last_def fun_upd_idem)
  let ?s = "bput t p (s\<lparr>wnext := (wnext s)(last (L (RPend t)) := decode_waiter v), bnext := (bnext s)(a := BWaiter x), bpend := (bpend s)(t := None)\<rparr>)"
  have "core_inv (bput t p (s\<lparr>bnext := (bnext s)(a := BWaiter x)\<rparr>))" by (rule core_install [OF c assms(2)]) (use assms in auto)
  then have "core_inv ?s" by (subst core_cong [of _ "bput t p (s\<lparr>bnext := (bnext s)(a := BWaiter x)\<rparr>)"]) (simp_all add: same_core_def)
  moreover have "\<exists>L'. wait_inv ?s L'"
  proof (rule wait_publish [OF L assms(3)])
    show "bpc s u \<noteq> PopWaiting h" for u h using no_other_waiting [OF assms(1), of t] assms(2,11) by (metis installed.simps(1) option.distinct(1))
  qed (use assms a in \<open>auto simp: bhead_def\<close>)
  ultimately show ?thesis unfolding e using bq_invD(2) [OF assms(1)] by (simp add: bq_inv_def)
qed

lemma step_try:
  assumes "bq_inv s" "bpc s t = UTry h n v"
  shows "bq_inv (taken_try t h n v s)"
proof -
  have n: "n = bhead s" "n \<in> bnodes s" "\<not> is_node v" "bnext s n = v \<or> is_node (bnext s n)" using bq_invD(3) [OF assms(1), of t n] assms(2) by auto
  obtain x where x: "bpend s t = Some x" using bq_invD(4) [OF assms(1), of t] assms(2) by auto
  show ?thesis
  proof (cases "bnext s n = v")
    case True
    then show ?thesis using publish_pending [OF assms(1), of t n x v "UTaken h n"] assms(2) n(2,3) x by (simp add: taken_try_def Let_def)
  next
    case False
    have "bq_inv (bput t (URelease h n) s)" by (rule bq_move [OF assms(1)]) (use assms(2) x in auto)
    then show ?thesis using False n x link_last_None [OF assms(1), of t] by (simp add: taken_try_def)
  qed
qed

lemma step_release:
  assumes "bq_inv s" "bpc s t = URelease h n"
  shows "bq_inv (taken_release t h n s)"
proof -
  note c = bq_invD(1) [OF assms(1)]
  obtain x where x: "bpend s t = Some x" using bq_invD(4) [OF assms(1), of t] assms(2) by auto
  obtain L where L: "wait_inv s L" using assms(1) by (auto simp: bq_inv_def)
  have "bq_inv (bput t (UNotify h x) (s\<lparr>bq_head := BNode n, bpend := (bpend s)(t := None)\<rparr>))" if "bq_head s = BNull"
  proof -
    let ?s = "bput t (UNotify h x) (s\<lparr>bq_head := BNode n, bpend := (bpend s)(t := None)\<rparr>)"
    have "core_inv (bput t (UNotify h x) (s\<lparr>bq_head := BNode n\<rparr>))" by (rule core_unlock [OF c]) (use assms(2) in auto)
    then have "core_inv ?s" by (subst core_cong [of _ "bput t (UNotify h x) (s\<lparr>bq_head := BNode n\<rparr>)"]) (simp_all add: same_core_def)
    moreover have "\<exists>L'. wait_inv ?s L'"
      by (rule wait_choose [OF L, where R = "RPend t" and x = x and t = t and p = "UNotify h x"]) (use assms(2) x that in \<open>auto simp: bhead_def\<close>)
    ultimately show ?thesis using bq_invD(2) [OF assms(1)] by (simp add: bq_inv_def)
  qed
  moreover have "bq_inv (bput t (UMore h n) s)" by (rule bq_move [OF assms(1)]) (use assms(2) x in auto)
  ultimately show ?thesis using x by (simp add: taken_release_def)
qed

lemma step_try_head:
  assumes "bq_inv s" "bpc s t = TryHead v"
  shows "bq_inv (try_head t v spurious s)"
proof -
  note c = bq_invD(1) [OF assms(1)]
  have pn: "bpend s t = None" using bq_invD(4) [OF assms(1), of t] assms(2) by simp
  have "bq_inv (bput t BIdle s)" by (rule bq_move [OF assms(1)]) (use assms(2) pn in auto)
  moreover have "bq_inv (bput t (TryHead (bq_head s)) s)" by (rule bq_move [OF assms(1)]) (use assms(2) pn in auto)
  moreover have "bq_inv (bput t (TryNext h) (s\<lparr>bq_head := BNull\<rparr>))" if "bq_head s = BNode h" for h
  proof -
    have "core_inv (bput t (TryNext h) (s\<lparr>bq_head := BNull\<rparr>))" by (rule core_lock [OF c that]) (use assms(2) in auto)
    then show ?thesis by (rule bq_quiet [OF assms(1), where t = t and p = "TryNext h"]) (use assms(2) pn that in \<open>auto simp: bhead_def\<close>)
  qed
  ultimately show ?thesis by (auto simp: try_head_def split: bword.splits)
qed

lemma step_try_load:
  assumes "bq_inv s" "bpc s t = TryNext h"
  shows "bq_inv (try_load t h s)"
proof -
  have h: "h = bhead s" "h \<in> bnodes s" using bq_invD(3) [OF assms(1), of t h] assms(2) by auto
  have "bq_inv (bput t (try_next_pc h (bnext s h)) s)"
    by (rule bq_move [OF assms(1)]) (use assms(2) h in \<open>auto simp: try_next_pc_def split: bword.splits\<close>)
  then show ?thesis using h by (simp add: try_load_def)
qed

lemma bq_asserted: "bq_inv (s\<lparr>basserted := b\<rparr>) = bq_inv s"
proof -
  let ?s = "s\<lparr>basserted := b\<rparr>"
  have c: "core_inv ?s = core_inv s" by (rule core_cong) (simp add: same_core_def)
  have q: "queued ?s = queued s" by (simp add: queued_def fun_eq_iff)
  have "root_ptr ?s r = root_ptr s r" for r using q by (cases r) (simp_all add: bhead_def)
  then have r: "root_ptr ?s = root_ptr s" by (rule ext)
  have "wait_inv ?s L = wait_inv s L" for L
    using q r by (simp add: wait_inv_def lists_ok_def permits_ok_def threads_ok_def bhead_def)
  then show ?thesis using c by (simp add: bq_inv_def)
qed

lemma step_no_item:
  assumes "bq_inv s" "bpc s t = NTurn h v"
  shows "bq_inv (no_item_turn t h v s)"
proof -
  note c = bq_invD(1) [OF assms(1)]
  have h: "h = bhead s" "h \<in> bnodes s" "\<not> is_node v" using bq_invD(3) [OF assms(1), of t h] assms(2) by auto
  show ?thesis
  proof (cases "bpend s t")
    case None
    have "bq_inv (bput t BIdle (s\<lparr>bq_head := BNode h\<rparr>))" if "bq_head s = BNull"
    proof -
      have "core_inv (bput t BIdle (s\<lparr>bq_head := BNode h\<rparr>))" by (rule core_unlock [OF c]) (use assms(2) in auto)
      then show ?thesis by (rule bq_quiet [OF assms(1), where t = t and p = BIdle]) (use assms(2) that None in \<open>auto simp: bhead_def\<close>)
    qed
    moreover have "bq_inv (bput t (NGrab h v) s)" by (rule bq_move [OF assms(1)]) (use assms(2) h in auto)
    ultimately show ?thesis using None by (simp add: no_item_turn_def)
  next
    case (Some x)
    show ?thesis
    proof (cases "bnext s h = v")
      case True
      then show ?thesis using publish_pending [OF assms(1), of t h x v "NTurn h v"] assms(2) h(2,3) Some by (simp add: no_item_turn_def Let_def)
    next
      case False
      have "bq_inv (bput t (try_next_pc h (bnext s h)) s)"
        by (rule bq_move [OF assms(1)]) (use assms(2) h Some in \<open>auto simp: try_next_pc_def split: bword.splits\<close>)
      then have "bq_inv ((bput t (try_next_pc h (bnext s h)) s)\<lparr>basserted := basserted s \<or> \<not> is_node (bnext s h)\<rparr>)" by (simp only: bq_asserted)
      moreover have "no_item_turn t h v s = (bput t (try_next_pc h (bnext s h)) s)\<lparr>basserted := basserted s \<or> \<not> is_node (bnext s h)\<rparr>"
        using False h Some link_last_None [OF assms(1), of t] by (simp add: no_item_turn_def bput_def)
      ultimately show ?thesis by simp
    qed
  qed
qed

lemma step_woken:
  assumes "bq_inv s" "bpc s t = PopWaitHead \<and> s' = pop_woken_head t s \<or> bpc s t = PopWaitNext \<and> s' = pop_woken_next t s" "permits s t > 0"
  shows "bq_inv s'"
proof -
  note c = bq_invD(1) [OF assms(1)]
  obtain L where L: "wait_inv s L" using assms(1) by (auto simp: bq_inv_def)
  note W = wait_invD [OF L] and pf = pend_facts [OF L, of t]
  have "permits s t \<le> 1" using W(4) by (simp add: permits_ok_def)
  then have p: "permits s t = 1" "installed (bpc s t)" using assms(2,3) by auto
  then have nq: "\<not> queued s t" by (simp add: queued_def)
  then have tp: "path (wnext s) (wnext s t) (L (RTail t))" using shapeD(1) [OF W(1), of "RTail t"] by simp
  let ?s0 = "s\<lparr>permits := (permits s)(t := 0)\<rparr>"
  have k: "core_inv (bput t PopStart s)" by (rule core_pc [OF c]) (use assms(2) in auto)
  have fin: "bq_inv s'" if "same_core s' (bput t PopStart s)" "bfailed s' = bfailed s" "wait_inv s' L'" for L'
    using core_cong [OF that(1)] k that(2,3) bq_invD(2) [OF assms(1)] by (auto simp: bq_inv_def)
  show ?thesis
  proof (cases "wnext s t")
    case None
    then have e: "L (RTail t) = []" using tp by simp
    have pd: "bpend s t = None \<or> bpendlast s t = Some (last (L (RPend t)))" using pf(2) by blast
    have s': "s' = bput t PopStart ?s0" using assms(2) None p(1) by (auto simp: pop_woken_head_def pop_woken_next_def woken_def)
    have "wait_inv s' (L(RTail t := [], RPend t := L (RPend t)))" unfolding s'
      by (rule wait_woken [OF L p(2,1), where nx = "wnext s" and ptr = "root_ptr s" and xs = "L (RPend t)"])
         (use W(1) e None nq pd in \<open>auto simp: bhead_def fun_upd_idem\<close>)
    then show ?thesis by (rule fin [rotated 2]) (simp_all add: s' same_core_def)
  next
    case (Some f)
    then have tp: "path (wnext s) (Some f) (L (RTail t))" "L (RTail t) \<noteq> []" using tp by auto
    have tn: "t \<notin> set (L r)" for r using W(6) nq by blast
    have qm: "queued s (last (L r))" if "L r \<noteq> []" for r using W(2) last_in_set [OF that] by blast
    from assms(2) show ?thesis
    proof
      assume a: "bpc s t = PopWaitHead \<and> s' = pop_woken_head t s"
      let ?nx = "(wnext s)(last (L (RTail t)) := bpend s t)"
      have s': "s' = bput t PopStart (?s0\<lparr>wnext := ?nx(t := None), bpend := (bpend s)(t := Some f), bpendlast := (bpendlast s)(t := Some (last (L (RTail t) @ L (RPend t))))\<rparr>)"
        using a Some p(1) add_front_list [of ?s0 f "L (RTail t)" t "L (RPend t)"] tp(1) pf by (simp add: pop_woken_head_def woken_def)
      have "shape ?nx ((root_ptr s)(RTail t := None, RPend t := None, RPend t := root_ptr s (RTail t))) (L(RTail t := [], RPend t := [], RPend t := L (RTail t) @ L (RPend t)))"
        using shape_join [OF W(1), of "RTail t" "RPend t" "RPend t"] tp(2) by simp
      then have "wait_inv s' (L(RTail t := [], RPend t := L (RTail t) @ L (RPend t)))" unfolding s'
        by (intro wait_woken [OF L p(2,1), where nx = ?nx and ptr = "(root_ptr s)(RTail t := None, RPend t := Some f)"])
           (use Some nq qm [OF tp(2)] in \<open>auto simp: bhead_def\<close>)
      then show ?thesis by (rule fin [rotated 2]) (simp_all add: s' same_core_def)
    next
      assume a: "bpc s t = PopWaitNext \<and> s' = pop_woken_next t s"
      let ?nx = "if L (RPend t) = [] then wnext s else (wnext s)(last (L (RPend t)) := Some f)"
      let ?p = "if L (RPend t) = [] then Some f else bpend s t"
      have s': "s' = bput t PopStart (?s0\<lparr>wnext := ?nx(t := None), bpend := (bpend s)(t := ?p), bpendlast := (bpendlast s)(t := Some (last (L (RPend t) @ L (RTail t))))\<rparr>)"
        using a Some p(1) add_back_list [of ?s0 f "L (RTail t)" t "L (RPend t)"] tp(1) pf by (simp add: pop_woken_next_def woken_def)
      have "shape ?nx ((root_ptr s)(RTail t := None, RPend t := ?p)) (L(RTail t := [], RPend t := L (RPend t) @ L (RTail t)))"
      proof (cases "L (RPend t) = []")
        case True
        then show ?thesis using shape_move [OF W(1), of "RTail t" "RPend t"] Some nq by simp
      next
        case False
        then show ?thesis using shape_join [OF W(1), of "RPend t" "RTail t" "RPend t"] Some nq by (simp add: fun_upd_twist)
      qed
      then have "wait_inv s' (L(RTail t := [], RPend t := L (RPend t) @ L (RTail t)))" unfolding s'
        by (intro wait_woken [OF L p(2,1), where nx = ?nx and ptr = "(root_ptr s)(RTail t := None, RPend t := ?p)"])
           (use qm in \<open>auto simp: bhead_def\<close>)
      then show ?thesis by (rule fin [rotated 2]) (simp_all add: s' same_core_def)
    qed
  qed
qed

lemma bq_inv_init: "bq_init s \<Longrightarrow> bq_inv s"
proof -
  assume "bq_init s"
  then obtain n where s: "s = blocking_queue n" by (auto simp: bq_init_def)
  have "root_ptr s r = None" for r unfolding s by (cases r) (simp_all add: blocking_queue_def)
  then have "lists_ok s (\<lambda>_. [])" by (simp add: lists_ok_def shape_def served_def s blocking_queue_def queued_def acyclic_def)
  moreover have "permits_ok s" "threads_ok s (\<lambda>_. [])"
    by (simp_all add: permits_ok_def threads_ok_def one_owner_def owned_def s blocking_queue_def)
  moreover have "core_inv s"
    by (simp add: core_inv_def chain_ok_def holder_ok_def nodes_ok_def one_owner_def owned_def bhead_def links_def s blocking_queue_def)
  moreover have "\<not> bfailed s" by (simp add: s blocking_queue_def)
  ultimately show ?thesis unfolding bq_inv_def wait_inv_def by blast
qed

lemma bq_step_inv:
  assumes "bq_inv s" "bq_step s s'"
  shows "bq_inv s'"
  using assms(2)
proof (cases rule: bq_step.cases)
  case (b_push t n x) then show ?thesis using assms(1) by (simp add: step_push)
next
  case (b_link t prev n) then show ?thesis using assms(1) by (simp add: step_link)
next
  case (b_push_notify t w) then show ?thesis using assms(1) by (auto intro!: step_notify)
next
  case (b_pop t) then show ?thesis using assms(1) by (auto intro: step_start)
next
  case (b_reload t) then show ?thesis using assms(1) by (auto intro: step_reload)
next
  case (b_spin t hv) then show ?thesis using assms(1) by (auto intro: step_reload)
next
  case (b_lock t hv) then show ?thesis using assms(1) by (auto intro: step_lock)
next
  case (b_install t) then show ?thesis using assms(1) by (auto intro: step_install)
next
  case (b_woken_head t) then show ?thesis using assms(1) using step_woken [of s t "pop_woken_head t s"] by simp
next
  case (b_load t h) then show ?thesis using assms(1) by (auto intro: step_load)
next
  case (b_take t h n) then show ?thesis using assms(1) by (auto intro: step_take)
next
  case (b_enqueue t h nv) then show ?thesis using assms(1) by (auto intro: step_enqueue)
next
  case (b_unlock_waiting t h) then show ?thesis using assms(1) by (auto intro: step_unlock_waiting)
next
  case (b_woken_next t) then show ?thesis using assms(1) using step_woken [of s t "pop_woken_next t s"] by simp
next
  case (b_taken t h n) then show ?thesis using assms(1) by (auto intro: step_taken)
next
  case (b_grab t h n) then show ?thesis using assms(1) by (auto intro!: step_grab)
next
  case (b_try t h n nv) then show ?thesis using assms(1) by (auto intro: step_try)
next
  case (b_release t h n) then show ?thesis using assms(1) by (auto intro: step_release)
next
  case (b_more t h n) then show ?thesis using assms(1) using bq_invD(4) [of s t] by (auto intro!: step_grab)
next
  case (b_notify t h w) then show ?thesis using assms(1) by (auto intro!: step_notify)
next
  case (b_free t h) then show ?thesis using assms(1) by (auto intro: step_free)
next
  case (b_try_pop t) then show ?thesis using assms(1) by (auto intro: step_start)
next
  case (b_try_head t hv spurious) then show ?thesis using assms(1) by (auto intro: step_try_head)
next
  case (b_try_load t h) then show ?thesis using assms(1) by (auto intro: step_try_load)
next
  case (b_no_item t h nv) then show ?thesis using assms(1) by (auto intro: step_no_item)
next
  case (b_no_item_grab t h nv) then show ?thesis using assms(1) using bq_invD(3) [of s t h] by (auto intro!: step_grab)
qed

interpretation bq: inv_system bq_init bq_step bq_inv
  by unfold_locales (auto intro: bq_inv_init bq_step_inv)

section \<open>Properties\<close>

definition waits :: "bq_sys \<Rightarrow> tid \<Rightarrow> bool" where
  "waits s t \<longleftrightarrow> bpc s t = PopWaitHead \<or> bpc s t = PopWaitNext"

definition blocked :: "bq_sys \<Rightarrow> tid \<Rightarrow> bool" where
  "blocked s t \<longleftrightarrow> waits s t \<and> permits s t = 0"

lemma stuck_queued:
  assumes "wait_inv s L" "\<And>u. bpc s u = BIdle \<or> blocked s u"
  shows "queued s u \<longleftrightarrow> bpc s u \<noteq> BIdle" "L (RPend u) \<noteq> [] \<Longrightarrow> queued s u" "L (RTail u) = []"
proof -
  note W = wait_invD [OF assms(1)]
  have "notifies (bpc s v) = None" "installed (bpc s v) \<longleftrightarrow> bpc s v \<noteq> BIdle" for v using assms(2) [of v] by (auto simp: blocked_def waits_def)
  then show q: "queued s u \<longleftrightarrow> bpc s u \<noteq> BIdle" for u using assms(2) [of u] by (auto simp: queued_def owned_def blocked_def)
  show "queued s u" if "L (RPend u) \<noteq> []"
    using that q [of u] threads_okD(3) [OF W(5), of u] pend_facts(1) [OF assms(1), of u] by auto
  show "L (RTail u) = []"
    using q [of u] threads_okD(2) [OF W(5), of u] shapeD(4) [OF W(1), of "RTail u"] by (cases "queued s u") auto
qed

text \<open>When nothing moves, some waiting thread waits for the next item itself.\<close>

lemma stuck_at_next:
  assumes "bq_inv s" "\<And>u. bpc s u = BIdle \<or> blocked s u" "bpc s t \<noteq> BIdle"
  shows "is_waiter (bnext s (bhead s))"
proof -
  obtain L where L: "wait_inv s L" using assms(1) by (auto simp: bq_inv_def)
  note W = wait_invD [OF L] and Q = stuck_queued [OF L assms(2)]
  have "held (bpc s u) = None" for u using assms(2) [of u] by (auto simp: blocked_def waits_def)
  then have "is_node (bq_head s)" using bq_invD(1) [OF assms(1)] unfolding core_inv_def holder_ok_def by (auto split: if_splits)
  then have h: "L RHead = []" using shapeD(4) [OF W(1), of RHead] by (cases "bq_head s") auto
  let ?Q = "{u. queued s u}"
  have "finite ?Q" using threads_okD(1) [OF W(5)] Q(1) by simp
  moreover have sub: "served L \<subseteq> ?Q \<times> ?Q"
  proof (rule subrelI)
    fix x u assume "(x, u) \<in> served L"
    then have x: "x \<in> set (L (RPend u))" using Q(3) [of u] by (simp add: served_def)
    then have "queued s x" using W(2) by blast
    moreover have "L (RPend u) \<noteq> []" using x by auto
    then have "queued s u" by (rule Q(2))
    ultimately show "(x, u) \<in> ?Q \<times> ?Q" by simp
  qed
  ultimately have "finite (served L)" by (meson finite_SigmaI finite_subset)
  then have wf: "wf ((served L)\<inverse>)" using W(3) by (rule finite_acyclic_wf_converse)
  have "t \<in> ?Q" using Q(1) assms(3) by simp
  then obtain m where m: "m \<in> ?Q" "\<And>u. (u, m) \<in> (served L)\<inverse> \<Longrightarrow> u \<notin> ?Q" using wfE_min [OF wf] by metis
  then have ns: "(m, u) \<notin> served L" for u using sub by auto
  obtain r where r: "m \<in> set (L r)" using m(1) W(2) by blast
  then have "r = RNext" using ns h Q(3) by (cases r) (auto simp: served_def)
  then show ?thesis using r shapeD(4) [OF W(1), of RNext] by (cases "bnext s (bhead s)") auto
qed

lemma idle_chain:
  assumes "core_inv s" "\<not> is_node (bnext s (bhead s))" "\<And>u. pushes (bpc s u) = None"
  shows "bpushed s = bpopped s"
proof -
  have c: "linked (links (bnext s)) {} (bchain s)" "bchain s \<noteq> []" "bpushed s = bpopped s @ map (bitem s) (tl (bchain s))"
    using assms(1,3) by (simp_all add: core_inv_def chain_ok_def owned_def)
  have "tl (bchain s) = []" using c(1,2) assms(2)
    by (cases "(links (bnext s), {} :: (addr \<times> addr) set, bchain s)" rule: linked.cases) (auto simp: bhead_def links_def)
  then show ?thesis using c(3) by simp
qed

text \<open>
  C12. No wake-up is lost, however producers and consumers interleave: while a thread waits in
  \<open>pop\<close> and an item is in the queue, some thread is on its way, not waiting for a notification.
\<close>

theorem blocking_queue_no_lost_wakeup:
  assumes "reach bq_init bq_step s" "waits s t" "bpushed s \<noteq> bpopped s"
  shows "\<exists>u. bpc s u \<noteq> BIdle \<and> \<not> blocked s u"
proof (rule ccontr)
  assume "\<not> ?thesis"
  then have b: "bpc s u = BIdle \<or> blocked s u" for u by blast
  have i: "bq_inv s" using bq.reach_inv [OF assms(1)] .
  have "bpc s t \<noteq> BIdle" using assms(2) by (auto simp: waits_def)
  then have "is_waiter (bnext s (bhead s))" using stuck_at_next [OF i b] by blast
  then have "\<not> is_node (bnext s (bhead s))" by (cases "bnext s (bhead s)") auto
  moreover have "pushes (bpc s u) = None" for u using b [of u] by (auto simp: blocked_def waits_def)
  ultimately show False using idle_chain [OF bq_invD(1) [OF i]] assms(3) by blast
qed

text \<open>
  C13. The queue is first-in first-out for any number of producers and consumers: the items
  returned by \<open>pop\<close> and \<open>try_pop\<close>, in the order in which they were taken, are the first of the
  items pushed.
\<close>

theorem blocking_queue_fifo:
  assumes "reach bq_init bq_step s"
  shows "\<exists>rest. bpushed s = bpopped s @ rest \<and> length rest < card (bnodes s)"
proof -
  have c: "core_inv s" using bq_invD(1) [OF bq.reach_inv [OF assms]] .
  have f: "finite (bnodes s)"
  proof -
    obtain L where "wait_inv s L" using bq.reach_inv [OF assms] by (auto simp: bq_inv_def)
    then have "finite {t. bpc s t \<noteq> BIdle}" using threads_okD(1) wait_invD(5) by blast
    moreover have "freeing (bpc s) \<subseteq> (\<lambda>t. the (frees (bpc s t))) ` {t. bpc s t \<noteq> BIdle}"
    proof
      fix h assume "h \<in> freeing (bpc s)"
      then obtain t where t: "frees (bpc s t) = Some h" by (auto simp: owned_def)
      then have "bpc s t \<noteq> BIdle" by auto
      then show "h \<in> (\<lambda>t. the (frees (bpc s t))) ` {t. bpc s t \<noteq> BIdle}" using t by (intro image_eqI [of _ _ t]) auto
    qed
    ultimately have "finite (freeing (bpc s))" using finite_surj by blast
    then show ?thesis using c by (simp add: core_inv_def nodes_ok_def)
  qed
  have "card (set (bchain s)) \<le> card (bnodes s)" using card_mono [OF f core_invD(6) [OF c]] .
  then have "length (tl (bchain s)) < card (bnodes s)"
    using distinct_card [OF core_invD(2) [OF c]] core_invD(1) [OF c] by (cases "bchain s") auto
  then show ?thesis using c by (intro exI [of _ "map (bitem s) (tl (bchain s))"]) (simp add: core_inv_def chain_ok_def)
qed

text \<open>
  C14. At most one thread holds the lock of the queue, exactly while the head word is not a node; no
  deleted node is accessed, no waiter list is followed forever and no assertion fails other
  than the one in \<open>try_unlock_no_item\<close>.
\<close>

theorem blocking_queue_exclusive:
  assumes "reach bq_init bq_step s"
  shows "\<not> bfailed s \<and> (\<forall>t u. held (bpc s t) \<noteq> None \<longrightarrow> held (bpc s u) \<noteq> None \<longrightarrow> t = u) \<and>
    ((\<exists>t. held (bpc s t) \<noteq> None) \<longleftrightarrow> \<not> is_node (bq_head s))"
proof -
  have i: "bq_inv s" using bq.reach_inv [OF assms] .
  have "holder_ok s" using bq_invD(1) [OF i] by (simp add: core_inv_def)
  then show ?thesis using bq_invD(2,6) [OF i] by (auto simp: holder_ok_def split: if_splits)
qed

lemma destroy_linked:
  assumes "linked (links nx) {} (a # ns)" "distinct (a # ns)" "set (a # ns) \<subseteq> N" "\<forall>b \<in> set (a # ns). \<not> is_waiter (nx b)"
  shows "destroy_nodes nx a N = Some (N - set (a # ns))"
  using assms
proof (induction ns arbitrary: a N)
  case Nil
  then show ?case by (cases "nx a") (auto simp: destroy_nodes.simps links_def)
next
  case (Cons b ns)
  then have "nx a = BNode b" by (simp add: links_def)
  moreover have "destroy_nodes nx b (N - {a}) = Some (N - {a} - set (b # ns))" using Cons.prems by (intro Cons.IH) auto
  ultimately show ?case using Cons.prems(3) by (auto simp: destroy_nodes.simps [of nx a])
qed

text \<open>
  Destroying the queue when no thread is inside an operation deletes every node, once, and
  does not terminate the program.
\<close>

theorem blocking_queue_destroy:
  assumes "reach bq_init bq_step s" "\<forall>t. bpc s t = BIdle"
  shows "bq_destroy s = Some {}"
proof -
  have i: "bq_inv s" using bq.reach_inv [OF assms(1)] .
  note c = bq_invD(1) [OF i] and D = core_invD [OF bq_invD(1) [OF i]]
  obtain L where L: "wait_inv s L" using i by (auto simp: bq_inv_def)
  have "\<not> queued s u" for u using assms(2) by (simp add: queued_def)
  then have "L RNext = []" using wait_invD(2) [OF L] by (metis last_in_set)
  then have w: "\<not> is_waiter (bnext s (bhead s))" using shapeD(4) [OF wait_invD(1) [OF L], of RNext] by (cases "bnext s (bhead s)") auto
  have o: "owned g (bpc s) = {}" if "g BIdle = None" for g :: "bq_pc \<Rightarrow> 'x option" using assms(2) that by (simp add: owned_def)
  obtain ns where ns: "bchain s = bhead s # ns" using D(1) by (cases "bchain s") (auto simp: bhead_def)
  have n: "bnodes s = set (bchain s)" using c o [of frees] by (simp add: core_inv_def nodes_ok_def)
  have "bq_head s = BNode (bhead s)" using c assms(2) unfolding core_inv_def holder_ok_def by (auto split: if_splits)
  moreover have "destroy_nodes (bnext s) (bhead s) (bnodes s) = Some (bnodes s - set (bhead s # ns))"
  proof (rule destroy_linked)
    show "linked (links (bnext s)) {} (bhead s # ns)" using c o [of pushes] ns by (simp add: core_inv_def chain_ok_def)
    show "\<forall>b \<in> set (bhead s # ns). \<not> is_waiter (bnext s b)" using c w ns by (simp add: core_inv_def chain_ok_def)
  qed (use D(2) n ns in simp_all)
  ultimately show ?thesis using n ns by (simp add: bq_destroy_def)
qed

lemmas bq_eval = blocking_queue_def bput_def bfail_def bload_def find_last.simps add_front_def add_back_def link_last_def push_begin_def
  push_link_def pop_start_def pop_reload_def pop_lock_def pop_install_def pop_load_def pop_next_pc_def pop_enqueue_def unlock_waiting_def
  try_head_def try_load_def try_next_pc_def no_item_turn_def grab_turn_def Let_def

lemma reach_empty: "reach bq_init bq_step (blocking_queue 5)"
  by (rule reach_init) (auto simp: bq_init_def)

text \<open>Thread 2 waits for the first item, thread 3 is about to link it.\<close>

definition bq_waiting :: bq_sys where
  "bq_waiting = unlock_waiting 2 5 (pop_enqueue 2 5 BNull (pop_load 2 5 (pop_lock 2 (BNode 5)
     (pop_reload 2 (pop_start 2 PopStart (blocking_queue 5))))))"

lemma reach_waiting: "reach bq_init bq_step (push_begin 3 6 9 bq_waiting)"
proof -
  let ?a = "pop_start 2 PopStart (blocking_queue 5)"
  let ?b = "pop_reload 2 ?a" let ?c = "pop_lock 2 (BNode 5) ?b" let ?d = "pop_load 2 5 ?c" let ?e = "pop_enqueue 2 5 BNull ?d"
  have "bq_step (blocking_queue 5) ?a" by (rule b_pop) (simp add: bq_eval)
  then have "reach bq_init bq_step ?a" by (rule reach_step [OF reach_empty])
  moreover have "bq_step ?a ?b" by (rule b_reload) (simp add: bq_eval)
  ultimately have "reach bq_init bq_step ?b" by (rule reach_step)
  moreover have "bq_step ?b ?c" by (rule b_lock) (simp add: bq_eval)
  ultimately have "reach bq_init bq_step ?c" by (rule reach_step)
  moreover have "bq_step ?c ?d" by (rule b_load) (simp add: bq_eval)
  ultimately have "reach bq_init bq_step ?d" by (rule reach_step)
  moreover have "bq_step ?d ?e" by (rule b_enqueue) (simp add: bq_eval)
  ultimately have "reach bq_init bq_step ?e" by (rule reach_step)
  moreover have "bq_step ?e bq_waiting" unfolding bq_waiting_def by (rule b_unlock_waiting) (simp add: bq_eval)
  ultimately have "reach bq_init bq_step bq_waiting" by (rule reach_step)
  moreover have "bq_step bq_waiting (push_begin 3 6 9 bq_waiting)" by (rule b_push) (simp_all add: bq_waiting_def bq_eval)
  ultimately show ?thesis by (rule reach_step)
qed

theorem blocking_queue_no_lost_wakeup_witness:
  "reach bq_init bq_step (push_begin 3 6 9 bq_waiting) \<and> waits (push_begin 3 6 9 bq_waiting) 2 \<and>
   bpushed (push_begin 3 6 9 bq_waiting) \<noteq> bpopped (push_begin 3 6 9 bq_waiting) \<and>
   (\<exists>u. bpc (push_begin 3 6 9 bq_waiting) u \<noteq> BIdle \<and> \<not> blocked (push_begin 3 6 9 bq_waiting) u)"
proof -
  have h: "waits (push_begin 3 6 9 bq_waiting) 2" "bpushed (push_begin 3 6 9 bq_waiting) \<noteq> bpopped (push_begin 3 6 9 bq_waiting)"
    by (simp_all add: waits_def bq_waiting_def bq_eval)
  show ?thesis using reach_waiting h blocking_queue_no_lost_wakeup [OF reach_waiting h] by blast
qed

theorem blocking_queue_fifo_witness:
  "reach bq_init bq_step (push_begin 3 6 9 bq_waiting) \<and>
   (\<exists>rest. bpushed (push_begin 3 6 9 bq_waiting) = bpopped (push_begin 3 6 9 bq_waiting) @ rest)"
  using reach_waiting blocking_queue_fifo [OF reach_waiting] by blast

theorem blocking_queue_exclusive_witness:
  "reach bq_init bq_step (push_begin 3 6 9 bq_waiting) \<and> \<not> bfailed (push_begin 3 6 9 bq_waiting)"
  using reach_waiting blocking_queue_exclusive [OF reach_waiting] by blast

theorem blocking_queue_destroy_witness:
  "reach bq_init bq_step (blocking_queue 5) \<and> bq_destroy (blocking_queue 5) = Some {}"
proof -
  note r = reach_empty
  have "\<forall>t. bpc (blocking_queue 5) t = BIdle" by (simp add: blocking_queue_def)
  then show ?thesis using r blocking_queue_destroy [OF r] by blast
qed

text \<open>
  A run of \<open>try_pop\<close> (thread 2) on an empty queue, while the threads 3 and 4 come to \<open>pop\<close>: thread
  3 installs itself at the head and is moved to the \<open>next\<close> word, then thread 4 installs itself.
\<close>

definition bq_tried :: bq_sys where
  "bq_tried = try_load 2 5 (try_head 2 (BNode 5) False (pop_start 2 (TryHead (BNode 5)) (blocking_queue 5)))"

definition comes :: "tid \<Rightarrow> bq_sys \<Rightarrow> bq_sys" where
  "comes t s = pop_install t (pop_lock t BNull (pop_reload t (pop_start t PopStart s)))"

definition moves_waiters :: "bq_sys \<Rightarrow> bq_sys" where
  "moves_waiters s = no_item_turn 2 5 BNull (grab_turn 2 (NTurn 5 BNull) (no_item_turn 2 5 BNull s))"

definition bq_raced :: bq_sys where
  "bq_raced = moves_waiters (comes 4 (moves_waiters (comes 3 bq_tried)))"

lemma reach_comes:
  assumes "reach bq_init bq_step s" "bpc s t = BIdle" "bq_head s = BNull"
  shows "reach bq_init bq_step (comes t s)"
proof -
  let ?a = "pop_start t PopStart s" let ?b = "pop_reload t ?a" let ?c = "pop_lock t BNull ?b"
  note r = reach_step [OF assms(1) b_pop [OF assms(2)]]
  have "bpc ?a t = PopStart" by (simp add: pop_start_def)
  note r = reach_step [OF r b_reload [OF this]]
  have "bpc ?b t = PopHead BNull" using assms(3) by (simp add: pop_start_def pop_reload_def)
  note r = reach_step [OF r b_lock [OF this]]
  have "bpc ?c t = PopInstall" by (simp add: pop_lock_def)
  note r = reach_step [OF r b_install [OF this]]
  then show ?thesis by (simp add: comes_def)
qed

lemma reach_moves:
  assumes "reach bq_init bq_step s" "bpc s 2 = NTurn 5 BNull" "bpend s 2 = None" "bq_head s = BWaiter f"
  shows "reach bq_init bq_step (moves_waiters s)"
proof -
  let ?a = "no_item_turn 2 5 BNull s" let ?b = "grab_turn 2 (NTurn 5 BNull) ?a"
  note r = reach_step [OF assms(1) b_no_item [OF assms(2)]]
  have a: "?a = bput 2 (NGrab 5 BNull) s" using assms(3,4) by (simp add: no_item_turn_def)
  have "bpc ?a 2 = NGrab 5 BNull" unfolding a by simp
  note r = reach_step [OF r b_no_item_grab [OF this]]
  have "bpc ?b 2 = NTurn 5 BNull" unfolding a using assms(4) by (simp add: grab_turn_def)
  note r = reach_step [OF r b_no_item [OF this]]
  then show ?thesis by (simp add: moves_waiters_def)
qed

lemma reach_tried: "reach bq_init bq_step bq_tried"
proof -
  let ?a = "pop_start 2 (TryHead (BNode 5)) (blocking_queue 5)" let ?b = "try_head 2 (BNode 5) False ?a"
  note r = reach_empty
  have "bpc (blocking_queue 5) 2 = BIdle" by (simp add: bq_eval)
  note r = reach_step [OF r b_try_pop [OF this]]
  have "bq_head (blocking_queue 5) = BNode 5" by (simp add: bq_eval)
  note r = r [unfolded this]
  have "bpc ?a 2 = TryHead (BNode 5)" by (simp add: bq_eval)
  note r = reach_step [OF r b_try_head [OF this, of False]]
  have "bpc ?b 2 = TryNext 5" by (simp add: bq_eval)
  note r = reach_step [OF r b_try_load [OF this]]
  then show ?thesis by (simp add: bq_tried_def)
qed

text \<open>
  The assertion of \<open>try_unlock_no_item\<close> can fail: after it moved the waiters found at the head to
  the \<open>next\<close> word it keeps the old value of that word, and when another thread has come to the head
  meanwhile its next exchange finds the waiters that it put there itself.
\<close>

theorem try_unlock_assertion_fails:
  shows "reach bq_init bq_step bq_raced \<and> basserted bq_raced \<and> bpushed bq_raced = []"
proof -
  have "bpc bq_tried 3 = BIdle" "bq_head bq_tried = BNull" by (simp_all add: bq_tried_def bq_eval)
  note r = reach_comes [OF reach_tried this]
  have "bpc (comes 3 bq_tried) 2 = NTurn 5 BNull" "bpend (comes 3 bq_tried) 2 = None" "bq_head (comes 3 bq_tried) = BWaiter 3"
    by (simp_all add: comes_def bq_tried_def bq_eval)
  note r = reach_moves [OF r this]
  let ?s = "moves_waiters (comes 3 bq_tried)"
  have "bpc ?s 4 = BIdle" "bq_head ?s = BNull" by (simp_all add: moves_waiters_def comes_def bq_tried_def bq_eval)
  note r = reach_comes [OF r this]
  have "bpc (comes 4 ?s) 2 = NTurn 5 BNull" "bpend (comes 4 ?s) 2 = None" "bq_head (comes 4 ?s) = BWaiter 4"
    by (simp_all add: moves_waiters_def comes_def bq_tried_def bq_eval)
  note r = reach_moves [OF r this]
  moreover have "basserted bq_raced" "bpushed bq_raced = []"
    by (simp_all add: bq_raced_def moves_waiters_def comes_def bq_tried_def bq_eval)
  ultimately show ?thesis by (simp add: bq_raced_def)
qed

end
