(* ===== verification/Coroutine_Handles.thy ===== *)
theory Coroutine_Handles
  imports Result Prelude
begin

text \<open>
  Who owns a coroutine frame: the classes \<open>coro\<close> (\<open>coro.h\<close>, \<open>detail/coro.h\<close>), \<open>async\<close> and its
  awaiters (\<open>async.h\<close>, \<open>detail/async.h\<close>), \<open>packaged_awaitable\<close> (\<open>packaged_awaitable.h\<close>,
  \<open>detail/packaged_awaitable.h\<close>) and \<open>detach_awaitable\<close> (\<open>detach_awaitable.h\<close>,
  \<open>detail/detach_awaitable.h\<close>).

  Objects and frames are numbers.  The body of a coroutine is an argument: how it ends.
\<close>

section \<open>Handles that are moved\<close>

record handles =
  owner :: "addr \<Rightarrow> addr option"
  destroyed :: "addr list"

definition frame_destroy :: "addr option \<Rightarrow> handles \<Rightarrow> handles" where
  "frame_destroy p s = (case p of None \<Rightarrow> s | Some f \<Rightarrow> s\<lparr>destroyed := destroyed s @ [f]\<rparr>)"

definition handle_new :: "addr \<Rightarrow> addr \<Rightarrow> handles \<Rightarrow> handles" where
  "handle_new x f s = s\<lparr>owner := (owner s)(x := Some f)\<rparr>"

definition coro_move :: "addr \<Rightarrow> addr \<Rightarrow> handles \<Rightarrow> handles" where
  "coro_move x y s = (let h = owner s y; s = s\<lparr>owner := (owner s)(y := None)\<rparr> in s\<lparr>owner := (owner s)(x := h)\<rparr>)"

definition coro_assign :: "addr \<Rightarrow> addr \<Rightarrow> handles \<Rightarrow> handles" where
  "coro_assign x y s =
     (if x = y then s
      else let prev = owner s x;
               s = s\<lparr>owner := (owner s)(x := owner s y)\<rparr>;
               s = s\<lparr>owner := (owner s)(y := None)\<rparr>
           in frame_destroy prev s)"

definition coro_destroy :: "addr \<Rightarrow> handles \<Rightarrow> handles" where
  "coro_destroy x s = (frame_destroy (owner s x) s)\<lparr>owner := (owner s)(x := None)\<rparr>"

text \<open>\<open>async\<close>; \<open>operator co_await\<close> and \<open>result()\<close> move the handle into an awaiter.\<close>

definition async_move :: "addr \<Rightarrow> addr \<Rightarrow> handles \<Rightarrow> handles" where
  "async_move x y s = (let h = owner s y; s = s\<lparr>owner := (owner s)(y := None)\<rparr> in s\<lparr>owner := (owner s)(x := h)\<rparr>)"

definition async_assign :: "addr \<Rightarrow> addr \<Rightarrow> handles \<Rightarrow> handles" where
  "async_assign x y s =
     (if x = y then s
      else let prev = owner s x; s = s\<lparr>owner := (owner s)(x := None)\<rparr>;
               h = owner s y; s = s\<lparr>owner := (owner s)(y := None)\<rparr>;
               s = s\<lparr>owner := (owner s)(x := h)\<rparr>
           in frame_destroy prev s)"

definition async_destroy :: "addr \<Rightarrow> handles \<Rightarrow> handles" where
  "async_destroy x s = (frame_destroy (owner s x) s)\<lparr>owner := (owner s)(x := None)\<rparr>"

datatype handle_op = HNew addr addr | HMove addr addr | HAssign addr addr | HDestroy addr

fun handle_exec ::
  "(addr \<Rightarrow> addr \<Rightarrow> handles \<Rightarrow> handles) \<Rightarrow> (addr \<Rightarrow> addr \<Rightarrow> handles \<Rightarrow> handles) \<Rightarrow> (addr \<Rightarrow> handles \<Rightarrow> handles) \<Rightarrow>
   handle_op \<Rightarrow> handles \<Rightarrow> handles" where
  "handle_exec mv asg del (HNew x f) s = handle_new x f s"
| "handle_exec mv asg del (HMove x y) s = mv x y s"
| "handle_exec mv asg del (HAssign x y) s = asg x y s"
| "handle_exec mv asg del (HDestroy x) s = del x s"

text \<open>
  A program constructs objects where none is.  \<open>frames\<close> are the frames created so far; a frame
  lives where no other frame lived before.
\<close>

fun handle_legal :: "handle_op \<Rightarrow> addr list \<Rightarrow> handles \<Rightarrow> bool" where
  "handle_legal (HNew x f) frames s = (owner s x = None \<and> f \<notin> set frames)"
| "handle_legal (HMove x y) frames s = (owner s x = None \<and> x \<noteq> y)"
| "handle_legal _ frames s = True"

fun handle_frames :: "handle_op \<Rightarrow> addr list" where
  "handle_frames (HNew x f) = [f]"
| "handle_frames _ = []"

fun legal_run :: "(handle_op \<Rightarrow> handles \<Rightarrow> handles) \<Rightarrow> handle_op list \<Rightarrow> addr list \<Rightarrow> handles \<Rightarrow> bool" where
  "legal_run ex [] frames s = True"
| "legal_run ex (op # ops) frames s = (handle_legal op frames s \<and> legal_run ex ops (frames @ handle_frames op) (ex op s))"

definition handles0 :: handles where
  "handles0 = \<lparr>owner = (\<lambda>_. None), destroyed = []\<rparr>"

section \<open>Unique ownership\<close>

definition unique :: "(addr \<Rightarrow> addr option) \<Rightarrow> bool" where
  "unique m \<longleftrightarrow> (\<forall>x y f. m x = Some f \<longrightarrow> m y = Some f \<longrightarrow> x = y)"

definition handle_inv :: "addr list \<Rightarrow> handles \<Rightarrow> bool" where
  "handle_inv frames s \<longleftrightarrow> unique (owner s) \<and> distinct (destroyed s) \<and>
     ran (owner s) \<inter> set (destroyed s) = {} \<and> set frames = ran (owner s) \<union> set (destroyed s)"

definition frames_of :: "addr option \<Rightarrow> addr list" where
  "frames_of p = (case p of None \<Rightarrow> [] | Some f \<Rightarrow> [f])"

lemma uniqueD: "unique m \<Longrightarrow> m z = Some f \<Longrightarrow> m z' = Some f \<Longrightarrow> z = z'"
  by (simp add: unique_def)

lemma ran_del:
  assumes "unique m"
  shows "f \<in> ran (m(x := None)) \<longleftrightarrow> f \<in> ran m \<and> m x \<noteq> Some f"
proof
  assume "f \<in> ran (m(x := None))"
  then obtain z where z: "z \<noteq> x" "m z = Some f" by (auto simp: ran_def split: if_splits)
  then show "f \<in> ran m \<and> m x \<noteq> Some f" using uniqueD [OF assms, of z f x] ranI by fastforce
next
  assume f: "f \<in> ran m \<and> m x \<noteq> Some f"
  then obtain z where "m z = Some f" "z \<noteq> x" by (auto simp: ran_def)
  then show "f \<in> ran (m(x := None))" by (intro ranI [of _ z]) simp
qed

lemma ran_move:
  assumes "unique m" "x \<noteq> y"
  shows "f \<in> ran (m(x := m y, y := None)) \<longleftrightarrow> f \<in> ran m \<and> m x \<noteq> Some f"
proof
  assume "f \<in> ran (m(x := m y, y := None))"
  then obtain z where z: "z \<noteq> y" "(m(x := m y)) z = Some f" by (auto simp: ran_def split: if_splits)
  show "f \<in> ran m \<and> m x \<noteq> Some f"
  proof (cases "z = x")
    case True
    then show ?thesis using z uniqueD [OF assms(1), of y f x] assms(2) ranI [of m y f] by auto
  next
    case False
    then show ?thesis using z uniqueD [OF assms(1), of z f x] ranI [of m z f] by auto
  qed
next
  assume f: "f \<in> ran m \<and> m x \<noteq> Some f"
  then obtain z where z: "m z = Some f" "z \<noteq> x" by (auto simp: ran_def)
  show "f \<in> ran (m(x := m y, y := None))"
    by (rule ranI [of _ "if z = y then x else z"]) (use z assms(2) in auto)
qed

lemma drop_inv:
  assumes "handle_inv frames s" "\<And>f. f \<in> ran m \<longleftrightarrow> f \<in> ran (owner s) \<and> owner s x \<noteq> Some f"
    "unique m"
  shows "handle_inv frames (s\<lparr>owner := m, destroyed := destroyed s @ frames_of (owner s x)\<rparr>)"
proof (cases "owner s x")
  case None
  then have "ran m = ran (owner s)" using assms(2) by auto
  then show ?thesis using assms(1,3) None by (auto simp: handle_inv_def frames_of_def)
next
  case (Some f)
  then have "f \<in> ran (owner s)" by (rule ranI)
  moreover have "ran m = ran (owner s) - {f}" using assms(2) Some by auto
  ultimately show ?thesis using assms(1,3) Some by (auto simp: handle_inv_def frames_of_def)
qed

text \<open>
  What becomes of one frame, whatever the representation: a program on handles hands it from object to object
  until the object that holds it is destroyed or assigned to.  Assigning an object to itself changes nothing.
\<close>

datatype frame_state = NotYet | HeldBy addr | Gone

fun track :: "addr \<Rightarrow> handle_op \<Rightarrow> frame_state \<Rightarrow> frame_state" where
  "track f (HNew x g) st = (if g = f then HeldBy x else st)"
| "track f (HMove x y) st = (if st = HeldBy y then HeldBy x else st)"
| "track f (HAssign x y) st =
     (if x = y then st else if st = HeldBy x then Gone else if st = HeldBy y then HeldBy x else st)"
| "track f (HDestroy x) st = (if st = HeldBy x then Gone else st)"

definition frame_is :: "addr \<Rightarrow> frame_state \<Rightarrow> handles \<Rightarrow> bool" where
  "frame_is f st s \<longleftrightarrow> (\<forall>x. owner s x = Some f \<longleftrightarrow> st = HeldBy x) \<and> (f \<in> set (destroyed s) \<longleftrightarrow> st = Gone)"

text \<open>What an owning class promises about its move operations and its destructor.\<close>

locale unique_handle =
  fixes mv asg :: "addr \<Rightarrow> addr \<Rightarrow> handles \<Rightarrow> handles" and del :: "addr \<Rightarrow> handles \<Rightarrow> handles"
  assumes mv_law: "x \<noteq> y \<Longrightarrow> mv x y s = s\<lparr>owner := (owner s)(x := owner s y, y := None)\<rparr>"
    and asg_law: "x \<noteq> y \<Longrightarrow> asg x y s = s\<lparr>owner := (owner s)(x := owner s y, y := None), destroyed := destroyed s @ frames_of (owner s x)\<rparr>"
    and asg_self: "asg x x s = s"
    and del_law: "del x s = s\<lparr>owner := (owner s)(x := None), destroyed := destroyed s @ frames_of (owner s x)\<rparr>"
begin

lemma move_inv:
  assumes "handle_inv frames s" "x \<noteq> y"
  shows "handle_inv frames (s\<lparr>owner := (owner s)(x := owner s y, y := None), destroyed := destroyed s @ frames_of (owner s x)\<rparr>)"
proof -
  have u: "unique (owner s)" using assms(1) by (simp add: handle_inv_def)
  then have "unique ((owner s)(x := owner s y, y := None))" using assms(2) by (auto simp: unique_def)
  then show ?thesis using drop_inv [OF assms(1) ran_move [OF u assms(2)]] by simp
qed

lemma del_inv:
  assumes "handle_inv frames s"
  shows "handle_inv frames (del x s)"
proof -
  have u: "unique (owner s)" using assms by (simp add: handle_inv_def)
  then have "unique ((owner s)(x := None))" by (auto simp: unique_def)
  then show ?thesis using drop_inv [OF assms ran_del [OF u]] by (simp add: del_law)
qed

lemma exec_handles:
  assumes "handle_inv frames s" "handle_legal op frames s"
  shows "handle_inv (frames @ handle_frames op) (handle_exec mv asg del op s)"
proof (cases op)
  case (HNew x f)
  then have "owner s x = None" "f \<notin> ran (owner s)" "f \<notin> set (destroyed s)" "set frames = ran (owner s) \<union> set (destroyed s)"
    using assms by (auto simp: handle_inv_def)
  moreover have "ran ((owner s)(x := Some f)) = insert f (ran (owner s))" using calculation(1) by simp
  ultimately show ?thesis using HNew assms(1) by (auto simp: handle_inv_def handle_new_def unique_def ran_def)
next
  case (HMove x y)
  then have "owner s x = None" "x \<noteq> y" using assms(2) by auto
  then show ?thesis using HMove move_inv [OF assms(1), of x y] by (simp add: mv_law frames_of_def)
next
  case (HAssign x y)
  then show ?thesis using move_inv [OF assms(1), of x y] assms(1) by (cases "x = y") (simp_all add: asg_law asg_self)
next
  case (HDestroy x)
  then show ?thesis using del_inv [OF assms(1)] by simp
qed

lemma exec_tracks:
  assumes "handle_inv frames s" "handle_legal op frames s" "frame_is f st s"
  shows "frame_is f (track f op st) (handle_exec mv asg del op s)"
proof -
  have o: "owner s z = Some f \<longleftrightarrow> st = HeldBy z" for z using assms(3) by (simp add: frame_is_def)
  have d: "f \<in> set (destroyed s) \<longleftrightarrow> st = Gone" using assms(3) by (simp add: frame_is_def)
  show ?thesis
  proof (cases op)
    case (HNew x g)
    have n: "owner s x = None" "g \<notin> ran (owner s)" "g \<notin> set (destroyed s)" using assms(1,2) HNew by (auto simp: handle_inv_def)
    have "owner s z \<noteq> Some g" for z using n(2) by (auto simp: ran_def)
    moreover have "st \<noteq> HeldBy x" using n(1) o [of x] by simp
    ultimately show ?thesis using HNew n(3) o d by (auto simp: frame_is_def handle_new_def)
  next
    case (HMove x y)
    then have "owner s x = None" "x \<noteq> y" using assms(2) by auto
    moreover have "st \<noteq> HeldBy x" using calculation(1) o [of x] by simp
    ultimately show ?thesis using HMove by (simp add: frame_is_def mv_law o d)
  next
    case (HAssign x y)
    show ?thesis
    proof (cases "x = y")
      case True
      then show ?thesis using HAssign assms(3) by (simp add: asg_self)
    next
      case False
      have "f \<in> set (frames_of (owner s x)) \<longleftrightarrow> st = HeldBy x" using o [of x] by (auto simp: frames_of_def split: option.splits)
      then show ?thesis using HAssign False by (simp add: frame_is_def asg_law o d)
    qed
  next
    case (HDestroy x)
    have "f \<in> set (frames_of (owner s x)) \<longleftrightarrow> st = HeldBy x" using o [of x] by (auto simp: frames_of_def split: option.splits)
    then show ?thesis using HDestroy by (simp add: frame_is_def del_law o d)
  qed
qed

lemma run_handles:
  assumes "handle_inv frames s" "legal_run (handle_exec mv asg del) ops frames s" "frame_is f st s"
  shows "handle_inv (frames @ concat (map handle_frames ops)) (fold (handle_exec mv asg del) ops s) \<and>
    frame_is f (fold (track f) ops st) (fold (handle_exec mv asg del) ops s)"
  using assms
proof (induction ops arbitrary: frames s st)
  case (Cons op ops)
  then show ?case using exec_handles [of frames s op] exec_tracks [of frames s op f st]
    by (simp del: append_assoc add: append_assoc [symmetric])
qed simp

lemma run_handles0:
  assumes "legal_run (handle_exec mv asg del) ops [] handles0"
  shows "handle_inv (concat (map handle_frames ops)) (fold (handle_exec mv asg del) ops handles0) \<and>
    frame_is f (fold (track f) ops NotYet) (fold (handle_exec mv asg del) ops handles0)"
  using run_handles [of "[]" handles0 ops f NotYet] assms by (simp add: handle_inv_def handles0_def unique_def frame_is_def)

end

interpretation coro_handle: unique_handle coro_move coro_assign coro_destroy
  by unfold_locales
     (auto simp: coro_move_def coro_assign_def coro_destroy_def frame_destroy_def frames_of_def Let_def fun_upd_twist split: option.splits)

interpretation async_handle: unique_handle async_move async_assign async_destroy
  by unfold_locales
     (auto simp: async_move_def async_assign_def async_destroy_def frame_destroy_def frames_of_def Let_def fun_upd_twist split: option.splits)

section \<open>Packaged awaitables\<close>

text \<open>
  Frames point back to the object that holds their handle and to its result.  \<open>None\<close> as a result of an
  operation is an access to a frame or an object that is gone, or the failed assertion of
  \<open>destroy\<close>.
\<close>

record 'a pk_heap =
  pk_alive :: "addr \<Rightarrow> bool"
  pk_result_ptr :: "addr \<Rightarrow> addr option"
  pk_handle_ptr :: "addr \<Rightarrow> addr option"
  pk_objects :: "addr set"
  pk_handle :: "addr \<Rightarrow> addr option"
  pk_result :: "addr \<Rightarrow> 'a result"

definition pk_bind :: "addr \<Rightarrow> addr \<Rightarrow> 'a pk_heap \<Rightarrow> 'a pk_heap option" where
  "pk_bind f x s =
     (if pk_alive s f then Some (s\<lparr>pk_result_ptr := (pk_result_ptr s)(f := Some x), pk_handle_ptr := (pk_handle_ptr s)(f := Some x)\<rparr>) else None)"

definition pk_unbind :: "addr \<Rightarrow> 'a pk_heap \<Rightarrow> 'a pk_heap option" where
  "pk_unbind f s =
     (if pk_alive s f then Some (s\<lparr>pk_result_ptr := (pk_result_ptr s)(f := None), pk_handle_ptr := (pk_handle_ptr s)(f := None)\<rparr>) else None)"

text \<open>A frame is destroyed with its promise.\<close>

definition pk_frame_destroy :: "addr \<Rightarrow> 'a pk_heap \<Rightarrow> 'a pk_heap option" where
  "pk_frame_destroy f s =
     (if \<not> pk_alive s f then None
      else let s = s\<lparr>pk_alive := (pk_alive s)(f := False)\<rparr> in
        case pk_handle_ptr s f of
          None \<Rightarrow> Some s
        | Some x \<Rightarrow> if x \<in> pk_objects s then Some (s\<lparr>pk_handle := (pk_handle s)(x := None)\<rparr>) else None)"

definition pk_store :: "'a outcome \<Rightarrow> 'a result \<Rightarrow> 'a result" where
  "pk_store out r = (case out of Ret v \<Rightarrow> set_value v r | Throw e \<Rightarrow> set_exception e r | _ \<Rightarrow> r)"

definition pk_return :: "addr \<Rightarrow> 'a outcome \<Rightarrow> 'a pk_heap \<Rightarrow> 'a pk_heap option" where
  "pk_return f out s =
     (if \<not> pk_alive s f then None
      else case pk_result_ptr s f of
          None \<Rightarrow> Some s
        | Some x \<Rightarrow> if x \<in> pk_objects s then Some (s\<lparr>pk_result := (pk_result s)(x := pk_store out (pk_result s x))\<rparr>) else None)"

text \<open>The end of the body; \<open>final_suspend\<close> does not suspend, so that the frame goes away.\<close>

definition pk_finish :: "addr \<Rightarrow> 'a outcome \<Rightarrow> 'a pk_heap \<Rightarrow> 'a pk_heap option" where
  "pk_finish f out s = Option.bind (pk_return f out s) (pk_frame_destroy f)"

text \<open>The constructor; \<open>now\<close> is the end of the body when it does not suspend.\<close>

definition pk_new :: "addr \<Rightarrow> addr \<Rightarrow> 'a outcome option \<Rightarrow> 'a pk_heap \<Rightarrow> 'a pk_heap option" where
  "pk_new x f now s =
     (let s = s\<lparr>pk_alive := (pk_alive s)(f := True), pk_result_ptr := (pk_result_ptr s)(f := None), pk_handle_ptr := (pk_handle_ptr s)(f := None),
                pk_objects := insert x (pk_objects s), pk_handle := (pk_handle s)(x := Some f), pk_result := (pk_result s)(x := Empty)\<rparr>
      in Option.bind (pk_bind f x s) (\<lambda>s. case now of None \<Rightarrow> Some s | Some out \<Rightarrow> pk_finish f out s))"

definition pk_move :: "addr \<Rightarrow> addr \<Rightarrow> 'a pk_heap \<Rightarrow> 'a pk_heap option" where
  "pk_move x y s =
     (if y \<notin> pk_objects s then None
      else let h = pk_handle s y;
               s = s\<lparr>pk_objects := insert x (pk_objects s), pk_result := (pk_result s)(x := pk_result s y, y := snd (take_value (pk_result s y))),
                     pk_handle := (pk_handle s)(y := None, x := h)\<rparr>
           in case h of None \<Rightarrow> Some s | Some f \<Rightarrow> pk_bind f x s)"

definition pk_destroy :: "addr \<Rightarrow> 'a pk_heap \<Rightarrow> 'a pk_heap option" where
  "pk_destroy y s = (case pk_handle s y of
       None \<Rightarrow> Some s
     | Some f \<Rightarrow> (case pk_frame_destroy f s of
           None \<Rightarrow> None
         | Some s \<Rightarrow> if pk_handle s y = None then Some s else None))"

definition pk_delete :: "addr \<Rightarrow> 'a pk_heap \<Rightarrow> 'a pk_heap option" where
  "pk_delete y s = map_option (\<lambda>s. s\<lparr>pk_objects := pk_objects s - {y}\<rparr>) (pk_destroy y s)"

definition pk_release :: "addr \<Rightarrow> 'a pk_heap \<Rightarrow> (addr option \<times> 'a pk_heap) option" where
  "pk_release y s = (case pk_handle s y of
       None \<Rightarrow> Some (None, s)
     | Some f \<Rightarrow> map_option (\<lambda>s. (Some f, s\<lparr>pk_handle := (pk_handle s)(y := None)\<rparr>)) (pk_unbind f s))"

definition pk_running :: "addr \<Rightarrow> 'a pk_heap \<Rightarrow> bool" where
  "pk_running y s = (pk_handle s y \<noteq> None)"

datatype 'a pk_op = PNew addr addr "'a outcome option" | PMove addr addr | PDestroy addr | PDelete addr | PRelease addr | PEnd addr "'a outcome"

fun pk_exec :: "'a pk_op \<Rightarrow> 'a pk_heap \<Rightarrow> 'a pk_heap option" where
  "pk_exec (PNew x f now) s = pk_new x f now s"
| "pk_exec (PMove x y) s = pk_move x y s"
| "pk_exec (PDestroy y) s = pk_destroy y s"
| "pk_exec (PDelete y) s = pk_delete y s"
| "pk_exec (PRelease y) s = map_option snd (pk_release y s)"
| "pk_exec (PEnd f out) s = pk_finish f out s"

text \<open>Objects are constructed where none is, used while they exist, and a body that runs can end.\<close>

fun pk_legal :: "'a pk_op \<Rightarrow> 'a pk_heap \<Rightarrow> bool" where
  "pk_legal (PNew x f now) s = (x \<notin> pk_objects s \<and> \<not> pk_alive s f)"
| "pk_legal (PMove x y) s = (x \<notin> pk_objects s \<and> y \<in> pk_objects s)"
| "pk_legal (PDestroy y) s = (y \<in> pk_objects s)"
| "pk_legal (PDelete y) s = (y \<in> pk_objects s)"
| "pk_legal (PRelease y) s = (y \<in> pk_objects s)"
| "pk_legal (PEnd f out) s = pk_alive s f"


text \<open>
  The handles of the objects and the pointers back of the live frames are inverse to each other,
  and a frame points only to objects that exist.
\<close>

definition pk_linked ::
  "addr set \<Rightarrow> (addr \<Rightarrow> addr option) \<Rightarrow> (addr \<Rightarrow> bool) \<Rightarrow> (addr \<Rightarrow> addr option) \<Rightarrow> (addr \<Rightarrow> addr option) \<Rightarrow> bool" where
  "pk_linked objs h alive rp hp \<longleftrightarrow> (\<forall>x f. x \<in> objs \<longrightarrow> h x = Some f \<longrightarrow> alive f \<and> hp f = Some x) \<and>
     (\<forall>f x. alive f \<longrightarrow> hp f = Some x \<longrightarrow> x \<in> objs \<and> h x = Some f) \<and> (\<forall>f. alive f \<longrightarrow> rp f = hp f)"

definition pk_inv :: "'a pk_heap \<Rightarrow> bool" where
  "pk_inv s \<longleftrightarrow> pk_linked (pk_objects s) (pk_handle s) (pk_alive s) (pk_result_ptr s) (pk_handle_ptr s)"

lemma pk_linkedD:
  assumes "pk_linked objs h alive rp hp"
  shows "x \<in> objs \<Longrightarrow> h x = Some f \<Longrightarrow> alive f" "x \<in> objs \<Longrightarrow> h x = Some f \<Longrightarrow> hp f = Some x"
    "alive f \<Longrightarrow> hp f = Some x \<Longrightarrow> x \<in> objs" "alive f \<Longrightarrow> hp f = Some x \<Longrightarrow> h x = Some f" "alive f \<Longrightarrow> rp f = hp f"
  using assms unfolding pk_linked_def by blast+

lemma pk_linkedI:
  assumes "\<And>x f. x \<in> objs \<Longrightarrow> h x = Some f \<Longrightarrow> alive f \<and> hp f = Some x"
    "\<And>f x. alive f \<Longrightarrow> hp f = Some x \<Longrightarrow> x \<in> objs \<and> h x = Some f" "\<And>f. alive f \<Longrightarrow> rp f = hp f"
  shows "pk_linked objs h alive rp hp"
  using assms unfolding pk_linked_def by blast

lemma pk_linked_none:
  assumes "pk_linked objs h alive rp hp" "hp f = None"
  shows "pk_linked objs h (alive(f := False)) rp hp"
proof (rule pk_linkedI)
  fix x g assume "x \<in> objs" "h x = Some g"
  then show "(alive(f := False)) g \<and> hp g = Some x" using pk_linkedD(1,2) [OF assms(1), of x g] assms(2) by auto
qed (use pk_linkedD(3-5) [OF assms(1)] in \<open>auto split: if_splits\<close>)

lemma pk_linked_drop:
  assumes "pk_linked objs h alive rp hp" "alive f" "hp f = Some x"
  shows "pk_linked objs (h(x := None)) (alive(f := False)) rp hp"
proof (rule pk_linkedI)
  fix y g assume y: "y \<in> objs" "(h(x := None)) y = Some g"
  then have g: "y \<noteq> x" "alive g" "hp g = Some y" using pk_linkedD(1,2) [OF assms(1)] by (auto split: if_splits)
  then show "(alive(f := False)) g \<and> hp g = Some y" using assms(3) by auto
next
  fix g y assume "(alive(f := False)) g" and y: "hp g = Some y"
  then have g: "alive g" "g \<noteq> f" by (auto split: if_splits)
  then have "y \<noteq> x" using pk_linkedD(4) [OF assms] pk_linkedD(4) [OF assms(1) g(1) y] by auto
  then show "y \<in> objs \<and> (h(x := None)) y = Some g" using pk_linkedD(3,4) [OF assms(1) g(1) y] by simp
qed (use pk_linkedD(5) [OF assms(1)] in \<open>auto split: if_splits\<close>)

lemma pk_linked_new:
  assumes "pk_linked objs h alive rp hp" "x \<notin> objs" "\<not> alive f"
  shows "pk_linked (insert x objs) (h(x := Some f)) (alive(f := True)) (rp(f := Some x)) (hp(f := Some x))"
proof (rule pk_linkedI)
  fix y g assume "y \<in> insert x objs" "(h(x := Some f)) y = Some g"
  then show "(alive(f := True)) g \<and> (hp(f := Some x)) g = Some y"
    using pk_linkedD(1,2) [OF assms(1), of y g] assms(2,3) by (auto split: if_splits)
next
  fix g y assume "(alive(f := True)) g" "(hp(f := Some x)) g = Some y"
  then show "y \<in> insert x objs \<and> (h(x := Some f)) y = Some g"
    using pk_linkedD(3,4) [OF assms(1), of g y] assms(2) by (auto split: if_splits)
qed (use pk_linkedD(5) [OF assms(1)] in \<open>auto split: if_splits\<close>)

lemma pk_linked_move:
  assumes "pk_linked objs h alive rp hp" "x \<notin> objs" "y \<in> objs" "h y = Some f"
  shows "pk_linked (insert x objs) (h(y := None, x := Some f)) alive (rp(f := Some x)) (hp(f := Some x))"
proof (rule pk_linkedI)
  note f = pk_linkedD(1,2) [OF assms(1,3,4)]
  fix z g assume "z \<in> insert x objs" "(h(y := None, x := Some f)) z = Some g"
  then show "alive g \<and> (hp(f := Some x)) g = Some z"
    using pk_linkedD(1,2) [OF assms(1), of z g] assms(2) f by (auto split: if_splits)
next
  fix g z assume "alive g" "(hp(f := Some x)) g = Some z"
  then show "z \<in> insert x objs \<and> (h(y := None, x := Some f)) z = Some g"
    using pk_linkedD(3,4) [OF assms(1), of g z] assms(2,4) by (auto split: if_splits)
qed (use pk_linkedD(5) [OF assms(1)] in \<open>auto split: if_splits\<close>)

lemma pk_linked_unbind:
  assumes "pk_linked objs h alive rp hp" "y \<in> objs" "h y = Some f"
  shows "pk_linked objs (h(y := None)) alive (rp(f := None)) (hp(f := None))"
proof (rule pk_linkedI)
  note f = pk_linkedD(1,2) [OF assms]
  fix z g assume "z \<in> objs" "(h(y := None)) z = Some g"
  then show "alive g \<and> (hp(f := None)) g = Some z" using pk_linkedD(1,2) [OF assms(1), of z g] f by (auto split: if_splits)
next
  fix g z assume "alive g" "(hp(f := None)) g = Some z"
  then show "z \<in> objs \<and> (h(y := None)) z = Some g" using pk_linkedD(3,4) [OF assms(1), of g z] assms(3) by (auto split: if_splits)
qed (use pk_linkedD(5) [OF assms(1)] in \<open>auto split: if_splits\<close>)

lemma pk_linked_delete:
  assumes "pk_linked objs h alive rp hp" "h y = None"
  shows "pk_linked (objs - {y}) h alive rp hp"
proof (rule pk_linkedI)
  fix f x assume "alive f" "hp f = Some x"
  then show "x \<in> objs - {y} \<and> h x = Some f" using pk_linkedD(3,4) [OF assms(1), of f x] assms(2) by auto
qed (use pk_linkedD(1,2,5) [OF assms(1)] in auto)

lemma pk_linked_move_none:
  assumes "pk_linked objs h alive rp hp" "x \<notin> objs" "h y = None"
  shows "pk_linked (insert x objs) (h(y := None, x := None)) alive rp hp"
proof (rule pk_linkedI)
  fix z g assume "z \<in> insert x objs" "(h(y := None, x := None)) z = Some g"
  then show "alive g \<and> hp g = Some z" using pk_linkedD(1,2) [OF assms(1), of z g] by (auto split: if_splits)
next
  fix g z assume "alive g" "hp g = Some z"
  then show "z \<in> insert x objs \<and> (h(y := None, x := None)) z = Some g" using pk_linkedD(3,4) [OF assms(1), of g z] assms(2,3) by auto
qed (use pk_linkedD(5) [OF assms(1)] in auto)

text \<open>No frame is lost: only a released frame lives without an object.\<close>

fun pk_releases :: "'a pk_op \<Rightarrow> bool" where
  "pk_releases (PRelease y) = True"
| "pk_releases _ = False"

definition pk_owned :: "'a pk_heap \<Rightarrow> bool" where
  "pk_owned s \<longleftrightarrow> (\<forall>f. pk_alive s f \<longrightarrow> pk_handle_ptr s f \<noteq> None)"

definition pk0 :: "'a pk_heap" where
  "pk0 = \<lparr>pk_alive = (\<lambda>_. False), pk_result_ptr = (\<lambda>_. None), pk_handle_ptr = (\<lambda>_. None), pk_objects = {}, pk_handle = (\<lambda>_. None), pk_result = (\<lambda>_. Empty)\<rparr>"

fun pk_run :: "'a pk_op list \<Rightarrow> 'a pk_heap \<Rightarrow> 'a pk_heap option" where
  "pk_run [] s = Some s"
| "pk_run (op # ops) s = Option.bind (pk_exec op s) (pk_run ops)"

fun pk_legal_run :: "'a pk_op list \<Rightarrow> 'a pk_heap \<Rightarrow> bool" where
  "pk_legal_run [] s = True"
| "pk_legal_run (op # ops) s = (pk_legal op s \<and> (case pk_exec op s of None \<Rightarrow> True | Some s' \<Rightarrow> pk_legal_run ops s'))"

lemma pk_frame_destroy_inv:
  assumes "pk_inv s" "pk_alive s f"
  obtains s' where "pk_frame_destroy f s = Some s'" "pk_inv s'" "pk_objects s' = pk_objects s" "pk_result s' = pk_result s"
    "pk_alive s' = (pk_alive s)(f := False)" "\<And>y. y \<in> pk_objects s \<Longrightarrow> pk_handle s y = Some f \<Longrightarrow> pk_handle s' y = None"
proof (cases "pk_handle_ptr s f")
  case None
  let ?s = "s\<lparr>pk_alive := (pk_alive s)(f := False)\<rparr>"
  have "pk_frame_destroy f s = Some ?s" using assms(2) None by (simp add: pk_frame_destroy_def Let_def)
  moreover have "pk_inv ?s" using assms(1) None pk_linked_none by (simp add: pk_inv_def)
  moreover have "pk_handle s y \<noteq> Some f" if "y \<in> pk_objects s" for y
    using pk_linkedD(2) [of _ "pk_handle s", OF _ that] assms(1) None by (fastforce simp: pk_inv_def)
  ultimately show ?thesis using that [of ?s] by simp
next
  case (Some x)
  let ?s = "s\<lparr>pk_alive := (pk_alive s)(f := False), pk_handle := (pk_handle s)(x := None)\<rparr>"
  note l = assms(1) [unfolded pk_inv_def]
  have "pk_frame_destroy f s = Some ?s" using assms(2) Some pk_linkedD(3) [OF l] by (simp add: pk_frame_destroy_def Let_def)
  moreover have "pk_inv ?s" using pk_linked_drop [OF l assms(2) Some] by (simp add: pk_inv_def)
  moreover have "y = x" if "y \<in> pk_objects s" "pk_handle s y = Some f" for y using pk_linkedD(2) [OF l that] Some by simp
  ultimately show ?thesis using that [of ?s] by simp
qed

lemma pk_return_inv:
  assumes "pk_inv s" "pk_alive s f"
  obtains s' where "pk_return f out s = Some s'" "pk_inv s'" "pk_alive s' = pk_alive s" "pk_objects s' = pk_objects s" "pk_handle s' = pk_handle s"
    "pk_handle_ptr s' = pk_handle_ptr s" "\<And>x. pk_handle_ptr s f = Some x \<Longrightarrow> pk_result s' x = pk_store out (pk_result s x)"
    "\<And>x. pk_handle_ptr s f \<noteq> Some x \<Longrightarrow> pk_result s' x = pk_result s x"
proof (cases "pk_handle_ptr s f")
  case None
  then show ?thesis using that [of s] assms pk_linkedD(5) [OF assms(1) [unfolded pk_inv_def] assms(2)] by (simp add: pk_return_def)
next
  case (Some x)
  let ?s = "s\<lparr>pk_result := (pk_result s)(x := pk_store out (pk_result s x))\<rparr>"
  note l = assms(1) [unfolded pk_inv_def]
  have "pk_return f out s = Some ?s" using assms(2) Some pk_linkedD(3,5) [OF l assms(2)] by (simp add: pk_return_def)
  then show ?thesis using that [of ?s] assms(1) Some by (simp add: pk_inv_def)
qed

lemma pk_finish_inv:
  assumes "pk_inv s" "pk_alive s f"
  obtains s' where "pk_finish f out s = Some s'" "pk_inv s'" "pk_objects s' = pk_objects s" "pk_alive s' = (pk_alive s)(f := False)"
    "\<And>x. pk_handle_ptr s f = Some x \<Longrightarrow> pk_result s' x = pk_store out (pk_result s x) \<and> pk_handle s' x = None"
    "\<And>x. pk_handle_ptr s f \<noteq> Some x \<Longrightarrow> pk_result s' x = pk_result s x"
proof -
  obtain s1 where s1: "pk_return f out s = Some s1" "pk_inv s1" "pk_alive s1 = pk_alive s" "pk_objects s1 = pk_objects s" "pk_handle s1 = pk_handle s"
    "pk_handle_ptr s1 = pk_handle_ptr s" "\<And>x. pk_handle_ptr s f = Some x \<Longrightarrow> pk_result s1 x = pk_store out (pk_result s x)"
    "\<And>x. pk_handle_ptr s f \<noteq> Some x \<Longrightarrow> pk_result s1 x = pk_result s x"
    using pk_return_inv [OF assms] by metis
  obtain s2 where s2: "pk_frame_destroy f s1 = Some s2" "pk_inv s2" "pk_objects s2 = pk_objects s1" "pk_result s2 = pk_result s1"
    "pk_alive s2 = (pk_alive s1)(f := False)" "\<And>y. y \<in> pk_objects s1 \<Longrightarrow> pk_handle s1 y = Some f \<Longrightarrow> pk_handle s2 y = None"
    using pk_frame_destroy_inv [OF s1(2), of f] s1(3) assms(2) by metis
  have "pk_handle s2 x = None" if "pk_handle_ptr s f = Some x" for x
    using s2(6) [of x] that assms pk_linkedD(3,4) [OF assms(1) [unfolded pk_inv_def] assms(2) that] s1(4,5) by simp
  then show ?thesis using that [of s2] s1 s2(1-5) by (simp add: pk_finish_def)
qed

lemma pk_destroy_inv:
  assumes "pk_inv s" "y \<in> pk_objects s"
  obtains s' where "pk_destroy y s = Some s'" "pk_inv s'" "pk_handle s' y = None" "pk_objects s' = pk_objects s" "pk_result s' = pk_result s"
    "\<And>f. pk_handle s y = Some f \<Longrightarrow> \<not> pk_alive s' f"
proof (cases "pk_handle s y")
  case None
  then show ?thesis using that [of s] assms(1) by (simp add: pk_destroy_def)
next
  case (Some f)
  have "pk_alive s f" using pk_linkedD(1) [OF assms(1) [unfolded pk_inv_def] assms(2) Some] .
  then obtain s1 where "pk_frame_destroy f s = Some s1" "pk_inv s1" "pk_objects s1 = pk_objects s" "pk_result s1 = pk_result s"
    "pk_alive s1 = (pk_alive s)(f := False)" "pk_handle s1 y = None"
    using pk_frame_destroy_inv [OF assms(1)] Some assms(2) by metis
  then show ?thesis using that [of s1] Some by (simp add: pk_destroy_def)
qed

lemma pk_move_inv:
  assumes "pk_inv s" "x \<notin> pk_objects s" "y \<in> pk_objects s"
  obtains s' where "pk_move x y s = Some s'" "pk_inv s'" "pk_handle s' x = pk_handle s y" "pk_result s' x = pk_result s y"
    "pk_handle s' y = None" "pk_alive s' = pk_alive s" "x \<in> pk_objects s'"
    "\<And>f. pk_handle s y = Some f \<Longrightarrow> pk_handle_ptr s' f = Some x"
proof (cases "pk_handle s y")
  case None
  let ?s = "s\<lparr>pk_objects := insert x (pk_objects s), pk_result := (pk_result s)(x := pk_result s y, y := snd (take_value (pk_result s y))),
    pk_handle := (pk_handle s)(y := None, x := None)\<rparr>"
  have "pk_move x y s = Some ?s" using assms(3) None by (simp add: pk_move_def)
  moreover have "pk_inv ?s" using pk_linked_move_none [OF assms(1) [unfolded pk_inv_def] assms(2) None] by (simp add: pk_inv_def)
  moreover have "x \<noteq> y" using assms(2,3) by auto
  ultimately show ?thesis using that [of ?s] None by simp
next
  case (Some f)
  let ?s = "s\<lparr>pk_objects := insert x (pk_objects s), pk_result := (pk_result s)(x := pk_result s y, y := snd (take_value (pk_result s y))),
    pk_handle := (pk_handle s)(y := None, x := Some f), pk_result_ptr := (pk_result_ptr s)(f := Some x), pk_handle_ptr := (pk_handle_ptr s)(f := Some x)\<rparr>"
  note l = assms(1) [unfolded pk_inv_def]
  have "pk_move x y s = Some ?s" using assms(3) Some pk_linkedD(1) [OF l assms(3) Some] by (simp add: pk_move_def pk_bind_def)
  moreover have "pk_inv ?s" using pk_linked_move [OF l assms(2,3) Some] by (simp add: pk_inv_def)
  moreover have "x \<noteq> y" using assms(2,3) by auto
  ultimately show ?thesis using that [of ?s] Some by simp
qed

lemma pk_release_inv:
  assumes "pk_inv s" "y \<in> pk_objects s"
  obtains s' where "pk_release y s = Some (pk_handle s y, s')" "pk_inv s'" "pk_handle s' y = None" "pk_alive s' = pk_alive s" "pk_result s' = pk_result s"
proof (cases "pk_handle s y")
  case None
  then show ?thesis using that [of s] assms(1) by (simp add: pk_release_def)
next
  case (Some f)
  let ?s = "s\<lparr>pk_result_ptr := (pk_result_ptr s)(f := None), pk_handle_ptr := (pk_handle_ptr s)(f := None), pk_handle := (pk_handle s)(y := None)\<rparr>"
  note l = assms(1) [unfolded pk_inv_def]
  have "pk_release y s = Some (Some f, ?s)" using pk_linkedD(1) [OF l assms(2) Some] Some by (simp add: pk_release_def pk_unbind_def)
  moreover have "pk_inv ?s" using pk_linked_unbind [OF l assms(2) Some] by (simp add: pk_inv_def)
  ultimately show ?thesis using that [of ?s] Some by simp
qed

lemma pk_new_inv:
  assumes "pk_inv s" "x \<notin> pk_objects s" "\<not> pk_alive s f"
  shows "\<exists>s'. pk_new x f now s = Some s' \<and> pk_inv s'"
proof -
  let ?s = "s\<lparr>pk_alive := (pk_alive s)(f := True), pk_objects := insert x (pk_objects s), pk_handle := (pk_handle s)(x := Some f),
    pk_result := (pk_result s)(x := Empty), pk_result_ptr := (pk_result_ptr s)(f := Some x), pk_handle_ptr := (pk_handle_ptr s)(f := Some x)\<rparr>"
  have i: "pk_inv ?s" using pk_linked_new [OF assms(1) [unfolded pk_inv_def] assms(2,3)] by (simp add: pk_inv_def)
  have "pk_new x f now s = (case now of None \<Rightarrow> Some ?s | Some out \<Rightarrow> pk_finish f out ?s)" by (simp add: pk_new_def pk_bind_def Let_def)
  moreover have "\<exists>s'. pk_finish f out ?s = Some s' \<and> pk_inv s'" for out
    by (rule pk_finish_inv [OF i, of f out]) (simp, blast)
  ultimately show ?thesis using i by (cases now) simp_all
qed

lemma pk_exec_inv:
  assumes "pk_inv s" "pk_legal op s"
  shows "\<exists>s'. pk_exec op s = Some s' \<and> pk_inv s'"
proof (cases op)
  case (PNew x f now)
  then show ?thesis using pk_new_inv [OF assms(1)] assms(2) by auto
next
  case (PMove x y)
  then show ?thesis using assms(2) by (auto intro: pk_move_inv [OF assms(1), of x y])
next
  case (PDestroy y)
  then show ?thesis using assms(2) by (auto intro: pk_destroy_inv [OF assms(1), of y])
next
  case (PDelete y)
  then obtain s' where s': "pk_destroy y s = Some s'" "pk_inv s'" "pk_handle s' y = None"
    using pk_destroy_inv [OF assms(1), of y] assms(2) by (metis pk_legal.simps(4))
  then have "pk_inv (s'\<lparr>pk_objects := pk_objects s' - {y}\<rparr>)" using pk_linked_delete [OF s'(2) [unfolded pk_inv_def]] by (simp add: pk_inv_def)
  then show ?thesis using PDelete s' by (simp add: pk_delete_def)
next
  case (PRelease y)
  then show ?thesis using assms(2) by (auto intro: pk_release_inv [OF assms(1), of y])
next
  case (PEnd f out)
  then show ?thesis using assms(2) by (auto intro: pk_finish_inv [OF assms(1), of f out])
qed

lemma pk_frame_destroy_owned: "pk_frame_destroy f s = Some s' \<Longrightarrow> pk_owned s \<Longrightarrow> pk_owned s'"
  by (auto simp: pk_frame_destroy_def Let_def pk_owned_def split: if_splits option.splits)

lemma pk_finish_owned:
  assumes "pk_finish f out s = Some s'" "pk_owned s"
  shows "pk_owned s'"
proof -
  obtain s1 where s1: "pk_return f out s = Some s1" "pk_frame_destroy f s1 = Some s'" using assms(1) by (auto simp: pk_finish_def bind_eq_Some_conv)
  have "pk_owned s1" using s1(1) assms(2) by (auto simp: pk_return_def pk_owned_def split: if_splits option.splits)
  then show ?thesis by (rule pk_frame_destroy_owned [OF s1(2)])
qed

lemma pk_destroy_owned: "pk_destroy y s = Some s' \<Longrightarrow> pk_owned s \<Longrightarrow> pk_owned s'"
  by (auto simp: pk_destroy_def dest: pk_frame_destroy_owned split: if_splits option.splits)

lemma pk_new_owned:
  assumes "pk_new x f now s = Some s'" "pk_owned s"
  shows "pk_owned s'"
proof -
  let ?s = "s\<lparr>pk_alive := (pk_alive s)(f := True), pk_objects := insert x (pk_objects s), pk_handle := (pk_handle s)(x := Some f),
    pk_result := (pk_result s)(x := Empty), pk_result_ptr := (pk_result_ptr s)(f := Some x), pk_handle_ptr := (pk_handle_ptr s)(f := Some x)\<rparr>"
  have "pk_owned ?s" using assms(2) by (simp add: pk_owned_def)
  moreover have "(case now of None \<Rightarrow> Some ?s | Some out \<Rightarrow> pk_finish f out ?s) = Some s'" using assms(1) by (simp add: pk_new_def pk_bind_def Let_def)
  ultimately show ?thesis using pk_finish_owned by (cases now) auto
qed

lemma pk_exec_owned:
  assumes "pk_owned s" "\<not> pk_releases op" "pk_exec op s = Some s'"
  shows "pk_owned s'"
proof (cases op)
  case (PMove x y)
  then show ?thesis using assms by (auto simp: pk_move_def pk_bind_def pk_owned_def Let_def split: if_splits option.splits)
next
  case (PDelete y)
  then obtain s1 where s1: "pk_destroy y s = Some s1" "s' = s1\<lparr>pk_objects := pk_objects s1 - {y}\<rparr>" using assms(3) by (auto simp: pk_delete_def)
  then show ?thesis using pk_destroy_owned [OF s1(1) assms(1)] by (simp add: pk_owned_def)
qed (use assms pk_new_owned pk_destroy_owned pk_finish_owned in auto)

lemma pk_run_inv:
  assumes "pk_inv s" "pk_legal_run ops s"
  shows "\<exists>s'. pk_run ops s = Some s' \<and> pk_inv s' \<and> (pk_owned s \<longrightarrow> list_all (\<lambda>op. \<not> pk_releases op) ops \<longrightarrow> pk_owned s')"
  using assms
proof (induction ops arbitrary: s)
  case (Cons op ops)
  obtain s1 where s1: "pk_exec op s = Some s1" "pk_inv s1" using pk_exec_inv [OF Cons.prems(1)] Cons.prems(2) by auto
  then obtain s2 where "pk_run ops s1 = Some s2" "pk_inv s2" "pk_owned s1 \<longrightarrow> list_all (\<lambda>op. \<not> pk_releases op) ops \<longrightarrow> pk_owned s2"
    using Cons.IH [of s1] Cons.prems(2) by auto
  moreover have "pk_owned s \<Longrightarrow> \<not> pk_releases op \<Longrightarrow> pk_owned s1" using pk_exec_owned s1(1) by blast
  ultimately show ?case using s1(1) by auto
qed simp

text \<open>
  C34. Packaged awaitables stay well-formed.  Every program that constructs, moves, destroys and
  releases packaged awaitables, whatever the order in which their bodies end, runs without
  touching a frame or an object that is gone and without the failing assertion of
  \<open>destroy\<close>; afterwards handles and back pointers are inverse to each other, and, unless the
  program released a handle, no frame is left once no packaged awaitable is left.
\<close>

theorem packaged_awaitable_safe:
  assumes "pk_legal_run ops pk0"
  shows "\<exists>s. pk_run ops pk0 = Some s \<and> pk_inv s \<and>
    (list_all (\<lambda>op. \<not> pk_releases op) ops \<longrightarrow> pk_objects s = {} \<longrightarrow> (\<forall>f. \<not> pk_alive s f))"
proof -
  have "pk_inv (pk0 :: 'a pk_heap)" "pk_owned (pk0 :: 'a pk_heap)" by (simp_all add: pk0_def pk_inv_def pk_linked_def pk_owned_def)
  then obtain s where s: "pk_run ops pk0 = Some s" "pk_inv s" "list_all (\<lambda>op. \<not> pk_releases op) ops \<longrightarrow> pk_owned s"
    using pk_run_inv [OF _ assms] by auto
  have "pk_objects s \<noteq> {}" if o: "pk_owned s" and f: "pk_alive s f" for f
  proof -
    obtain x where "pk_handle_ptr s f = Some x" using o f unfolding pk_owned_def by blast
    then show ?thesis using pk_linkedD(3) [OF s(2) [unfolded pk_inv_def] f] by auto
  qed
  then show ?thesis using s by auto
qed

theorem packaged_awaitable_safe_witness:
  "\<exists>s. pk_run [PNew 2 7 None, PMove 3 2, PDelete 2, PEnd 7 (Ret (5::nat)), PNew 4 7 (Some (Throw (User_exn 3))), PNew 5 8 None, PDelete 5] pk0 = Some s \<and>
    pk_inv s"
proof -
  have l: "pk_legal_run [PNew 2 7 None, PMove 3 2, PDelete 2, PEnd 7 (Ret (5::nat)), PNew 4 7 (Some (Throw (User_exn 3))), PNew 5 8 None, PDelete 5] pk0"
    by (simp add: pk0_def pk_new_def pk_bind_def pk_move_def pk_delete_def pk_destroy_def pk_finish_def pk_return_def pk_store_def pk_frame_destroy_def Let_def)
  then show ?thesis using packaged_awaitable_safe [OF l] by auto
qed

text \<open>
  The result follows the object.  When a running packaged awaitable is moved and the
  awaitable then ends, its value or exception is in the object moved to, which no longer runs;
  a destroyed one stops running: its frame is gone and its result is as it was.
\<close>

theorem packaged_awaitable_delivers:
  assumes "pk_inv s" "y \<in> pk_objects s" "pk_handle s y = Some f" "x \<notin> pk_objects s"
  shows "(\<exists>s1 s2. pk_move x y s = Some s1 \<and> pk_finish f out s1 = Some s2 \<and>
      pk_running x s1 \<and> \<not> pk_running y s1 \<and>
      pk_result s2 x = pk_store out (pk_result s y) \<and> \<not> pk_running x s2 \<and> \<not> pk_alive s2 f) \<and>
    (\<exists>s1. pk_destroy y s = Some s1 \<and> \<not> pk_running y s1 \<and> \<not> pk_alive s1 f \<and> pk_result s1 = pk_result s)"
proof (rule conjI)
  obtain s1 where s1: "pk_move x y s = Some s1" "pk_inv s1" "pk_handle s1 x = pk_handle s y" "pk_result s1 x = pk_result s y"
    "pk_handle s1 y = None" "pk_alive s1 = pk_alive s" "pk_handle_ptr s1 f = Some x"
    using pk_move_inv [OF assms(1,4,2)] assms(3) by metis
  moreover have "pk_alive s1 f" using s1(6) pk_linkedD(1) [OF assms(1) [unfolded pk_inv_def] assms(2,3)] by simp
  then obtain s2 where "pk_finish f out s1 = Some s2" "pk_alive s2 = (pk_alive s1)(f := False)"
    "pk_result s2 x = pk_store out (pk_result s1 x) \<and> pk_handle s2 x = None"
    using pk_finish_inv [OF s1(2), of f out] s1(7) by metis
  ultimately show "\<exists>s1 s2. pk_move x y s = Some s1 \<and> pk_finish f out s1 = Some s2 \<and>
      pk_running x s1 \<and> \<not> pk_running y s1 \<and>
      pk_result s2 x = pk_store out (pk_result s y) \<and> \<not> pk_running x s2 \<and> \<not> pk_alive s2 f"
    using assms(3) by (simp add: pk_running_def)
  show "\<exists>s1. pk_destroy y s = Some s1 \<and> \<not> pk_running y s1 \<and> \<not> pk_alive s1 f \<and> pk_result s1 = pk_result s"
    using pk_destroy_inv [OF assms(1,2)] assms(3) unfolding pk_running_def by metis
qed

theorem packaged_awaitable_delivers_witness:
  "\<exists>s1 s2. pk_move 3 2 (the (pk_new 2 7 None pk0)) = Some s1 \<and> pk_finish 7 (Ret (5::nat)) s1 = Some s2 \<and> pk_result s2 3 = Value (Some 5)"
proof -
  let ?s = "the (pk_new 2 7 None pk0) :: nat pk_heap"
  have "\<exists>s'. pk_new 2 7 None (pk0 :: nat pk_heap) = Some s' \<and> pk_inv s'"
    by (rule pk_new_inv) (simp_all add: pk0_def pk_inv_def pk_linked_def)
  then have i: "pk_inv ?s" by auto
  have s: "2 \<in> pk_objects ?s" "pk_handle ?s 2 = Some 7" "3 \<notin> pk_objects ?s" "pk_result ?s 2 = Empty"
    by (simp_all add: pk_new_def pk_bind_def pk0_def Let_def)
  show ?thesis using packaged_awaitable_delivers [OF i s(1,2,3), where out = "Ret 5"] s(4) by (auto simp: pk_store_def set_value_def)
qed

section \<open>Frames are destroyed once\<close>

text \<open>
  C33. Moving never loses or duplicates a coroutine.  In every program that creates \<open>async\<close>
  and \<open>coro\<close> objects, moves and assigns them (to themselves too) and destroys them, in any
  order, the implementation refines the history of each frame: the object that holds the frame is the one
  that the moves and assignments of the program handed it to, it is destroyed exactly when its holder was destroyed
  or assigned from another object, and an assignment to itself does nothing.  At most one
  object holds a frame, no frame is destroyed twice, and every frame that was created is either held or destroyed.
\<close>

theorem frames_destroyed_once:
  shows "(legal_run (handle_exec async_move async_assign async_destroy) ops [] handles0 \<longrightarrow>
      handle_inv (concat (map handle_frames ops)) (fold (handle_exec async_move async_assign async_destroy) ops handles0) \<and>
      frame_is f (fold (track f) ops NotYet) (fold (handle_exec async_move async_assign async_destroy) ops handles0)) \<and>
    (legal_run (handle_exec coro_move coro_assign coro_destroy) ops [] handles0 \<longrightarrow>
      handle_inv (concat (map handle_frames ops)) (fold (handle_exec coro_move coro_assign coro_destroy) ops handles0) \<and>
      frame_is f (fold (track f) ops NotYet) (fold (handle_exec coro_move coro_assign coro_destroy) ops handles0))"
  using async_handle.run_handles0 coro_handle.run_handles0 by blast

theorem frames_destroyed_once_witness:
  "handle_inv [7, 8] (fold (handle_exec async_move async_assign async_destroy) [HNew 2 7, HNew 3 8, HAssign 2 3, HMove 4 2, HAssign 4 4] handles0) \<and>
   frame_is 8 (HeldBy 4) (fold (handle_exec async_move async_assign async_destroy) [HNew 2 7, HNew 3 8, HAssign 2 3, HMove 4 2, HAssign 4 4] handles0)"
  using frames_destroyed_once [of "[HNew 2 7, HNew 3 8, HAssign 2 3, HMove 4 2, HAssign 4 4]" 8]
  by (simp add: handles0_def handle_new_def async_assign_def async_move_def frame_destroy_def)

section \<open>Awaiting a \<open>coro\<close>\<close>

record 'a coro_promise =
  coro_result :: "'a result"
  coro_continuation :: "addr option"

definition coro_promise0 :: "'a coro_promise" where
  "coro_promise0 = \<lparr>coro_result = Empty, coro_continuation = None\<rparr>"

definition coro_return_value :: "'a \<Rightarrow> 'a coro_promise \<Rightarrow> 'a coro_promise" where
  "coro_return_value v p = p\<lparr>coro_result := set_value v (coro_result p)\<rparr>"

definition coro_unhandled_exception :: "exn \<Rightarrow> 'a coro_promise \<Rightarrow> 'a coro_promise" where
  "coro_unhandled_exception e p = p\<lparr>coro_result := set_exception e (coro_result p)\<rparr>"

definition coro_ready :: "'a coro_promise \<Rightarrow> bool" where
  "coro_ready p = has_result (coro_result p)"

definition coro_set_continuation :: "addr \<Rightarrow> 'a coro_promise \<Rightarrow> 'a coro_promise" where
  "coro_set_continuation c p = p\<lparr>coro_continuation := Some c\<rparr>"

definition coro_final_suspend :: "'a coro_promise \<Rightarrow> addr option" where
  "coro_final_suspend p = coro_continuation p"

definition coro_body_ends :: "'a outcome \<Rightarrow> 'a coro_promise \<Rightarrow> 'a coro_promise" where
  "coro_body_ends out p = (case out of Ret v \<Rightarrow> coro_return_value v p | Throw e \<Rightarrow> coro_unhandled_exception e p | _ \<Rightarrow> p)"

definition coro_get_result :: "'a coro_promise \<Rightarrow> 'a option outcome \<times> 'a coro_promise" where
  "coro_get_result p = (get_value (coro_result p), p)"

definition coro_take_result :: "'a coro_promise \<Rightarrow> 'a option outcome \<times> 'a coro_promise" where
  "coro_take_result p = (let (v, r) = take_value (coro_result p) in (v, p\<lparr>coro_result := r\<rparr>))"

text \<open>
  \<open>co_await\<close> of a \<open>coro\<close>, an lvalue or an rvalue, by the coroutine \<open>c\<close>.  The result names the
  coroutine that goes on after the body, if the body ran, and what \<open>await_resume\<close> gives it.
\<close>

definition coro_await_resume :: "bool \<Rightarrow> 'a coro_promise \<Rightarrow> 'a option outcome \<times> 'a coro_promise" where
  "coro_await_resume lvalue p = (if lvalue then coro_get_result p else coro_take_result p)"

definition coro_co_await :: "bool \<Rightarrow> addr \<Rightarrow> 'a outcome \<Rightarrow> 'a coro_promise \<Rightarrow> addr option \<times> 'a option outcome \<times> 'a coro_promise" where
  "coro_co_await lvalue c body p =
     (if coro_ready p then (Some c, coro_await_resume lvalue p)
      else let p = coro_body_ends body (coro_set_continuation c p)
           in (coro_final_suspend p, coro_await_resume lvalue p))"

text \<open>
  Awaiting a \<open>coro\<close> gives the outcome of its body to the coroutine that awaits it: the
  body's value is returned and its exception thrown.  An lvalue can be awaited again, by any
  coroutine, which goes on at once with the same outcome, whatever another run of the body
  would give; an rvalue gives the value away.
\<close>

theorem coro_await_delivers:
  assumes "body = Ret v \<or> (body = Throw e \<and> e \<noteq> Null_exn)"
  shows "(let (next, out, p) = coro_co_await lvalue c body coro_promise0 in
      next = Some c \<and> out = (case body of Ret v \<Rightarrow> Ret (Some v) | _ \<Rightarrow> Throw e) \<and> coro_ready p \<and>
      (lvalue \<longrightarrow> coro_co_await True c' other p = (Some c', out, p)))"
proof -
  have "rethrow e = (Throw e :: 'a option outcome)" if "e \<noteq> Null_exn" using that by (cases e) auto
  then show ?thesis using assms
    by (cases lvalue) (auto simp: Let_def coro_co_await_def coro_promise0_def coro_ready_def coro_body_ends_def coro_return_value_def coro_unhandled_exception_def
        coro_set_continuation_def coro_final_suspend_def coro_await_resume_def coro_get_result_def coro_take_result_def set_value_def set_exception_def)
qed

theorem coro_await_delivers_witness:
  "fst (coro_co_await True 2 (Ret (5::nat)) coro_promise0) = Some 2 \<and> fst (snd (coro_co_await True 2 (Ret (5::nat)) coro_promise0)) = Ret (Some 5)"
  using coro_await_delivers [of "Ret (5::nat)" 5 "User_exn 0" True 2 3 Abort] by (simp add: case_prod_beta Let_def)

section \<open>Detached awaitables\<close>

datatype detached = Finished | Terminated

text \<open>\<open>detach_awaitable(awaitable)\<close>, given how \<open>co_await awaitable\<close> ends.\<close>

definition detach_ignore :: "'a outcome \<Rightarrow> detached" where
  "detach_ignore out = (case out of Ret _ \<Rightarrow> Finished | Throw _ \<Rightarrow> Finished | _ \<Rightarrow> Terminated)"

text \<open>\<open>detach_awaitable(awaitable, callback)\<close>: the calls of the callback and how the coroutine ends.\<close>

definition detach_callback :: "('a \<Rightarrow> unit outcome) \<Rightarrow> 'a outcome \<Rightarrow> 'a list \<times> detached" where
  "detach_callback callback out = (case out of
       Ret v \<Rightarrow> ([v], case callback v of Ret _ \<Rightarrow> Finished | _ \<Rightarrow> Terminated)
     | _ \<Rightarrow> ([], Terminated))"

lemma detach_callback_finished:
  "snd (detach_callback callback out) = Finished \<longleftrightarrow> (\<exists>v. out = Ret v \<and> callback v = Ret () \<and> fst (detach_callback callback out) = [v])"
  by (auto simp: detach_callback_def split: outcome.splits)

section \<open>Resume callbacks and scope guards\<close>

text \<open>
  The coroutine of \<open>with_resume_callback\<close>: its body only returns, and its final suspension calls
  the callback, which may name the coroutine to run next.  The frame stays until it is destroyed.
  \<open>None\<close> is a use of the handle that the language leaves undefined.
\<close>

datatype callback_frame = CbSuspended | CbFinal | CbDestroyed
datatype callback_op = CbResume | CbDestroy

fun resume_callback :: "('s \<Rightarrow> addr option \<times> 's) \<Rightarrow> callback_op \<Rightarrow> callback_frame \<times> 's \<Rightarrow> (callback_frame \<times> 's) option" where
  "resume_callback callback CbResume (CbSuspended, s) = Some (CbFinal, snd (callback s))"
| "resume_callback callback CbResume (_, s) = None"
| "resume_callback callback CbDestroy (CbDestroyed, s) = None"
| "resume_callback callback CbDestroy (_, s) = Some (CbDestroyed, s)"

definition resume_callback_next :: "('s \<Rightarrow> addr option \<times> 's) \<Rightarrow> 's \<Rightarrow> addr option" where
  "resume_callback_next callback s = fst (callback s)"

fun resume_callback_run :: "('s \<Rightarrow> addr option \<times> 's) \<Rightarrow> callback_op list \<Rightarrow> callback_frame \<times> 's \<Rightarrow> (callback_frame \<times> 's) option" where
  "resume_callback_run callback [] x = Some x"
| "resume_callback_run callback (op # ops) x = Option.bind (resume_callback callback op x) (resume_callback_run callback ops)"

lemma resume_callback_once:
  assumes "resume_callback_run callback ops (CbSuspended, s) = Some (f, t)"
  shows "ops \<in> {[], [CbResume], [CbDestroy], [CbResume, CbDestroy]} \<and> t = (if CbResume \<in> set ops then snd (callback s) else s)"
proof -
  have d: "resume_callback_run callback os (CbDestroyed, u) = Some y \<Longrightarrow> os = [] \<and> snd y = u" for os u y
    by (cases os; cases "hd os") auto
  have e: "resume_callback_run callback os (CbFinal, u) = Some y \<Longrightarrow> os \<in> {[], [CbDestroy]} \<and> snd y = u" for os u y
    by (cases os; cases "hd os") (auto dest: d)
  show ?thesis using assms by (cases ops; cases "hd ops") (auto dest: d e)
qed

text \<open>A scope with a \<open>scope_guard\<close>: the body tells whether it called \<open>cancel()\<close>.\<close>

definition with_scope_guard :: "('s \<Rightarrow> 's) \<Rightarrow> ('s \<Rightarrow> 'b \<times> bool \<times> 's) \<Rightarrow> 's \<Rightarrow> 'b \<times> 's" where
  "with_scope_guard callback body s = (let (out, cancelled, s) = body s in (out, if \<not> cancelled then callback s else s))"

end
