(* ===== verification/Intrusive_Mailbox.thy ===== *)
theory Intrusive_Mailbox
  imports Mailbox_Contract Link_Chain
begin

text \<open>
  The wait-free multiple-producer single-consumer mailbox of
  \<open>coroactors/detail/intrusive_mailbox.h\<close>, the lock and run queue of every actor context.

  The memory of a mailbox is the \<open>next\<close> word of every node (\<open>nullptr\<close>, the marker
  \<open>MarkerUnlocked\<close> or a node), the private \<open>head_\<close> and the atomic \<open>tail_\<close>.  The
  operations are written first as the atomic accesses of one thread (\<open>push_prepare\<close>,
  \<open>push_publish\<close>, \<open>try_lock\<close> and the program counters of \<open>pop_impl\<close>), then composed
  without interference (\<open>push\<close>, \<open>pop\<close>, \<open>try_pop\<close>, \<open>peek\<close>, \<open>try_unlock\<close>), and
  finally interleaved by \<open>mb_step\<close>, where any number of pushes are in flight and any number
  of threads believe they hold the lock.  A failed \<open>assert\<close> is the value \<open>None\<close> or the
  program counter \<open>PopFail\<close>.
\<close>

section \<open>Memory and operations\<close>

record mbox =
  nxt :: "addr \<Rightarrow> link"
  mb_head :: addr
  mb_tail :: addr

definition stub :: addr where
  "stub = 0"

definition initially_locked :: mbox where
  "initially_locked = \<lparr>nxt = (\<lambda>_. Null), mb_head = stub, mb_tail = stub\<rparr>"

definition initially_unlocked :: mbox where
  "initially_unlocked = \<lparr>nxt = (\<lambda>_. Null)(stub := Unlocked), mb_head = stub, mb_tail = stub\<rparr>"

definition empty :: "mbox \<Rightarrow> bool" where
  "empty m \<longleftrightarrow> mb_head m = stub \<and> mb_tail m = stub"

text \<open>The two halves of \<open>push\<close>.  The node's own \<open>next\<close> is private until the exchange.\<close>

definition push_prepare :: "mbox \<Rightarrow> addr \<Rightarrow> addr \<times> mbox" where
  "push_prepare m item = (mb_tail m, m\<lparr>nxt := (nxt m)(item := Null), mb_tail := item\<rparr>)"

definition push_publish :: "mbox \<Rightarrow> addr \<Rightarrow> addr \<Rightarrow> (bool \<times> mbox) option" where
  "push_publish m prev item =
     (let marker = nxt m prev; m' = m\<lparr>nxt := (nxt m)(prev := Ptr item)\<rparr>
      in if marker = Null \<or> marker = Unlocked then Some (marker = Unlocked, m') else None)"

definition push :: "mbox \<Rightarrow> addr \<Rightarrow> (bool \<times> mbox) option" where
  "push m item = (let (prev, m') = push_prepare m item in push_publish m' prev item)"

definition try_lock :: "mbox \<Rightarrow> (bool \<times> mbox) option" where
  "try_lock m =
     (if nxt m stub = Unlocked then
        (if mb_head m = stub then Some (True, m\<lparr>nxt := (nxt m)(stub := Null)\<rparr>) else None)
      else Some (False, m))"

text \<open>
  The program counters of \<open>pop_impl<Unlock>\<close>, one per atomic access.  The local \<open>head\<close>
  always equals \<open>head_\<close>, which only the lock holder writes.  \<open>PopDone h n\<close> is the
  returned pair, \<open>PopFail\<close> a failed \<open>assert\<close>.
\<close>

datatype pop_pc =
    PopLoad
  | PopUnlockStub
  | PopSkipStub addr
  | PopLoadNext
  | PopLoadTail
  | PopCasTail
  | PopLinkStub
  | PopUnlockHead
  | PopDone "addr option" "addr option"
  | PopFail

definition pop_blocked :: "bool \<Rightarrow> mbox \<Rightarrow> pop_pc" where
  "pop_blocked unlock m = (if unlock then PopUnlockHead else PopDone None (Some (mb_head m)))"

definition pop_head :: "mbox \<Rightarrow> pop_pc" where
  "pop_head m = (case nxt m (mb_head m) of
       Null \<Rightarrow> PopLoadTail
     | Unlocked \<Rightarrow> PopFail
     | Ptr n \<Rightarrow> PopDone (Some (mb_head m)) (Some n))"

fun pop_step :: "bool \<Rightarrow> pop_pc \<Rightarrow> mbox \<Rightarrow> pop_pc \<times> mbox" where
  "pop_step unlock PopLoad m =
     (if mb_head m = stub then
        (case nxt m (mb_head m) of
           Null \<Rightarrow> (if unlock then PopUnlockStub else PopDone None None, m)
         | Unlocked \<Rightarrow> (PopFail, m)
         | Ptr n \<Rightarrow> (PopSkipStub n, m))
      else (pop_head m, m))"
| "pop_step unlock PopUnlockStub m =
     (case nxt m (mb_head m) of
        Null \<Rightarrow> (PopDone None None, m\<lparr>nxt := (nxt m)(mb_head m := Unlocked)\<rparr>)
      | Unlocked \<Rightarrow> (PopFail, m)
      | Ptr n \<Rightarrow> (PopSkipStub n, m))"
| "pop_step unlock (PopSkipStub n) m =
     (PopLoadNext, m\<lparr>nxt := (nxt m)(stub := Null), mb_head := n\<rparr>)"
| "pop_step unlock PopLoadNext m = (pop_head m, m)"
| "pop_step unlock PopLoadTail m =
     (if mb_head m = mb_tail m then PopCasTail else pop_blocked unlock m, m)"
| "pop_step unlock PopCasTail m =
     (if nxt m stub \<noteq> Null then (PopFail, m)
      else if mb_tail m = mb_head m then (PopLinkStub, m\<lparr>mb_tail := stub\<rparr>)
      else (pop_blocked unlock m, m))"
| "pop_step unlock PopLinkStub m =
     (PopDone (Some (mb_head m)) (Some stub), m\<lparr>nxt := (nxt m)(mb_head m := Ptr stub)\<rparr>)"
| "pop_step unlock PopUnlockHead m =
     (case nxt m (mb_head m) of
        Null \<Rightarrow> (PopDone None None, m\<lparr>nxt := (nxt m)(mb_head m := Unlocked)\<rparr>)
      | Unlocked \<Rightarrow> (PopFail, m)
      | Ptr n \<Rightarrow> (PopDone (Some (mb_head m)) (Some n), m))"
| "pop_step unlock (PopDone h n) m = (PopDone h n, m)"
| "pop_step unlock PopFail m = (PopFail, m)"

text \<open>\<open>pop_impl\<close> run to its end by one thread while no other thread moves.\<close>

fun pop_rank :: "pop_pc \<Rightarrow> nat" where
  "pop_rank PopLoad = 7"
| "pop_rank PopUnlockStub = 6"
| "pop_rank (PopSkipStub n) = 5"
| "pop_rank PopLoadNext = 4"
| "pop_rank PopLoadTail = 3"
| "pop_rank PopCasTail = 2"
| "pop_rank PopLinkStub = 1"
| "pop_rank PopUnlockHead = 1"
| "pop_rank (PopDone h n) = 0"
| "pop_rank PopFail = 0"

lemma pop_step_rank: "pop_rank pc \<noteq> 0 \<Longrightarrow> pop_rank (fst (pop_step unlock pc m)) < pop_rank pc"
  by (cases pc) (auto simp: pop_head_def pop_blocked_def split: link.splits)

function run_pop :: "bool \<Rightarrow> pop_pc \<Rightarrow> mbox \<Rightarrow> pop_pc \<times> mbox" where
  "run_pop unlock pc m =
     (if pop_rank pc = 0 then (pc, m)
      else run_pop unlock (fst (pop_step unlock pc m)) (snd (pop_step unlock pc m)))"
  by pat_completeness auto
termination
  by (relation "measure (\<lambda>(unlock, pc, m). pop_rank pc)") (use pop_step_rank in \<open>auto simp: split_beta\<close>)

declare run_pop.simps [simp del]

definition pop_impl :: "bool \<Rightarrow> mbox \<Rightarrow> (addr option \<times> addr option \<times> mbox) option" where
  "pop_impl unlock m = (case run_pop unlock PopLoad m of
       (PopDone h n, m') \<Rightarrow> Some (h, n, m')
     | _ \<Rightarrow> None)"

text \<open>What each public operation does with the returned pair.\<close>

fun set_head :: "addr option \<Rightarrow> mbox \<Rightarrow> mbox" where
  "set_head (Some n) m = m\<lparr>mb_head := n\<rparr>"
| "set_head None m = m"

definition pop :: "mbox \<Rightarrow> (addr option \<times> mbox) option" where
  "pop m = map_option (\<lambda>(h, n, m'). (h, if h \<noteq> None then set_head n m' else m'))
     (pop_impl True m)"

definition try_pop :: "mbox \<Rightarrow> (addr option \<times> mbox) option" where
  "try_pop m = map_option (\<lambda>(h, n, m'). (h, if h \<noteq> None then set_head n m' else m'))
     (pop_impl False m)"

definition peek :: "mbox \<Rightarrow> (addr option \<times> mbox) option" where
  "peek m = map_option (\<lambda>(h, n, m'). (h, m')) (pop_impl False m)"

definition try_unlock :: "mbox \<Rightarrow> (bool \<times> mbox) option" where
  "try_unlock m = map_option (\<lambda>(h, n, m'). (h = None, m')) (pop_impl True m)"

section \<open>Interleaved executions\<close>

datatype mb_op = OpPop | OpTryPop | OpPeek | OpTryUnlock

fun op_unlock :: "mb_op \<Rightarrow> bool" where
  "op_unlock OpPop = True"
| "op_unlock OpTryPop = False"
| "op_unlock OpPeek = False"
| "op_unlock OpTryUnlock = True"

definition op_removes :: "mb_op \<Rightarrow> bool" where
  "op_removes op \<longleftrightarrow> op = OpPop \<or> op = OpTryPop"

text \<open>A thread that believes it holds the lock is idle or inside one of the operations.\<close>

datatype holder = Idle | Running mb_op pop_pc

text \<open>
  \<open>pend\<close> holds the pushes between their two halves as (previous node, item);
  \<open>chain\<close>, \<open>pushed\<close> and \<open>popped\<close> are ghost variables: the nodes from \<open>head_\<close> to
  \<open>tail_\<close>, the items in the order of their \<open>tail_\<close> exchange, and the items returned by
  \<open>pop\<close> and \<open>try_pop\<close>.  \<open>failed\<close> records a failed \<open>assert\<close>.
\<close>

record mb_sys =
  mem :: mbox
  pend :: "(addr \<times> addr) list"
  holders :: "holder list"
  chain :: "addr list"
  pushed :: "addr list"
  popped :: "addr list"
  failed :: bool

definition mb_init :: "mb_sys \<Rightarrow> bool" where
  "mb_init s \<longleftrightarrow>
     s = \<lparr>mem = initially_locked, pend = [], holders = [Idle], chain = [stub],
          pushed = [], popped = [], failed = False\<rparr> \<or>
     s = \<lparr>mem = initially_unlocked, pend = [], holders = [], chain = [stub],
          pushed = [], popped = [], failed = False\<rparr>"

definition ghost_chain :: "pop_pc \<Rightarrow> mbox \<Rightarrow> addr list \<Rightarrow> addr list" where
  "ghost_chain pc m c = (case pc of
       PopSkipStub _ \<Rightarrow> tl c
     | PopCasTail \<Rightarrow> (if nxt m stub = Null \<and> mb_tail m = mb_head m then c @ [stub] else c)
     | _ \<Rightarrow> c)"

text \<open>
  One atomic access of an operation; when it is the last one the operation also performs its
  private update of \<open>head_\<close> and returns.  A successful unlock gives the lock up.
\<close>

definition op_advance :: "mb_op \<Rightarrow> pop_pc \<Rightarrow> mb_sys \<Rightarrow> holder list \<times> mb_sys" where
  "op_advance op pc s =
     (let (pc', m') = pop_step (op_unlock op) pc (mem s);
          s' = s\<lparr>mem := m', chain := ghost_chain pc (mem s) (chain s)\<rparr>
      in case pc' of
           PopFail \<Rightarrow> ([Running op PopFail], s'\<lparr>failed := True\<rparr>)
         | PopDone (Some h) n \<Rightarrow>
             ([Idle], if op_removes op
                then s'\<lparr>mem := set_head n m', chain := tl (chain s'), popped := popped s' @ [h]\<rparr>
                else s')
         | PopDone None n \<Rightarrow> (if op_unlock op then [] else [Idle], s')
         | _ \<Rightarrow> ([Running op pc'], s'))"

inductive mb_step :: "mb_sys \<Rightarrow> mb_sys \<Rightarrow> bool" where
  prepare: "item \<noteq> stub \<Longrightarrow> item \<notin> set (chain s) \<Longrightarrow> push_prepare (mem s) item = (prev, m') \<Longrightarrow>
     mb_step s (s\<lparr>mem := m', pend := (prev, item) # pend s, chain := chain s @ [item],
                  pushed := pushed s @ [item]\<rparr>)"
| publish: "pend s = ps @ (prev, item) # qs \<Longrightarrow> push_publish (mem s) prev item = Some (locks, m') \<Longrightarrow>
     mb_step s (s\<lparr>mem := m', pend := ps @ qs,
                  holders := (if locks then holders s @ [Idle] else holders s)\<rparr>)"
| publish_fail: "pend s = ps @ (prev, item) # qs \<Longrightarrow> push_publish (mem s) prev item = None \<Longrightarrow>
     mb_step s (s\<lparr>failed := True\<rparr>)"
| lock: "try_lock (mem s) = Some (locks, m') \<Longrightarrow>
     mb_step s (s\<lparr>mem := m', holders := (if locks then holders s @ [Idle] else holders s)\<rparr>)"
| lock_fail: "try_lock (mem s) = None \<Longrightarrow> mb_step s (s\<lparr>failed := True\<rparr>)"
| start: "holders s = hs @ Idle # ks \<Longrightarrow>
     mb_step s (s\<lparr>holders := hs @ Running op PopLoad # ks\<rparr>)"
| advance: "holders s = hs @ Running op pc # ks \<Longrightarrow> op_advance op pc s = (h', s') \<Longrightarrow>
     mb_step s (s'\<lparr>holders := hs @ h' @ ks\<rparr>)"

definition items :: "mb_sys \<Rightarrow> addr list" where
  "items s = filter (\<lambda>a. a \<noteq> stub) (chain s)"

section \<open>The invariant\<close>

text \<open>The holder at \<open>PopLinkStub\<close> owes the link from the head to the stub.\<close>

fun own_link :: "holder list \<Rightarrow> mbox \<Rightarrow> (addr \<times> addr) set" where
  "own_link [Running op PopLinkStub] m = {(mb_head m, stub)}"
| "own_link hs m = {}"

fun holder_inv :: "holder \<Rightarrow> mbox \<Rightarrow> addr list \<Rightarrow> bool" where
  "holder_inv Idle m c = True"
| "holder_inv (Running op PopLoad) m c = True"
| "holder_inv (Running op PopUnlockStub) m c = (mb_head m = stub \<and> op_unlock op)"
| "holder_inv (Running op (PopSkipStub n)) m c = (mb_head m = stub \<and> nxt m stub = Ptr n)"
| "holder_inv (Running op PopLoadNext) m c = (stub \<notin> set c)"
| "holder_inv (Running op PopLoadTail) m c = (stub \<notin> set c)"
| "holder_inv (Running op PopCasTail) m c = (stub \<notin> set c)"
| "holder_inv (Running op PopLinkStub) m c = (mb_head m \<noteq> stub \<and> tl c \<noteq> [] \<and> hd (tl c) = stub)"
| "holder_inv (Running op PopUnlockHead) m c = (stub \<notin> set c \<and> tl c \<noteq> [] \<and> op_unlock op)"
| "holder_inv (Running op (PopDone h n)) m c = False"
| "holder_inv (Running op PopFail) m c = False"

definition waiting :: "mb_sys \<Rightarrow> (addr \<times> addr) set" where
  "waiting s = set (pend s) \<union> own_link (holders s) (mem s)"

definition chain_inv :: "mb_sys \<Rightarrow> bool" where
  "chain_inv s \<longleftrightarrow>
     chain s \<noteq> [] \<and> hd (chain s) = mb_head (mem s) \<and> last (chain s) = mb_tail (mem s) \<and>
     distinct (chain s) \<and> distinct (pend s) \<and>
     set (pend s) \<inter> own_link (holders s) (mem s) = {} \<and>
     waiting s \<subseteq> adj (chain s) \<and> linked (nxt (mem s)) (waiting s) (chain s) \<and>
     pushed s = popped s @ items s"

definition stub_inv :: "mb_sys \<Rightarrow> bool" where
  "stub_inv s \<longleftrightarrow>
     (stub \<notin> set (chain s) \<longrightarrow> nxt (mem s) stub = Null) \<and>
     (stub \<in> set (chain s) \<longrightarrow> mb_head (mem s) = stub \<or>
        tl (chain s) \<noteq> [] \<and> hd (tl (chain s)) = stub \<and>
        (nxt (mem s) (mb_head (mem s)) = Ptr stub \<or> own_link (holders s) (mem s) \<noteq> {}))"

definition lock_inv :: "mb_sys \<Rightarrow> bool" where
  "lock_inv s \<longleftrightarrow> \<not> failed s \<and>
     (\<forall>a. a \<noteq> mb_head (mem s) \<longrightarrow> nxt (mem s) a \<noteq> Unlocked) \<and>
     (if nxt (mem s) (mb_head (mem s)) = Unlocked
      then holders s = [] \<and> (mb_head (mem s) = stub \<or> tl (chain s) \<noteq> [])
      else \<exists>h. holders s = [h] \<and> holder_inv h (mem s) (chain s))"

definition mb_inv :: "mb_sys \<Rightarrow> bool" where
  "mb_inv s \<longleftrightarrow> chain_inv s \<and> stub_inv s \<and> lock_inv s"

section \<open>Every step keeps the invariant\<close>

lemma own_link_upd [simp]:
  "own_link hs (m\<lparr>nxt := f\<rparr>) = own_link hs m"
  "own_link hs (m\<lparr>mb_tail := a\<rparr>) = own_link hs m"
  by (induction hs m rule: own_link.induct) auto

lemma own_link_Idle [simp]: "own_link (hs @ [Idle]) m = {}"
  by (cases "(hs @ [Idle], m)" rule: own_link.cases) auto

lemma own_link_neq: "own_link hs m \<noteq> {} \<Longrightarrow> \<exists>op. hs = [Running op PopLinkStub]"
  by (induction hs m rule: own_link.induct) auto

lemma mb_inv_init: "mb_init s \<Longrightarrow> mb_inv s"
  by (auto simp: mb_init_def mb_inv_def chain_inv_def lock_inv_def stub_inv_def waiting_def items_def
      initially_locked_def initially_unlocked_def split: if_splits)

lemma mb_invD:
  assumes "mb_inv s"
  shows "chain s \<noteq> []" "hd (chain s) = mb_head (mem s)" "last (chain s) = mb_tail (mem s)"
    "distinct (chain s)" "distinct (pend s)" "waiting s \<subseteq> adj (chain s)"
    "linked (nxt (mem s)) (waiting s) (chain s)" "mb_head (mem s) \<in> set (chain s)"
  using assms by (auto simp: mb_inv_def chain_inv_def) (metis list.set_sel(1))

lemma holder_inv_prepare:
  "holder_inv h m c \<Longrightarrow> item \<noteq> stub \<Longrightarrow> c \<noteq> [] \<Longrightarrow> stub \<in> set c \<or> nxt m stub = Null \<Longrightarrow>
   holder_inv h (m\<lparr>nxt := (nxt m)(item := Null), mb_tail := item\<rparr>) (c @ [item])"
  by (induction h m c rule: holder_inv.induct) auto

lemma prepare_chain:
  assumes "chain_inv s" "item \<noteq> stub" "item \<notin> set (chain s)"
    and "push_prepare (mem s) item = (prev, m')"
  shows "chain_inv (s\<lparr>mem := m', pend := (prev, item) # pend s, chain := chain s @ [item],
                  pushed := pushed s @ [item]\<rparr>)"
proof -
  have new: "(mb_tail (mem s), item) \<notin> waiting s"
    using assms(1,3) by (auto simp: chain_inv_def dest: adj_in_set)
  moreover have "linked ((nxt (mem s))(item := Null)) (insert (last (chain s), item) (waiting s))
      (chain s @ [item])"
    using assms by (intro linked_snoc) (auto simp: chain_inv_def)
  ultimately show ?thesis
    using assms by (auto simp: chain_inv_def push_prepare_def adj_snoc waiting_def items_def)
qed

lemma prepare_stub:
  assumes "mb_inv s" "item \<noteq> stub" "item \<notin> set (chain s)"
    and "push_prepare (mem s) item = (prev, m')"
  shows "stub_inv (s\<lparr>mem := m', pend := (prev, item) # pend s, chain := chain s @ [item],
                  pushed := pushed s @ [item]\<rparr>)"
proof -
  have "mb_head (mem s) \<noteq> item" using assms(3) mb_invD(8) [OF assms(1)] by auto
  then show ?thesis
    using assms mb_invD(1) [OF assms(1)]
    by (auto simp: stub_inv_def push_prepare_def mb_inv_def)
qed

lemma prepare_lock:
  assumes "mb_inv s" "item \<noteq> stub" "item \<notin> set (chain s)"
    and "push_prepare (mem s) item = (prev, m')"
  shows "lock_inv (s\<lparr>mem := m', pend := (prev, item) # pend s, chain := chain s @ [item],
                  pushed := pushed s @ [item]\<rparr>)"
proof -
  have "mb_head (mem s) \<noteq> item" using assms(3) mb_invD(8) [OF assms(1)] by auto
  moreover have "stub \<in> set (chain s) \<or> nxt (mem s) stub = Null"
    using assms(1) by (auto simp: mb_inv_def stub_inv_def)
  moreover note mb_invD(1) [OF assms(1)]
  moreover note holder_inv_prepare [OF _ assms(2) mb_invD(1) [OF assms(1)]]
  moreover have "m' = (mem s)\<lparr>nxt := (nxt (mem s))(item := Null), mb_tail := item\<rparr>"
    using assms(4) by (simp add: push_prepare_def)
  moreover have "lock_inv s" using assms(1) by (simp add: mb_inv_def)
  ultimately show ?thesis
    by (cases "nxt (mem s) (mb_head (mem s)) = Unlocked") (auto simp: lock_inv_def)
qed

lemma prepare_inv:
  assumes "mb_inv s" "item \<noteq> stub" "item \<notin> set (chain s)"
    and "push_prepare (mem s) item = (prev, m')"
  shows "mb_inv (s\<lparr>mem := m', pend := (prev, item) # pend s, chain := chain s @ [item],
                  pushed := pushed s @ [item]\<rparr>)"
  using prepare_chain [OF _ assms(2-)] prepare_stub [OF assms] prepare_lock [OF assms] assms(1)
  unfolding mb_inv_def by blast


lemma publish_waiting:
  assumes "mb_inv s" "pend s = ps @ (prev, item) # qs"
  shows "(prev, item) \<in> waiting s" "(prev, item) \<in> adj (chain s)"
    "nxt (mem s) prev = Null \<or> nxt (mem s) prev = Unlocked"
    "(prev, item) \<notin> own_link (holders s) (mem s)"
proof -
  show w: "(prev, item) \<in> waiting s" using assms by (simp add: waiting_def)
  then show a: "(prev, item) \<in> adj (chain s)" using assms mb_invD(6) by blast
  show "nxt (mem s) prev = Null \<or> nxt (mem s) prev = Unlocked"
    using linked_waiting [OF mb_invD(7) [OF assms(1)] w a] .
  show "(prev, item) \<notin> own_link (holders s) (mem s)"
    using assms by (auto simp: mb_inv_def chain_inv_def)
qed

lemma publish_ok: "mb_inv s \<Longrightarrow> pend s = ps @ (prev, item) # qs \<Longrightarrow>
   push_publish (mem s) prev item =
     Some (nxt (mem s) prev = Unlocked, (mem s)\<lparr>nxt := (nxt (mem s))(prev := Ptr item)\<rparr>)"
  using publish_waiting(3) by (auto simp: push_publish_def Let_def)

lemma publish_locks: "mb_inv s \<Longrightarrow> nxt (mem s) prev = Unlocked \<Longrightarrow>
   holders s = [] \<and> prev = mb_head (mem s)"
  by (cases "prev = mb_head (mem s)") (auto simp: mb_inv_def lock_inv_def)

lemma publish_chain:
  assumes "mb_inv s" "pend s = ps @ (prev, item) # qs"
    and "hs = (if nxt (mem s) prev = Unlocked then holders s @ [Idle] else holders s)"
  shows "chain_inv (s\<lparr>mem := (mem s)\<lparr>nxt := (nxt (mem s))(prev := Ptr item)\<rparr>, pend := ps @ qs,
                  holders := hs\<rparr>)"
proof -
  have own: "own_link hs (mem s) = own_link (holders s) (mem s)"
    using publish_locks [OF assms(1), of prev] assms(3) by auto
  have c: "chain_inv s" using assms(1) by (simp add: mb_inv_def)
  have w: "waiting s - {(prev, item)} = set (ps @ qs) \<union> own_link (holders s) (mem s)"
    using c assms(2) publish_waiting(4) [OF assms(1,2)] by (auto simp: waiting_def chain_inv_def)
  have "linked ((nxt (mem s))(prev := Ptr item)) (waiting s - {(prev, item)}) (chain s)"
    by (rule linked_publish) (use assms mb_invD publish_waiting in auto)
  then show ?thesis
    using c assms(2) w own mb_invD(6) [OF assms(1)]
    by (auto simp: chain_inv_def waiting_def items_def)
qed

lemma publish_stub:
  assumes "mb_inv s" "pend s = ps @ (prev, item) # qs"
    and "hs = (if nxt (mem s) prev = Unlocked then holders s @ [Idle] else holders s)"
  shows "stub_inv (s\<lparr>mem := (mem s)\<lparr>nxt := (nxt (mem s))(prev := Ptr item)\<rparr>, pend := ps @ qs,
                  holders := hs\<rparr>)"
proof -
  have own: "own_link hs (mem s) = own_link (holders s) (mem s)"
    using publish_locks [OF assms(1), of prev] assms(3) by auto
  have "prev \<in> set (chain s)" using publish_waiting(2) [OF assms(1,2)] adj_in_set by blast
  then show ?thesis
    using assms(1) own publish_waiting(3) [OF assms(1,2)] by (auto simp: mb_inv_def stub_inv_def)
qed

lemma own_link_adj:
  assumes "mb_inv s" "holders s = [Running op PopLinkStub]" "(mb_head (mem s), b) \<in> adj (chain s)"
  shows "b = stub"
proof -
  have "(mb_head (mem s), stub) \<in> adj (chain s)"
    using assms(1,2) mb_invD(6) [OF assms(1)] by (auto simp: waiting_def)
  then show ?thesis using adj_fun mb_invD(4) assms(1,3) by blast
qed

lemma publish_holder:
  assumes "mb_inv s" "pend s = ps @ (prev, item) # qs" "holders s = [h]"
    and "holder_inv h (mem s) (chain s)"
  shows "holder_inv h ((mem s)\<lparr>nxt := (nxt (mem s))(prev := Ptr item)\<rparr>) (chain s)"
  using assms(4) publish_waiting(3) [OF assms(1,2)]
  by (induction h "mem s" "chain s" rule: holder_inv.induct) auto

lemma publish_lock:
  assumes "mb_inv s" "pend s = ps @ (prev, item) # qs"
    and "hs = (if nxt (mem s) prev = Unlocked then holders s @ [Idle] else holders s)"
  shows "lock_inv (s\<lparr>mem := (mem s)\<lparr>nxt := (nxt (mem s))(prev := Ptr item)\<rparr>, pend := ps @ qs,
                  holders := hs\<rparr>)"
proof (cases "nxt (mem s) prev = Unlocked")
  case True
  with publish_locks [OF assms(1) True] assms show ?thesis
    by (auto simp: mb_inv_def lock_inv_def)
next
  case False
  then have "nxt (mem s) prev = Null" using publish_waiting(3) [OF assms(1,2)] by simp
  with False publish_holder [OF assms(1,2)] assms show ?thesis
    by (cases "nxt (mem s) (mb_head (mem s)) = Unlocked") (auto simp: mb_inv_def lock_inv_def)
qed

lemma publish_inv:
  assumes "mb_inv s" "pend s = ps @ (prev, item) # qs"
    and "push_publish (mem s) prev item = Some (locks, m')"
  shows "mb_inv (s\<lparr>mem := m', pend := ps @ qs,
                  holders := (if locks then holders s @ [Idle] else holders s)\<rparr>)"
proof -
  have "locks = (nxt (mem s) prev = Unlocked)" "m' = (mem s)\<lparr>nxt := (nxt (mem s))(prev := Ptr item)\<rparr>"
    using assms(3) publish_ok [OF assms(1,2)] by auto
  then show ?thesis
    using publish_chain [OF assms(1,2) refl] publish_stub [OF assms(1,2) refl]
      publish_lock [OF assms(1,2) refl] unfolding mb_inv_def by blast
qed

lemma try_lock_ok: "mb_inv s \<Longrightarrow> nxt (mem s) stub = Unlocked \<Longrightarrow> mb_head (mem s) = stub"
  using publish_locks by metis

lemma try_lock_inv:
  assumes "mb_inv s" "try_lock (mem s) = Some (locks, m')"
  shows "mb_inv (s\<lparr>mem := m', holders := (if locks then holders s @ [Idle] else holders s)\<rparr>)"
proof (cases "nxt (mem s) stub = Unlocked")
  case True
  then have h: "mb_head (mem s) = stub" "holders s = []"
    using assms(1) try_lock_ok publish_locks by auto
  have "linked ((nxt (mem s))(stub := Null)) (waiting s) (chain s)"
    using True h mb_invD [OF assms(1)] by (intro linked_head_marker) auto
  then show ?thesis
    using True h assms mb_invD(8) [OF assms(1)]
    by (auto simp: try_lock_def mb_inv_def chain_inv_def stub_inv_def lock_inv_def waiting_def items_def)
next
  case False
  then show ?thesis using assms by (auto simp: try_lock_def)
qed


lemma holder_unique:
  assumes "mb_inv s" "holders s = hs @ h # ks"
  shows "hs = [] \<and> ks = [] \<and> holder_inv h (mem s) (chain s) \<and> nxt (mem s) (mb_head (mem s)) \<noteq> Unlocked"
proof -
  obtain h' where "holders s = [h']" "holder_inv h' (mem s) (chain s)" "nxt (mem s) (mb_head (mem s)) \<noteq> Unlocked"
    using assms by (cases "nxt (mem s) (mb_head (mem s)) = Unlocked") (auto simp: mb_inv_def lock_inv_def)
  then show ?thesis using assms(2) by auto
qed

lemma set_holder_inv:
  assumes "mb_inv s" "holders s = [h]" "own_link [h] (mem s) = {}" "own_link [h'] (mem s) = {}"
    and "holder_inv h' (mem s) (chain s)"
  shows "mb_inv (s\<lparr>holders := [h']\<rparr>)"
proof -
  have "nxt (mem s) (mb_head (mem s)) \<noteq> Unlocked" using holder_unique [OF assms(1), of "[]" h "[]"] assms(2) by simp
  then show ?thesis using assms
    by (auto simp: mb_inv_def chain_inv_def stub_inv_def lock_inv_def waiting_def items_def)
qed

lemma no_stub:
  assumes "mb_inv s" "own_link (holders s) (mem s) = {}" "mb_head (mem s) \<noteq> stub"
    and "nxt (mem s) (mb_head (mem s)) = Null"
  shows "stub \<notin> set (chain s)"
  using assms by (auto simp: mb_inv_def stub_inv_def)

lemma head_next:
  assumes "mb_inv s" "nxt (mem s) (mb_head (mem s)) = Ptr n"
  shows "\<exists>r. chain s = mb_head (mem s) # n # r" "(mb_head (mem s), n) \<notin> waiting s"
proof -
  obtain a r where c: "chain s = a # r" and a: "a = mb_head (mem s)"
    using mb_invD(1,2) [OF assms(1)] by (cases "chain s") auto
  with assms mb_invD(7) [OF assms(1)] show "\<exists>r. chain s = mb_head (mem s) # n # r"
    "(mb_head (mem s), n) \<notin> waiting s"
    by (cases r; auto)+
qed

lemma drop_head:
  assumes "mb_inv s" "nxt (mem s) (mb_head (mem s)) = Ptr n" "own_link (holders s) (mem s) = {}"
  shows "set (chain s) = insert (mb_head (mem s)) (set (tl (chain s)))" "hd (tl (chain s)) = n" "tl (chain s) \<noteq> []"
    "n \<noteq> mb_head (mem s)" "distinct (tl (chain s))" "set (pend s) \<subseteq> adj (tl (chain s))"
    "linked (nxt (mem s)) (set (pend s)) (tl (chain s))" "last (tl (chain s)) = mb_tail (mem s)"
    "mb_head (mem s) \<notin> set (tl (chain s))"
    "items s = (if mb_head (mem s) = stub then [] else [mb_head (mem s)]) @
       filter (\<lambda>a. a \<noteq> stub) (tl (chain s))"
proof -
  obtain r where c: "chain s = mb_head (mem s) # n # r" using head_next(1) [OF assms(1,2)] by blast
  have "waiting s = set (pend s)" using assms(3) by (simp add: waiting_def)
  then show "set (chain s) = insert (mb_head (mem s)) (set (tl (chain s)))" "hd (tl (chain s)) = n" "tl (chain s) \<noteq> []"
    "n \<noteq> mb_head (mem s)" "distinct (tl (chain s))" "set (pend s) \<subseteq> adj (tl (chain s))"
    "linked (nxt (mem s)) (set (pend s)) (tl (chain s))" "last (tl (chain s)) = mb_tail (mem s)"
    "mb_head (mem s) \<notin> set (tl (chain s))"
    "items s = (if mb_head (mem s) = stub then [] else [mb_head (mem s)]) @
       filter (\<lambda>a. a \<noteq> stub) (tl (chain s))"
    using c mb_invD [OF assms(1)] head_next(2) [OF assms(1,2)] by (auto simp: items_def)
qed

lemma take_head_inv:
  assumes "mb_inv s" "holders s = [h]" "own_link [h] (mem s) = {}"
    and "nxt (mem s) (mb_head (mem s)) = Ptr n" "mb_head (mem s) \<noteq> stub"
  shows "mb_inv (s\<lparr>mem := (mem s)\<lparr>mb_head := n\<rparr>, chain := tl (chain s),
                   popped := popped s @ [mb_head (mem s)], holders := [Idle]\<rparr>)"
proof -
  have own: "own_link (holders s) (mem s) = {}" using assms(2,3) by simp
  note d = drop_head [OF assms(1,4) own]
  have "items s = mb_head (mem s) # filter (\<lambda>a. a \<noteq> stub) (tl (chain s))"
    using d(10) assms(5) by simp
  then have "chain_inv (s\<lparr>mem := (mem s)\<lparr>mb_head := n\<rparr>, chain := tl (chain s),
                   popped := popped s @ [mb_head (mem s)], holders := [Idle]\<rparr>)"
    using d assms(1) by (simp add: chain_inv_def waiting_def mb_inv_def items_def)
  moreover have "stub_inv (s\<lparr>mem := (mem s)\<lparr>mb_head := n\<rparr>, chain := tl (chain s),
                   popped := popped s @ [mb_head (mem s)], holders := [Idle]\<rparr>)"
    using d own assms by (cases "stub \<in> set (chain s)") (auto simp: stub_inv_def mb_inv_def)
  moreover have "lock_inv (s\<lparr>mem := (mem s)\<lparr>mb_head := n\<rparr>, chain := tl (chain s),
                   popped := popped s @ [mb_head (mem s)], holders := [Idle]\<rparr>)"
    using d(4) assms(1) publish_locks [OF assms(1)] assms(2) by (auto simp: lock_inv_def mb_inv_def)
  ultimately show ?thesis by (simp add: mb_inv_def)
qed

lemma unlock_head_inv:
  assumes "mb_inv s" "holders s = [h]" "own_link [h] (mem s) = {}"
    and "nxt (mem s) (mb_head (mem s)) = Null" "mb_head (mem s) = stub \<or> tl (chain s) \<noteq> []"
  shows "mb_inv (s\<lparr>mem := (mem s)\<lparr>nxt := (nxt (mem s))(mb_head (mem s) := Unlocked)\<rparr>, holders := []\<rparr>)"
proof -
  have "linked ((nxt (mem s))(mb_head (mem s) := Unlocked)) (waiting s) (chain s)"
    using mb_invD [OF assms(1)] assms(4) by (intro linked_head_marker) auto
  moreover have "waiting s = set (pend s)" using assms(2,3) by (simp add: waiting_def)
  moreover have "stub \<in> set (chain s) \<Longrightarrow> mb_head (mem s) = stub"
    using no_stub [OF assms(1)] assms(2-4) by auto
  ultimately show ?thesis
    using assms mb_invD [OF assms(1)]
    by (auto simp: mb_inv_def chain_inv_def stub_inv_def lock_inv_def waiting_def items_def)
qed

lemma skip_stub_inv:
  assumes "mb_inv s" "holders s = [Running op (PopSkipStub n)]"
  shows "mb_inv (s\<lparr>mem := (mem s)\<lparr>nxt := (nxt (mem s))(stub := Null), mb_head := n\<rparr>,
                   chain := tl (chain s), holders := [Running op PopLoadNext]\<rparr>)"
proof -
  have h: "mb_head (mem s) = stub" "nxt (mem s) stub = Ptr n"
    using holder_unique [OF assms(1), of "[]" _ "[]"] assms(2) by auto
  then have n: "nxt (mem s) (mb_head (mem s)) = Ptr n" by simp
  have own: "own_link (holders s) (mem s) = {}" using assms(2) by simp
  note d = drop_head [OF assms(1) n own]
  have "linked ((nxt (mem s))(stub := Null)) (set (pend s)) (tl (chain s))"
    using d h by simp
  moreover have "nxt (mem s) n \<noteq> Unlocked" using d(4) publish_locks [OF assms(1)] by blast
  moreover have "items s = filter (\<lambda>a. a \<noteq> stub) (tl (chain s))"
    using d(10) h by simp
  ultimately show ?thesis using d h assms
    by (auto simp: mb_inv_def chain_inv_def stub_inv_def lock_inv_def waiting_def items_def)
qed

lemma cas_tail_inv:
  assumes "mb_inv s" "holders s = [Running op PopCasTail]" "mb_tail (mem s) = mb_head (mem s)"
  shows "mb_inv (s\<lparr>mem := (mem s)\<lparr>mb_tail := stub\<rparr>, chain := chain s @ [stub],
                   holders := [Running op PopLinkStub]\<rparr>)"
proof -
  have h: "stub \<notin> set (chain s)" "nxt (mem s) (mb_head (mem s)) \<noteq> Unlocked"
    using holder_unique [OF assms(1), of "[]" _ "[]"] assms(2) by auto
  have n: "nxt (mem s) stub = Null" using assms(1) h by (auto simp: mb_inv_def stub_inv_def)
  have c: "chain s = [mb_head (mem s)]"
    using mb_invD(1-4) [OF assms(1)] assms(3) by (cases "chain s") (auto split: if_splits dest: last_in_set)
  then have "waiting s = {}" "pend s = []"
    using mb_invD(6) [OF assms(1)] by (auto simp: waiting_def)
  then show ?thesis using h n c assms mb_invD(7) [OF assms(1)]
    by (auto simp: mb_inv_def chain_inv_def stub_inv_def lock_inv_def waiting_def items_def)
qed

lemma link_stub_inv:
  assumes "mb_inv s" "holders s = [Running op PopLinkStub]"
  shows "mb_inv (s\<lparr>mem := (mem s)\<lparr>nxt := (nxt (mem s))(mb_head (mem s) := Ptr stub)\<rparr>, holders := [Idle]\<rparr>)"
proof -
  have h: "mb_head (mem s) \<noteq> stub" "tl (chain s) \<noteq> []" "hd (tl (chain s)) = stub"
    using holder_unique [OF assms(1), of "[]" _ "[]"] assms(2) by auto
  have w: "waiting s = insert (mb_head (mem s), stub) (set (pend s))"
    "(mb_head (mem s), stub) \<notin> set (pend s)"
    using assms by (auto simp: waiting_def mb_inv_def chain_inv_def)
  then have "linked ((nxt (mem s))(mb_head (mem s) := Ptr stub)) (waiting s - {(mb_head (mem s), stub)}) (chain s)"
    using mb_invD [OF assms(1)] by (intro linked_publish) auto
  then have "linked ((nxt (mem s))(mb_head (mem s) := Ptr stub)) (set (pend s)) (chain s)"
    using w by simp
  moreover have "stub \<in> set (chain s)" using h(2,3) by (metis list.set_sel(1) list.set_sel(2) tl_Nil)
  moreover have "set (pend s) \<subseteq> adj (chain s)" using w(1) mb_invD(6) [OF assms(1)] by simp
  moreover have "nxt (mem s) a \<noteq> Unlocked" for a
    using publish_locks [OF assms(1)] assms(2) by auto
  ultimately show ?thesis using h assms(1)
    by (auto simp: mb_inv_def chain_inv_def stub_inv_def lock_inv_def waiting_def items_def)
qed
lemma finish_inv:
  assumes "mb_inv s" "holders s = [h]" "own_link [h] (mem s) = {}"
    and "nxt (mem s) (mb_head (mem s)) = Ptr n" "mb_head (mem s) \<noteq> stub"
  shows "op_removes op \<Longrightarrow> mb_inv (s\<lparr>mem := (mem s)\<lparr>mb_head := n\<rparr>, chain := tl (chain s),
                   popped := popped s @ [mb_head (mem s)], holders := [Idle]\<rparr>)"
    and "mb_inv (s\<lparr>holders := [Idle]\<rparr>)"
  using take_head_inv [OF assms] set_holder_inv [OF assms(1-3), of Idle] by simp_all

lemma advance_head_inv:
  assumes "mb_inv s" "holders s = [Running op pc]" "own_link [Running op pc] (mem s) = {}"
    and "mb_head (mem s) \<noteq> stub" "pop_step (op_unlock op) pc (mem s) = (pop_head (mem s), mem s)"
    and "ghost_chain pc (mem s) (chain s) = chain s"
    and "op_advance op pc s = (h', s')"
  shows "mb_inv (s'\<lparr>holders := h'\<rparr>)"
proof (cases "nxt (mem s) (mb_head (mem s))")
  case Null
  then have "mb_inv (s\<lparr>holders := [Running op PopLoadTail]\<rparr>)"
    using set_holder_inv [OF assms(1-3), of "Running op PopLoadTail"] no_stub [OF assms(1)] assms(2-4)
    by simp
  then show ?thesis using assms(5-) Null by (auto simp: op_advance_def pop_head_def)
next
  case Unlocked
  then show ?thesis using publish_locks [OF assms(1)] assms(2) by auto
next
  case (Ptr n)
  note f = finish_inv [OF assms(1-3) Ptr assms(4)]
  show ?thesis
    using assms(5-) Ptr f by (auto simp: op_advance_def pop_head_def split: if_splits)
qed

lemma advance_load_inv:
  assumes "mb_inv s" "holders s = [Running op PopLoad]" "op_advance op PopLoad s = (h', s')"
  shows "mb_inv (s'\<lparr>holders := h'\<rparr>)"
proof (cases "mb_head (mem s) = stub")
  case False
  then show ?thesis using advance_head_inv [OF assms(1,2) _ False] assms(3)
    by (simp add: ghost_chain_def)
next
  case True
  have "nxt (mem s) stub \<noteq> Unlocked" using publish_locks [OF assms(1)] assms(2) by auto
  moreover have "mb_inv (s\<lparr>holders := [h]\<rparr>)"
    if "own_link [h] (mem s) = {}" "holder_inv h (mem s) (chain s)" for h
    using set_holder_inv [OF assms(1,2) _ that] by simp
  ultimately show ?thesis
    using True assms(3) by (cases "nxt (mem s) stub") (auto simp: op_advance_def ghost_chain_def split: if_splits)
qed

lemma advance_unlock_stub_inv:
  assumes "mb_inv s" "holders s = [Running op PopUnlockStub]" "op_advance op PopUnlockStub s = (h', s')"
  shows "mb_inv (s'\<lparr>holders := h'\<rparr>)"
proof -
  have h: "mb_head (mem s) = stub" "op_unlock op"
    using holder_unique [OF assms(1), of "[]" _ "[]"] assms(2) by auto
  have "nxt (mem s) stub \<noteq> Unlocked" using publish_locks [OF assms(1)] assms(2) by auto
  moreover have "mb_inv (s\<lparr>holders := [Running op (PopSkipStub n)]\<rparr>)" if "nxt (mem s) stub = Ptr n" for n
    using set_holder_inv [OF assms(1,2)] that h by simp
  moreover have "nxt (mem s) stub = Null \<Longrightarrow>
      mb_inv (s\<lparr>mem := (mem s)\<lparr>nxt := (nxt (mem s))(stub := Unlocked)\<rparr>, holders := []\<rparr>)"
    using unlock_head_inv [OF assms(1,2)] h by simp
  ultimately show ?thesis
    using h assms(3) by (cases "nxt (mem s) stub") (auto simp: op_advance_def ghost_chain_def)
qed

lemma advance_unlock_head_inv:
  assumes "mb_inv s" "holders s = [Running op PopUnlockHead]" "op_advance op PopUnlockHead s = (h', s')"
  shows "mb_inv (s'\<lparr>holders := h'\<rparr>)"
proof -
  have h: "stub \<notin> set (chain s)" "tl (chain s) \<noteq> []" "op_unlock op"
    using holder_unique [OF assms(1), of "[]" _ "[]"] assms(2) by auto
  then have ns: "mb_head (mem s) \<noteq> stub" using mb_invD(8) [OF assms(1)] by auto
  show ?thesis
  proof (cases "nxt (mem s) (mb_head (mem s))")
    case Null
    then show ?thesis using unlock_head_inv [OF assms(1,2)] h assms(3)
      by (auto simp: op_advance_def ghost_chain_def)
  next
    case Unlocked
    then show ?thesis using publish_locks [OF assms(1)] assms(2) by auto
  next
    case (Ptr n)
    note f = finish_inv [OF assms(1,2) _ Ptr ns]
    show ?thesis
      using assms(3) Ptr f by (auto simp: op_advance_def ghost_chain_def split: if_splits)
  qed
qed

lemma advance_tail_inv:
  assumes "mb_inv s" "holders s = [Running op pc]" "pc = PopLoadTail \<or> pc = PopCasTail"
    and "op_advance op pc s = (h', s')"
  shows "mb_inv (s'\<lparr>holders := h'\<rparr>)"
proof -
  have h: "stub \<notin> set (chain s)"
    using holder_unique [OF assms(1), of "[]" _ "[]"] assms(2,3) by auto
  then have n: "nxt (mem s) stub = Null" using assms(1) by (auto simp: mb_inv_def stub_inv_def)
  have own: "own_link [Running op pc] (mem s) = {}" using assms(3) by auto
  have "mb_inv (s\<lparr>holders := [Running op PopCasTail]\<rparr>)" "mb_inv (s\<lparr>holders := [Idle]\<rparr>)"
    using set_holder_inv [OF assms(1,2) own] h by simp_all
  moreover have "mb_inv (s\<lparr>holders := [Running op PopUnlockHead]\<rparr>)"
    if "op_unlock op" "mb_head (mem s) \<noteq> mb_tail (mem s)"
  proof -
    have "tl (chain s) \<noteq> []" using that(2) mb_invD(1-3) [OF assms(1)] by (cases "chain s") auto
    then show ?thesis using set_holder_inv [OF assms(1,2) own] h that by simp
  qed
  moreover note cas_tail_inv [OF assms(1)]
  ultimately show ?thesis using assms(2-) n
    by (auto simp: op_advance_def ghost_chain_def pop_blocked_def split: if_splits)
qed

lemma advance_link_stub_inv:
  assumes "mb_inv s" "holders s = [Running op PopLinkStub]" "op_advance op PopLinkStub s = (h', s')"
  shows "mb_inv (s'\<lparr>holders := h'\<rparr>)"
proof -
  have h: "mb_head (mem s) \<noteq> stub"
    using holder_unique [OF assms(1), of "[]" _ "[]"] assms(2) by auto
  note l = link_stub_inv [OF assms(1,2)]
  have "op_removes op \<Longrightarrow> mb_inv (s\<lparr>mem := (mem s)\<lparr>nxt := (nxt (mem s))(mb_head (mem s) := Ptr stub), mb_head := stub\<rparr>,
       chain := tl (chain s), popped := popped s @ [mb_head (mem s)], holders := [Idle]\<rparr>)"
    using finish_inv(1) [OF l, of Idle stub] h by simp
  then show ?thesis using l assms(3)
    by (auto simp: op_advance_def ghost_chain_def Let_def split: if_splits)
qed

lemma advance_inv:
  assumes "mb_inv s" "holders s = [Running op pc]" "op_advance op pc s = (h', s')"
  shows "mb_inv (s'\<lparr>holders := h'\<rparr>)"
proof (cases pc)
  case PopLoadNext
  have "stub \<notin> set (chain s)"
    using holder_unique [OF assms(1), of "[]" _ "[]"] assms(2) PopLoadNext by auto
  then have "mb_head (mem s) \<noteq> stub" using mb_invD(8) [OF assms(1)] by auto
  then show ?thesis
    using advance_head_inv [OF assms(1,2)] assms(3) PopLoadNext by (simp add: ghost_chain_def)
next
  case (PopSkipStub n)
  then show ?thesis using skip_stub_inv [OF assms(1)] assms(2,3)
    by (auto simp: op_advance_def ghost_chain_def)
qed (use assms holder_unique [OF assms(1), of "[]" _ "[]"] advance_load_inv advance_unlock_stub_inv
      advance_unlock_head_inv advance_tail_inv advance_link_stub_inv in auto)

lemma mb_step_inv:
  assumes "mb_inv s" "mb_step s t"
  shows "mb_inv t"
  using assms(2)
proof cases
  case (prepare item prev m')
  then show ?thesis using prepare_inv [OF assms(1)] by simp
next
  case (publish ps prev item qs locks m')
  then show ?thesis using publish_inv [OF assms(1)] by simp
next
  case (publish_fail ps prev item qs)
  then show ?thesis using publish_ok [OF assms(1)] by simp
next
  case (lock locks m')
  then show ?thesis using try_lock_inv [OF assms(1)] by simp
next
  case lock_fail
  then show ?thesis using try_lock_ok [OF assms(1)] by (auto simp: try_lock_def split: if_splits)
next
  case (start hs ks op)
  then show ?thesis
    using holder_unique [OF assms(1) start(2)] set_holder_inv [OF assms(1), of Idle "Running op PopLoad"] by simp
next
  case (advance hs op pc ks h' s')
  then show ?thesis using holder_unique [OF assms(1) advance(2)] advance_inv [OF assms(1)] by simp
qed

interpretation mb: inv_system mb_init mb_step mb_inv
  by unfold_locales (auto intro: mb_inv_init mb_step_inv)


section \<open>Operations without interference\<close>

lemma op_advance_running:
  assumes "pop_step (op_unlock op) pc (mem s) = (pc', m')" "pop_rank pc' \<noteq> 0"
  shows "op_advance op pc s = ([Running op pc'], s\<lparr>mem := m', chain := ghost_chain pc (mem s) (chain s)\<rparr>)"
  using assms by (cases pc') (auto simp: op_advance_def)

text \<open>An operation of the lock holder that runs alone returns, and keeps the invariant.\<close>

lemma run_op:
  assumes "mb_inv s" "holders s = [Running op pc]"
  shows "\<exists>h n m' s'. run_pop (op_unlock op) pc (mem s) = (PopDone h n, m') \<and> mb_inv s' \<and>
    pend s' = pend s \<and> pushed s' = pushed s \<and>
    mem s' = (if h \<noteq> None \<and> op_removes op then set_head n m' else m') \<and>
    holders s' = (if h = None \<and> op_unlock op then [] else [Idle]) \<and>
    popped s' = popped s @ (if op_removes op then (case h of Some x \<Rightarrow> [x] | None \<Rightarrow> []) else [])"
  using assms
proof (induction "pop_rank pc" arbitrary: s pc rule: less_induct)
  case less
  have r: "pop_rank pc \<noteq> 0"
    using holder_unique [OF less.prems(1), of "[]" _ "[]"] less.prems(2) by (cases pc) auto
  obtain pc' m' where st: "pop_step (op_unlock op) pc (mem s) = (pc', m')" by fastforce
  obtain h' s' where adv: "op_advance op pc s = (h', s')" by fastforce
  have inv: "mb_inv (s'\<lparr>holders := h'\<rparr>)" using advance_inv [OF less.prems adv] .
  have run: "run_pop (op_unlock op) pc (mem s) = run_pop (op_unlock op) pc' m'"
    using r st by (subst run_pop.simps) simp
  show ?case
  proof (cases "pop_rank pc' = 0")
    case False
    then have "h' = [Running op pc']" "s' = s\<lparr>mem := m', chain := ghost_chain pc (mem s) (chain s)\<rparr>"
      using op_advance_running [OF st False] adv by auto
    moreover have "pop_rank pc' < pop_rank pc" using pop_step_rank [OF r] st by (metis fst_conv)
    ultimately show ?thesis
      using less.hyps [of pc' "s'\<lparr>holders := h'\<rparr>"] inv run by auto
  next
    case True
    then have stop: "run_pop (op_unlock op) pc' m' = (pc', m')" by (subst run_pop.simps) simp
    show ?thesis
    proof (cases pc')
      case PopFail
      then have "failed (s'\<lparr>holders := h'\<rparr>)" using adv st by (auto simp: op_advance_def)
      then show ?thesis using inv by (auto simp: mb_inv_def lock_inv_def)
    next
      case (PopDone h n)
      then show ?thesis using adv st inv run stop
        by (intro exI [of _ h] exI [of _ n] exI [of _ m'] exI [of _ "s'\<lparr>holders := h'\<rparr>"])
          (auto simp: op_advance_def Let_def split: option.splits if_splits)
    qed (use True in auto)
  qed
qed

text \<open>
  \<open>mb_rep m xs l\<close>: the memory of a mailbox with no push in flight that holds the items
  \<open>xs\<close> and is locked iff \<open>l\<close>.
\<close>

definition mb_rep :: "mbox \<Rightarrow> addr list \<Rightarrow> bool \<Rightarrow> bool" where
  "mb_rep m xs l \<longleftrightarrow> (\<exists>c. mb_inv \<lparr>mem = m, pend = [], holders = (if l then [Idle] else []), chain = c,
     pushed = xs, popped = [], failed = False\<rparr>)"

lemma unlocked_pending:
  assumes "mb_inv s" "holders s = []" "items s \<noteq> []"
  shows "\<exists>item. (mb_head (mem s), item) \<in> set (pend s) \<and> nxt (mem s) (mb_head (mem s)) = Unlocked"
proof -
  have u: "nxt (mem s) (mb_head (mem s)) = Unlocked" and
    h: "mb_head (mem s) = stub \<or> tl (chain s) \<noteq> []"
    using assms(1,2) by (auto simp: mb_inv_def lock_inv_def split: if_splits)
  obtain r where c: "chain s = mb_head (mem s) # r" using mb_invD(1,2) [OF assms(1)] by (cases "chain s") auto
  with h assms(3) have "r \<noteq> []" by (auto simp: items_def)
  then obtain b r' where "chain s = mb_head (mem s) # b # r'" using c by (cases r) auto
  then show ?thesis using u mb_invD(7) [OF assms(1)] assms(2) by (auto simp: waiting_def)
qed

lemma run_pop_some:
  assumes "mb_inv s" "pend s = []" "holders s = [Idle]" "items s \<noteq> []"
  shows "\<exists>h n m'. run_pop u PopLoad (mem s) = (PopDone (Some h) n, m')"
proof -
  let ?m = "mem s"
  have l: "linked (nxt ?m) {} (chain s)" and u: "\<And>a. nxt ?m a \<noteq> Unlocked"
    using mb_invD(7) [OF assms(1)] publish_locks [OF assms(1)] assms(2,3) by (auto simp: waiting_def)
  have ns: "mb_head ?m \<noteq> stub \<Longrightarrow> nxt ?m (mb_head ?m) = Null \<Longrightarrow> nxt ?m stub = Null"
    using no_stub [OF assms(1)] assms(1,3) by (auto simp: mb_inv_def stub_inv_def)
  note mb = mb_invD(1-4) [OF assms(1)]
  obtain r where c: "chain s = mb_head ?m # r" using mb(1,2) by (cases "chain s") auto
  note run = run_pop.simps [of u PopLoad] run_pop.simps [of u PopLoadNext] run_pop.simps [of u PopLoadTail]
    run_pop.simps [of u PopCasTail] run_pop.simps [of u PopLinkStub] run_pop.simps [of u "PopSkipStub _"]
    run_pop.simps [of u "PopDone _ _"]
  show ?thesis
  proof (cases "mb_head ?m = stub")
    case False
    then show ?thesis using l u c mb ns by (cases r) (auto simp: run pop_head_def)
  next
    case True
    then obtain x r' where r: "r = x # r'" using c assms(4) by (cases r) (auto simp: items_def)
    then show ?thesis using l u c mb True by (cases r') (auto simp: run pop_head_def)
  qed
qed

lemma mb_rep_start:
  assumes "mb_rep m xs True"
  shows "\<exists>s. mb_inv s \<and> mem s = m \<and> pend s = [] \<and> holders s = [Running op PopLoad] \<and> pushed s = xs \<and>
    popped s = [] \<and> mb_inv (s\<lparr>holders := [Idle]\<rparr>) \<and> items s = xs"
proof -
  obtain c where i: "mb_inv \<lparr>mem = m, pend = [], holders = [Idle], chain = c, pushed = xs, popped = [], failed = False\<rparr>"
    using assms by (auto simp: mb_rep_def)
  show ?thesis
    using set_holder_inv [OF i, of Idle "Running op PopLoad"] i
    by (intro exI [of _ "\<lparr>mem = m, pend = [], holders = [Running op PopLoad], chain = c, pushed = xs,
        popped = [], failed = False\<rparr>"]) (auto simp: mb_inv_def chain_inv_def items_def)
qed

lemma mb_rep_of_inv:
  assumes "mb_inv s" "pend s = []" "holders s = (if l then [Idle] else [])"
  shows "mb_rep (mem s) (items s) l"
  using assms unfolding mb_rep_def
  by (intro exI [of _ "chain s"]) (auto simp: mb_inv_def chain_inv_def stub_inv_def lock_inv_def waiting_def items_def split: if_splits)

text \<open>The outcome of \<open>pop_impl\<close> on a mailbox with no push in flight.\<close>

lemma run_op_rep:
  assumes "mb_rep m xs True"
  shows "\<exists>h n m'. run_pop (op_unlock op) PopLoad m = (PopDone h n, m') \<and>
    (case xs of
       [] \<Rightarrow> h = None \<and> mb_rep m' [] (\<not> op_unlock op)
     | x # ys \<Rightarrow> h = Some x \<and> (if op_removes op then mb_rep (set_head n m') ys True else mb_rep m' xs True))"
proof -
  obtain s where s: "mb_inv s" "mem s = m" "pend s = []" "holders s = [Running op PopLoad]" "pushed s = xs"
    "popped s = []" "mb_inv (s\<lparr>holders := [Idle]\<rparr>)" "items s = xs"
    using mb_rep_start [OF assms] by blast
  obtain s1 where s1: "mb_inv s1" "mem s1 = m" "pend s1 = []" "pushed s1 = xs" "popped s1 = []"
    and h1: "holders s1 = [Running (if op_unlock op then OpPop else OpTryPop) PopLoad]"
    using mb_rep_start [OF assms] by blast
  obtain h n m' s' where r: "run_pop (op_unlock op) PopLoad m = (PopDone h n, m')" and i: "mb_inv s'"
    "pend s' = []" "pushed s' = xs" "mem s' = (if h \<noteq> None \<and> op_removes op then set_head n m' else m')"
    "holders s' = (if h = None \<and> op_unlock op then [] else [Idle])"
    "popped s' = (if op_removes op then (case h of Some x \<Rightarrow> [x] | None \<Rightarrow> []) else [])"
    using run_op [OF s(1,4)] s by auto
  have "op_unlock (if op_unlock op then OpPop else OpTryPop) = op_unlock op" "op_removes (if op_unlock op then OpPop else OpTryPop)"
    by (auto simp: op_removes_def)
  then obtain s2 where "mb_inv s2" "pushed s2 = xs" "popped s2 = (case h of Some x \<Rightarrow> [x] | None \<Rightarrow> [])"
    using run_op [OF s1(1) h1] s1 r by auto
  then have first: "h = Some x \<Longrightarrow> \<exists>ys. xs = x # ys" for x
    by (auto simp: mb_inv_def chain_inv_def)
  have it: "xs = popped s' @ items s'" using i(1,3) by (auto simp: mb_inv_def chain_inv_def)
  show ?thesis
  proof (cases xs)
    case Nil
    then have "h = None" using first by (cases h) auto
    moreover from this have "mb_rep m' [] (\<not> op_unlock op)"
      using mb_rep_of_inv [OF i(1,2), of "\<not> op_unlock op"] i(4,5) it Nil by (auto split: if_splits)
    ultimately show ?thesis using r Nil by auto
  next
    case (Cons x ys)
    then have "h \<noteq> None" using run_pop_some [OF s(7), of "op_unlock op"] s r by (auto simp: items_def)
    then have h: "h = Some x" using first Cons by auto
    have "mb_rep (mem s') (items s') True"
      using mb_rep_of_inv [OF i(1,2), of True] i(5) h by simp
    then show ?thesis using r h Cons it i(4,6) by (auto split: if_splits)
  qed
qed
section \<open>The mailbox contract\<close>

lemma push_rep:
  assumes "mb_rep m xs l" "x \<noteq> stub" "x \<notin> set xs"
  shows "\<exists>m'. push m x = Some (\<not> l, m') \<and> mb_rep m' (xs @ [x]) True"
proof -
  obtain s where s: "mb_inv s" "mem s = m" "pend s = []" "holders s = (if l then [Idle] else [])"
    "pushed s = xs" "popped s = []"
    using assms(1) unfolding mb_rep_def by force
  then have i: "items s = xs" by (auto simp: mb_inv_def chain_inv_def)
  then have x: "x \<notin> set (chain s)" using assms(2,3) by (auto simp: items_def)
  obtain prev m1 where p: "push_prepare (mem s) x = (prev, m1)" by fastforce
  define s1 where "s1 = s\<lparr>mem := m1, pend := (prev, x) # pend s, chain := chain s @ [x],
                  pushed := pushed s @ [x]\<rparr>"
  have s1: "mb_inv s1" using prepare_inv [OF s(1) assms(2) x p] by (simp add: s1_def)
  have d: "pend s1 = [] @ (prev, x) # []" using s by (simp add: s1_def)
  define b where "b = (nxt m1 prev = Unlocked)"
  obtain m2 where q: "push_publish m1 prev x = Some (b, m2)"
    using publish_ok [OF s1 d] by (simp add: s1_def b_def)
  define s2 where "s2 = s1\<lparr>mem := m2, pend := [], holders := (if b then holders s1 @ [Idle] else holders s1)\<rparr>"
  have s2: "mb_inv s2" using publish_inv [OF s1 d, of b m2] q by (simp add: s1_def s2_def)
  have "holders s2 \<noteq> []"
    using unlocked_pending [OF s2] assms(2) by (auto simp: s2_def s1_def items_def)
  moreover have "b \<Longrightarrow> holders s1 = []" using publish_locks [OF s1, of prev] by (simp add: s1_def b_def)
  ultimately have "b = (\<not> l)" "holders s2 = [Idle]" using s by (auto simp: s2_def s1_def split: if_splits)
  moreover have "items s2 = xs @ [x]" using i assms(2) by (auto simp: s2_def s1_def items_def)
  ultimately show ?thesis
    using mb_rep_of_inv [OF s2, of True] p q s(2) by (auto simp: push_def s2_def s1_def)
qed

lemma pop_rep:
  assumes "mb_rep m xs True"
  shows "\<exists>m'. pop m = Some (case xs of [] \<Rightarrow> None | x # _ \<Rightarrow> Some x, m') \<and> mb_rep m' (tl xs) (xs \<noteq> [])"
  using run_op_rep [OF assms, of OpPop]
  by (cases xs) (auto simp: pop_def pop_impl_def op_removes_def)

lemma try_pop_rep:
  assumes "mb_rep m xs True"
  shows "\<exists>m'. try_pop m = Some (case xs of [] \<Rightarrow> None | x # _ \<Rightarrow> Some x, m') \<and> mb_rep m' (tl xs) True"
  using run_op_rep [OF assms, of OpTryPop]
  by (cases xs) (auto simp: try_pop_def pop_impl_def op_removes_def)

lemma peek_rep:
  assumes "mb_rep m xs True"
  shows "\<exists>m'. peek m = Some (case xs of [] \<Rightarrow> None | x # _ \<Rightarrow> Some x, m') \<and> mb_rep m' xs True"
  using run_op_rep [OF assms, of OpPeek]
  by (cases xs) (auto simp: peek_def pop_impl_def op_removes_def)

lemma try_unlock_rep:
  assumes "mb_rep m xs True"
  shows "\<exists>m'. try_unlock m = Some (xs = [], m') \<and> mb_rep m' xs (xs \<noteq> [])"
  using run_op_rep [OF assms, of OpTryUnlock]
  by (cases xs) (auto simp: try_unlock_def pop_impl_def op_removes_def)

lemma initially_rep: "mb_rep initially_locked [] True" "mb_rep initially_unlocked [] False"
  using mb_inv_init by (auto simp: mb_rep_def mb_init_def)

definition mb_fresh :: "addr list \<Rightarrow> addr \<Rightarrow> bool" where
  "mb_fresh xs x \<longleftrightarrow> x \<noteq> stub \<and> x \<notin> set xs"

interpretation imb: mpsc_mailbox mb_rep mb_fresh push pop try_unlock
  by unfold_locales (auto simp: mb_fresh_def push_rep pop_rep try_unlock_rep)

section \<open>Properties of the intrusive mailbox\<close>

text \<open>
  C5. At most one thread holds the lock of a mailbox, whatever the interleaving of pushes,
  \<open>try_lock\<close>s and operations of lock holders, and it is unlocked exactly when the
  \<open>next\<close> word of the head holds the unlock marker.
\<close>

theorem mailbox_mutual_exclusion:
  assumes "reach mb_init mb_step s"
  shows "length (holders s) \<le> 1 \<and> (holders s = [] \<longleftrightarrow> nxt (mem s) (mb_head (mem s)) = Unlocked)"
proof (rule mb.reach_safe [OF assms])
  fix t assume "mb_inv t"
  then show "length (holders t) \<le> 1 \<and> (holders t = [] \<longleftrightarrow> nxt (mem t) (mb_head (mem t)) = Unlocked)"
    by (cases "nxt (mem t) (mb_head (mem t)) = Unlocked") (auto simp: mb_inv_def lock_inv_def)
qed

text \<open>A push that stopped between its two halves while the mailbox is locked and empty.\<close>

definition mb_start :: mb_sys where
  "mb_start = \<lparr>mem = initially_locked, pend = [], holders = [Idle], chain = [stub],
     pushed = [], popped = [], failed = False\<rparr>"

definition mb_half_push :: mb_sys where
  "mb_half_push = mb_start\<lparr>mem := snd (push_prepare initially_locked 1), pend := [(stub, 1)],
     chain := [stub, 1], pushed := [1]\<rparr>"

lemma mb_half_push_reach: "reach mb_init mb_step mb_half_push"
proof -
  have "mb_step mb_start (mb_start\<lparr>mem := snd (push_prepare initially_locked 1), pend := (stub, 1) # pend mb_start,
      chain := chain mb_start @ [1], pushed := pushed mb_start @ [1]\<rparr>)"
    by (rule mb_step.prepare)
      (auto simp: mb_start_def push_prepare_def initially_locked_def stub_def)
  moreover have "reach mb_init mb_step mb_start" by (rule reach_init) (simp add: mb_init_def mb_start_def)
  ultimately show ?thesis using reach_step by (fastforce simp: mb_half_push_def mb_start_def)
qed

theorem mailbox_mutual_exclusion_witness:
  "reach mb_init mb_step mb_half_push \<and> length (holders mb_half_push) \<le> 1"
  using mailbox_mutual_exclusion [OF mb_half_push_reach] mb_half_push_reach by simp

text \<open>
  C6. First in, first out, without loss or duplication: the items in the order in which their
  pushes exchanged \<open>tail_\<close> are the items returned so far followed by the items still in
  the mailbox.
\<close>

theorem mailbox_fifo:
  assumes "reach mb_init mb_step s"
  shows "pushed s = popped s @ items s \<and> distinct (items s)"
  by (rule mb.reach_safe [OF assms]) (auto simp: mb_inv_def chain_inv_def items_def)

theorem mailbox_fifo_witness:
  "pushed mb_half_push = popped mb_half_push @ items mb_half_push \<and> items mb_half_push = [1]"
  using mailbox_fifo [OF mb_half_push_reach]
  by (simp add: mb_half_push_def mb_start_def items_def stub_def)

text \<open>
  No \<open>assert\<close> of \<open>push_publish\<close>, \<open>try_lock\<close> or \<open>pop_impl\<close> fails in any
  interleaving.
\<close>

theorem mailbox_assertions:
  assumes "reach mb_init mb_step s"
  shows "\<not> failed s \<and> Running op PopFail \<notin> set (holders s)"
proof (rule mb.reach_safe [OF assms])
  fix t assume i: "mb_inv t"
  show "\<not> failed t \<and> Running op PopFail \<notin> set (holders t)"
  proof (cases "nxt (mem t) (mb_head (mem t)) = Unlocked")
    case True
    then show ?thesis using i by (auto simp: mb_inv_def lock_inv_def)
  next
    case False
    then show ?thesis using i by (auto simp: mb_inv_def lock_inv_def)
  qed
qed

theorem mailbox_assertions_witness:
  "\<not> failed mb_half_push \<and> Running OpPop PopFail \<notin> set (holders mb_half_push)"
  using mailbox_assertions [OF mb_half_push_reach] .

text \<open>
  C7. No wakeup is lost: while the mailbox is unlocked and holds items, a push is still in
  flight at its head, and that push will lock the mailbox when it publishes.
\<close>

theorem mailbox_no_lost_wakeup:
  assumes "reach mb_init mb_step s" "holders s = []" "items s \<noteq> []"
  shows "\<exists>item m'. (mb_head (mem s), item) \<in> set (pend s) \<and>
    push_publish (mem s) (mb_head (mem s)) item = Some (True, m')"
  using unlocked_pending [OF mb.reach_inv [OF assms(1)] assms(2,3)]
  by (auto simp: push_publish_def)

definition mb_half_push_unlocked :: mb_sys where
  "mb_half_push_unlocked = mb_start\<lparr>mem := snd (push_prepare initially_unlocked 1), pend := [(stub, 1)],
     holders := [], chain := [stub, 1], pushed := [1]\<rparr>"

lemma mb_half_push_unlocked_reach: "reach mb_init mb_step mb_half_push_unlocked"
proof -
  let ?s = "mb_start\<lparr>mem := initially_unlocked, holders := []\<rparr>"
  have "mb_step ?s (?s\<lparr>mem := snd (push_prepare initially_unlocked 1), pend := (stub, 1) # pend ?s,
      chain := chain ?s @ [1], pushed := pushed ?s @ [1]\<rparr>)"
    by (rule mb_step.prepare)
      (auto simp: mb_start_def push_prepare_def initially_unlocked_def stub_def)
  moreover have "reach mb_init mb_step ?s" by (rule reach_init) (simp add: mb_init_def mb_start_def)
  ultimately show ?thesis using reach_step by (fastforce simp: mb_half_push_unlocked_def mb_start_def)
qed

theorem mailbox_no_lost_wakeup_witness:
  "\<exists>item m'. (stub, item) \<in> set (pend mb_half_push_unlocked) \<and>
    push_publish (mem mb_half_push_unlocked) stub item = Some (True, m')"
  using mailbox_no_lost_wakeup [OF mb_half_push_unlocked_reach]
  by (simp add: mb_half_push_unlocked_def mb_start_def items_def stub_def initially_unlocked_def push_prepare_def)

text \<open>\<open>pop_impl\<close> where every atomic access sees some unrelated memory.\<close>

fun pop_under :: "bool \<Rightarrow> pop_pc \<Rightarrow> mbox list \<Rightarrow> pop_pc" where
  "pop_under unlock pc [] = pc"
| "pop_under unlock pc (m # ms) = pop_under unlock (fst (pop_step unlock pc m)) ms"

lemma pop_step_stop: "pop_rank pc = 0 \<Longrightarrow> pop_rank (fst (pop_step unlock pc m)) = 0"
  by (cases pc) auto

lemma pop_under_rank: "pop_rank (pop_under unlock pc ms) \<le> pop_rank pc - length ms"
proof (induction ms arbitrary: pc)
  case (Cons m ms)
  have "pop_rank (fst (pop_step unlock pc m)) \<le> pop_rank pc - 1"
    using pop_step_rank [of pc unlock m] pop_step_stop [of pc unlock m] by (cases "pop_rank pc = 0") auto
  then show ?case using Cons.IH [of "fst (pop_step unlock pc m)"] by simp
qed simp

text \<open>
  \<open>pop_impl\<close> is wait-free: under arbitrary interference (every atomic access sees some
  unrelated memory) it returns after at most seven accesses.
\<close>

theorem pop_wait_free:
  assumes "7 \<le> length ms"
  shows "pop_rank (pop_under unlock PopLoad ms) = 0"
  using pop_under_rank [of unlock PopLoad ms] assms by simp

theorem pop_wait_free_witness: "pop_rank (pop_under True PopLoad (replicate 7 initially_locked)) = 0"
  using pop_wait_free [of "replicate 7 initially_locked" True] by simp

text \<open>
  Without interference the mailbox is a locked FIFO queue: any sequence of distinct nodes
  pushed into an empty mailbox is popped in the same order, the first push reports that it
  locked an unlocked mailbox and no other does, and the pop after the last node unlocks.
\<close>

theorem mailbox_push_pop:
  assumes "mb_rep m [] l" "distinct ys" "stub \<notin> set ys" "ys \<noteq> []"
  shows "\<exists>bs m1 m2. push_all push m ys = Some (bs, m1) \<and> drain pop (Suc (length ys)) m1 = Some (ys, m2) \<and>
    mb_rep m2 [] False \<and> (hd bs \<longleftrightarrow> \<not> l) \<and> True \<notin> set (tl bs)"
  by (rule imb.push_all_drain [OF assms(1,4)]) (use assms(2,3) in \<open>auto simp: mb_fresh_def\<close>)

theorem mailbox_push_pop_witness:
  "\<exists>bs m1 m2. push_all push initially_unlocked [1, 2, 3] = Some (bs, m1) \<and>
    drain pop 4 m1 = Some ([1, 2, 3], m2) \<and> hd bs"
proof -
  have "\<exists>bs m1 m2. push_all push initially_unlocked [1, 2, 3] = Some (bs, m1) \<and>
      drain pop (Suc (length [1::nat, 2, 3])) m1 = Some ([1, 2, 3], m2) \<and>
      mb_rep m2 [] False \<and> (hd bs \<longleftrightarrow> \<not> False) \<and> True \<notin> set (tl bs)"
    by (rule mailbox_push_pop [OF initially_rep(2)]) (auto simp: stub_def)
  then show ?thesis by (auto simp: numeral_eq_Suc simp del: drain.simps push_all.simps)
qed

text \<open>
  \<open>peek\<close> and \<open>try_pop\<close> keep the mailbox locked, and \<open>peek\<close> announces exactly the
  node that the next \<open>pop\<close> returns.
\<close>

theorem mailbox_peek_pop:
  assumes "mb_rep m xs True"
  shows "\<exists>m1 m2. peek m = Some (case xs of [] \<Rightarrow> None | x # _ \<Rightarrow> Some x, m1) \<and>
    pop m1 = Some (case xs of [] \<Rightarrow> None | x # _ \<Rightarrow> Some x, m2) \<and> mb_rep m2 (tl xs) (xs \<noteq> []) \<and>
    (\<exists>m3. try_pop m1 = Some (case xs of [] \<Rightarrow> None | x # _ \<Rightarrow> Some x, m3) \<and> mb_rep m3 (tl xs) True)"
  using peek_rep [OF assms] pop_rep try_pop_rep by blast

theorem mailbox_peek_pop_witness:
  "\<exists>m1 m2. peek initially_locked = Some (None, m1) \<and> pop m1 = Some (None, m2)"
  using mailbox_peek_pop [OF initially_rep(1)] by auto

end
