(* ===== verification/Actor_Context.thy ===== *)
theory Actor_Context
  imports Intrusive_Mailbox "HOL-Library.Monad_Syntax"
begin

text \<open>
  Actor contexts and the context switches of
  \<open>coroactors/detail/async_context.h\<close> (\<open>async_context_manager\<close>) over the mailboxes of
  \<open>Intrusive_Mailbox\<close> and an abstract scheduler (\<open>coroactors/actor_scheduler.h\<close>).

  A context is a mailbox of runnables and a scheduler.  Runnables are mailbox nodes.  The
  scheduler is the record of what was handed to it: \<open>post\<close> and \<open>defer\<close> append an entry,
  \<open>preempt\<close> is an oracle of the caller (its answer depends on time).  Each entry also
  carries the context on whose behalf it was made, a ghost that no operation reads.

  The operations are written without interference between their mailbox accesses; the
  mailbox theory covers the interleavings inside one mailbox.  \<open>act_step\<close> interleaves
  whole context switches of any number of threads, \<open>do_yield\<close> included.
\<close>

type_synonym ctx = nat
type_synonym sched = nat
type_synonym runnable = addr

datatype how = Post | Defer

record world =
  mailboxes :: "ctx \<Rightarrow> mbox"
  scheduler :: "ctx \<Rightarrow> sched"
  scheduled :: "(sched \<times> how \<times> ctx \<times> runnable) list"

text \<open>\<open>actor_context_state\<close>: a new context has an unlocked empty mailbox.\<close>

definition new_context :: "world \<Rightarrow> ctx \<Rightarrow> sched \<Rightarrow> world" where
  "new_context w c sc = w\<lparr>mailboxes := (mailboxes w)(c := initially_unlocked),
                          scheduler := (scheduler w)(c := sc)\<rparr>"

definition push_runnable :: "world \<Rightarrow> ctx \<Rightarrow> runnable \<Rightarrow> (bool \<times> world) option" where
  "push_runnable w c r = do {
     (locks, m) \<leftarrow> push (mailboxes w c) r;
     Some (locks, w\<lparr>mailboxes := (mailboxes w)(c := m)\<rparr>) }"

definition next_runnable :: "world \<Rightarrow> ctx \<Rightarrow> (runnable option \<times> world) option" where
  "next_runnable w c = do {
     (r, m) \<leftarrow> pop (mailboxes w c);
     Some (r, w\<lparr>mailboxes := (mailboxes w)(c := m)\<rparr>) }"

definition schedule :: "how \<Rightarrow> world \<Rightarrow> ctx \<Rightarrow> runnable \<Rightarrow> world" where
  "schedule h w c r = w\<lparr>scheduled := scheduled w @ [(scheduler w c, h, c, r)]\<rparr>"

abbreviation post :: "world \<Rightarrow> ctx \<Rightarrow> runnable \<Rightarrow> world" where
  "post \<equiv> schedule Post"

abbreviation defer_to :: "world \<Rightarrow> ctx \<Rightarrow> runnable \<Rightarrow> world" where
  "defer_to \<equiv> schedule Defer"

definition post_opt :: "world \<Rightarrow> ctx \<Rightarrow> runnable option \<Rightarrow> world" where
  "post_opt w c x = (case x of None \<Rightarrow> w | Some r \<Rightarrow> post w c r)"

definition defer_opt :: "world \<Rightarrow> ctx \<Rightarrow> runnable option \<Rightarrow> world" where
  "defer_opt w c x = (case x of None \<Rightarrow> w | Some r \<Rightarrow> defer_to w c r)"

text \<open>
  What the calling thread knows: whether a task is running in it
  (\<open>async_task::current() != nullptr\<close>) and what each scheduler answers to \<open>preempt\<close>.
\<close>

record thread_env =
  running_task :: bool
  preempts :: "sched \<Rightarrow> bool"

definition maybe_preempt :: "thread_env \<Rightarrow> world \<Rightarrow> ctx option \<Rightarrow> runnable \<Rightarrow> bool \<times> world" where
  "maybe_preempt e w c r = (case c of
       None \<Rightarrow> (False, w)
     | Some c \<Rightarrow>
         (if running_task e then (True, post w c r)
          else if preempts e (scheduler w c) then (True, defer_to w c r)
          else (False, w)))"

definition post_or_defer :: "thread_env \<Rightarrow> world \<Rightarrow> ctx \<Rightarrow> runnable \<Rightarrow> world" where
  "post_or_defer e w c r = (if running_task e then post w c r else defer_to w c r)"

definition do_enter :: "thread_env \<Rightarrow> world \<Rightarrow> ctx option \<Rightarrow> runnable \<Rightarrow> bool \<Rightarrow> (bool \<times> world) option" where
  "do_enter e w c r initial = (case c of
       None \<Rightarrow> Some (True, w)
     | Some c \<Rightarrow> do {
         (locks, w) \<leftarrow> push_runnable w c r;
         if \<not> locks then Some (False, w)
         else do {
           (next, w) \<leftarrow> next_runnable w c;
           case next of
             None \<Rightarrow> Some (False, w)
           | Some next \<Rightarrow>
               (if initial then Some (False, post w c next)
                else let (pre, w) = maybe_preempt e w (Some c) next
                     in if pre then Some (False, w)
                        else if next \<noteq> r then Some (False, defer_to w c next)
                        else Some (True, w)) } })"

definition do_leave :: "world \<Rightarrow> ctx option \<Rightarrow> world option" where
  "do_leave w c = (case c of
       None \<Rightarrow> Some w
     | Some c \<Rightarrow> do {
         (next, w) \<leftarrow> next_runnable w c;
         Some (post_opt w c next) })"

text \<open>The part of \<open>do_transfer\<close> after \<open>more\<close> (here \<open>rest\<close>) was taken from the old context.\<close>

definition transfer_into ::
  "thread_env \<Rightarrow> world \<Rightarrow> ctx option \<Rightarrow> ctx \<Rightarrow> runnable \<Rightarrow> bool \<Rightarrow> runnable option \<Rightarrow> (bool \<times> world) option" where
  "transfer_into e w from to r returning rest = do {
     (locks, w) \<leftarrow> push_runnable w to r;
     (next, w) \<leftarrow> (if locks then next_runnable w to else Some (None, w));
     case next of
       None \<Rightarrow> Some (False, case from of Some f \<Rightarrow> defer_opt w f rest | None \<Rightarrow> w)
     | Some next \<Rightarrow>
         (case from of
            Some f \<Rightarrow>
              (if scheduler w f \<noteq> scheduler w to
               then Some (False, defer_opt (post w to next) f rest)
               else let (pre, w) = (if returning then maybe_preempt e w (Some to) next else (False, w))
                    in if pre then Some (False, post_opt w f rest)
                       else if next = r then Some (True, post_opt w f rest)
                       else Some (False, post_opt (defer_to w to next) f rest))
          | None \<Rightarrow>
              (let (pre, w) = maybe_preempt e w (Some to) next
               in if pre then Some (False, w)
                  else if next = r then Some (True, w)
                  else Some (False, defer_to w to next))) }"

definition do_transfer ::
  "thread_env \<Rightarrow> world \<Rightarrow> ctx option \<Rightarrow> ctx option \<Rightarrow> runnable \<Rightarrow> bool \<Rightarrow> (bool \<times> world) option" where
  "do_transfer e w from to r returning =
     (if from = to then
        (if returning then (let (pre, w) = maybe_preempt e w to r in Some (\<not> pre, w)) else Some (True, w))
      else (case to of
          None \<Rightarrow> do { w \<leftarrow> do_leave w from; Some (True, w) }
        | Some t \<Rightarrow> do {
            (rest, w) \<leftarrow> (case from of None \<Rightarrow> Some (None, w) | Some f \<Rightarrow> next_runnable w f);
            transfer_into e w from t r returning rest }))"

definition do_yield :: "thread_env \<Rightarrow> world \<Rightarrow> ctx option \<Rightarrow> runnable \<Rightarrow> (bool \<times> world) option" where
  "do_yield e w c r = (case c of
       None \<Rightarrow> Some (True, w)
     | Some c \<Rightarrow> do {
         (locks, w) \<leftarrow> push_runnable w c r;
         if locks then None
         else do {
           (next, w) \<leftarrow> next_runnable w c;
           case next of
             None \<Rightarrow> Some (False, w)
           | Some next \<Rightarrow> Some (False, post_or_defer e w c r) } })"

definition do_preempt :: "thread_env \<Rightarrow> world \<Rightarrow> ctx option \<Rightarrow> runnable \<Rightarrow> bool \<times> world" where
  "do_preempt e w c r = (case c of
       None \<Rightarrow> (True, w)
     | Some c \<Rightarrow> (False, post_or_defer e w c r))"

section \<open>Interleaved context switches\<close>

text \<open>
  \<open>running\<close> lists the threads that execute a runnable on behalf of a context.  A context
  switch hands over a runnable that is in no mailbox of the context it enters, since a
  coroutine suspends in one place at a time (\<open>idle\<close>).
\<close>

record actors =
  aw :: world
  running :: "(ctx \<times> runnable) list"

definition idle :: "world \<Rightarrow> ctx \<Rightarrow> runnable \<Rightarrow> bool" where
  "idle w c r \<longleftrightarrow> r \<noteq> stub \<and> (\<forall>xs l. mb_rep (mailboxes w c) xs l \<longrightarrow> r \<notin> set xs)"

definition act_init :: "actors \<Rightarrow> bool" where
  "act_init s \<longleftrightarrow> mailboxes (aw s) = (\<lambda>_. initially_unlocked) \<and> scheduled (aw s) = [] \<and> running s = []"

inductive act_step :: "actors \<Rightarrow> actors \<Rightarrow> bool" where
  a_dispatch: "scheduled (aw s) = us @ (sc, h, c, r) # vs \<Longrightarrow>
     act_step s (s\<lparr>aw := (aw s)\<lparr>scheduled := us @ vs\<rparr>, running := (c, r) # running s\<rparr>)"
| a_enter: "idle (aw s) c r \<Longrightarrow> do_enter e (aw s) (Some c) r initial = Some (b, w') \<Longrightarrow>
     act_step s (s\<lparr>aw := w', running := (if b then (c, r) # running s else running s)\<rparr>)"
| a_leave: "running s = us @ (c, r) # vs \<Longrightarrow> do_leave (aw s) (Some c) = Some w' \<Longrightarrow>
     act_step s (s\<lparr>aw := w', running := us @ vs\<rparr>)"
| a_transfer: "running s = us @ (f, r0) # vs \<Longrightarrow> idle (aw s) t r \<Longrightarrow>
     do_transfer e (aw s) (Some f) (Some t) r ret = Some (b, w') \<Longrightarrow>
     act_step s (s\<lparr>aw := w', running := us @ (if b then (t, r) # vs else vs)\<rparr>)"
| a_transfer_out: "running s = us @ (f, r0) # vs \<Longrightarrow>
     do_transfer e (aw s) (Some f) None r ret = Some (b, w') \<Longrightarrow>
     act_step s (s\<lparr>aw := w', running := us @ vs\<rparr>)"
| a_transfer_in: "idle (aw s) t r \<Longrightarrow>
     do_transfer e (aw s) None (Some t) r ret = Some (b, w') \<Longrightarrow>
     act_step s (s\<lparr>aw := w', running := (if b then (t, r) # running s else running s)\<rparr>)"
| a_preempt: "running s = us @ (c, r0) # vs \<Longrightarrow> do_preempt e (aw s) (Some c) r = (b, w') \<Longrightarrow>
     act_step s (s\<lparr>aw := w', running := us @ vs\<rparr>)"
| a_yield: "running s = us @ (c, r0) # vs \<Longrightarrow> idle (aw s) c r \<Longrightarrow> do_yield e (aw s) (Some c) r = Some (b, w') \<Longrightarrow>
     act_step s (s\<lparr>aw := w', running := us @ vs\<rparr>)"

definition act_contexts :: "actors \<Rightarrow> ctx list" where
  "act_contexts s = map (\<lambda>(sc, h, c, r). c) (scheduled (aw s)) @ map fst (running s)"

definition activations :: "actors \<Rightarrow> ctx \<Rightarrow> nat" where
  "activations s c = count_list (act_contexts s) c"

section \<open>What the operations do to the mailboxes\<close>

text \<open>\<open>wrep w q L\<close>: context \<open>c\<close> holds the runnables \<open>q c\<close> and is locked iff \<open>L c\<close>.\<close>

definition wrep :: "world \<Rightarrow> (ctx \<Rightarrow> runnable list) \<Rightarrow> (ctx \<Rightarrow> bool) \<Rightarrow> bool" where
  "wrep w q L \<longleftrightarrow> (\<forall>c. mb_rep (mailboxes w c) (q c) (L c))"

lemma linked_unique:
  "linked nx {} (a # c) \<Longrightarrow> linked nx {} (a # d) \<Longrightarrow> c = d"
proof (induction c arbitrary: a d)
  case Nil
  then show ?case by (cases d) auto
next
  case (Cons b c)
  then show ?case by (cases d) auto
qed

lemma mb_rep_state:
  assumes "mb_rep m xs l"
  obtains c where "c \<noteq> []" "hd c = mb_head m" "linked (nxt m) {} c" "xs = filter (\<lambda>a. a \<noteq> stub) c"
    "l = (nxt m (mb_head m) \<noteq> Unlocked)"
proof -
  obtain c where i: "mb_inv \<lparr>mem = m, pend = [], holders = (if l then [Idle] else []), chain = c,
     pushed = xs, popped = [], failed = False\<rparr>" using assms by (auto simp: mb_rep_def)
  have "xs = filter (\<lambda>a. a \<noteq> stub) c"
    using i by (auto simp: mb_inv_def chain_inv_def items_def)
  moreover have "linked (nxt m) {} c" using mb_invD(7) [OF i] by (auto simp: waiting_def split: if_splits)
  moreover have "l = (nxt m (mb_head m) \<noteq> Unlocked)"
    using i by (cases "nxt m (mb_head m) = Unlocked") (auto simp: mb_inv_def lock_inv_def split: if_splits)
  ultimately show ?thesis using mb_invD(1,2) [OF i] that [of c] by simp
qed

lemma mb_rep_unique:
  assumes "mb_rep m xs l" "mb_rep m ys k"
  shows "xs = ys" "l = k"
proof -
  obtain c where c: "c \<noteq> []" "hd c = mb_head m" "linked (nxt m) {} c" "xs = filter (\<lambda>a. a \<noteq> stub) c"
    "l = (nxt m (mb_head m) \<noteq> Unlocked)" using mb_rep_state [OF assms(1)] .
  obtain d where d: "d \<noteq> []" "hd d = mb_head m" "linked (nxt m) {} d" "ys = filter (\<lambda>a. a \<noteq> stub) d"
    "k = (nxt m (mb_head m) \<noteq> Unlocked)" using mb_rep_state [OF assms(2)] .
  have "c = d" using linked_unique [of "nxt m" "mb_head m" "tl c" "tl d"] c(1-3) d(1-3) by (cases c; cases d) auto
  then show "xs = ys" "l = k" using c d by auto
qed

lemma mb_rep_unlocked_empty: "mb_rep m xs False \<Longrightarrow> xs = []"
  using unlocked_pending [of "\<lparr>mem = m, pend = [], holders = [], chain = _, pushed = xs, popped = [], failed = False\<rparr>"]
  by (fastforce simp: mb_rep_def mb_inv_def chain_inv_def)

lemma wrep_unlocked: "wrep w q L \<Longrightarrow> \<not> L c \<Longrightarrow> q c = []"
  using mb_rep_unlocked_empty unfolding wrep_def by metis

lemma idle_fresh: "idle w c r \<Longrightarrow> wrep w q L \<Longrightarrow> mb_fresh (q c) r"
  by (auto simp: idle_def wrep_def mb_fresh_def)

lemma push_runnable_rep:
  assumes "wrep w q L" "mb_fresh (q c) r"
  shows "\<exists>w'. push_runnable w c r = Some (\<not> L c, w') \<and> wrep w' (q(c := q c @ [r])) (L(c := True)) \<and>
    scheduled w' = scheduled w \<and> scheduler w' = scheduler w"
proof -
  obtain m where "push (mailboxes w c) r = Some (\<not> L c, m)" "mb_rep m (q c @ [r]) True"
    using imb.push_rep [of "mailboxes w c" "q c" "L c" r] assms by (auto simp: wrep_def)
  then show ?thesis using assms by (auto simp: push_runnable_def wrep_def)
qed

lemma next_runnable_rep:
  assumes "wrep w q L" "L c"
  shows "\<exists>w'. next_runnable w c = Some (case q c of [] \<Rightarrow> None | x # _ \<Rightarrow> Some x, w') \<and>
    wrep w' (q(c := tl (q c))) (L(c := (q c \<noteq> []))) \<and> scheduled w' = scheduled w \<and> scheduler w' = scheduler w"
proof -
  have "mb_rep (mailboxes w c) (q c) True" using assms by (auto simp: wrep_def dest: spec [of _ c])
  then obtain m where "pop (mailboxes w c) = Some (case q c of [] \<Rightarrow> None | x # _ \<Rightarrow> Some x, m)"
    "mb_rep m (tl (q c)) (q c \<noteq> [])"
    using imb.pop_rep [of "mailboxes w c" "q c"] by auto
  then show ?thesis using assms by (auto simp: next_runnable_def wrep_def)
qed

lemma wrep_schedule [simp]: "wrep (schedule h w c r) q L = wrep w q L"
  by (simp add: wrep_def schedule_def)

lemma schedule_simps [simp]:
  "scheduled (schedule h w c r) = scheduled w @ [(scheduler w c, h, c, r)]"
  "scheduler (schedule h w c r) = scheduler w" "mailboxes (schedule h w c r) = mailboxes w"
  by (simp_all add: schedule_def)

text \<open>The entries an operation adds for a runnable that it took from a mailbox or did not run.\<close>

definition entry_of :: "ctx \<Rightarrow> runnable list \<Rightarrow> (ctx \<times> runnable) list" where
  "entry_of c xs = (case xs of [] \<Rightarrow> [] | x # _ \<Rightarrow> [(c, x)])"

definition jobs :: "(sched \<times> how \<times> ctx \<times> runnable) list \<Rightarrow> (ctx \<times> runnable) list" where
  "jobs es = map (\<lambda>(sc, h, c, r). (c, r)) es"

lemma jobs_simps [simp]:
  "jobs [] = []" "jobs ((sc, h, c, r) # es) = (c, r) # jobs es" "jobs (es @ fs) = jobs es @ jobs fs"
  by (simp_all add: jobs_def)

lemma jobs_map [simp]: "jobs (map (\<lambda>(c, x). (sch c, h, c, x)) cs) = cs"
  by (induction cs) auto

lemma do_enter_locked:
  assumes "wrep w q L" "mb_fresh (q c) r" "L c"
  shows "\<exists>w'. do_enter e w (Some c) r initial = Some (False, w') \<and> wrep w' (q(c := q c @ [r])) L \<and>
    scheduled w' = scheduled w"
proof -
  have "L(c := True) = L" using assms(3) by (simp add: fun_upd_idem)
  then show ?thesis using push_runnable_rep [OF assms(1,2)] assms(3) by (auto simp: do_enter_def)
qed

lemma enter_unlocked_mailbox:
  assumes "wrep w q L" "mb_fresh (q c) r" "\<not> L c"
  shows "\<exists>w1 w2. push_runnable w c r = Some (True, w1) \<and> next_runnable w1 c = Some (Some r, w2) \<and>
    wrep w2 q (L(c := True)) \<and> scheduled w2 = scheduled w \<and> scheduler w2 = scheduler w"
proof -
  have q: "q c = []" using wrep_unlocked [OF assms(1,3)] .
  obtain w1 where w1: "push_runnable w c r = Some (True, w1)" "wrep w1 (q(c := [r])) (L(c := True))"
    "scheduled w1 = scheduled w" "scheduler w1 = scheduler w"
    using push_runnable_rep [OF assms(1,2)] assms(3) q by auto
  have "q(c := []) = q" using q by auto
  then show ?thesis using next_runnable_rep [OF w1(2), of c] w1 by auto
qed

lemma do_enter_unlocked:
  assumes "wrep w q L" "mb_fresh (q c) r" "\<not> L c"
    and "b = (\<not> initial \<and> \<not> running_task e \<and> \<not> preempts e (scheduler w c))"
  shows "\<exists>w'. do_enter e w (Some c) r initial = Some (b, w') \<and> wrep w' q (L(c := True)) \<and>
    scheduled w' = scheduled w @ (if b then [] else
      [(scheduler w c, if initial \<or> running_task e then Post else Defer, c, r)])"
  using enter_unlocked_mailbox [OF assms(1-3)] assms(4)
  by (auto simp: do_enter_def maybe_preempt_def)

lemma do_leave_rep:
  assumes "wrep w q L" "L c"
  shows "\<exists>w'. do_leave w (Some c) = Some w' \<and> wrep w' (q(c := tl (q c))) (L(c := (q c \<noteq> []))) \<and>
    scheduled w' = scheduled w @ map (\<lambda>(c, x). (scheduler w c, Post, c, x)) (entry_of c (q c))"
  using next_runnable_rep [OF assms]
  by (auto simp: do_leave_def post_opt_def entry_of_def split: list.splits)

lemma post_opt_simps [simp]:
  "wrep (post_opt w c (case xs of [] \<Rightarrow> None | x # _ \<Rightarrow> Some x)) q L = wrep w q L"
  "wrep (defer_opt w c (case xs of [] \<Rightarrow> None | x # _ \<Rightarrow> Some x)) q L = wrep w q L"
  "jobs (scheduled (post_opt w c (case xs of [] \<Rightarrow> None | x # _ \<Rightarrow> Some x))) = jobs (scheduled w) @ entry_of c xs"
  "jobs (scheduled (defer_opt w c (case xs of [] \<Rightarrow> None | x # _ \<Rightarrow> Some x))) = jobs (scheduled w) @ entry_of c xs"
  by (cases xs; simp add: post_opt_def defer_opt_def entry_of_def)+

lemma maybe_preempt_jobs:
  "maybe_preempt e w (Some c) r = (pre, w') \<Longrightarrow>
   wrep w' q L = wrep w q L \<and> jobs (scheduled w') = jobs (scheduled w) @ (if pre then [(c, r)] else []) \<and>
   scheduler w' = scheduler w"
  by (auto simp: maybe_preempt_def split: if_splits)

lemma transfer_into_locked:
  assumes "wrep w q L" "mb_fresh (q t) r" "L t"
  shows "\<exists>w'. transfer_into e w (Some f) t r returning (case xs of [] \<Rightarrow> None | x # _ \<Rightarrow> Some x) = Some (False, w') \<and>
    wrep w' (q(t := q t @ [r])) L \<and> jobs (scheduled w') = jobs (scheduled w) @ entry_of f xs"
    and "\<exists>w'. transfer_into e w None t r returning None = Some (False, w') \<and>
    wrep w' (q(t := q t @ [r])) L \<and> jobs (scheduled w') = jobs (scheduled w)"
proof -
  have "L(t := True) = L" using assms(3) by (simp add: fun_upd_idem)
  then show "\<exists>w'. transfer_into e w (Some f) t r returning (case xs of [] \<Rightarrow> None | x # _ \<Rightarrow> Some x) = Some (False, w') \<and>
      wrep w' (q(t := q t @ [r])) L \<and> jobs (scheduled w') = jobs (scheduled w) @ entry_of f xs"
    and "\<exists>w'. transfer_into e w None t r returning None = Some (False, w') \<and>
    wrep w' (q(t := q t @ [r])) L \<and> jobs (scheduled w') = jobs (scheduled w)"
    using push_runnable_rep [OF assms(1,2)] assms(3) by (auto simp: transfer_into_def)
qed

lemma transfer_into_unlocked:
  assumes "wrep w q L" "mb_fresh (q t) r" "\<not> L t"
  shows "\<exists>b w'. transfer_into e w (Some f) t r returning (case xs of [] \<Rightarrow> None | x # _ \<Rightarrow> Some x) = Some (b, w') \<and>
    wrep w' q (L(t := True)) \<and>
    mset (jobs (scheduled w')) = mset (jobs (scheduled w) @ (if b then [] else [(t, r)]) @ entry_of f xs)"
    (is ?A)
    and "\<exists>b w'. transfer_into e w None t r returning None = Some (b, w') \<and>
    wrep w' q (L(t := True)) \<and> jobs (scheduled w') = jobs (scheduled w) @ (if b then [] else [(t, r)])"
    (is ?B)
proof -
  obtain w1 w2 where w2: "push_runnable w t r = Some (True, w1)" "next_runnable w1 t = Some (Some r, w2)"
    "wrep w2 q (L(t := True))" "scheduled w2 = scheduled w" "scheduler w2 = scheduler w"
    using enter_unlocked_mailbox [OF assms] by blast
  obtain pre w3 where p: "maybe_preempt e w2 (Some t) r = (pre, w3)" by fastforce
  note m = maybe_preempt_jobs [OF p]
  show ?A
  proof (cases "scheduler w2 f = scheduler w2 t")
    case True
    then show ?thesis using w2 p m
      by (cases returning; cases pre) (auto simp: transfer_into_def)
  next
    case False
    then show ?thesis using w2 by (auto simp: transfer_into_def)
  qed
  show ?B using w2 p m by (auto simp: transfer_into_def)
qed

text \<open>
  A transfer between two contexts: the old context gives its next runnable to the scheduler
  or unlocks; the new runnable runs here, is scheduled, or joins the queue of a locked
  context.
\<close>

lemma do_transfer_rep:
  assumes "wrep w q L" "mb_fresh (q t) r" "L f" "f \<noteq> t"
  shows "\<exists>b w'. do_transfer e w (Some f) (Some t) r returning = Some (b, w') \<and>
    wrep w' (q(f := tl (q f), t := (if L t then q t @ [r] else []))) (L(f := (q f \<noteq> []), t := True)) \<and>
    mset (jobs (scheduled w')) = mset (jobs (scheduled w) @ (if b \<or> L t then [] else [(t, r)]) @ entry_of f (q f)) \<and>
    (L t \<longrightarrow> \<not> b)"
proof -
  let ?q = "q(f := tl (q f))" and ?L = "L(f := (q f \<noteq> []))"
  obtain w1 where w1: "next_runnable w f = Some (case q f of [] \<Rightarrow> None | x # _ \<Rightarrow> Some x, w1)"
    "wrep w1 ?q ?L" "scheduled w1 = scheduled w" using next_runnable_rep [OF assms(1,3)] by blast
  have d: "do_transfer e w (Some f) (Some t) r returning =
      transfer_into e w1 (Some f) t r returning (case q f of [] \<Rightarrow> None | x # _ \<Rightarrow> Some x)"
    using w1(1) assms(4) by (simp add: do_transfer_def)
  have fr: "mb_fresh (?q t) r" using assms(2,4) by simp
  show ?thesis
  proof (cases "L t")
    case True
    then have L: "?L t" "?L(t := True) = ?L" using assms(4) by (simp_all add: fun_upd_idem)
    obtain w' where "transfer_into e w1 (Some f) t r returning (case q f of [] \<Rightarrow> None | x # _ \<Rightarrow> Some x) = Some (False, w')"
      "wrep w' (?q(t := ?q t @ [r])) ?L" "jobs (scheduled w') = jobs (scheduled w1) @ entry_of f (q f)"
      using transfer_into_locked(1) [OF w1(2) fr L(1)] by blast
    then have "do_transfer e w (Some f) (Some t) r returning = Some (False, w') \<and>
        wrep w' (q(f := tl (q f), t := (if L t then q t @ [r] else []))) (?L(t := True)) \<and>
        mset (jobs (scheduled w')) = mset (jobs (scheduled w) @ (if False \<or> L t then [] else [(t, r)]) @ entry_of f (q f)) \<and>
        (L t \<longrightarrow> \<not> False)"
      using d w1(3) True assms(4) L(2) by (simp only: fun_upd_other) simp
    then show ?thesis by blast
  next
    case False
    then have L: "\<not> ?L t" "q t = []" using assms(4) wrep_unlocked [OF assms(1)] by auto
    have q: "?q(t := []) = ?q" using L(2) assms(4) by (simp add: fun_upd_idem)
    obtain b w' where "transfer_into e w1 (Some f) t r returning (case q f of [] \<Rightarrow> None | x # _ \<Rightarrow> Some x) = Some (b, w')"
      "wrep w' ?q (?L(t := True))"
      "mset (jobs (scheduled w')) = mset (jobs (scheduled w1) @ (if b then [] else [(t, r)]) @ entry_of f (q f))"
      using transfer_into_unlocked(1) [OF w1(2) fr L(1)] by blast
    then have "do_transfer e w (Some f) (Some t) r returning = Some (b, w') \<and>
        wrep w' (q(f := tl (q f), t := (if L t then q t @ [r] else []))) (?L(t := True)) \<and>
        mset (jobs (scheduled w')) = mset (jobs (scheduled w) @ (if b \<or> L t then [] else [(t, r)]) @ entry_of f (q f)) \<and>
        (L t \<longrightarrow> \<not> b)"
      using d w1(3) False q by simp
    then show ?thesis by blast
  qed
qed

section \<open>Mutual exclusion of activities\<close>

definition act_inv :: "actors \<Rightarrow> bool" where
  "act_inv s \<longleftrightarrow> (\<exists>q. wrep (aw s) q (\<lambda>c. activations s c = 1)) \<and> (\<forall>c. activations s c \<le> 1)"

lemma act_invI:
  assumes "wrep (aw s) q L" "\<And>c. activations s c = (if L c then 1 else 0)"
  shows "act_inv s"
proof -
  have "(\<lambda>c. activations s c = 1) = L" using assms(2) by auto
  then show ?thesis using assms by (auto simp: act_inv_def)
qed

lemma act_invE:
  assumes "act_inv s"
  obtains q L where "wrep (aw s) q L" "\<And>c. activations s c = (if L c then 1 else 0)"
proof -
  obtain q where "wrep (aw s) q (\<lambda>c. activations s c = 1)" using assms by (auto simp: act_inv_def)
  moreover have "activations s c = (if activations s c = 1 then 1 else 0)" for c
    using assms by (auto simp: act_inv_def le_Suc_eq)
  ultimately show ?thesis using that [of q "\<lambda>c. activations s c = 1"] by blast
qed

lemma activations_jobs: "activations s c = count_list (map fst (jobs (scheduled (aw s)))) c + count_list (map fst (running s)) c"
  by (simp add: activations_def act_contexts_def jobs_def comp_def case_prod_unfold)

lemma count_list_mset: "count_list xs a = count (mset xs) a"
  by (induction xs) auto

lemma count_jobs_mset:
  assumes "mset xs = mset ys"
  shows "count_list (map fst xs) c = count_list (map fst ys) c"
  using assms by (metis count_list_mset mset_map)

lemma count_entry_of: "count_list (map fst (entry_of f xs)) c = (if xs \<noteq> [] \<and> c = f then 1 else 0)"
  by (auto simp: entry_of_def split: list.splits)

lemma act_inv_init: "act_init s \<Longrightarrow> act_inv s"
  by (rule act_invI [of _ "\<lambda>_. []" "\<lambda>_. False"])
    (auto simp: act_init_def wrep_def initially_rep activations_jobs)

lemma running_locked:
  assumes "\<And>c. activations s c = (if L c then 1 else 0)" "running s = us @ (f, r) # vs"
  shows "L f" "count_list (map fst (jobs (scheduled (aw s)))) f = 0"
    "count_list (map fst us) f = 0" "count_list (map fst vs) f = 0"
  using assms(1) [of f] assms(2) by (auto simp: activations_jobs split: if_splits)

text \<open>One lemma per kind of step, over the mailboxes \<open>q\<close> and locks \<open>L\<close> of the state before.\<close>

lemma act_dispatch_inv:
  assumes "wrep (aw s) q L" "\<And>c. activations s c = (if L c then 1 else 0)"
    and "scheduled (aw s) = us @ (sc, h, c, r) # vs"
  shows "act_inv (s\<lparr>aw := (aw s)\<lparr>scheduled := us @ vs\<rparr>, running := (c, r) # running s\<rparr>)" (is "act_inv ?t")
proof (rule act_invI [of _ q L])
  show "wrep (aw ?t) q L" using assms(1) by (simp add: wrep_def)
  show "activations ?t d = (if L d then 1 else 0)" for d
    using assms(2) [of d] assms(3) by (auto simp: activations_jobs split: if_splits)
qed

lemma act_enter_inv:
  assumes "wrep (aw s) q L" "\<And>c. activations s c = (if L c then 1 else 0)"
    and "if L c then wrep w' (q(c := q c @ [r])) L \<and> jobs (scheduled w') = jobs (scheduled (aw s)) \<and> \<not> b
      else wrep w' q (L(c := True)) \<and> jobs (scheduled w') = jobs (scheduled (aw s)) @ (if b then [] else [(c, r)])"
  shows "act_inv (s\<lparr>aw := w', running := (if b then (c, r) # running s else running s)\<rparr>)" (is "act_inv ?t")
proof (cases "L c")
  case True
  have "activations ?t d = (if L d then 1 else 0)" for d
    using assms(2) [of d] assms(3) True by (auto simp: activations_jobs)
  then show ?thesis using assms(3) True by (intro act_invI [of _ "q(c := q c @ [r])" L]) auto
next
  case False
  have "activations ?t d = (if (L(c := True)) d then 1 else 0)" for d
    using assms(2) [of d] assms(3) False by (auto simp: activations_jobs)
  then show ?thesis using assms(3) False by (intro act_invI [of _ q "L(c := True)"]) auto
qed

lemma act_leave_inv:
  assumes "wrep (aw s) q L" "\<And>c. activations s c = (if L c then 1 else 0)"
    and "running s = us @ (c, r) # vs" "do_leave (aw s) (Some c) = Some w'"
  shows "act_inv (s\<lparr>aw := w', running := us @ vs\<rparr>)" (is "act_inv ?t")
proof -
  note rl = running_locked [OF assms(2,3)]
  have w: "wrep w' (q(c := tl (q c))) (L(c := (q c \<noteq> [])))"
    "jobs (scheduled w') = jobs (scheduled (aw s)) @ entry_of c (q c)"
    using do_leave_rep [OF assms(1) rl(1)] assms(4) by auto
  have "activations ?t d = (if (L(c := (q c \<noteq> []))) d then 1 else 0)" for d
    using assms(2) [of d] rl w(2) assms(3) by (auto simp: activations_jobs count_entry_of split: if_splits)
  then show ?thesis using w(1) by (intro act_invI [of _ "q(c := tl (q c))" "L(c := (q c \<noteq> []))"]) auto
qed

lemma act_stay_inv:
  assumes "wrep (aw s) q L" "\<And>c. activations s c = (if L c then 1 else 0)"
    and "running s = us @ (f, r0) # vs" "wrep w' q' L"
    and "jobs (scheduled w') = jobs (scheduled (aw s)) @ (if b then [] else [(f, r)])"
  shows "act_inv (s\<lparr>aw := w', running := us @ (if b then (f, r) # vs else vs)\<rparr>)" (is "act_inv ?t")
proof (rule act_invI [of _ q' L])
  show "activations ?t d = (if L d then 1 else 0)" for d
    using assms(2) [of d] assms(3,5) by (auto simp: activations_jobs split: if_splits)
qed (use assms(4) in simp)

lemma act_transfer_inv:
  assumes "wrep (aw s) q L" "\<And>c. activations s c = (if L c then 1 else 0)"
    and "running s = us @ (f, r0) # vs" "idle (aw s) t r" "f \<noteq> t"
    and "do_transfer e (aw s) (Some f) (Some t) r ret = Some (b, w')"
  shows "act_inv (s\<lparr>aw := w', running := us @ (if b then (t, r) # vs else vs)\<rparr>)" (is "act_inv ?t")
proof -
  note rl = running_locked [OF assms(2,3)] and fr = idle_fresh [OF assms(4,1)]
  have w: "wrep w' (q(f := tl (q f), t := (if L t then q t @ [r] else []))) (L(f := (q f \<noteq> []), t := True))"
    "mset (jobs (scheduled w')) = mset (jobs (scheduled (aw s)) @ (if b \<or> L t then [] else [(t, r)]) @ entry_of f (q f))"
    "L t \<longrightarrow> \<not> b"
    using do_transfer_rep [OF assms(1) fr rl(1) assms(5), of e ret] assms(6) by auto
  have "activations ?t d = (if (L(f := (q f \<noteq> []), t := True)) d then 1 else 0)" for d
    using assms(2) [of d] rl w(3) count_jobs_mset [OF w(2), of d] assms(3,5)
    by (auto simp: activations_jobs count_entry_of split: if_splits)
  then show ?thesis
    using w(1) by (intro act_invI [of _ _ "L(f := (q f \<noteq> []), t := True)"]) auto
qed

lemma do_enter_jobs:
  assumes "wrep w q L" "mb_fresh (q c) r" "do_enter e w (Some c) r initial = Some (b, w')"
  shows "if L c then wrep w' (q(c := q c @ [r])) L \<and> jobs (scheduled w') = jobs (scheduled w) \<and> \<not> b
      else wrep w' q (L(c := True)) \<and> jobs (scheduled w') = jobs (scheduled w) @ (if b then [] else [(c, r)])"
  using do_enter_locked [OF assms(1,2), of e initial] do_enter_unlocked [OF assms(1,2) _ refl, where e = e and initial = initial] assms(3)
  by (cases "L c") auto

lemma do_transfer_in_jobs:
  assumes "wrep w q L" "mb_fresh (q c) r" "do_transfer e w None (Some c) r ret = Some (b, w')"
  shows "if L c then wrep w' (q(c := q c @ [r])) L \<and> jobs (scheduled w') = jobs (scheduled w) \<and> \<not> b
      else wrep w' q (L(c := True)) \<and> jobs (scheduled w') = jobs (scheduled w) @ (if b then [] else [(c, r)])"
  using transfer_into_locked(2) [OF assms(1,2), of e ret] transfer_into_unlocked(2) [OF assms(1,2), of e ret] assms(3)
  by (cases "L c") (auto simp: do_transfer_def)

text \<open>\<open>do_yield\<close> pushes \<open>r\<close>, takes the first runnable out and gives \<open>r\<close> to the scheduler.\<close>

lemma do_yield_jobs:
  assumes "wrep w q L" "L c" "mb_fresh (q c) r"
  shows "\<exists>w'. do_yield e w (Some c) r = Some (False, w') \<and> wrep w' (q(c := tl (q c @ [r]))) L \<and>
    jobs (scheduled w') = jobs (scheduled w) @ [(c, r)]"
proof -
  have L: "L(c := True) = L" using assms(2) by (simp add: fun_upd_idem)
  obtain w1 where w1: "push_runnable w c r = Some (False, w1)" "wrep w1 (q(c := q c @ [r])) L"
    "scheduled w1 = scheduled w" using push_runnable_rep [OF assms(1,3)] assms(2) L by auto
  obtain x w2 where w2: "next_runnable w1 c = Some (Some x, w2)" "wrep w2 (q(c := tl (q c @ [r]))) L"
    "scheduled w2 = scheduled w" using next_runnable_rep [OF w1(2) assms(2)] w1(3) L by (auto split: list.splits)
  show ?thesis using w1 w2 by (auto simp: do_yield_def post_or_defer_def)
qed

lemma act_step_inv:
  assumes "act_inv s" "act_step s t"
  shows "act_inv t"
proof -
  obtain q L where q: "wrep (aw s) q L" and L: "\<And>c. activations s c = (if L c then 1 else 0)"
    using act_invE [OF assms(1)] by blast
  from assms(2) show ?thesis
  proof cases
    case (a_dispatch us sc h c r vs)
    then show ?thesis using act_dispatch_inv [OF q L] by simp
  next
    case (a_enter c r e initial b w')
    show ?thesis unfolding a_enter(1)
      by (rule act_enter_inv [OF q L do_enter_jobs [OF q idle_fresh [OF a_enter(2) q] a_enter(3)]])
  next
    case (a_leave us c r vs w')
    then show ?thesis using act_leave_inv [OF q L] by simp
  next
    case (a_transfer us f r0 vs t' r e ret b w')
    show ?thesis
    proof (cases "f = t'")
      case True
      have "wrep w' q L \<and> jobs (scheduled w') = jobs (scheduled (aw s)) @ (if b then [] else [(f, r)])"
        using a_transfer(4) q maybe_preempt_jobs [of e "aw s" f r _ _ q L] True
        by (auto simp: do_transfer_def split: if_splits prod.splits)
      then show ?thesis unfolding a_transfer(1) True [symmetric]
        by (intro act_stay_inv [OF q L a_transfer(2)]) auto
    next
      case False
      then show ?thesis using act_transfer_inv [OF q L a_transfer(2,3) _ a_transfer(4)] a_transfer(1) by simp
    qed
  next
    case (a_transfer_out us f r0 vs e r ret b w')
    then show ?thesis using act_leave_inv [OF q L a_transfer_out(2)]
      by (auto simp: do_transfer_def split: option.splits bind_splits)
  next
    case (a_transfer_in t' r e ret b w')
    show ?thesis unfolding a_transfer_in(1)
      by (rule act_enter_inv [OF q L do_transfer_in_jobs [OF q idle_fresh [OF a_transfer_in(2) q] a_transfer_in(3)]])
  next
    case (a_preempt us c r0 vs e r b w')
    have "wrep w' q L" "jobs (scheduled w') = jobs (scheduled (aw s)) @ [(c, r)]"
      using a_preempt(3) q by (auto simp: do_preempt_def post_or_defer_def split: if_splits)
    then show ?thesis using act_stay_inv [OF q L a_preempt(2), where b = False and r = r] a_preempt(1) by simp
  next
    case (a_yield us c r0 vs r e b w')
    have "wrep w' (q(c := tl (q c @ [r]))) L" "jobs (scheduled w') = jobs (scheduled (aw s)) @ [(c, r)]"
      using do_yield_jobs [OF q running_locked(1) [OF L a_yield(2)] idle_fresh [OF a_yield(3) q], of e] a_yield(4) by auto
    then show ?thesis using act_stay_inv [OF q L a_yield(2), where b = False and r = r] a_yield(1) by simp
  qed
qed

interpretation act: inv_system act_init act_step act_inv
  by unfold_locales (auto intro: act_inv_init act_step_inv)

section \<open>Properties\<close>


definition env0 :: thread_env where
  "env0 = \<lparr>running_task = False, preempts = (\<lambda>_. False)\<rparr>"

definition world0 :: world where
  "world0 = \<lparr>mailboxes = (\<lambda>_. initially_unlocked), scheduler = (\<lambda>_. 0), scheduled = []\<rparr>"

definition actors0 :: actors where
  "actors0 = \<lparr>aw = world0, running = []\<rparr>"

text \<open>Runnable 5 has entered context 3 and runs; runnable 6 waits in the mailbox.\<close>

definition actors1 :: actors where
  "actors1 = \<lparr>aw = snd (the (do_enter env0 world0 (Some 3) 5 False)), running = [(3, 5)]\<rparr>"

definition actors2 :: actors where
  "actors2 = \<lparr>aw = snd (the (do_enter env0 (aw actors1) (Some 3) 6 False)), running = [(3, 5)]\<rparr>"

lemma world0_rep: "wrep world0 (\<lambda>_. []) (\<lambda>_. False)"
  by (simp add: wrep_def world0_def initially_rep)

lemma actors1_enter:
  "do_enter env0 world0 (Some 3) 5 False = Some (True, aw actors1)"
  "wrep (aw actors1) (\<lambda>_. []) ((\<lambda>_. False)(3 := True))" "scheduled (aw actors1) = []"
  using do_enter_unlocked [OF world0_rep, where c = 3 and r = 5 and b = True and e = env0 and initial = False]
  by (auto simp: actors1_def env0_def mb_fresh_def stub_def world0_def)

lemma actors2_enter:
  "do_enter env0 (aw actors1) (Some 3) 6 False = Some (False, aw actors2)"
  "wrep (aw actors2) ((\<lambda>_. [])(3 := [6])) ((\<lambda>_. False)(3 := True))" "scheduled (aw actors2) = []"
  using do_enter_locked [OF actors1_enter(2), where c = 3 and r = 6 and e = env0 and initial = False] actors1_enter(3)
  by (auto simp: actors2_def mb_fresh_def stub_def)

lemma idle_rep: "wrep w q L \<Longrightarrow> r \<noteq> stub \<Longrightarrow> r \<notin> set (q c) \<Longrightarrow> idle w c r"
  using mb_rep_unique(1) unfolding idle_def wrep_def by metis

lemma actors2_reach: "reach act_init act_step actors2"
proof -
  have "reach act_init act_step actors0"
    by (rule reach_init) (simp add: act_init_def actors0_def world0_def)
  moreover have "idle world0 3 5" "idle (aw actors1) 3 6"
    using idle_rep [OF world0_rep] idle_rep [OF actors1_enter(2)] by (auto simp: stub_def)
  moreover have "act_step actors0 (actors0\<lparr>aw := aw actors1, running := [(3, 5)]\<rparr>)"
    using a_enter [of actors0 3 5 env0 False True "aw actors1"] actors1_enter(1) calculation(2)
    by (simp add: actors0_def)
  moreover have "act_step actors1 (actors1\<lparr>aw := aw actors2, running := running actors1\<rparr>)"
    using a_enter [of actors1 3 6 env0 False False "aw actors2"] actors2_enter(1) calculation(3) by simp
  moreover have "actors0\<lparr>aw := aw actors1, running := [(3, 5)]\<rparr> = actors1"
    "actors1\<lparr>aw := aw actors2, running := running actors1\<rparr> = actors2"
    by (simp_all add: actors0_def actors1_def actors2_def)
  ultimately show ?thesis by (metis reach_step)
qed


text \<open>
  No context is forgotten: while a runnable waits in the mailbox of a context, the
  context has an activation, which takes the next runnable when it leaves.
\<close>

theorem context_no_lost_runnable:
  assumes "reach act_init act_step s" "mb_rep (mailboxes (aw s) c) xs l" "xs \<noteq> []"
  shows "activations s c = 1"
proof -
  obtain q L where q: "wrep (aw s) q L" "\<And>c. activations s c = (if L c then 1 else 0)"
    using act_invE [OF act.reach_inv [OF assms(1)]] by blast
  then have "q c = xs" using mb_rep_unique(1) assms(2) unfolding wrep_def by metis
  then show ?thesis using wrep_unlocked [OF q(1), of c] q(2) assms(3) by auto
qed

theorem context_no_lost_runnable_witness: "activations actors2 3 = 1"
proof (rule context_no_lost_runnable [OF actors2_reach])
  show "mb_rep (mailboxes (aw actors2) 3) [6] True"
    using actors2_enter(2) by (auto simp: wrep_def dest: spec [of _ 3])
qed simp

text \<open>
  No context switch of a reachable state fails an assertion of the mailboxes: entering
  or transferring an idle runnable, and leaving or transferring from a context that runs,
  always return.
\<close>

theorem context_switches_defined:
  assumes "reach act_init act_step s" "(f, r0) \<in> set (running s)" "idle (aw s) t r"
  shows "do_enter e (aw s) (Some t) r initial \<noteq> None \<and> do_leave (aw s) (Some f) \<noteq> None \<and>
    do_transfer e (aw s) (Some f) (Some t) r ret \<noteq> None \<and> do_transfer e (aw s) (Some f) None r ret \<noteq> None \<and>
    do_transfer e (aw s) None (Some t) r ret \<noteq> None"
proof -
  obtain q L where q: "wrep (aw s) q L" and L: "\<And>c. activations s c = (if L c then 1 else 0)"
    using act_invE [OF act.reach_inv [OF assms(1)]] by blast
  obtain us vs where "running s = us @ (f, r0) # vs" using assms(2) by (meson split_list)
  then have f: "L f" by (rule running_locked(1) [OF L])
  have r: "mb_fresh (q t) r" by (rule idle_fresh [OF assms(3) q])
  have "do_enter e (aw s) (Some t) r initial \<noteq> None"
    using do_enter_locked [OF q r, of e initial] do_enter_unlocked [OF q r _ refl, where e = e and initial = initial] by (cases "L t") auto
  moreover have leave: "do_leave (aw s) (Some f) \<noteq> None" using do_leave_rep [OF q f] by auto
  moreover have "do_transfer e (aw s) (Some f) (Some t) r ret \<noteq> None"
    using do_transfer_rep [OF q r f, of e ret] by (cases "f = t") (auto simp: do_transfer_def split: prod.splits)
  moreover have "do_transfer e (aw s) None (Some t) r ret \<noteq> None"
    using transfer_into_locked(2) [OF q r, of e ret] transfer_into_unlocked(2) [OF q r, of e ret]
    by (cases "L t") (auto simp: do_transfer_def)
  ultimately show ?thesis by (auto simp: do_transfer_def)
qed

theorem context_switches_defined_witness:
  "do_leave (aw actors2) (Some 3) \<noteq> None \<and> do_transfer env0 (aw actors2) (Some 3) (Some 2) 7 True \<noteq> None"
proof -
  have "idle (aw actors2) 2 7" by (rule idle_rep [OF actors2_enter(2)]) (auto simp: stub_def)
  then show ?thesis
    using context_switches_defined [OF actors2_reach, of 3 5 2 7 env0] by (simp add: actors2_def)
qed

text \<open>
  Entering an unlocked context: a new task is always posted; otherwise the runnable is
  posted when another task runs in the thread, deferred when the scheduler preempts, and
  runs in the calling thread in the remaining case.  It leaves the mailbox in every case,
  and the context is locked.
\<close>

theorem do_enter_unlocked_context:
  assumes "wrep w q L" "mb_fresh (q c) r" "\<not> L c"
  shows "\<exists>b w'. do_enter e w (Some c) r initial = Some (b, w') \<and> wrep w' q (L(c := True)) \<and>
    (b \<longleftrightarrow> \<not> initial \<and> \<not> running_task e \<and> \<not> preempts e (scheduler w c)) \<and>
    scheduled w' = scheduled w @ (if b then [] else
      [(scheduler w c, if initial \<or> running_task e then Post else Defer, c, r)])"
  using do_enter_unlocked [OF assms refl] by blast

theorem do_enter_unlocked_context_witness:
  "\<exists>b w'. do_enter env0 world0 (Some 3) 4 True = Some (b, w') \<and> \<not> b \<and> scheduled w' = [(0, Post, 3, 4)]"
  using do_enter_unlocked_context [OF world0_rep, where c = 3 and r = 4 and e = env0 and initial = True]
  by (auto simp: mb_fresh_def stub_def world0_def)

text \<open>
  C9. A transfer between two contexts loses and duplicates nothing: the old context gives its
  first waiting runnable to its scheduler or is unlocked, the transferred runnable either
  runs here, is given to a scheduler, or waits at the end of the mailbox of a locked new
  context; nothing else changes.
\<close>

theorem do_transfer_conserves:
  assumes "wrep w q L" "mb_fresh (q t) r" "L f" "f \<noteq> t"
  shows "\<exists>b w'. do_transfer e w (Some f) (Some t) r returning = Some (b, w') \<and>
    wrep w' (q(f := tl (q f), t := (if L t then q t @ [r] else []))) (L(f := (q f \<noteq> []), t := True)) \<and>
    mset (jobs (scheduled w')) = mset (jobs (scheduled w) @ (if b \<or> L t then [] else [(t, r)]) @ entry_of f (q f)) \<and>
    (L t \<longrightarrow> \<not> b)"
  by (rule do_transfer_rep [OF assms])

theorem do_transfer_conserves_witness:
  "\<exists>b w'. do_transfer env0 (aw actors2) (Some 3) (Some 2) 7 False = Some (b, w') \<and>
    set (jobs (scheduled w')) = (if b then {(3, 6)} else {(2, 7), (3, 6)})"
proof -
  obtain b w' where d: "do_transfer env0 (aw actors2) (Some 3) (Some 2) 7 False = Some (b, w')"
    "mset (jobs (scheduled w')) = mset ((if b then [] else [(2, 7)]) @ [(3, 6)])"
    using do_transfer_conserves [OF actors2_enter(2), of 2 7 3 env0 False] actors2_enter(3)
    by (auto simp: mb_fresh_def stub_def entry_of_def)
  from d(2) have "set (jobs (scheduled w')) = set ((if b then [] else [(2, 7)]) @ [(3, 6)])"
    by (rule mset_eq_setD)
  then show ?thesis using d(1) by (auto split: if_splits)
qed

text \<open>
  \<open>do_yield\<close> does not hand over the runnable it takes from the mailbox: when another
  runnable \<open>x\<close> waits in the context, \<open>x\<close> leaves the mailbox and is given to no scheduler,
  and \<open>r\<close> is given to the scheduler while it also stays in the mailbox.
\<close>

theorem do_yield_drops_runnable:
  assumes "wrep w q L" "L c" "q c = x # xs" "mb_fresh (q c) r"
  shows "\<exists>w'. do_yield e w (Some c) r = Some (False, w') \<and> wrep w' (q(c := xs @ [r])) L \<and>
    jobs (scheduled w') = jobs (scheduled w) @ [(c, r)]"
  using do_yield_jobs [OF assms(1,2,4), of e] assms(3) by simp

theorem do_yield_drops_runnable_witness:
  "\<exists>w'. do_yield env0 (aw actors2) (Some 3) 5 = Some (False, w') \<and> jobs (scheduled w') = [(3, 5)] \<and>
    mb_rep (mailboxes w' 3) [5] True"
proof -
  obtain w' where "do_yield env0 (aw actors2) (Some 3) 5 = Some (False, w')"
    "wrep w' ((\<lambda>_. [])(3 := [6], 3 := [] @ [5])) ((\<lambda>_. False)(3 := True))"
    "jobs (scheduled w') = jobs (scheduled (aw actors2)) @ [(3, 5)]"
    using do_yield_drops_runnable [OF actors2_enter(2), of 3 6 "[]" 5 env0]
    by (auto simp: mb_fresh_def stub_def)
  then show ?thesis using actors2_enter(3) by (auto simp: wrep_def dest: spec [of _ 3])
qed

end
