(* ===== verification/Context_Switching.thy ===== *)
theory Context_Switching
  imports Actor_Context
begin

text \<open>
  The context switches of \<open>detail/async_context.h\<close> one atomic access at a time: \<open>do_enter\<close>, \<open>do_leave\<close>,
  \<open>do_transfer\<close> and \<open>do_preempt\<close>.  \<open>do_yield\<close> is left out: it puts a runnable into the mailbox and gives the same
  runnable to the scheduler (\<open>do_yield_drops_runnable\<close> in \<open>Actor_Context\<close>).  \<open>Actor_Context\<close>
  interleaves whole switches; here threads are interleaved inside them, between the two halves of
  \<open>push\<close>, between the accesses of \<open>pop\<close> and between the calls of the schedulers.  A push may
  then find a mailbox locked that is unlocked before the item is linked, and a \<open>pop\<close> may find
  the next item blocked by an unfinished push and unlock a mailbox that is not empty.
\<close>

section \<open>Threads inside a switch\<close>

text \<open>
  What a thread does after \<open>push_runnable\<close>: \<open>do_enter\<close> with \<open>initial\<close>, or the second part of
  \<open>do_transfer\<close> with \<open>returning\<close>, the old context and the runnable \<open>more\<close> (here \<open>rest\<close>) taken from it; and after
  \<open>next_runnable\<close>: \<open>do_leave\<close>, the first part of \<open>do_transfer\<close>, or one of the above.
\<close>

datatype after_push =
    PushEnter bool
  | PushInto "(ctx \<times> runnable option) option" bool

datatype after_pop =
    PopLeave
  | PopTake ctx runnable bool
  | PopNext runnable after_push

text \<open>
  Where a thread is: it runs a runnable of a context; before and between the halves of a push;
  inside \<open>pop\<close>; calling the schedulers, after which it goes on with a runnable or leaves.
\<close>

datatype switch_pc =
    Runs ctx runnable
  | Prepare ctx runnable after_push
  | Publish ctx addr runnable after_push
  | Popping ctx pop_pc after_pop
  | Giving "(how \<times> ctx \<times> runnable) list" "(ctx \<times> runnable) option"

definition give_rest :: "how \<Rightarrow> (ctx \<times> runnable option) option \<Rightarrow> (how \<times> ctx \<times> runnable) list" where
  "give_rest h from = (case from of Some (f, Some rest) \<Rightarrow> [(h, f, rest)] | _ \<Rightarrow> [])"

fun not_entered :: "after_push \<Rightarrow> switch_pc" where
  "not_entered (PushEnter initial) = Giving [] None"
| "not_entered (PushInto from returning) = Giving (give_rest Defer from) None"

text \<open>What \<open>maybe_preempt\<close> does with the runnable, if anything.\<close>

definition preempted :: "thread_env \<Rightarrow> sched \<Rightarrow> how option" where
  "preempted e sc = (if running_task e then Some Post else if preempts e sc then Some Defer else None)"

definition resume_next :: "ctx \<Rightarrow> runnable \<Rightarrow> runnable \<Rightarrow> (how \<times> ctx \<times> runnable) list \<Rightarrow> switch_pc" where
  "resume_next c r next rest = (if next = r then Giving rest (Some (c, r)) else Giving ((Defer, c, next) # rest) None)"

fun entered :: "thread_env \<Rightarrow> (ctx \<Rightarrow> sched) \<Rightarrow> ctx \<Rightarrow> runnable \<Rightarrow> runnable \<Rightarrow> after_push \<Rightarrow> switch_pc" where
  "entered e sc c r next (PushEnter initial) =
     (if initial then Giving [(Post, c, next)] None
      else case preempted e (sc c) of
          Some h \<Rightarrow> Giving [(h, c, next)] None
        | None \<Rightarrow> resume_next c r next [])"
| "entered e sc c r next (PushInto None returning) =
     (case preempted e (sc c) of
          Some h \<Rightarrow> Giving [(h, c, next)] None
        | None \<Rightarrow> resume_next c r next [])"
| "entered e sc c r next (PushInto (Some (f, rest)) returning) =
     (if sc f \<noteq> sc c then Giving ((Post, c, next) # give_rest Defer (Some (f, rest))) None
      else case (if returning then preempted e (sc c) else None) of
          Some h \<Rightarrow> Giving ((h, c, next) # give_rest Post (Some (f, rest))) None
        | None \<Rightarrow> resume_next c r next (give_rest Post (Some (f, rest))))"

fun after_popped :: "thread_env \<Rightarrow> (ctx \<Rightarrow> sched) \<Rightarrow> ctx \<Rightarrow> runnable option \<Rightarrow> after_pop \<Rightarrow> switch_pc" where
  "after_popped e sc c next PopLeave = Giving (case next of None \<Rightarrow> [] | Some n \<Rightarrow> [(Post, c, n)]) None"
| "after_popped e sc c rest (PopTake to r returning) = Prepare to r (PushInto (Some (c, rest)) returning)"
| "after_popped e sc c next (PopNext r k) = (case next of None \<Rightarrow> not_entered k | Some n \<Rightarrow> entered e sc c r n k)"

text \<open>
  The state: mailboxes and schedulers, the threads inside contexts or switches, and the runnables
  pushed into and popped from each mailbox so far, in order (ghosts).
\<close>

record switching =
  sworld :: world
  sthreads :: "switch_pc list"
  inlog :: "ctx \<Rightarrow> runnable list"
  outlog :: "ctx \<Rightarrow> runnable list"
  sfailed :: bool

definition set_mailbox :: "ctx \<Rightarrow> mbox \<Rightarrow> world \<Rightarrow> world" where
  "set_mailbox c m w = w\<lparr>mailboxes := (mailboxes w)(c := m)\<rparr>"

definition upd_mailbox :: "ctx \<Rightarrow> mbox \<Rightarrow> switching \<Rightarrow> switching" where
  "upd_mailbox c m s = s\<lparr>sworld := set_mailbox c m (sworld s)\<rparr>"

text \<open>One atomic access of a thread; \<open>None\<close> is a failed assertion.\<close>

fun switch_access :: "thread_env \<Rightarrow> switch_pc \<Rightarrow> switching \<Rightarrow> (switch_pc list \<times> switching) option" where
  "switch_access e (Runs c r) s = Some ([Runs c r], s)"
| "switch_access e (Prepare c r k) s =
     (let (prev, m) = push_prepare (mailboxes (sworld s) c) r
      in Some ([Publish c prev r k], (upd_mailbox c m s)\<lparr>inlog := (inlog s)(c := inlog s c @ [r])\<rparr>))"
| "switch_access e (Publish c prev r k) s = do {
     (locks, m) \<leftarrow> push_publish (mailboxes (sworld s) c) prev r;
     Some ([if locks then Popping c PopLoad (PopNext r k) else not_entered k], upd_mailbox c m s) }"
| "switch_access e (Popping c pc k) s =
     (case pop_step True pc (mailboxes (sworld s) c) of
        (PopFail, m) \<Rightarrow> None
      | (PopDone (Some h) n, m) \<Rightarrow> Some ([after_popped e (scheduler (sworld s)) c (Some h) k],
           (upd_mailbox c (set_head n m) s)\<lparr>outlog := (outlog s)(c := outlog s c @ [h])\<rparr>)
      | (PopDone None n, m) \<Rightarrow> Some ([after_popped e (scheduler (sworld s)) c None k], upd_mailbox c m s)
      | (pc', m) \<Rightarrow> Some ([Popping c pc' k], upd_mailbox c m s))"
| "switch_access e (Giving ((h, c, r) # gs) fin) s = Some ([Giving gs fin], s\<lparr>sworld := schedule h (sworld s) c r\<rparr>)"
| "switch_access e (Giving [] fin) s = Some (case fin of None \<Rightarrow> [] | Some (c, r) \<Rightarrow> [Runs c r], s)"

text \<open>
  How a thread that runs in context \<open>c\<close> begins a switch: \<open>do_leave\<close>, \<open>do_transfer\<close> to another
  context or within the same, \<open>do_preempt\<close>.
\<close>

definition begin_transfer :: "thread_env \<Rightarrow> (ctx \<Rightarrow> sched) \<Rightarrow> ctx \<Rightarrow> ctx \<Rightarrow> runnable \<Rightarrow> bool \<Rightarrow> switch_pc" where
  "begin_transfer e sc c to r returning =
     (if c = to then
        (case (if returning then preempted e (sc c) else None) of
           Some h \<Rightarrow> Giving [(h, c, r)] None
         | None \<Rightarrow> Giving [] (Some (c, r)))
      else Popping c PopLoad (PopTake to r returning))"

definition begin_preempt :: "thread_env \<Rightarrow> ctx \<Rightarrow> runnable \<Rightarrow> switch_pc" where
  "begin_preempt e c r = Giving [(if running_task e then Post else Defer, c, r)] None"

text \<open>
  A runnable that may be handed to a context: it is in no mailbox and no thread is about to push
  it, since a coroutine suspends in one place at a time.
\<close>

fun claims :: "switch_pc \<Rightarrow> runnable list" where
  "claims (Prepare c r k) = [r]"
| "claims (Popping c pc (PopTake to r returning)) = [r]"
| "claims pc = []"

definition queued :: "switching \<Rightarrow> ctx \<Rightarrow> runnable list" where
  "queued s c = drop (length (outlog s c)) (inlog s c)"

definition unclaimed :: "switching \<Rightarrow> runnable \<Rightarrow> bool" where
  "unclaimed s r \<longleftrightarrow> r \<noteq> stub \<and> (\<forall>c. r \<notin> set (queued s c)) \<and> (\<forall>pc \<in> set (sthreads s). r \<notin> set (claims pc))"

inductive switch_step :: "switching \<Rightarrow> switching \<Rightarrow> bool" where
  s_dispatch: "scheduled (sworld s) = us @ (sc, h, c, r) # vs \<Longrightarrow>
     switch_step s (s\<lparr>sworld := (sworld s)\<lparr>scheduled := us @ vs\<rparr>, sthreads := Runs c r # sthreads s\<rparr>)"
| s_enter: "unclaimed s r \<Longrightarrow> switch_step s (s\<lparr>sthreads := Prepare c r (PushEnter initial) # sthreads s\<rparr>)"
| s_transfer_in: "unclaimed s r \<Longrightarrow> switch_step s (s\<lparr>sthreads := Prepare c r (PushInto None returning) # sthreads s\<rparr>)"
| s_leave: "sthreads s = us @ Runs c r # vs \<Longrightarrow>
     switch_step s (s\<lparr>sthreads := us @ Popping c PopLoad PopLeave # vs\<rparr>)"
| s_transfer: "sthreads s = us @ Runs c r0 # vs \<Longrightarrow> unclaimed s r \<Longrightarrow>
     switch_step s (s\<lparr>sthreads := us @ begin_transfer e (scheduler (sworld s)) c to r returning # vs\<rparr>)"
| s_preempt: "sthreads s = us @ Runs c r0 # vs \<Longrightarrow>
     switch_step s (s\<lparr>sthreads := us @ begin_preempt e c r # vs\<rparr>)"
| s_access: "sthreads s = us @ pc # vs \<Longrightarrow> switch_access e pc s = Some (pcs, s') \<Longrightarrow>
     switch_step s (s'\<lparr>sthreads := us @ pcs @ vs\<rparr>)"
| s_fail: "sthreads s = us @ pc # vs \<Longrightarrow> switch_access e pc s = None \<Longrightarrow> switch_step s (s\<lparr>sfailed := True\<rparr>)"

definition switch_init :: "switching \<Rightarrow> bool" where
  "switch_init s \<longleftrightarrow> mailboxes (sworld s) = (\<lambda>_. initially_unlocked) \<and> scheduled (sworld s) = [] \<and> sthreads s = [] \<and>
     inlog s = (\<lambda>_. []) \<and> outlog s = (\<lambda>_. []) \<and> \<not> sfailed s"

section \<open>What threads hold\<close>

text \<open>
  Each thread and each job as a lock holder of \<open>Intrusive_Mailbox\<close>; the unfinished pushes.
\<close>

fun push_holds :: "after_push \<Rightarrow> (ctx \<times> holder) list" where
  "push_holds (PushEnter initial) = []"
| "push_holds (PushInto from returning) = map (\<lambda>(h, f, rest). (f, Idle)) (give_rest Post from)"

fun pop_holds :: "after_pop \<Rightarrow> (ctx \<times> holder) list" where
  "pop_holds (PopNext r k) = push_holds k"
| "pop_holds k = []"

fun thread_holds :: "switch_pc \<Rightarrow> (ctx \<times> holder) list" where
  "thread_holds (Runs c r) = [(c, Idle)]"
| "thread_holds (Prepare c r k) = push_holds k"
| "thread_holds (Publish c prev r k) = push_holds k"
| "thread_holds (Popping c pc k) = (c, Running OpPop pc) # pop_holds k"
| "thread_holds (Giving gs fin) = map (\<lambda>(h, c, r). (c, Idle)) gs @ (case fin of None \<Rightarrow> [] | Some (c, r) \<Rightarrow> [(c, Idle)])"

fun thread_pushes :: "switch_pc \<Rightarrow> (ctx \<times> addr \<times> addr) list" where
  "thread_pushes (Publish c prev r k) = [(c, prev, r)]"
| "thread_pushes pc = []"

definition held :: "switching \<Rightarrow> (ctx \<times> holder) list" where
  "held s = map (\<lambda>(sc, h, c, r). (c, Idle)) (scheduled (sworld s)) @ concat (map thread_holds (sthreads s))"

definition pushes :: "switching \<Rightarrow> (ctx \<times> addr \<times> addr) list" where
  "pushes s = concat (map thread_pushes (sthreads s))"

text \<open>The entries of one context.\<close>

definition at_ctx :: "ctx \<Rightarrow> (ctx \<times> 'b) list \<Rightarrow> 'b list" where
  "at_ctx c xs = map snd (filter (\<lambda>x. fst x = c) xs)"

lemma at_ctx_simps [simp]:
  "at_ctx c [] = []" "at_ctx c ((d, x) # xs) = (if d = c then x # at_ctx c xs else at_ctx c xs)" "at_ctx c (xs @ ys) = at_ctx c xs @ at_ctx c ys"
  by (simp_all add: at_ctx_def)

section \<open>One mailbox\<close>

text \<open>\<open>box_ok\<close>: the mailbox is in a state of \<open>Intrusive_Mailbox\<close> with these holders and unfinished pushes.\<close>

definition box_ok :: "mbox \<Rightarrow> holder multiset \<Rightarrow> (addr \<times> addr) multiset \<Rightarrow> runnable list \<Rightarrow> runnable list \<Rightarrow> bool" where
  "box_ok m hs ps il ol \<longleftrightarrow> (\<exists>b. mb_inv b \<and> mem b = m \<and> mset (holders b) = hs \<and> mset (pend b) = ps \<and> pushed b = il \<and> popped b = ol)"

lemma box_okE:
  assumes "box_ok m hs ps il ol"
  obtains b where "mb_inv b" "mem b = m" "mset (holders b) = hs" "mset (pend b) = ps" "pushed b = il" "popped b = ol" "items b = drop (length ol) il"
proof -
  obtain b where b: "mb_inv b" "mem b = m" "mset (holders b) = hs" "mset (pend b) = ps" "pushed b = il" "popped b = ol"
    using assms by (auto simp: box_ok_def)
  moreover from this have "items b = drop (length ol) il" by (auto simp: mb_inv_def chain_inv_def)
  ultimately show thesis by (rule that)
qed

lemma box_step:
  assumes "mb_inv b" "mb_step b b'" "mem b' = m" "mset (holders b') = hs" "mset (pend b') = ps" "pushed b' = il" "popped b' = ol"
  shows "box_ok m hs ps il ol"
  using mb_step_inv [OF assms(1,2)] assms(3-7) by (auto simp: box_ok_def)

lemma box_prepare:
  assumes "box_ok m hs ps il ol" "r \<noteq> stub" "r \<notin> set (drop (length ol) il)" "push_prepare m r = (prev, m')"
  shows "box_ok m' hs (add_mset (prev, r) ps) (il @ [r]) ol"
proof -
  obtain b where b: "mb_inv b" "mem b = m" "mset (holders b) = hs" "mset (pend b) = ps" "pushed b = il" "popped b = ol" "items b = drop (length ol) il"
    by (rule box_okE [OF assms(1)])
  have "set (items b) = set (chain b) - {stub}" by (auto simp: items_def)
  then have "r \<notin> set (chain b)" using assms(2,3) b(7) by auto
  from mb_step.prepare [OF assms(2) this] show ?thesis
    by (rule box_step [OF b(1)]) (use b assms(4) in auto)
qed

lemma box_publish:
  assumes "box_ok m hs (add_mset (prev, r) ps) il ol"
  shows "\<exists>locks m'. push_publish m prev r = Some (locks, m') \<and> box_ok m' (if locks then add_mset Idle hs else hs) ps il ol"
proof -
  obtain b where b: "mb_inv b" "mem b = m" "mset (holders b) = hs" "mset (pend b) = add_mset (prev, r) ps" "pushed b = il" "popped b = ol"
    by (rule box_okE [OF assms])
  obtain us vs where p: "pend b = us @ (prev, r) # vs" "mset (us @ vs) = ps" by (rule mset_split [OF b(4)])
  have "push_publish (mem b) prev r \<noteq> None"
  proof
    assume "push_publish (mem b) prev r = None"
    from mb_step_inv [OF b(1) publish_fail [OF p(1) this]] show False by (simp add: mb_inv_def lock_inv_def)
  qed
  then obtain locks m' where l: "push_publish (mem b) prev r = Some (locks, m')" by (metis option.exhaust surj_pair)
  have "box_ok m' (if locks then add_mset Idle hs else hs) ps il ol"
    by (rule box_step [OF b(1) publish [OF p(1) l]]) (use b p(2) in auto)
  then show ?thesis using l b(2) by auto
qed

lemma box_start:
  assumes "box_ok m (add_mset Idle hs) ps il ol"
  shows "box_ok m (add_mset (Running op PopLoad) hs) ps il ol"
proof -
  obtain b where b: "mb_inv b" "mem b = m" "mset (holders b) = add_mset Idle hs" "mset (pend b) = ps" "pushed b = il" "popped b = ol"
    by (rule box_okE [OF assms])
  obtain us vs where p: "holders b = us @ Idle # vs" "mset (us @ vs) = hs" by (rule mset_split [OF b(3)])
  show ?thesis by (rule box_step [OF b(1) start [OF p(1), of op]]) (use b p(2) in auto)
qed

lemma box_pop:
  assumes "box_ok m (add_mset (Running OpPop pc) hs) ps il ol" "pop_step True pc m = (pc', m')"
  shows "pc' \<noteq> PopFail" "pop_rank pc' \<noteq> 0 \<Longrightarrow> box_ok m' (add_mset (Running OpPop pc') hs) ps il ol"
    "pc' = PopDone (Some h) n \<Longrightarrow> box_ok (set_head n m') (add_mset Idle hs) ps il (ol @ [h])"
    "pc' = PopDone None n \<Longrightarrow> box_ok m' hs ps il ol"
proof -
  obtain b where b: "mb_inv b" "mem b = m" "mset (holders b) = add_mset (Running OpPop pc) hs" "mset (pend b) = ps" "pushed b = il" "popped b = ol"
    by (rule box_okE [OF assms(1)])
  obtain us vs where p: "holders b = us @ Running OpPop pc # vs" "mset (us @ vs) = hs" by (rule mset_split [OF b(3)])
  obtain h' b' where a: "op_advance OpPop pc b = (h', b')" by fastforce
  note st = box_step [OF b(1) advance [OF p(1) a]]
  have d: "op_advance OpPop pc b = (case pc' of
           PopFail \<Rightarrow> ([Running OpPop PopFail], b\<lparr>mem := m', chain := ghost_chain pc (mem b) (chain b), failed := True\<rparr>)
         | PopDone (Some h) n \<Rightarrow> ([Idle], b\<lparr>mem := set_head n m', chain := tl (ghost_chain pc (mem b) (chain b)), popped := popped b @ [h]\<rparr>)
         | PopDone None n \<Rightarrow> ([], b\<lparr>mem := m', chain := ghost_chain pc (mem b) (chain b)\<rparr>)
         | _ \<Rightarrow> ([Running OpPop pc'], b\<lparr>mem := m', chain := ghost_chain pc (mem b) (chain b)\<rparr>))"
    using assms(2) b(2) by (simp add: op_advance_def op_removes_def split: pop_pc.splits option.splits)
  have "\<not> failed (b'\<lparr>holders := us @ h' @ vs\<rparr>)" using mb_step_inv [OF b(1) advance [OF p(1) a]] by (simp add: mb_inv_def lock_inv_def)
  then show "pc' \<noteq> PopFail" using a d by auto
  show "box_ok m' (add_mset (Running OpPop pc') hs) ps il ol" if "pop_rank pc' \<noteq> 0"
    by (rule st) (use that a d b p(2) in \<open>auto split: pop_pc.splits\<close>)
  show "box_ok (set_head n m') (add_mset Idle hs) ps il (ol @ [h])" if "pc' = PopDone (Some h) n"
    by (rule st) (use that a d b p(2) in auto)
  show "box_ok m' hs ps il ol" if "pc' = PopDone None n"
    by (rule st) (use that a d b p(2) in auto)
qed

section \<open>All mailboxes\<close>

definition boxes_ok ::
  "world \<Rightarrow> (ctx \<times> holder) list \<Rightarrow> (ctx \<times> addr \<times> addr) list \<Rightarrow> (ctx \<Rightarrow> runnable list) \<Rightarrow> (ctx \<Rightarrow> runnable list) \<Rightarrow> bool" where
  "boxes_ok w H P il ol \<longleftrightarrow> (\<forall>c. box_ok (mailboxes w c) (mset (at_ctx c H)) (mset (at_ctx c P)) (il c) (ol c))"

lemma boxes_cong:
  assumes "boxes_ok w H P il ol" "mailboxes w' = mailboxes w" "\<And>d. mset (at_ctx d H') = mset (at_ctx d H)" "\<And>d. mset (at_ctx d P') = mset (at_ctx d P)"
  shows "boxes_ok w' H' P' il ol"
  using assms by (simp add: boxes_ok_def)

lemma boxes_upd:
  assumes "boxes_ok w H0 P0 il ol" "\<And>d. d \<noteq> c \<Longrightarrow> at_ctx d H = at_ctx d H0" "\<And>d. d \<noteq> c \<Longrightarrow> at_ctx d P = at_ctx d P0"
    and "box_ok m (mset (at_ctx c H)) (mset (at_ctx c P)) (il' c) (ol' c)" "\<And>d. d \<noteq> c \<Longrightarrow> il' d = il d" "\<And>d. d \<noteq> c \<Longrightarrow> ol' d = ol d"
  shows "boxes_ok (set_mailbox c m w) H P il' ol'"
  unfolding boxes_ok_def
proof
  fix d
  show "box_ok (mailboxes (set_mailbox c m w) d) (mset (at_ctx d H)) (mset (at_ctx d P)) (il' d) (ol' d)"
  proof (cases "d = c")
    case False
    then show ?thesis using assms(1) assms(2,3,5,6) [of d] by (simp add: boxes_ok_def set_mailbox_def)
  qed (use assms(4) in \<open>simp add: set_mailbox_def\<close>)
qed

lemma boxes_prepare:
  assumes "boxes_ok w H P il ol" "r \<noteq> stub" "r \<notin> set (drop (length (ol c)) (il c))" "push_prepare (mailboxes w c) r = (prev, m)"
  shows "boxes_ok (set_mailbox c m w) H ((c, prev, r) # P) (il(c := il c @ [r])) ol"
proof (rule boxes_upd [OF assms(1)])
  show "box_ok m (mset (at_ctx c H)) (mset (at_ctx c ((c, prev, r) # P))) ((il(c := il c @ [r])) c) (ol c)"
    using box_prepare [OF _ assms(2-4)] assms(1) by (simp add: boxes_ok_def)
qed auto

lemma boxes_publish:
  assumes "boxes_ok w H ((c, prev, r) # P) il ol"
  shows "\<exists>locks m. push_publish (mailboxes w c) prev r = Some (locks, m) \<and>
    boxes_ok (set_mailbox c m w) (if locks then (c, Idle) # H else H) P il ol"
proof -
  have "box_ok (mailboxes w c) (mset (at_ctx c H)) (add_mset (prev, r) (mset (at_ctx c P))) (il c) (ol c)"
    using spec [OF assms [unfolded boxes_ok_def], of c] by simp
  then obtain locks m where l: "push_publish (mailboxes w c) prev r = Some (locks, m)"
    "box_ok m (if locks then add_mset Idle (mset (at_ctx c H)) else mset (at_ctx c H)) (mset (at_ctx c P)) (il c) (ol c)"
    using box_publish by blast
  have "boxes_ok (set_mailbox c m w) (if locks then (c, Idle) # H else H) P il ol"
    by (rule boxes_upd [OF assms]) (use l(2) in \<open>auto split: if_splits\<close>)
  then show ?thesis using l(1) by blast
qed

lemma boxes_start:
  assumes "boxes_ok w ((c, Idle) # H) P il ol"
  shows "boxes_ok w ((c, Running op PopLoad) # H) P il ol"
proof -
  have "boxes_ok (set_mailbox c (mailboxes w c) w) ((c, Running op PopLoad) # H) P il ol"
    by (rule boxes_upd [OF assms]) (use box_start spec [OF assms [unfolded boxes_ok_def], of c] in auto)
  then show ?thesis by (simp add: set_mailbox_def)
qed

lemma boxes_pop:
  assumes "boxes_ok w ((c, Running OpPop pc) # H) P il ol" "pop_step True pc (mailboxes w c) = (pc', m)"
  shows "pc' \<noteq> PopFail" "pop_rank pc' \<noteq> 0 \<Longrightarrow> boxes_ok (set_mailbox c m w) ((c, Running OpPop pc') # H) P il ol"
    "pc' = PopDone (Some h) n \<Longrightarrow> boxes_ok (set_mailbox c (set_head n m) w) ((c, Idle) # H) P il (ol(c := ol c @ [h]))"
    "pc' = PopDone None n \<Longrightarrow> boxes_ok (set_mailbox c m w) H P il ol"
proof -
  have b: "box_ok (mailboxes w c) (add_mset (Running OpPop pc) (mset (at_ctx c H))) (mset (at_ctx c P)) (il c) (ol c)"
    using spec [OF assms(1) [unfolded boxes_ok_def], of c] by simp
  note p = box_pop [OF b assms(2)]
  show "pc' \<noteq> PopFail" by (rule p)
  show "boxes_ok (set_mailbox c m w) ((c, Running OpPop pc') # H) P il ol" if "pop_rank pc' \<noteq> 0"
    by (rule boxes_upd [OF assms(1)]) (use p(2) [OF that] in auto)
  show "boxes_ok (set_mailbox c (set_head n m) w) ((c, Idle) # H) P il (ol(c := ol c @ [h]))" if "pc' = PopDone (Some h) n"
    by (rule boxes_upd [OF assms(1)]) (use p(3) [OF that] in auto)
  show "boxes_ok (set_mailbox c m w) H P il ol" if "pc' = PopDone None n"
    by (rule boxes_upd [OF assms(1)]) (use p(4) [OF that] in auto)
qed

section \<open>The invariant\<close>

definition claimed :: "switching \<Rightarrow> runnable list" where
  "claimed s = concat (map claims (sthreads s))"

definition switch_inv :: "switching \<Rightarrow> bool" where
  "switch_inv s \<longleftrightarrow> \<not> sfailed s \<and> boxes_ok (sworld s) (held s) (pushes s) (inlog s) (outlog s) \<and>
     distinct (claimed s) \<and> (\<forall>r \<in> set (claimed s). r \<noteq> stub \<and> (\<forall>c. r \<notin> set (queued s c)))"

text \<open>What the other threads and the jobs hold, push and claim while one thread acts.\<close>

lemma thread_split:
  assumes "sthreads s = us @ pcs @ vs"
  shows "mset (at_ctx d (held s)) = mset (at_ctx d (concat (map thread_holds pcs) @ held (s\<lparr>sthreads := us @ vs\<rparr>)))"
    "mset (at_ctx d (pushes s)) = mset (at_ctx d (concat (map thread_pushes pcs) @ pushes (s\<lparr>sthreads := us @ vs\<rparr>)))"
    "mset (claimed s) = mset (concat (map claims pcs) @ claimed (s\<lparr>sthreads := us @ vs\<rparr>))"
  using assms by (simp_all add: held_def pushes_def claimed_def)

text \<open>\<open>thread_ok\<close>: the invariant with the acting thread set apart, as what it holds, pushes and claims.\<close>

definition thread_ok ::
  "(ctx \<times> holder) list \<Rightarrow> (ctx \<times> addr \<times> addr) list \<Rightarrow> runnable list \<Rightarrow> switching \<Rightarrow> bool" where
  "thread_ok H P C s \<longleftrightarrow> \<not> sfailed s \<and> boxes_ok (sworld s) (H @ held s) (P @ pushes s) (inlog s) (outlog s) \<and>
     distinct (C @ claimed s) \<and> (\<forall>r \<in> set (C @ claimed s). r \<noteq> stub \<and> (\<forall>c. r \<notin> set (queued s c)))"

lemma switch_inv_thread:
  assumes "sthreads s = us @ pcs @ vs"
  shows "switch_inv s \<longleftrightarrow> thread_ok (concat (map thread_holds pcs)) (concat (map thread_pushes pcs)) (concat (map claims pcs)) (s\<lparr>sthreads := us @ vs\<rparr>)"
proof -
  let ?t = "s\<lparr>sthreads := us @ vs\<rparr>"
  note t = thread_split [OF assms]
  have "boxes_ok (sworld s) (held s) (pushes s) (inlog s) (outlog s) \<longleftrightarrow>
    boxes_ok (sworld s) (concat (map thread_holds pcs) @ held ?t) (concat (map thread_pushes pcs) @ pushes ?t) (inlog s) (outlog s)"
    by (simp only: boxes_ok_def t(1,2))
  moreover have "distinct (claimed s) \<longleftrightarrow> distinct (concat (map claims pcs) @ claimed ?t)" "set (claimed s) = set (concat (map claims pcs) @ claimed ?t)"
    using mset_eq_imp_distinct_iff [OF t(3)] mset_eq_setD [OF t(3)] by blast+
  moreover have "queued ?t = queued s" by (intro ext) (simp add: queued_def)
  ultimately show ?thesis unfolding switch_inv_def thread_ok_def by simp
qed

lemma thread_okI:
  assumes "\<not> sfailed s" "boxes_ok (sworld s) (H @ held s) (P @ pushes s) (inlog s) (outlog s)" "distinct (C @ claimed s)"
    "\<And>r. r \<in> set (C @ claimed s) \<Longrightarrow> r \<noteq> stub" "\<And>r c. r \<in> set (C @ claimed s) \<Longrightarrow> r \<notin> set (queued s c)"
  shows "thread_ok H P C s"
  using assms unfolding thread_ok_def by blast

lemma thread_okD:
  assumes "thread_ok H P C s"
  shows "\<not> sfailed s" "boxes_ok (sworld s) (H @ held s) (P @ pushes s) (inlog s) (outlog s)" "distinct (C @ claimed s)"
    "r \<in> set (C @ claimed s) \<Longrightarrow> r \<noteq> stub" "r \<in> set (C @ claimed s) \<Longrightarrow> r \<notin> set (queued s c)"
  using assms unfolding thread_ok_def by blast+

lemma at_ctx_mset: "mset xs = mset ys \<Longrightarrow> mset (at_ctx d xs) = mset (at_ctx d ys)"
  by (simp add: at_ctx_def)

lemma thread_ok_cong:
  assumes "thread_ok H P C s" "mset H' = mset H"
  shows "thread_ok H' P C s"
  using thread_okD [OF assms(1)] at_ctx_mset [OF assms(2)]
    boxes_cong [of "sworld s" "H @ held s" "P @ pushes s" "inlog s" "outlog s" "sworld s" "H' @ held s" "P @ pushes s"]
  by (intro thread_okI) simp_all

text \<open>The mailboxes and logs change, and no runnable that is claimed comes into a queue.\<close>

lemma thread_ok_upd:
  assumes "thread_ok H P C s" "boxes_ok w (H' @ held s) (P' @ pushes s) il ol" "scheduled w = scheduled (sworld s)" "distinct (C' @ claimed s)"
    "set C' \<subseteq> set C" "\<And>r c. r \<in> set (C' @ claimed s) \<Longrightarrow> r \<notin> set (queued s c) \<Longrightarrow> r \<notin> set (drop (length (ol c)) (il c))"
  shows "thread_ok H' P' C' (s\<lparr>sworld := w, inlog := il, outlog := ol\<rparr>)"
proof (rule thread_okI)
  let ?s = "s\<lparr>sworld := w, inlog := il, outlog := ol\<rparr>"
  have e: "held ?s = held s" "pushes ?s = pushes s" "claimed ?s = claimed s" using assms(3) by (simp_all add: held_def pushes_def claimed_def)
  show "\<not> sfailed ?s" using thread_okD(1) [OF assms(1)] by simp
  show "boxes_ok (sworld ?s) (H' @ held ?s) (P' @ pushes ?s) (inlog ?s) (outlog ?s)" using assms(2) e by simp
  show "distinct (C' @ claimed ?s)" using assms(4) e by simp
  show "r \<noteq> stub" if "r \<in> set (C' @ claimed ?s)" for r using thread_okD(4) [OF assms(1), of r] that assms(5) e by auto
  show "r \<notin> set (queued ?s c)" if "r \<in> set (C' @ claimed ?s)" for r c
    using thread_okD(5) [OF assms(1), of r c] that assms(5,6) e by (auto simp: queued_def)
qed

section \<open>Every access keeps it\<close>

lemma holds_not_entered: "thread_holds (not_entered k) = push_holds k" "thread_pushes (not_entered k) = []" "claims (not_entered k) = []"
  by (cases k; simp add: give_rest_def split: option.splits prod.splits)+

lemma holds_resume_next:
  "mset (thread_holds (resume_next c r n gs)) = mset ((c, Idle) # map (\<lambda>(h, c, r). (c, Idle)) gs)"
  "thread_holds (resume_next c r n []) = [(c, Idle)]" "thread_pushes (resume_next c r n gs) = []" "claims (resume_next c r n gs) = []"
  by (simp_all add: resume_next_def)

lemma holds_give_rest: "map (\<lambda>(h, c, r). (c, Idle)) (give_rest h from) = map (\<lambda>(h, c, r). (c, Idle)) (give_rest Post from)"
  by (simp add: give_rest_def split: option.splits prod.splits)

lemma holds_entered:
  "mset (thread_holds (entered e sc c r n k)) = mset ((c, Idle) # push_holds k)"
  "thread_pushes (entered e sc c r n k) = []" "claims (entered e sc c r n k) = []"
proof -
  have "mset (thread_holds (entered e sc c r n k)) = mset ((c, Idle) # push_holds k) \<and>
    thread_pushes (entered e sc c r n k) = [] \<and> claims (entered e sc c r n k) = []"
  proof (cases k)
    case (PushEnter initial)
    then show ?thesis by (cases "preempted e (sc c)") (simp_all add: holds_resume_next)
  next
    case (PushInto origin returning)
    show ?thesis
    proof (cases origin)
      case None
      then show ?thesis using PushInto by (cases "preempted e (sc c)") (simp_all add: holds_resume_next give_rest_def)
    next
      case (Some p)
      obtain f rest where p: "p = (f, rest)" by fastforce
      show ?thesis using PushInto Some p
        by (cases "preempted e (sc c)"; cases returning) (simp_all add: holds_resume_next holds_give_rest [of Defer])
    qed
  qed
  then show "mset (thread_holds (entered e sc c r n k)) = mset ((c, Idle) # push_holds k)"
    "thread_pushes (entered e sc c r n k) = []" "claims (entered e sc c r n k) = []" by simp_all
qed

lemma holds_after_popped:
  "mset (thread_holds (after_popped e sc c (Some h) k)) = mset ((c, Idle) # pop_holds k)"
  "thread_holds (after_popped e sc c None k) = pop_holds k"
  "thread_pushes (after_popped e sc c x k) = []" "claims (after_popped e sc c x k) = claims (Popping c pc k)"
  by (cases k; simp add: holds_entered holds_not_entered give_rest_def split: option.splits)+

lemma boxes_lengths:
  assumes "boxes_ok w H P il ol"
  shows "length (ol c) \<le> length (il c)"
proof -
  have "box_ok (mailboxes w c) (mset (at_ctx c H)) (mset (at_ctx c P)) (il c) (ol c)" using assms by (simp add: boxes_ok_def)
  then obtain b where b: "mb_inv b" "pushed b = il c" "popped b = ol c" by (rule box_okE)
  then have "il c = ol c @ items b" by (simp add: mb_inv_def chain_inv_def)
  then show ?thesis by simp
qed

lemma access_prepare:
  assumes "thread_ok (push_holds k) [] [r] s"
  shows "\<exists>prev s'. switch_access e (Prepare c r k) s = Some ([Publish c prev r k], s') \<and> sthreads s' = sthreads s \<and> thread_ok (push_holds k) [(c, prev, r)] [] s'"
proof -
  note ok = thread_okD [OF assms]
  obtain prev m where p: "push_prepare (mailboxes (sworld s) c) r = (prev, m)" by fastforce
  have r: "r \<noteq> stub" "r \<notin> set (drop (length (outlog s c)) (inlog s c))" using ok(4,5) [of r] by (auto simp: queued_def)
  have "boxes_ok (set_mailbox c m (sworld s)) (push_holds k @ held s) ([(c, prev, r)] @ pushes s) ((inlog s)(c := inlog s c @ [r])) (outlog s)"
    using boxes_prepare [of "sworld s" "push_holds k @ held s" "pushes s" "inlog s" "outlog s" r c prev m] r p ok(2) by simp
  then have "thread_ok (push_holds k) [(c, prev, r)] [] (s\<lparr>sworld := set_mailbox c m (sworld s), inlog := (inlog s)(c := inlog s c @ [r]), outlog := outlog s\<rparr>)"
    by (rule thread_ok_upd [OF assms]) (use ok(3) boxes_lengths [OF ok(2), of c] in \<open>auto simp: set_mailbox_def queued_def\<close>)
  then show ?thesis using p by (simp add: upd_mailbox_def)
qed

lemma access_publish:
  assumes "thread_ok (push_holds k) [(c, prev, r)] [] s"
  shows "\<exists>pc s'. switch_access e (Publish c prev r k) s = Some ([pc], s') \<and> sthreads s' = sthreads s \<and> thread_ok (thread_holds pc) (thread_pushes pc) (claims pc) s'"
proof -
  note ok = thread_okD [OF assms]
  obtain locks m where p: "push_publish (mailboxes (sworld s) c) prev r = Some (locks, m)"
    "boxes_ok (set_mailbox c m (sworld s)) (if locks then (c, Idle) # push_holds k @ held s else push_holds k @ held s) (pushes s) (inlog s) (outlog s)"
    using boxes_publish [of "sworld s" "push_holds k @ held s" c prev r "pushes s" "inlog s" "outlog s"] ok(2) by simp blast
  let ?pc = "if locks then Popping c PopLoad (PopNext r k) else not_entered k"
  have "boxes_ok (set_mailbox c m (sworld s)) (thread_holds ?pc @ held s) (thread_pushes ?pc @ pushes s) (inlog s) (outlog s)"
    using p(2) boxes_start by (cases locks) (simp_all add: holds_not_entered)
  then have "thread_ok (thread_holds ?pc) (thread_pushes ?pc) (claims ?pc) (s\<lparr>sworld := set_mailbox c m (sworld s), inlog := inlog s, outlog := outlog s\<rparr>)"
    by (rule thread_ok_upd [OF assms]) (use ok(3) in \<open>auto simp: set_mailbox_def queued_def holds_not_entered\<close>)
  then show ?thesis using p(1) by (simp add: upd_mailbox_def)
qed

lemma access_popping:
  assumes "thread_ok (thread_holds (Popping c pc k)) [] (claims (Popping c pc k)) s"
  shows "\<exists>pc' s'. switch_access e (Popping c pc k) s = Some ([pc'], s') \<and> sthreads s' = sthreads s \<and> thread_ok (thread_holds pc') (thread_pushes pc') (claims pc') s'"
proof -
  note ok = thread_okD [OF assms]
  let ?sc = "scheduler (sworld s)"
  obtain q m where p: "pop_step True pc (mailboxes (sworld s) c) = (q, m)" by fastforce
  have b: "boxes_ok (sworld s) ((c, Running OpPop pc) # pop_holds k @ held s) (pushes s) (inlog s) (outlog s)" using ok(2) by simp
  note st = boxes_pop [OF b p]
  consider "pop_rank q \<noteq> 0" | h n where "q = PopDone (Some h) n" | n where "q = PopDone None n"
    using st(1) by (cases q rule: pop_rank.cases) (simp_all, metis option.exhaust)
  then show ?thesis
  proof cases
    case 1
    have "thread_ok (thread_holds (Popping c q k)) [] (claims (Popping c pc k)) (s\<lparr>sworld := set_mailbox c m (sworld s), inlog := inlog s, outlog := outlog s\<rparr>)"
      by (rule thread_ok_upd [OF assms]) (use st(2) [OF 1] ok(3) in \<open>auto simp: set_mailbox_def queued_def\<close>)
    moreover have "claims (Popping c q k) = claims (Popping c pc k)" by (cases k) simp_all
    ultimately show ?thesis using 1 p by (cases q) (simp_all add: upd_mailbox_def)
  next
    case 2
    let ?ol = "(outlog s)(c := outlog s c @ [h])"
    have drop: "set (drop (Suc (length (outlog s c))) (inlog s c)) \<subseteq> set (drop (length (outlog s c)) (inlog s c))"
      by (rule set_drop_subset_set_drop) simp
    have "thread_ok ((c, Idle) # pop_holds k) [] (claims (Popping c pc k)) (s\<lparr>sworld := set_mailbox c (set_head n m) (sworld s), inlog := inlog s, outlog := ?ol\<rparr>)"
      by (rule thread_ok_upd [OF assms]) (use st(3) [OF 2] ok(3) drop in \<open>auto simp: set_mailbox_def queued_def\<close>)
    from thread_ok_cong [OF this holds_after_popped(1)] show ?thesis
      using 2 p by (simp add: upd_mailbox_def holds_after_popped(3) holds_after_popped(4) [where pc = pc])
  next
    case 3
    have "thread_ok (pop_holds k) [] (claims (Popping c pc k)) (s\<lparr>sworld := set_mailbox c m (sworld s), inlog := inlog s, outlog := outlog s\<rparr>)"
      by (rule thread_ok_upd [OF assms]) (use st(4) [OF 3] ok(3) in \<open>auto simp: set_mailbox_def queued_def\<close>)
    then show ?thesis using 3 p by (simp add: upd_mailbox_def holds_after_popped(2,3) holds_after_popped(4) [where pc = pc])
  qed
qed

lemma access_giving:
  assumes "thread_ok (thread_holds (Giving gs fin)) [] [] s"
  shows "\<exists>pcs s'. switch_access e (Giving gs fin) s = Some (pcs, s') \<and> sthreads s' = sthreads s \<and>
    thread_ok (concat (map thread_holds pcs)) (concat (map thread_pushes pcs)) (concat (map claims pcs)) s'"
proof (cases gs)
  case Nil
  then show ?thesis using assms by (cases fin) auto
next
  case (Cons g gs')
  obtain h c r where g: "g = (h, c, r)" by (cases g)
  note ok = thread_okD [OF assms]
  let ?s = "s\<lparr>sworld := schedule h (sworld s) c r\<rparr>" and ?H = "thread_holds (Giving gs' fin)"
  have "mset (thread_holds (Giving gs fin) @ held s) = mset (?H @ held ?s)" using Cons g by (simp add: held_def schedule_def)
  note m = at_ctx_mset [OF this]
  have "boxes_ok (schedule h (sworld s) c r) (?H @ held ?s) ([] @ pushes s) (inlog s) (outlog s)"
    by (rule boxes_cong [OF ok(2) _ m [symmetric] refl]) (simp add: schedule_def)
  then have "boxes_ok (sworld ?s) (?H @ held ?s) ([] @ pushes ?s) (inlog ?s) (outlog ?s)" by (simp add: pushes_def)
  moreover have "claimed ?s = claimed s" "\<And>c. queued ?s c = queued s c" by (simp_all add: claimed_def queued_def)
  ultimately have "thread_ok ?H [] [] ?s" using ok(1,3-5) by (intro thread_okI) simp_all
  then show ?thesis using Cons g by simp
qed

lemma access_ok:
  assumes "thread_ok (thread_holds pc) (thread_pushes pc) (claims pc) s"
  shows "\<exists>pcs s'. switch_access e pc s = Some (pcs, s') \<and> sthreads s' = sthreads s \<and>
    thread_ok (concat (map thread_holds pcs)) (concat (map thread_pushes pcs)) (concat (map claims pcs)) s'"
proof (cases pc)
  case (Runs c r)
  then show ?thesis using assms by simp
next
  case (Prepare c r k)
  then obtain prev s' where "switch_access e pc s = Some ([Publish c prev r k], s')" "sthreads s' = sthreads s" "thread_ok (push_holds k) [(c, prev, r)] [] s'"
    using access_prepare [of k r s e c] assms by auto
  then show ?thesis by (intro exI [of _ "[Publish c prev r k]"] exI [of _ s']) simp
next
  case (Publish c prev r k)
  then show ?thesis using access_publish [of k c prev r s e] assms by fastforce
next
  case (Popping c q k)
  have "thread_ok (thread_holds (Popping c q k)) [] (claims (Popping c q k)) s" using Popping assms by simp
  from access_popping [OF this, of e] show ?thesis unfolding Popping by fastforce
next
  case (Giving gs fin)
  then show ?thesis using access_giving [of gs fin s e] assms by simp
qed

text \<open>An access neither reads nor writes the list of threads.\<close>

lemma access_frame:
  "switch_access e pc (s\<lparr>sthreads := ts\<rparr>) = map_option (\<lambda>(pcs, s'). (pcs, s'\<lparr>sthreads := ts\<rparr>)) (switch_access e pc s)"
  by (cases "(e, pc, s)" rule: switch_access.cases)
    (auto simp: upd_mailbox_def Let_def split: prod.splits option.splits pop_pc.splits bind_splits)

lemma step_access:
  assumes "switch_inv s" "sthreads s = us @ pc # vs"
  shows "\<exists>pcs s'. switch_access e pc s = Some (pcs, s') \<and> switch_inv (s'\<lparr>sthreads := us @ pcs @ vs\<rparr>)"
proof -
  let ?s = "s\<lparr>sthreads := us @ vs\<rparr>"
  have "thread_ok (thread_holds pc) (thread_pushes pc) (claims pc) ?s"
    using switch_inv_thread [of s us "[pc]" vs] assms by simp
  then obtain pcs s1 where a: "switch_access e pc ?s = Some (pcs, s1)" "sthreads s1 = us @ vs"
    "thread_ok (concat (map thread_holds pcs)) (concat (map thread_pushes pcs)) (concat (map claims pcs)) s1"
    using access_ok [of pc ?s e] by auto
  then obtain s' where s': "switch_access e pc s = Some (pcs, s')" "s1 = s'\<lparr>sthreads := us @ vs\<rparr>" by (auto simp: access_frame)
  then show ?thesis using switch_inv_thread [of "s'\<lparr>sthreads := us @ pcs @ vs\<rparr>" us pcs vs] a(3) by simp
qed

lemma switch_inv_init:
  assumes "switch_init s"
  shows "switch_inv s"
proof -
  have i: "mailboxes (sworld s) = (\<lambda>_. initially_unlocked)" "scheduled (sworld s) = []" "sthreads s = []" "inlog s = (\<lambda>_. [])" "outlog s = (\<lambda>_. [])" "\<not> sfailed s"
    using assms by (simp_all add: switch_init_def)
  let ?b = "\<lparr>mem = initially_unlocked, pend = [], holders = [], chain = [stub], pushed = [], popped = [], failed = False\<rparr>"
  have "mb_inv ?b" by (rule mb_inv_init) (simp add: mb_init_def)
  then have "box_ok initially_unlocked {#} {#} [] []" unfolding box_ok_def by (intro exI [of _ ?b]) simp
  then show ?thesis using i by (simp add: switch_inv_def boxes_ok_def held_def pushes_def claimed_def)
qed

text \<open>A thread begins a switch: it holds what it held, perhaps inside \<open>pop\<close>, and may claim a runnable.\<close>

lemma thread_ok_claim:
  assumes "thread_ok H P [] s" "unclaimed s r"
  shows "thread_ok H P [r] s"
  using thread_okD [OF assms(1)] assms(2) by (intro thread_okI) (auto simp: unclaimed_def claimed_def)

lemma thread_ok_start:
  assumes "thread_ok [(c, Idle)] [] C s"
  shows "thread_ok [(c, Running OpPop PopLoad)] [] C s"
  using thread_okD [OF assms] boxes_start [of "sworld s" c "held s"] by (intro thread_okI) simp_all

lemma unclaimed_fewer:
  assumes "unclaimed s r" "sthreads s = us @ pcs @ vs"
  shows "unclaimed (s\<lparr>sthreads := us @ vs\<rparr>) r"
  using assms by (auto simp: unclaimed_def queued_def)

lemma holds_begin_transfer:
  "c = to \<Longrightarrow> thread_holds (begin_transfer e sc c to r returning) = [(c, Idle)] \<and> thread_pushes (begin_transfer e sc c to r returning) = [] \<and>
    claims (begin_transfer e sc c to r returning) = []"
  by (simp add: begin_transfer_def split: option.splits)

lemma begin_inv:
  assumes "switch_inv s" "sthreads s = us @ Runs c r0 # vs"
  shows "switch_inv (s\<lparr>sthreads := us @ Popping c PopLoad PopLeave # vs\<rparr>)"
    "unclaimed s r \<Longrightarrow> switch_inv (s\<lparr>sthreads := us @ begin_transfer e sc c to r returning # vs\<rparr>)"
    "switch_inv (s\<lparr>sthreads := us @ begin_preempt e c r # vs\<rparr>)"
proof -
  let ?s = "s\<lparr>sthreads := us @ vs\<rparr>"
  have ok: "thread_ok [(c, Idle)] [] [] ?s" using switch_inv_thread [of s us "[Runs c r0]" vs] assms by simp
  have new: "switch_inv (s\<lparr>sthreads := us @ pc # vs\<rparr>) = thread_ok (thread_holds pc) (thread_pushes pc) (claims pc) ?s" for pc
    using switch_inv_thread [of "s\<lparr>sthreads := us @ pc # vs\<rparr>" us "[pc]" vs] by simp
  show "switch_inv (s\<lparr>sthreads := us @ Popping c PopLoad PopLeave # vs\<rparr>)" using thread_ok_start [OF ok] by (simp add: new)
  show "switch_inv (s\<lparr>sthreads := us @ begin_preempt e c r # vs\<rparr>)" using ok by (simp add: new begin_preempt_def)
  assume r: "unclaimed s r"
  show "switch_inv (s\<lparr>sthreads := us @ begin_transfer e sc c to r returning # vs\<rparr>)"
  proof (cases "c = to")
    case True
    then show ?thesis using ok holds_begin_transfer [OF True, of e sc r returning] by (simp add: new)
  next
    case False
    have "unclaimed ?s r" using unclaimed_fewer [OF r, of us "[Runs c r0]" vs] assms(2) by simp
    then show ?thesis using thread_ok_start [OF thread_ok_claim [OF ok]] False by (simp add: new begin_transfer_def)
  qed
qed

lemma enter_inv:
  assumes "switch_inv s" "unclaimed s r" "push_holds k = []"
  shows "switch_inv (s\<lparr>sthreads := Prepare c r k # sthreads s\<rparr>)"
proof -
  have "thread_ok [] [] [] s" using switch_inv_thread [of s "[]" "[]" "sthreads s"] assms(1) by simp
  then have "thread_ok [] [] [r] s" using thread_ok_claim assms(2) by blast
  then show ?thesis using switch_inv_thread [of "s\<lparr>sthreads := Prepare c r k # sthreads s\<rparr>" "[]" "[Prepare c r k]" "sthreads s"] assms(3) by simp
qed

lemma dispatch_inv:
  assumes "switch_inv s" "scheduled (sworld s) = us @ (sc, h, c, r) # vs"
  shows "switch_inv (s\<lparr>sworld := (sworld s)\<lparr>scheduled := us @ vs\<rparr>, sthreads := Runs c r # sthreads s\<rparr>)" (is "switch_inv ?t")
proof -
  have "mset (held ?t) = mset (held s)" using assms(2) by (simp add: held_def)
  note m = at_ctx_mset [OF this]
  have "boxes_ok (sworld ?t) (held ?t) (pushes s) (inlog s) (outlog s)"
    by (rule boxes_cong [of "sworld s" "held s" "pushes s"]) (use assms(1) m in \<open>simp_all add: switch_inv_def\<close>)
  moreover have "pushes ?t = pushes s" "claimed ?t = claimed s" "\<And>c. queued ?t c = queued s c" by (simp_all add: pushes_def claimed_def queued_def)
  ultimately show ?thesis using assms(1) by (simp add: switch_inv_def)
qed

lemma switch_step_inv:
  assumes "switch_inv s" "switch_step s t"
  shows "switch_inv t"
  using assms(2)
proof cases
  case (s_access us pc vs e pcs s')
  then show ?thesis using step_access [OF assms(1), of us pc vs e] by auto
next
  case (s_fail us pc vs e)
  then show ?thesis using step_access [OF assms(1), of us pc vs e] by auto
qed (use assms(1) dispatch_inv enter_inv begin_inv in \<open>simp_all add: give_rest_def\<close>)

interpretation switch: inv_system switch_init switch_step switch_inv
  by unfold_locales (auto intro: switch_inv_init switch_step_inv)

section \<open>Accesses of one thread\<close>

text \<open>How many accesses a switch still needs at most, whatever other threads do.\<close>

fun pop_work :: "after_pop \<Rightarrow> nat" where
  "pop_work PopLeave = 3"
| "pop_work (PopNext r k) = 4"
| "pop_work (PopTake to r returning) = 14"

fun switch_rank :: "switch_pc \<Rightarrow> nat" where
  "switch_rank (Runs c r) = 0"
| "switch_rank (Prepare c r k) = 13"
| "switch_rank (Publish c prev r k) = 12"
| "switch_rank (Popping c pc k) = pop_rank pc + pop_work k"
| "switch_rank (Giving gs fin) = Suc (length gs)"

lemma length_give_rest: "length (give_rest h origin) \<le> 1"
  by (simp add: give_rest_def split: option.splits prod.splits)

lemma rank_not_entered: "switch_rank (not_entered k) \<le> 2"
  using length_give_rest by (cases k) (simp_all add: le_SucI)

lemma rank_resume_next: "switch_rank (resume_next c r n gs) \<le> Suc (Suc (length gs))"
  by (simp add: resume_next_def)

lemma rank_entered: "switch_rank (entered e sc c r n k) \<le> 3"
proof (cases k)
  case (PushEnter initial)
  then show ?thesis using rank_resume_next [of c r n "[]"] by (simp split: option.splits)
next
  case (PushInto origin returning)
  have l: "length (give_rest h origin) \<le> 1" for h by (rule length_give_rest)
  show ?thesis
  proof (cases origin)
    case None
    then show ?thesis using PushInto rank_resume_next [of c r n "[]"] by (simp split: option.splits)
  next
    case (Some p)
    obtain f rest where p: "p = (f, rest)" by fastforce
    have "switch_rank (resume_next c r n (give_rest Post (Some (f, rest)))) \<le> 3"
      using rank_resume_next [of c r n "give_rest Post (Some (f, rest))"] l [of Post] Some p by simp
    then show ?thesis using PushInto Some p l [of Post] l [of Defer] by (cases "preempted e (sc c)"; cases returning) simp_all
  qed
qed

lemma rank_after_popped: "switch_rank (after_popped e sc c x k) < pop_work k"
proof (cases k)
  case (PopNext r k')
  then show ?thesis
    using rank_entered [of e sc c r _ k'] rank_not_entered [of k'] by (cases x) (simp_all add: less_Suc_eq_le numeral_eq_Suc)
qed (simp_all split: option.splits)

lemma access_rank:
  assumes "switch_access e pc s = Some (pcs, s')" "switch_rank pc \<noteq> 0"
  shows "pcs = [] \<or> (\<exists>pc'. pcs = [pc'] \<and> switch_rank pc' < switch_rank pc)"
proof (cases pc)
  case (Publish c prev r k)
  then show ?thesis using assms rank_not_entered [of k] by (auto split: bind_splits if_splits)
next
  case (Popping c q k)
  obtain q' m where p: "pop_step True q (mailboxes (sworld s) c) = (q', m)" by fastforce
  have "switch_rank (after_popped e (scheduler (sworld s)) c x k) < switch_rank pc" for x
    using rank_after_popped [of e "scheduler (sworld s)" c x k] Popping by simp
  moreover have "pop_rank q' < pop_rank q" if "pop_rank q' \<noteq> 0"
    using pop_step_rank [of q True "mailboxes (sworld s) c"] p that by (cases "pop_rank q = 0") (cases q; auto)+
  ultimately show ?thesis using assms(1) Popping p by (cases q') (auto split: option.splits)
next
  case (Giving gs fin)
  then show ?thesis using assms by (cases gs) (auto split: option.splits)
qed (use assms in \<open>auto simp: Let_def split: prod.splits\<close>)

text \<open>A thread that makes all its accesses while no other thread moves.\<close>

function run_switch :: "thread_env \<Rightarrow> switch_pc \<Rightarrow> switching \<Rightarrow> (switch_pc list \<times> switching) option" where
  "run_switch e pc s = (if switch_rank pc = 0 then Some ([pc], s)
     else case switch_access e pc s of
        None \<Rightarrow> None
      | Some ([], s') \<Rightarrow> Some ([], s')
      | Some (pc' # pcs, s') \<Rightarrow> run_switch e pc' s')"
  by pat_completeness auto
termination
  by (relation "measure (\<lambda>(e, pc, s). switch_rank pc)") (auto dest: access_rank)

declare run_switch.simps [simp del]

definition switch_result :: "thread_env \<Rightarrow> switch_pc \<Rightarrow> switching \<Rightarrow> (switch_pc list \<times> world) option" where
  "switch_result e pc s = map_option (\<lambda>(pcs, s'). (pcs, sworld s')) (run_switch e pc s)"

lemma result_runs [simp]: "switch_result e (Runs c r) s = Some ([Runs c r], sworld s)"
  by (simp add: switch_result_def run_switch.simps)

lemma result_step:
  "switch_rank pc \<noteq> 0 \<Longrightarrow> switch_access e pc s = None \<Longrightarrow> switch_result e pc s = None"
  "switch_rank pc \<noteq> 0 \<Longrightarrow> switch_access e pc s = Some ([], s') \<Longrightarrow> switch_result e pc s = Some ([], sworld s')"
  "switch_rank pc \<noteq> 0 \<Longrightarrow> switch_access e pc s = Some ([pc'], s') \<Longrightarrow> switch_result e pc s = switch_result e pc' s'"
  by (simp_all add: switch_result_def run_switch.simps [of e pc])

lemma result_giving:
  "switch_result e (Giving gs fin) s = Some (case fin of None \<Rightarrow> [] | Some (c, r) \<Rightarrow> [Runs c r], fold (\<lambda>(h, c, r) w. schedule h w c r) gs (sworld s))"
proof (induction gs arbitrary: s)
  case Nil
  then show ?case by (cases fin) (auto simp: result_step split: prod.splits)
next
  case (Cons g gs)
  obtain h c r where "g = (h, c, r)" by (cases g)
  then show ?case using Cons by (simp add: result_step(3))
qed

lemma result_push:
  "switch_result e (Prepare c r k) s = do {
     (locks, m) \<leftarrow> push (mailboxes (sworld s) c) r;
     switch_result e (if locks then Popping c PopLoad (PopNext r k) else not_entered k)
       (upd_mailbox c m (s\<lparr>inlog := (inlog s)(c := inlog s c @ [r])\<rparr>)) }"
proof -
  obtain prev m where p: "push_prepare (mailboxes (sworld s) c) r = (prev, m)" by fastforce
  let ?s = "(upd_mailbox c m s)\<lparr>inlog := (inlog s)(c := inlog s c @ [r])\<rparr>"
  have 1: "switch_result e (Prepare c r k) s = switch_result e (Publish c prev r k) ?s" by (rule result_step(3)) (simp_all add: p)
  have m: "mailboxes (sworld (upd_mailbox c m s)) c = m" by (simp add: upd_mailbox_def set_mailbox_def)
  show ?thesis
  proof (cases "push_publish m prev r")
    case None
    then have "switch_result e (Publish c prev r k) ?s = None" by (intro result_step(1)) (simp_all add: m)
    then show ?thesis using 1 None p by (simp add: push_def)
  next
    case (Some x)
    obtain locks m' where x: "x = (locks, m')" by fastforce
    have "switch_result e (Publish c prev r k) ?s =
      switch_result e (if locks then Popping c PopLoad (PopNext r k) else not_entered k) (upd_mailbox c m' ?s)"
      by (rule result_step(3)) (simp_all add: m Some x)
    moreover have "upd_mailbox c m' ?s = upd_mailbox c m' (s\<lparr>inlog := (inlog s)(c := inlog s c @ [r])\<rparr>)" by (simp add: upd_mailbox_def set_mailbox_def)
    ultimately show ?thesis using 1 Some x p by (simp add: push_def)
  qed
qed

lemma result_pop_from:
  assumes "pop_rank pc \<noteq> 0"
  shows "switch_result e (Popping c pc k) s = (case run_pop True pc (mailboxes (sworld s) c) of
      (PopDone (Some h) n, m) \<Rightarrow> switch_result e (after_popped e (scheduler (sworld s)) c (Some h) k)
         ((upd_mailbox c (set_head n m) s)\<lparr>outlog := (outlog s)(c := outlog s c @ [h])\<rparr>)
    | (PopDone None n, m) \<Rightarrow> switch_result e (after_popped e (scheduler (sworld s)) c None k) (upd_mailbox c m s)
    | _ \<Rightarrow> None)"
  using assms
proof (induction "pop_rank pc" arbitrary: pc s rule: less_induct)
  case less
  obtain q m where p: "pop_step True pc (mailboxes (sworld s) c) = (q, m)" by fastforce
  have r: "run_pop True pc (mailboxes (sworld s) c) = run_pop True q m" using less.prems p by (subst run_pop.simps) simp
  have nz: "switch_rank (Popping c pc k) \<noteq> 0" using less.prems by simp
  show ?case
  proof (cases "pop_rank q = 0")
    case True
    then have stop: "run_pop True q m = (q, m)" by (subst run_pop.simps) simp
    show ?thesis using True
    proof (cases q)
      case (PopDone h n)
      show ?thesis
      proof (cases h)
        case None
        then have "switch_access e (Popping c pc k) s = Some ([after_popped e (scheduler (sworld s)) c None k], upd_mailbox c m s)" using p PopDone by simp
        from result_step(3) [OF nz this] show ?thesis using r stop PopDone None by simp
      next
        case (Some x)
        then have "switch_access e (Popping c pc k) s = Some ([after_popped e (scheduler (sworld s)) c (Some x) k],
          (upd_mailbox c (set_head n m) s)\<lparr>outlog := (outlog s)(c := outlog s c @ [x])\<rparr>)" using p PopDone by simp
        from result_step(3) [OF nz this] show ?thesis using r stop PopDone Some by simp
      qed
    next
      case PopFail
      then have "switch_access e (Popping c pc k) s = None" using p by simp
      from result_step(1) [OF nz this] show ?thesis using r stop PopFail by simp
    qed simp_all
  next
    case False
    have "switch_access e (Popping c pc k) s = Some ([Popping c q k], upd_mailbox c m s)" using p False by (cases q) simp_all
    note st = result_step(3) [OF nz this]
    have "pop_rank q < pop_rank pc" using pop_step_rank [OF less.prems] p by (metis fst_conv)
    from less.hyps [OF this False, of "upd_mailbox c m s"] show ?thesis
      by (simp add: st r upd_mailbox_def set_mailbox_def split: prod.splits pop_pc.splits option.splits)
  qed
qed

text \<open>The ghost that records what \<open>pop\<close> returned.\<close>

definition log_pop :: "ctx \<Rightarrow> runnable option \<Rightarrow> switching \<Rightarrow> switching" where
  "log_pop c x s = (case x of None \<Rightarrow> s | Some h \<Rightarrow> s\<lparr>outlog := (outlog s)(c := outlog s c @ [h])\<rparr>)"

lemma sworld_log_pop [simp]: "sworld (log_pop c x s) = sworld s"
  by (simp add: log_pop_def split: option.splits)

lemma result_pop:
  "switch_result e (Popping c PopLoad k) s = do {
     (x, m) \<leftarrow> pop (mailboxes (sworld s) c);
     switch_result e (after_popped e (scheduler (sworld s)) c x k) (log_pop c x (upd_mailbox c m s)) }"
  by (auto simp: result_pop_from pop_def pop_impl_def log_pop_def upd_mailbox_def split: prod.splits pop_pc.splits option.splits)

definition went_on :: "ctx \<Rightarrow> runnable \<Rightarrow> bool \<Rightarrow> switch_pc list" where
  "went_on c r b = (if b then [Runs c r] else [])"

lemma sworld_upd [simp]: "sworld (upd_mailbox c m s) = set_mailbox c m (sworld s)"
  by (simp add: upd_mailbox_def)

lemma scheduler_set_mailbox [simp]: "scheduler (set_mailbox c m w) = scheduler w"
  by (simp add: set_mailbox_def)

lemma runnable_accesses:
  "push_runnable w c r = do { (locks, m) \<leftarrow> push (mailboxes w c) r; Some (locks, set_mailbox c m w) }"
  "next_runnable w c = do { (x, m) \<leftarrow> pop (mailboxes w c); Some (x, set_mailbox c m w) }"
  by (simp_all add: push_runnable_def next_runnable_def set_mailbox_def)

lemma maybe_preempt_preempted:
  "maybe_preempt e w (Some c) r = (case preempted e (scheduler w c) of None \<Rightarrow> (False, w) | Some h \<Rightarrow> (True, schedule h w c r))"
  by (simp add: maybe_preempt_def preempted_def)

lemma result_enter:
  "switch_result e (Prepare c r (PushEnter initial)) s = map_option (\<lambda>(b, w). (went_on c r b, w)) (do_enter e (sworld s) (Some c) r initial)"
  by (auto simp: result_push result_pop result_giving runnable_accesses do_enter_def maybe_preempt_preempted went_on_def resume_next_def Let_def
      split: bind_splits option.splits)

lemma result_leave: "switch_result e (Popping c PopLoad PopLeave) s = map_option (\<lambda>w. ([], w)) (do_leave (sworld s) (Some c))"
  by (auto simp: result_pop result_giving runnable_accesses do_leave_def post_opt_def split: bind_splits option.splits)

lemma give_rest_schedule:
  "fold (\<lambda>(h, c, r) w. schedule h w c r) (give_rest Post (Some (f, rest))) w = post_opt w f rest"
  "fold (\<lambda>(h, c, r) w. schedule h w c r) (give_rest Defer (Some (f, rest))) w = defer_opt w f rest"
  by (simp_all add: give_rest_def post_opt_def defer_opt_def split: option.splits)

lemma result_into:
  "switch_result e (Prepare c r (PushInto (map_option (\<lambda>f. (f, rest)) origin) returning)) s =
   map_option (\<lambda>(b, w). (went_on c r b, w)) (transfer_into e (sworld s) origin c r returning rest)"
proof (cases origin)
  case None
  then show ?thesis
    by (auto simp: result_push result_pop result_giving runnable_accesses transfer_into_def maybe_preempt_preempted went_on_def resume_next_def give_rest_def Let_def
      split: bind_splits option.splits)
next
  case (Some f)
  then show ?thesis
    by (auto simp: result_push result_pop result_giving runnable_accesses transfer_into_def maybe_preempt_preempted went_on_def resume_next_def give_rest_schedule Let_def
      split: bind_splits option.splits)
qed

lemma result_transfer:
  "switch_result e (begin_transfer e (scheduler (sworld s)) f c r returning) s =
   map_option (\<lambda>(b, w). (went_on c r b, w)) (do_transfer e (sworld s) (Some f) (Some c) r returning)"
proof (cases "f = c")
  case True
  then show ?thesis by (auto simp: begin_transfer_def do_transfer_def result_giving maybe_preempt_preempted went_on_def split: option.splits)
next
  case False
  have "switch_result e (Popping f PopLoad (PopTake c r returning)) s = do {
      (x, m) \<leftarrow> pop (mailboxes (sworld s) f);
      map_option (\<lambda>(b, w). (went_on c r b, w)) (transfer_into e (set_mailbox f m (sworld s)) (Some f) c r returning x) }"
    using result_into [where origin = "Some f"] by (auto simp: result_pop split: bind_splits)
  then show ?thesis using False by (auto simp: begin_transfer_def do_transfer_def runnable_accesses split: bind_splits)
qed

text \<open>A thread whose accesses each see some unrelated state.\<close>

fun switch_under :: "switch_pc \<Rightarrow> (thread_env \<times> switching) list \<Rightarrow> switch_pc list" where
  "switch_under pc [] = [pc]"
| "switch_under pc ((e, s) # ss) = (if switch_rank pc = 0 then [pc]
     else case switch_access e pc s of
        None \<Rightarrow> []
      | Some ([], s') \<Rightarrow> []
      | Some (pc' # pcs, s') \<Rightarrow> switch_under pc' ss)"

lemma switch_under_ends: "switch_rank pc \<le> length ss \<Longrightarrow> filter (\<lambda>pc. switch_rank pc \<noteq> 0) (switch_under pc ss) = []"
proof (induction pc ss rule: switch_under.induct)
  case (2 pc e s ss)
  show ?case
  proof (cases "switch_rank pc = 0")
    case False
    show ?thesis
    proof (cases "switch_access e pc s")
      case (Some x)
      obtain pcs s' where x: "x = (pcs, s')" by fastforce
      show ?thesis using access_rank [OF Some [unfolded x] False]
      proof
        assume "\<exists>pc'. pcs = [pc'] \<and> switch_rank pc' < switch_rank pc"
        then obtain pc' where p: "pcs = [pc']" "switch_rank pc' < switch_rank pc" by blast
        then have "switch_rank pc' \<le> length ss" using 2(2) by simp
        from 2(1) [OF False Some x [symmetric] p(1) this] show ?thesis using Some x p(1) False by simp
      qed (use Some x False in simp)
    qed (use False in simp)
  qed simp
qed simp

section \<open>Properties\<close>

text \<open>
  C18. The accesses of a context switch, made by one thread while no other moves, are exactly the
  switch: the same mailboxes, the same calls of the schedulers in the same order, and the thread
  goes on with the runnable in the same cases.
\<close>

theorem switch_accesses_agree:
  "switch_result e (Prepare c r (PushEnter initial)) s = map_option (\<lambda>(b, w). (went_on c r b, w)) (do_enter e (sworld s) (Some c) r initial) \<and>
   switch_result e (Popping c PopLoad PopLeave) s = map_option (\<lambda>w. ([], w)) (do_leave (sworld s) (Some c)) \<and>
   switch_result e (begin_transfer e (scheduler (sworld s)) f c r returning) s =
     map_option (\<lambda>(b, w). (went_on c r b, w)) (do_transfer e (sworld s) (Some f) (Some c) r returning) \<and>
   switch_result e (Prepare c r (PushInto None returning)) s =
     map_option (\<lambda>(b, w). (went_on c r b, w)) (do_transfer e (sworld s) None (Some c) r returning) \<and>
   switch_result e (begin_preempt e c r) s = Some (went_on c r (fst (do_preempt e (sworld s) (Some c) r)), snd (do_preempt e (sworld s) (Some c) r))"
proof (intro conjI)
  show "switch_result e (Prepare c r (PushInto None returning)) s =
     map_option (\<lambda>(b, w). (went_on c r b, w)) (do_transfer e (sworld s) None (Some c) r returning)"
    using result_into [where origin = None] by (simp add: do_transfer_def)
  show "switch_result e (begin_preempt e c r) s = Some (went_on c r (fst (do_preempt e (sworld s) (Some c) r)), snd (do_preempt e (sworld s) (Some c) r))"
    by (simp add: begin_preempt_def result_giving do_preempt_def post_or_defer_def went_on_def)
qed (rule result_enter result_leave result_transfer)+

text \<open>
  C19. Context switches are wait-free: whatever the memory holds at each access of a thread, that is
  whatever the other threads do in between, a thread has finished the switch, and runs a runnable
  or is free, after 21 accesses.
\<close>

theorem switch_wait_free:
  assumes "length ss \<ge> 21"
    and "pc \<in> {Prepare c r (PushEnter initial), Prepare c r (PushInto None returning), Popping c PopLoad PopLeave,
      begin_transfer e sc f c r returning, begin_preempt e c r}"
  shows "filter (\<lambda>pc. switch_rank pc \<noteq> 0) (switch_under pc ss) = []"
proof (rule switch_under_ends)
  have "switch_rank pc \<le> 21" using assms(2) by (auto simp: begin_transfer_def begin_preempt_def split: option.splits)
  then show "switch_rank pc \<le> length ss" using assms(1) by simp
qed

text \<open>
  C3. Isolation of contexts at the level of single atomic accesses.  Whatever context switches
  threads make (enter, leave, transfer and preempt), interleaved between any two accesses, no assertion fails, and at most one party
  holds a context: a thread that runs one of its runnables, a thread inside \<open>next_runnable\<close>, a
  thread that keeps it while it enters another context, a thread about to give a runnable of it to
  the scheduler, or a job of the scheduler.  The mailbox is marked unlocked exactly when nobody
  does, and the runnables leave it in the order in which they came.
\<close>

theorem switching_exclusive:
  assumes "reach switch_init switch_step s"
  shows "\<not> sfailed s \<and> length (at_ctx c (held s)) \<le> 1 \<and>
    (at_ctx c (held s) = [] \<longleftrightarrow> nxt (mailboxes (sworld s) c) (mb_head (mailboxes (sworld s) c)) = Unlocked) \<and>
    inlog s c = outlog s c @ queued s c \<and> distinct (queued s c)"
proof -
  have i: "switch_inv s" by (rule switch.reach_inv [OF assms])
  then have "box_ok (mailboxes (sworld s) c) (mset (at_ctx c (held s))) (mset (at_ctx c (pushes s))) (inlog s c) (outlog s c)"
    by (simp add: switch_inv_def boxes_ok_def)
  then obtain b where b: "mb_inv b" "mem b = mailboxes (sworld s) c" "mset (holders b) = mset (at_ctx c (held s))"
    "pushed b = inlog s c" "popped b = outlog s c" "items b = drop (length (outlog s c)) (inlog s c)" by (rule box_okE)
  have l: "length (holders b) = length (at_ctx c (held s))" using b(3) by (metis size_mset)
  have "length (holders b) \<le> 1 \<and> (holders b = [] \<longleftrightarrow> nxt (mem b) (mb_head (mem b)) = Unlocked)"
    using b(1) by (auto simp: mb_inv_def lock_inv_def split: if_splits)
  moreover have "inlog s c = outlog s c @ items b" "distinct (items b)" using b(1,4,5) by (auto simp: mb_inv_def chain_inv_def items_def)
  ultimately show ?thesis using b(2,6) l i by (auto simp: queued_def switch_inv_def)
qed

text \<open>
  C4. No wakeup is lost at the level of single accesses: while runnables wait for a context that
  nobody holds, a thread is between the two halves of its push into that context, and its next
  access locks the context, whereupon this thread takes the next runnable.
\<close>

theorem switching_no_lost_wakeup:
  assumes "reach switch_init switch_step s" "queued s c \<noteq> []" "at_ctx c (held s) = []"
  shows "\<exists>prev r k s'. Publish c prev r k \<in> set (sthreads s) \<and>
    switch_access e (Publish c prev r k) s = Some ([Popping c PopLoad (PopNext r k)], s')"
proof -
  have "box_ok (mailboxes (sworld s) c) (mset (at_ctx c (held s))) (mset (at_ctx c (pushes s))) (inlog s c) (outlog s c)"
    using switch.reach_inv [OF assms(1)] by (simp add: switch_inv_def boxes_ok_def)
  then obtain b where b: "mb_inv b" "mem b = mailboxes (sworld s) c" "mset (holders b) = mset (at_ctx c (held s))"
    "mset (pend b) = mset (at_ctx c (pushes s))" "items b = drop (length (outlog s c)) (inlog s c)" by (rule box_okE)
  have "holders b = []" "items b \<noteq> []" using assms(2,3) b(3,5) by (simp_all add: queued_def)
  then obtain r where r: "(mb_head (mem b), r) \<in> set (pend b)" "nxt (mem b) (mb_head (mem b)) = Unlocked"
    using unlocked_pending [OF b(1)] by blast
  let ?p = "mb_head (mem b)"
  have "(?p, r) \<in> set (at_ctx c (pushes s))" using r(1) mset_eq_setD [OF b(4)] by simp
  then have "(c, ?p, r) \<in> set (pushes s)" by (force simp: at_ctx_def)
  then obtain pc where pc: "pc \<in> set (sthreads s)" "(c, ?p, r) \<in> set (thread_pushes pc)" by (auto simp: pushes_def)
  from pc(2) obtain k where "pc = Publish c ?p r k" by (cases pc) auto
  then show ?thesis using pc(1) r(2) b(2) by (intro exI [of _ ?p] exI [of _ r] exI [of _ k]) (simp add: push_publish_def)
qed

section \<open>Witnesses\<close>

text \<open>A thread stopped between the halves of its push into the unlocked context 3.\<close>

definition switching0 :: switching where
  "switching0 = \<lparr>sworld = world0, sthreads = [], inlog = (\<lambda>_. []), outlog = (\<lambda>_. []), sfailed = False\<rparr>"

definition half_entered :: switching where
  "half_entered = switching0\<lparr>sworld := set_mailbox 3 (snd (push_prepare initially_unlocked 7)) world0,
     sthreads := [Publish 3 stub 7 (PushEnter False)], inlog := (\<lambda>_. [])(3 := [7])\<rparr>"

lemma half_entered_reach: "reach switch_init switch_step half_entered"
proof -
  let ?s = "switching0\<lparr>sthreads := [Prepare 3 7 (PushEnter False)]\<rparr>"
  have r0: "reach switch_init switch_step switching0" by (rule reach_init) (simp add: switch_init_def switching0_def world0_def)
  have "unclaimed switching0 7" by (simp add: unclaimed_def queued_def switching0_def stub_def)
  from s_enter [OF this, of 3 False] have "switch_step switching0 ?s" by (simp add: switching0_def)
  with r0 have r1: "reach switch_init switch_step ?s" by (rule reach_step)
  have "switch_step ?s half_entered"
    using s_access [of ?s "[]" "Prepare 3 7 (PushEnter False)" "[]" env0]
    by (simp add: push_prepare_def initially_unlocked_def world0_def switching0_def half_entered_def upd_mailbox_def set_mailbox_def)
  with r1 show ?thesis by (rule reach_step)
qed

theorem switching_exclusive_witness:
  "reach switch_init switch_step half_entered \<and> \<not> sfailed half_entered \<and> length (at_ctx 3 (held half_entered)) \<le> 1"
  using switching_exclusive [OF half_entered_reach, of 3] half_entered_reach by blast

theorem switching_no_lost_wakeup_witness:
  "\<exists>prev r k s'. switch_access env0 (Publish 3 prev r k) half_entered = Some ([Popping 3 PopLoad (PopNext r k)], s')"
proof -
  have "queued half_entered 3 \<noteq> []" "at_ctx 3 (held half_entered) = []"
    by (simp_all add: queued_def held_def half_entered_def switching0_def world0_def set_mailbox_def)
  from switching_no_lost_wakeup [OF half_entered_reach this, of env0] show ?thesis by blast
qed

theorem switch_wait_free_witness:
  "filter (\<lambda>pc. switch_rank pc \<noteq> 0) (switch_under (Prepare 3 7 (PushEnter False)) (replicate 21 (env0, switching0))) = []"
  by (rule switch_wait_free [where c = 3 and r = 7 and initial = False]) simp_all

end
