(* ===== verification/Async.thy ===== *)
theory Async
  imports Actor_Context Async_Task Result
begin

text \<open>
  Async coroutines: the promise of \<open>coroactors/detail/async.h\<close> with its awaiters, and the
  class \<open>async\<close> of \<open>coroactors/async.h\<close>.  The theory composes the tasks of
  \<open>Async_Task\<close> with the context switches of \<open>Actor_Context\<close>.

  A coroutine is named by the address of its promise; the task that a promise holds in its
  \<open>state\<close> has the same address.  An operation takes the thread \<open>i\<close> that runs it and what the
  schedulers answer to \<open>preempt\<close> (\<open>pre\<close>).  \<open>None\<close> is \<open>std::terminate\<close> or a failed
  assertion.  What an awaited object of another library does when it suspends is an argument
  (\<open>inner\<close>): any change of the state, then one of the outcomes \<open>susp\<close>.
\<close>

section \<open>State\<close>

datatype pstate = PNone | PInherited addr "ctx option option" | PPrivate

record 'a promise =
  continuation :: "handle option"
  pstate :: pstate
  presult :: "'a result"

record 'a asys =
  aworld :: world
  theap :: task_heap
  promises :: "addr \<Rightarrow> 'a promise"
  rtask :: "runnable \<Rightarrow> addr option"
  rcont :: "runnable \<Rightarrow> handle"
  restore_task :: "addr \<Rightarrow> addr option"
  destroyed :: "addr \<Rightarrow> bool"

text \<open>What \<open>await_suspend\<close> tells the caller: the coroutine to run next, nothing to run
  (\<open>noop_coroutine\<close>), that the coroutine stays suspended, goes on, or an exception.\<close>

datatype susp = SHandle handle | SNoop | SSuspend | SContinue | SThrow

definition env :: "tid \<Rightarrow> (sched \<Rightarrow> bool) \<Rightarrow> 'a asys \<Rightarrow> thread_env" where
  "env i pre s = \<lparr>running_task = (current (theap s) i \<noteq> None), preempts = pre\<rparr>"

definition context_of :: "addr \<Rightarrow> 'a asys \<Rightarrow> ctx option" where
  "context_of t s = task_context (task_at (theap s) t)"

definition set_context :: "addr \<Rightarrow> ctx option \<Rightarrow> 'a asys \<Rightarrow> 'a asys" where
  "set_context t c s = s\<lparr>theap := (theap s)\<lparr>task_at := (task_at (theap s))(t := (task_at (theap s) t)\<lparr>task_context := c\<rparr>)\<rparr>\<rparr>"

definition set_scheduled :: "addr \<Rightarrow> bool \<Rightarrow> 'a asys \<Rightarrow> 'a asys" where
  "set_scheduled t b s = s\<lparr>theap := (theap s)\<lparr>task_at := (task_at (theap s))(t := (task_at (theap s) t)\<lparr>was_scheduled := b\<rparr>)\<rparr>\<rparr>"

definition set_runnable :: "runnable \<Rightarrow> addr option \<Rightarrow> handle \<Rightarrow> 'a asys \<Rightarrow> 'a asys" where
  "set_runnable r t h s = s\<lparr>rtask := (rtask s)(r := t), rcont := (rcont s)(r := h)\<rparr>"

definition set_restore :: "addr \<Rightarrow> addr option \<Rightarrow> 'a asys \<Rightarrow> 'a asys" where
  "set_restore a t s = s\<lparr>restore_task := (restore_task s)(a := t)\<rparr>"

definition set_pstate :: "addr \<Rightarrow> pstate \<Rightarrow> 'a asys \<Rightarrow> 'a asys" where
  "set_pstate p st s = s\<lparr>promises := (promises s)(p := (promises s p)\<lparr>pstate := st\<rparr>)\<rparr>"

definition task_enter :: "tid \<Rightarrow> addr \<Rightarrow> 'a asys \<Rightarrow> 'a asys option" where
  "task_enter i t s = do { h \<leftarrow> enter i t (theap s); Some (s\<lparr>theap := h\<rparr>) }"

definition task_leave :: "tid \<Rightarrow> addr \<Rightarrow> 'a asys \<Rightarrow> 'a asys option" where
  "task_leave i t s = do { h \<leftarrow> leave i t (theap s); Some (s\<lparr>theap := h\<rparr>) }"

definition context_enter ::
  "tid \<Rightarrow> (sched \<Rightarrow> bool) \<Rightarrow> ctx option \<Rightarrow> runnable \<Rightarrow> bool \<Rightarrow> 'a asys \<Rightarrow> (bool \<times> 'a asys) option" where
  "context_enter i pre c r initial s = do {
     (b, w) \<leftarrow> do_enter (env i pre s) (aworld s) c r initial;
     Some (b, s\<lparr>aworld := w\<rparr>) }"

definition context_transfer ::
  "tid \<Rightarrow> (sched \<Rightarrow> bool) \<Rightarrow> ctx option \<Rightarrow> ctx option \<Rightarrow> runnable \<Rightarrow> bool \<Rightarrow> 'a asys \<Rightarrow> (bool \<times> 'a asys) option" where
  "context_transfer i pre from to r returning s = do {
     (b, w) \<leftarrow> do_transfer (env i pre s) (aworld s) from to r returning;
     Some (b, s\<lparr>aworld := w\<rparr>) }"

definition context_leave :: "ctx option \<Rightarrow> 'a asys \<Rightarrow> 'a asys option" where
  "context_leave c s = do { w \<leftarrow> do_leave (aworld s) c; Some (s\<lparr>aworld := w\<rparr>) }"

section \<open>Runnables\<close>

text \<open>
  \<open>async_context_switch_runnable::run\<close> returns the coroutine it resumes;
  \<open>async_restore_task_callback\<close> is the same runnable inside a coroutine frame.
\<close>

definition run_runnable :: "runnable \<Rightarrow> 'a asys \<Rightarrow> (handle \<times> 'a asys) option" where
  "run_runnable r s = (case rtask s r of
       None \<Rightarrow> None
     | Some t \<Rightarrow> Some (rcont s r, set_scheduled t True s))"

definition restore_callback :: "tid \<Rightarrow> (sched \<Rightarrow> bool) \<Rightarrow> runnable \<Rightarrow> 'a asys \<Rightarrow> (susp \<times> 'a asys) option" where
  "restore_callback i pre r s = (case rtask s r of
       None \<Rightarrow> None
     | Some t \<Rightarrow> do {
         (b, s) \<leftarrow> context_enter i pre (context_of t s) r False s;
         if b then Some (SHandle (rcont s r), set_scheduled t False s) else Some (SNoop, s) })"

section \<open>The promise\<close>

definition promise_new :: "addr \<Rightarrow> 'a asys \<Rightarrow> 'a asys" where
  "promise_new p s = s\<lparr>promises := (promises s)(p := \<lparr>continuation = None, pstate = PNone, presult = Empty\<rparr>)\<rparr>"

definition return_value :: "addr \<Rightarrow> 'a \<Rightarrow> 'a asys \<Rightarrow> 'a asys" where
  "return_value p v s = s\<lparr>promises := (promises s)(p := (promises s p)\<lparr>presult := set_value v (presult (promises s p))\<rparr>)\<rparr>"

definition unhandled_exception :: "addr \<Rightarrow> exn \<Rightarrow> 'a asys \<Rightarrow> 'a asys" where
  "unhandled_exception p x s = s\<lparr>promises := (promises s)(p := (promises s p)\<lparr>presult := set_exception x (presult (promises s p))\<rparr>)\<rparr>"

definition prepare :: "addr \<Rightarrow> handle option \<Rightarrow> 'a asys \<Rightarrow> (addr option \<times> 'a asys) option" where
  "prepare p c s =
     (let s = s\<lparr>promises := (promises s)(p := (promises s p)\<lparr>continuation := c\<rparr>)\<rparr>
      in case pstate (promises s p) of
           PNone \<Rightarrow> Some (None, (set_pstate p PPrivate s)
              \<lparr>theap := (theap s)\<lparr>task_at := (task_at (theap s))(p := new_task)\<rparr>\<rparr>)
         | PInherited t _ \<Rightarrow> Some (Some t, s)
         | PPrivate \<Rightarrow> None)"

definition get_task :: "addr \<Rightarrow> 'a asys \<Rightarrow> addr option" where
  "get_task p s = (case pstate (promises s p) of
       PNone \<Rightarrow> None | PInherited t _ \<Rightarrow> Some t | PPrivate \<Rightarrow> Some p)"

definition get_caller_context :: "addr \<Rightarrow> 'a asys \<Rightarrow> ctx option option" where
  "get_caller_context p s = (case pstate (promises s p) of
       PNone \<Rightarrow> None
     | PInherited t (Some c) \<Rightarrow> Some c
     | PInherited t None \<Rightarrow> Some (context_of t s)
     | PPrivate \<Rightarrow> Some None)"

definition preserve_caller_context :: "addr \<Rightarrow> 'a asys \<Rightarrow> (bool \<times> 'a asys) option" where
  "preserve_caller_context p s = (case pstate (promises s p) of
       PNone \<Rightarrow> None
     | PInherited t None \<Rightarrow> Some (True, set_pstate p (PInherited t (Some (context_of t s))) s)
     | PInherited t (Some c) \<Rightarrow> Some (False, s)
     | PPrivate \<Rightarrow> Some (False, s))"

definition initial_resume :: "tid \<Rightarrow> addr \<Rightarrow> 'a asys \<Rightarrow> 'a asys option" where
  "initial_resume i p s = do { t \<leftarrow> get_task p s; task_enter i t s }"

text \<open>The end of \<open>final_suspend\<close>: back to the awaiting coroutine, or destroyed when detached.\<close>

definition final_return :: "addr \<Rightarrow> 'a asys \<Rightarrow> susp \<times> 'a asys" where
  "final_return p s = (case continuation (promises s p) of
       None \<Rightarrow> (SNoop, s\<lparr>destroyed := (destroyed s)(p := True)\<rparr>)
     | Some c \<Rightarrow> (SHandle c, s))"

definition final_suspend :: "tid \<Rightarrow> (sched \<Rightarrow> bool) \<Rightarrow> addr \<Rightarrow> runnable \<Rightarrow> 'a asys \<Rightarrow> (susp \<times> 'a asys) option" where
  "final_suspend i pre p r s = (case pstate (promises s p) of
       PNone \<Rightarrow> None
     | PInherited t caller \<Rightarrow> do {
         s \<leftarrow> task_leave i t s;
         case caller of
           None \<Rightarrow> Some (final_return p s)
         | Some c \<Rightarrow> do {
             let from = context_of t s;
             let s = set_context t c s;
             let s = set_runnable r (Some t) (case continuation (promises s p) of Some k \<Rightarrow> k | None \<Rightarrow> 0) s;
             (b, s) \<leftarrow> context_transfer i pre from c r True s;
             if b then Some (final_return p s) else Some (SNoop, s) } }
     | PPrivate \<Rightarrow> do {
         s \<leftarrow> task_leave i p s;
         let from = context_of p s;
         s \<leftarrow> context_leave from (set_context p None s);
         Some (final_return p s) })"

section \<open>Switching contexts\<close>

datatype switch_type = Ready | Enter | Return

text \<open>\<open>await_transform(bind_context_t)\<close> constructs the awaiter with the runnable \<open>r\<close>.\<close>

definition await_transform_context ::
  "addr \<Rightarrow> ctx option \<Rightarrow> runnable \<Rightarrow> 'a asys \<Rightarrow> (switch_type \<times> 'a asys) option" where
  "await_transform_context p bound r s = do {
     t \<leftarrow> get_task p s;
     (initial, s) \<leftarrow> preserve_caller_context p s;
     let s = set_runnable r None 0 s;
     if context_of t s = bound then Some (Ready, s)
     else if bound = None then do {
       s \<leftarrow> context_leave (context_of t s) s;
       Some (Ready, set_context t None s) }
     else Some (if initial then Enter else Return, s) }"

definition switch_await_suspend ::
  "tid \<Rightarrow> (sched \<Rightarrow> bool) \<Rightarrow> addr \<Rightarrow> ctx option \<Rightarrow> switch_type \<Rightarrow> runnable \<Rightarrow> 'a asys \<Rightarrow> (bool \<times> 'a asys) option" where
  "switch_await_suspend i pre p to ty r s =
     (if ty = Ready then None
      else do {
        t \<leftarrow> get_task p s;
        let from = context_of t s;
        s \<leftarrow> task_leave i t (set_context t to s);
        let s = set_runnable r (Some t) p s;
        (b, s) \<leftarrow> (case from of
            None \<Rightarrow> context_enter i pre (context_of t s) r (\<not> was_scheduled (task_at (theap s) t)) s
          | Some c \<Rightarrow> context_transfer i pre from (context_of t s) r (ty = Return) s);
        Some (\<not> b, s) })"

definition switch_await_resume :: "tid \<Rightarrow> runnable \<Rightarrow> 'a asys \<Rightarrow> 'a asys option" where
  "switch_await_resume i r s = (case rtask s r of None \<Rightarrow> Some s | Some t \<Rightarrow> task_enter i t s)"

text \<open>\<open>co_await context()\<close>: suspended, or running on in the new context.\<close>

definition co_await_context ::
  "tid \<Rightarrow> (sched \<Rightarrow> bool) \<Rightarrow> addr \<Rightarrow> ctx option \<Rightarrow> runnable \<Rightarrow> 'a asys \<Rightarrow> (bool \<times> 'a asys) option" where
  "co_await_context i pre p bound r s = do {
     (ty, s) \<leftarrow> await_transform_context p bound r s;
     (suspended, s) \<leftarrow> (if ty = Ready then Some (False, s) else switch_await_suspend i pre p bound ty r s);
     if suspended then Some (True, s)
     else do { s \<leftarrow> switch_await_resume i r s; Some (False, s) } }"

definition co_await_caller_context ::
  "tid \<Rightarrow> (sched \<Rightarrow> bool) \<Rightarrow> addr \<Rightarrow> runnable \<Rightarrow> 'a asys \<Rightarrow> (bool \<times> 'a asys) option" where
  "co_await_caller_context i pre p r s = do {
     c \<leftarrow> get_caller_context p s;
     co_await_context i pre p c r s }"

section \<open>Awaiting other awaitables\<close>

text \<open>
  \<open>same_context_wrapped_awaiter\<close> at address \<open>a\<close>, whose wrapped handle is the callback \<open>k\<close>.
  \<open>alloc\<close> tells whether the frame of the wrapper was allocated.
\<close>

definition same_await_suspend ::
  "tid \<Rightarrow> addr \<Rightarrow> addr \<Rightarrow> runnable \<Rightarrow> bool \<Rightarrow> ('a asys \<Rightarrow> susp \<times> 'a asys) \<Rightarrow> 'a asys \<Rightarrow> (susp \<times> 'a asys) option" where
  "same_await_suspend i p a k alloc inner s = do {
     t \<leftarrow> get_task p s;
     if current (theap s) i \<noteq> Some t then None
     else if \<not> alloc then Some (SThrow, s)
     else do {
       s \<leftarrow> task_leave i t (set_runnable k (Some t) p s);
       let s = set_restore a (Some t) s;
       let c = context_of t s;
       let (out, s) = inner s;
       case out of
         SThrow \<Rightarrow> do { s \<leftarrow> task_enter i t s; Some (SThrow, set_restore a None s) }
       | SContinue \<Rightarrow> Some (SContinue, s)
       | _ \<Rightarrow> do { s \<leftarrow> context_leave c s; Some (out, s) } } }"

definition same_await_resume ::
  "tid \<Rightarrow> addr \<Rightarrow> ('a asys \<Rightarrow> 'b \<times> 'a asys) \<Rightarrow> 'a asys \<Rightarrow> ('b \<times> 'a asys) option" where
  "same_await_resume i a inner s = do {
     let t = restore_task s a;
     let (v, s) = inner s;
     s \<leftarrow> (case t of None \<Rightarrow> Some s | Some t \<Rightarrow> task_enter i t s);
     Some (v, s) }"

text \<open>\<open>change_context_wrapped_awaiter\<close>; \<open>by_handle\<close> tells the kind of the awaited object.\<close>

definition transfer_to ::
  "tid \<Rightarrow> (sched \<Rightarrow> bool) \<Rightarrow> bool \<Rightarrow> ctx option \<Rightarrow> runnable \<Rightarrow> 'a asys \<Rightarrow> (susp \<times> 'a asys) option" where
  "transfer_to i pre by_handle old r s = (case rtask s r of
       None \<Rightarrow> None
     | Some t \<Rightarrow> do {
         (b, s) \<leftarrow> context_transfer i pre old (context_of t s) r True s;
         Some (if by_handle then (if b then SHandle (rcont s r) else SNoop)
               else (if b then SContinue else SSuspend), s) })"

definition change_guard :: "tid \<Rightarrow> addr \<Rightarrow> ctx option \<Rightarrow> runnable \<Rightarrow> 'a asys \<Rightarrow> 'a asys option" where
  "change_guard i t old r s = do {
     s \<leftarrow> task_enter i t (set_context t old s);
     Some (s\<lparr>rtask := (rtask s)(r := None)\<rparr>) }"

definition change_await_suspend ::
  "tid \<Rightarrow> (sched \<Rightarrow> bool) \<Rightarrow> addr \<Rightarrow> ctx option \<Rightarrow> bool \<Rightarrow> runnable \<Rightarrow> runnable \<Rightarrow> bool \<Rightarrow> bool \<Rightarrow>
   ('a asys \<Rightarrow> susp \<times> 'a asys) \<Rightarrow> 'a asys \<Rightarrow> (susp \<times> 'a asys) option" where
  "change_await_suspend i pre p to ready r k alloc by_handle inner s = do {
     t \<leftarrow> get_task p s;
     if current (theap s) i \<noteq> Some t then None
     else if \<not> ready \<and> \<not> alloc then Some (SThrow, s)
     else do {
       s \<leftarrow> task_leave i t (if ready then s else set_runnable k (Some t) p s);
       let s = set_runnable r (Some t) p s;
       let old = context_of t s;
       let s = set_context t to s;
       if ready then do {
         (out, s) \<leftarrow> transfer_to i pre by_handle old r s;
         s \<leftarrow> change_guard i t old r s;
         Some (out, s) }
       else do {
         let (out, s) = inner s;
         case out of
           SThrow \<Rightarrow> do { s \<leftarrow> change_guard i t old r s; Some (SThrow, s) }
         | SContinue \<Rightarrow> transfer_to i pre by_handle old r s
         | _ \<Rightarrow> do { s \<leftarrow> context_leave old s; Some (out, s) } } } }"

definition change_await_ready :: "tid \<Rightarrow> ctx option \<Rightarrow> bool \<Rightarrow> 'a asys \<Rightarrow> bool option" where
  "change_await_ready i to ready s = do {
     t \<leftarrow> current (theap s) i;
     Some (ready \<and> context_of t s = to) }"

definition change_await_resume ::
  "tid \<Rightarrow> runnable \<Rightarrow> ('a asys \<Rightarrow> 'b \<times> 'a asys) \<Rightarrow> 'a asys \<Rightarrow> ('b \<times> 'a asys) option" where
  "change_await_resume i r inner s = do {
     let (v, s) = inner s;
     s \<leftarrow> switch_await_resume i r s;
     Some (v, s) }"

definition await_transform_bound :: "addr \<Rightarrow> 'a asys \<Rightarrow> 'a asys option" where
  "await_transform_bound p s = do { (_, s) \<leftarrow> preserve_caller_context p s; Some s }"

definition await_transform_bound_caller :: "addr \<Rightarrow> 'a asys \<Rightarrow> (ctx option \<times> 'a asys) option" where
  "await_transform_bound_caller p s = do {
     (_, s) \<leftarrow> preserve_caller_context p s;
     c \<leftarrow> get_caller_context p s;
     Some (c, s) }"

section \<open>Yield and preempt\<close>

definition yield_await_suspend ::
  "tid \<Rightarrow> (sched \<Rightarrow> bool) \<Rightarrow> addr \<Rightarrow> runnable \<Rightarrow> 'a asys \<Rightarrow> (bool \<times> 'a asys) option" where
  "yield_await_suspend i pre p r s = do {
     t \<leftarrow> get_task p s;
     s \<leftarrow> task_leave i t s;
     let s = set_runnable r (Some t) p s;
     (b, w) \<leftarrow> do_yield (env i pre s) (aworld s) (context_of t s) r;
     Some (\<not> b, s\<lparr>aworld := w\<rparr>) }"

definition preempt_await_suspend ::
  "tid \<Rightarrow> (sched \<Rightarrow> bool) \<Rightarrow> addr \<Rightarrow> runnable \<Rightarrow> 'a asys \<Rightarrow> (bool \<times> 'a asys) option" where
  "preempt_await_suspend i pre p r s = do {
     t \<leftarrow> get_task p s;
     s \<leftarrow> task_leave i t s;
     let s = set_runnable r (Some t) p s;
     let (b, w) = do_preempt (env i pre s) (aworld s) (context_of t s) r;
     Some (\<not> b, s\<lparr>aworld := w\<rparr>) }"

definition yield_await_resume :: "tid \<Rightarrow> runnable \<Rightarrow> 'a asys \<Rightarrow> 'a asys option" where
  "yield_await_resume i r s = do { t \<leftarrow> rtask s r; task_enter i t s }"

section \<open>Calling async coroutines\<close>

text \<open>\<open>tag_invoke(inherit_async_task)\<close> with or without a context to return to.\<close>

definition inherit_task :: "tid \<Rightarrow> addr \<Rightarrow> ctx option option \<Rightarrow> 'a asys \<Rightarrow> 'a asys option" where
  "inherit_task i p caller s =
     (if pstate (promises s p) \<noteq> PNone then None
      else do { t \<leftarrow> current (theap s) i; Some (set_pstate p (PInherited t caller) s) })"

definition inherit_bound :: "tid \<Rightarrow> addr \<Rightarrow> addr \<Rightarrow> ctx option \<Rightarrow> 'a asys \<Rightarrow> 'a asys option" where
  "inherit_bound i p child c s = do {
     (_, s) \<leftarrow> preserve_caller_context p s;
     inherit_task i child (Some c) s }"

definition inherit_caller :: "tid \<Rightarrow> addr \<Rightarrow> addr \<Rightarrow> 'a asys \<Rightarrow> 'a asys option" where
  "inherit_caller i p child s = do {
     c \<leftarrow> get_caller_context p s;
     inherit_task i child (Some c) s }"

text \<open>\<open>async_awaiter_base\<close> at address \<open>a\<close>, for the coroutine \<open>p\<close>.\<close>

definition async_await_suspend :: "tid \<Rightarrow> addr \<Rightarrow> addr \<Rightarrow> handle \<Rightarrow> 'a asys \<Rightarrow> (susp \<times> 'a asys) option" where
  "async_await_suspend i a p c s = do {
     (t, s) \<leftarrow> prepare p (Some c) s;
     let s = set_restore a t s;
     s \<leftarrow> (case t of None \<Rightarrow> Some s | Some t \<Rightarrow> task_leave i t s);
     Some (SHandle p, s) }"

definition resumed :: "tid \<Rightarrow> addr \<Rightarrow> 'a asys \<Rightarrow> 'a asys option" where
  "resumed i a s = (case restore_task s a of None \<Rightarrow> Some s | Some t \<Rightarrow> task_enter i t s)"

definition async_await_resume :: "tid \<Rightarrow> addr \<Rightarrow> addr \<Rightarrow> 'a asys \<Rightarrow> ('a option outcome \<times> 'a asys) option" where
  "async_await_resume i a p s = do {
     s \<leftarrow> resumed i a s;
     let (v, x) = take_value (presult (promises s p));
     Some (v, s\<lparr>promises := (promises s)(p := (promises s p)\<lparr>presult := x\<rparr>)\<rparr>) }"

definition async_result_resume :: "tid \<Rightarrow> addr \<Rightarrow> addr \<Rightarrow> 'a asys \<Rightarrow> ('a result \<times> 'a asys) option" where
  "async_result_resume i a p s = do {
     s \<leftarrow> resumed i a s;
     let x = presult (promises s p);
     Some (x, s\<lparr>promises := (promises s)(p := (promises s p)\<lparr>presult := snd (take_value x)\<rparr>)\<rparr>) }"

text \<open>\<open>async::detach\<close>: the coroutine runs on this thread until it suspends.\<close>

definition async_detach :: "tid \<Rightarrow> addr \<Rightarrow> 'a asys \<Rightarrow> 'a asys option" where
  "async_detach i p s = do {
     (t, s) \<leftarrow> prepare p None s;
     initial_resume i p s }"

section \<open>Tasks and stacks\<close>

lemma task_rep_cong:
  assumes "current h' = current h" "\<And>t. task_next (task_at h' t) = task_next (task_at h t)"
  shows "task_rep h' ks = task_rep h ks"
  by (simp add: task_rep_def assms)

lemmas state_defs = set_context_def set_scheduled_def set_runnable_def set_restore_def set_pstate_def context_of_def

lemma task_rep_set_context [simp]: "task_rep (theap (set_context t c s)) ks = task_rep (theap s) ks"
  by (rule task_rep_cong) (simp_all add: set_context_def)

lemma task_rep_set_scheduled [simp]: "task_rep (theap (set_scheduled t b s)) ks = task_rep (theap s) ks"
  by (rule task_rep_cong) (simp_all add: set_scheduled_def)

lemma theap_simps [simp]:
  "theap (set_runnable r t' h s) = theap s" "theap (set_restore a t' s) = theap s" "theap (set_pstate p st s) = theap s"
  "aworld (set_runnable r t' h s) = aworld s" "aworld (set_restore a t' s) = aworld s" "aworld (set_pstate p st s) = aworld s"
  "aworld (set_context t c s) = aworld s" "aworld (set_scheduled t b s) = aworld s"
  "promises (set_context t c s) = promises s" "promises (set_scheduled t b s) = promises s"
  "promises (set_runnable r t' h s) = promises s" "promises (set_restore a t' s) = promises s"
  "rtask (set_context t c s) = rtask s" "rtask (set_scheduled t b s) = rtask s" "rtask (set_pstate p st s) = rtask s"
  "rcont (set_context t c s) = rcont s" "rcont (set_scheduled t b s) = rcont s"
  "rtask (set_restore a t' s) = rtask s" "restore_task (set_restore a t' s) = (restore_task s)(a := t')"
  "rtask (set_runnable r t' h s) = (rtask s)(r := t')" "rcont (set_runnable r t' h s) = (rcont s)(r := h)"
  "restore_task (set_runnable r t' h s) = restore_task s" "restore_task (set_context t c s) = restore_task s"
  "restore_task (set_scheduled t b s) = restore_task s"
  by (simp_all add: state_defs)

lemma context_of_simps [simp]:
  "context_of u (set_context t c s) = (if u = t then c else context_of u s)"
  "context_of u (set_scheduled t b s) = context_of u s" "context_of u (set_runnable r t' h s) = context_of u s"
  "context_of u (set_restore a t' s) = context_of u s" "context_of u (set_pstate p st s) = context_of u s"
  "context_of u (s\<lparr>aworld := w\<rparr>) = context_of u s"
  by (simp_all add: state_defs)

lemma get_task_cong [simp]:
  "get_task p (set_context t c s) = get_task p s" "get_task p (set_scheduled t b s) = get_task p s"
  "get_task p (set_runnable r t' h s) = get_task p s" "get_task p (set_restore a t' s) = get_task p s"
  "get_task p (s\<lparr>aworld := w\<rparr>) = get_task p s" "get_task p (s\<lparr>theap := g\<rparr>) = get_task p s"
  by (simp_all add: get_task_def)

lemma enter_leave_context:
  "enter i t h = Some h' \<Longrightarrow> task_context (task_at h' u) = task_context (task_at h u)"
  "leave i t h = Some h' \<Longrightarrow> task_context (task_at h' u) = task_context (task_at h u)"
  by (auto simp: enter_def leave_def split: if_splits)

lemma task_enter_rep:
  assumes "task_rep (theap s) ks" "\<forall>j. t \<notin> set (ks j)"
  shows "\<exists>h. task_enter i t s = Some (s\<lparr>theap := h\<rparr>) \<and> task_rep h (ks(i := t # ks i)) \<and>
    context_of u (s\<lparr>theap := h\<rparr>) = context_of u s"
  using enter_rep [OF assms, of i] by (auto simp: task_enter_def context_of_def enter_leave_context)

lemma task_leave_rep:
  assumes "task_rep (theap s) ks" "ks i = t # ts"
  shows "\<exists>h. task_leave i t s = Some (s\<lparr>theap := h\<rparr>) \<and> task_rep h (ks(i := ts)) \<and>
    context_of u (s\<lparr>theap := h\<rparr>) = context_of u s \<and> (\<forall>j. t \<notin> set ((ks(i := ts)) j))"
proof -
  have "t \<notin> set ((ks(i := ts)) j)" for j
    using task_repD(2) [OF assms(1), of i] task_repD(3) [OF assms(1), of i j] assms(2) by (cases "j = i") auto
  then show ?thesis using leave_rep [OF assms] by (auto simp: task_leave_def context_of_def enter_leave_context)
qed

text \<open>Leaving a task and entering it again is no change.\<close>

lemma leave_fields:
  assumes "leave i t h = Some h'"
  shows "current h' = (current h)(i := below (task_next (task_at h t)))"
    "task_at h' = (task_at h)(t := (task_at h t)\<lparr>task_next := Inactive\<rparr>)" "current h i = Some t"
  using assms by (auto simp: leave_def split: if_splits)

lemma enter_leave:
  assumes "leave i t h = Some h'" "task_next (task_at h t) \<noteq> Inactive"
  shows "enter i t h' = Some h"
proof -
  have "h' = h\<lparr>current := (current h)(i := below (task_next (task_at h t))),
      task_at := (task_at h)(t := (task_at h t)\<lparr>task_next := Inactive\<rparr>)\<rparr>" "current h i = Some t"
    using assms(1) by (auto simp: leave_def split: if_splits)
  moreover obtain b where "task_next (task_at h t) = Below b" using assms(2) by (cases "task_next (task_at h t)") auto
  ultimately show ?thesis by (simp add: enter_def below_def task_next_idem fun_upd_idem)
qed

section \<open>Context switches\<close>

text \<open>
  Entering context \<open>c\<close> from another one or from none: either the runnable runs here and the
  context was not locked before, or it waits in the mailbox or with the scheduler.
\<close>

definition handed :: "world \<Rightarrow> (ctx \<Rightarrow> runnable list) \<Rightarrow> ctx \<Rightarrow> runnable \<Rightarrow> bool" where
  "handed w q c r \<longleftrightarrow> r \<in> set (q c) \<or> (c, r) \<in> set (jobs (scheduled w))"

definition nowhere :: "world \<Rightarrow> (ctx \<Rightarrow> runnable list) \<Rightarrow> runnable \<Rightarrow> bool" where
  "nowhere w q r \<longleftrightarrow> (\<forall>c. \<not> handed w q c r)"

lemma nowhere_next:
  assumes "nowhere w q r" "set (jobs (scheduled w')) \<subseteq> set (jobs (scheduled w)) \<union> set (entry_of f (q f))" "\<And>c. set (q' c) \<subseteq> set (q c)"
  shows "nowhere w' q' r"
  unfolding nowhere_def
proof
  fix c
  have q: "r \<notin> set (q d)" "(d, r) \<notin> set (jobs (scheduled w))" for d using assms(1) by (simp_all add: nowhere_def handed_def)
  have "x \<in> set (q f)" if "(d, x) \<in> set (entry_of f (q f))" for d x using that by (cases "q f") (auto simp: entry_of_def)
  then show "\<not> handed w' q' c r" using q assms(2) assms(3) [of c] unfolding handed_def by blast
qed

lemma in_set_tl: "x \<in> set (tl xs) \<Longrightarrow> x \<in> set xs"
  by (cases xs) auto

lemma context_switch_rep:
  assumes "wrep w q L" "mb_fresh (q c) r" "\<forall>f. old = Some f \<longrightarrow> L f" "old \<noteq> Some c"
  shows "\<exists>b w' q' L'. (case old of None \<Rightarrow> do_enter e w (Some c) r initial
        | Some _ \<Rightarrow> do_transfer e w old (Some c) r returning) = Some (b, w') \<and>
     wrep w' q' L' \<and> L' c \<and> (b \<longrightarrow> \<not> L c) \<and> (\<not> b \<longrightarrow> handed w' q' c r) \<and> (b \<and> nowhere w q r \<longrightarrow> nowhere w' q' r)"
proof (cases old)
  case None
  show ?thesis
  proof (cases "L c")
    case True
    obtain w' where "do_enter e w (Some c) r initial = Some (False, w')" "wrep w' (q(c := q c @ [r])) L"
      using do_enter_locked [OF assms(1,2) True] by blast
    then show ?thesis using None True
      by (intro exI [of _ False] exI [of _ w'] exI [of _ "q(c := q c @ [r])"] exI [of _ L]) (simp add: handed_def)
  next
    case False
    obtain w' b where "do_enter e w (Some c) r initial = Some (b, w')" "wrep w' q (L(c := True))"
      "scheduled w' = scheduled w @ (if b then [] else
         [(scheduler w c, if initial \<or> running_task e then Post else Defer, c, r)])"
      using do_enter_unlocked [OF assms(1,2) False refl] by blast
    then show ?thesis using None False by (intro exI [of _ b] exI [of _ w'] exI [of _ q] exI [of _ "L(c := True)"]) (auto simp: handed_def nowhere_def)
  qed
next
  case (Some f)
  let ?q = "q(f := tl (q f), c := (if L c then q c @ [r] else []))" and ?L = "L(f := (q f \<noteq> []), c := True)"
  obtain b w' where d: "do_transfer e w (Some f) (Some c) r returning = Some (b, w')" "wrep w' ?q ?L" "L c \<longrightarrow> \<not> b"
    "mset (jobs (scheduled w')) = mset (jobs (scheduled w) @ (if b \<or> L c then [] else [(c, r)]) @ entry_of f (q f))"
    using do_transfer_rep [OF assms(1,2), of f e returning] assms(3,4) Some by blast
  have "\<not> b \<Longrightarrow> handed w' ?q c r" using mset_eq_setD [OF d(4)] by (auto simp: handed_def)
  moreover have "nowhere w' ?q r" if "b" "nowhere w q r"
    by (rule nowhere_next [OF that(2), where f = f]) (use mset_eq_setD [OF d(4)] that(1) d(3) in \<open>auto dest: in_set_tl\<close>)
  ultimately show ?thesis using d Some by (intro exI [of _ b] exI [of _ w'] exI [of _ ?q] exI [of _ ?L]) auto
qed

lemma context_leave_rep:
  assumes "wrep (aworld s) q L" "\<forall>f. c = Some f \<longrightarrow> L f"
  shows "\<exists>w q' L'. context_leave c s = Some (s\<lparr>aworld := w\<rparr>) \<and> wrep w q' L'"
proof (cases c)
  case None
  then show ?thesis using assms(1) by (auto simp: context_leave_def do_leave_def intro!: exI [of _ "aworld s"])
next
  case (Some f)
  then obtain w where "do_leave (aworld s) c = Some w" "wrep w (q(f := tl (q f))) (L(f := (q f \<noteq> [])))"
    using do_leave_rep [OF assms(1), of f] assms(2) by blast
  then show ?thesis unfolding context_leave_def by auto
qed

lemma preserve_caller_rep:
  assumes "get_task p s = Some t"
  shows "\<exists>b st. preserve_caller_context p s = Some (b, set_pstate p st s) \<and> get_task p (set_pstate p st s) = Some t"
proof -
  have e: "set_pstate p (pstate (promises s p)) s = s" by (simp add: set_pstate_def)
  show ?thesis
  proof (cases "pstate (promises s p)")
    case (PInherited u c)
    then show ?thesis using assms e
      by (cases c) (auto simp: preserve_caller_context_def get_task_def set_pstate_def
        intro: exI [of _ "PInherited u (Some (context_of u s))"] exI [of _ "PInherited u c"])
  qed (use assms e in \<open>auto simp: preserve_caller_context_def get_task_def intro: exI [of _ PPrivate]\<close>)
qed

text \<open>The switch itself, after \<open>await_transform\<close> decided that it is one.\<close>

lemma switch_suspend_rep:
  assumes "task_rep (theap s) ks" "ks i = t # ts" "get_task p s = Some t" "wrep (aworld s) q L"
    and "\<forall>f. context_of t s = Some f \<longrightarrow> L f" "mb_fresh (q c) r" "context_of t s \<noteq> Some c" "ty \<noteq> Ready"
  shows "\<exists>sus s' q' L'. switch_await_suspend i pre p (Some c) ty r s = Some (sus, s') \<and> wrep (aworld s') q' L' \<and> L' c \<and>
     task_rep (theap s') (ks(i := ts)) \<and> context_of t s' = Some c \<and> rtask s' r = Some t \<and> rcont s' r = p \<and>
     (\<not> sus \<longrightarrow> \<not> L c) \<and> (sus \<longrightarrow> handed (aworld s') q' c r)"
proof -
  let ?s = "set_context t (Some c) s"
  have "task_rep (theap ?s) ks" using assms(1) by simp
  then obtain h where h: "task_leave i t ?s = Some (?s\<lparr>theap := h\<rparr>)" "task_rep h (ks(i := ts))"
    "context_of t (?s\<lparr>theap := h\<rparr>) = Some c" using task_leave_rep [of ?s ks i t ts t] assms(2) by auto
  let ?u = "set_runnable r (Some t) p (?s\<lparr>theap := h\<rparr>)"
  obtain b w' q' L' where sw: "(case context_of t s of None \<Rightarrow> do_enter (env i pre ?u) (aworld s) (Some c) r (\<not> was_scheduled (task_at h t))
        | Some _ \<Rightarrow> do_transfer (env i pre ?u) (aworld s) (context_of t s) (Some c) r (ty = Return)) = Some (b, w')"
     "wrep w' q' L'" "L' c" "b \<longrightarrow> \<not> L c" "\<not> b \<longrightarrow> handed w' q' c r"
    using context_switch_rep [OF assms(4,6,5,7)] by blast
  have "switch_await_suspend i pre p (Some c) ty r s = Some (\<not> b, ?u\<lparr>aworld := w'\<rparr>)"
    using sw(1) h(1,3) assms(3,8)
    by (cases "context_of t s") (simp_all add: switch_await_suspend_def context_enter_def context_transfer_def Let_def)
  then show ?thesis using sw h by (intro exI [of _ "\<not> b"] exI [of _ "?u\<lparr>aworld := w'\<rparr>"] exI [of _ q'] exI [of _ L']) simp
qed

lemma switch_resume_rep:
  assumes "task_rep (theap s) ks" "\<forall>j. t \<notin> set (ks j)" "rtask s r = Some t"
  shows "\<exists>h. switch_await_resume i r s = Some (s\<lparr>theap := h\<rparr>) \<and> task_rep h (ks(i := t # ks i)) \<and>
    context_of u (s\<lparr>theap := h\<rparr>) = context_of u s"
  using task_enter_rep [OF assms(1,2), of i u] assms(3) by (simp add: switch_await_resume_def)

lemma co_await_context_rep:
  assumes "task_rep (theap s) ks" "ks i = t # ts" "get_task p s = Some t" "wrep (aworld s) q L"
    and "\<forall>f. context_of t s = Some f \<longrightarrow> L f" "\<forall>c. bound = Some c \<longrightarrow> mb_fresh (q c) r"
  shows "\<exists>sus s' q' L'. co_await_context i pre p bound r s = Some (sus, s') \<and> wrep (aworld s') q' L' \<and>
     context_of t s' = bound \<and> (\<forall>c. bound = Some c \<longrightarrow> L' c) \<and>
     (\<not> sus \<longrightarrow> task_rep (theap s') ks \<and> (\<forall>c. bound = Some c \<and> context_of t s \<noteq> bound \<longrightarrow> \<not> L c)) \<and>
     (sus \<longrightarrow> task_rep (theap s') (ks(i := ts)) \<and> rtask s' r = Some t \<and> rcont s' r = p \<and>
        (\<exists>c. bound = Some c \<and> handed (aworld s') q' c r))"
proof -
  obtain b st where p: "preserve_caller_context p s = Some (b, set_pstate p st s)" "get_task p (set_pstate p st s) = Some t"
    using preserve_caller_rep [OF assms(3)] by blast
  let ?s = "set_runnable r None 0 (set_pstate p st s)"
  show ?thesis
  proof (cases "bound = context_of t s \<or> bound = None")
    case True
    show ?thesis
    proof (cases "bound = context_of t s")
      case True
      then have "co_await_context i pre p bound r s = Some (False, ?s)"
        using p assms(3) by (simp add: co_await_context_def await_transform_context_def switch_await_resume_def Let_def)
      then show ?thesis using assms(1,4,5) True by (intro exI [of _ False] exI [of _ ?s] exI [of _ q] exI [of _ L]) simp
    next
      case False
      then have n: "bound = None" "context_of t s \<noteq> None" using True by auto
      obtain w q' L' where "context_leave (context_of t s) ?s = Some (?s\<lparr>aworld := w\<rparr>)" "wrep w q' L'"
        using context_leave_rep [of ?s q L "context_of t s"] assms(4,5) by auto
      then have "co_await_context i pre p bound r s = Some (False, set_context t None (?s\<lparr>aworld := w\<rparr>))" "wrep w q' L'"
        using p assms(3) n by (auto simp: co_await_context_def await_transform_context_def switch_await_resume_def Let_def)
      then show ?thesis using assms(1) n
        by (intro exI [of _ False] exI [of _ "set_context t None (?s\<lparr>aworld := w\<rparr>)"] exI [of _ q'] exI [of _ L']) simp
    qed
  next
    case False
    then obtain c where c: "bound = Some c" "context_of t s \<noteq> Some c" by (cases bound) auto
    let ?ty = "if b then Enter else Return"
    have "?ty \<noteq> Ready" by simp
    then obtain sus s' q' L' where sw: "switch_await_suspend i pre p (Some c) ?ty r ?s = Some (sus, s')" "wrep (aworld s') q' L'" "L' c"
      "task_rep (theap s') (ks(i := ts))" "context_of t s' = Some c" "rtask s' r = Some t" "rcont s' r = p"
      "\<not> sus \<longrightarrow> \<not> L c" "sus \<longrightarrow> handed (aworld s') q' c r"
      using switch_suspend_rep [of ?s ks i t ts p q L c r ?ty pre] assms c p(2) by auto
    have co: "co_await_context i pre p bound r s = (if sus then Some (True, s')
        else do { s \<leftarrow> switch_await_resume i r s'; Some (False, s) })"
      using p c sw(1) assms(3) by (simp add: co_await_context_def await_transform_context_def Let_def)
    show ?thesis
    proof (cases sus)
      case True
      then show ?thesis using co sw c by (intro exI [of _ True] exI [of _ s'] exI [of _ q'] exI [of _ L']) simp
    next
      case False
      have "\<forall>j. t \<notin> set ((ks(i := ts)) j)" using task_leave_rep [OF assms(1,2)] by blast
      from switch_resume_rep [OF sw(4) this sw(6), of i t] obtain h where
        "switch_await_resume i r s' = Some (s'\<lparr>theap := h\<rparr>)" "task_rep h (ks(i := ts, i := t # (ks(i := ts)) i))"
        "context_of t (s'\<lparr>theap := h\<rparr>) = context_of t s'" by blast
      then show ?thesis using co False sw c assms(2)
        by (intro exI [of _ False] exI [of _ "s'\<lparr>theap := h\<rparr>"] exI [of _ q'] exI [of _ L']) (auto simp: fun_upd_idem)
    qed
  qed
qed

lemma transfer_rep:
  assumes "wrep w q L" "\<forall>c. to = Some c \<longrightarrow> mb_fresh (q c) r" "\<forall>f. old = Some f \<longrightarrow> L f"
  shows "\<exists>b w' q' L'. do_transfer e w old to r returning = Some (b, w') \<and> wrep w' q' L' \<and>
     (\<forall>c. to = Some c \<longrightarrow> L' c \<and> (b \<and> old \<noteq> to \<longrightarrow> \<not> L c)) \<and> (\<not> b \<longrightarrow> (\<exists>c. to = Some c \<and> handed w' q' c r)) \<and>
     (b \<and> nowhere w q r \<longrightarrow> nowhere w' q' r)"
proof (cases "old = to \<or> to = None")
  case True
  show ?thesis
  proof (cases "old = to")
    case True
    show ?thesis
    proof (cases "returning \<and> to \<noteq> None")
      case True
      then obtain c pre w' where c: "to = Some c" "maybe_preempt e w to r = (pre, w')" by fastforce
      then show ?thesis using maybe_preempt_jobs [of e w c r pre w' q L] True \<open>old = to\<close> assms
        by (intro exI [of _ "\<not> pre"] exI [of _ w'] exI [of _ q] exI [of _ L]) (auto simp: do_transfer_def handed_def nowhere_def)
    next
      case False
      then show ?thesis using \<open>old = to\<close> assms
        by (intro exI [of _ True] exI [of _ w] exI [of _ q] exI [of _ L]) (auto simp: do_transfer_def maybe_preempt_def)
    qed
  next
    case False
    then obtain f where f: "old = Some f" "to = None" using True by (cases old) auto
    then obtain w' where l: "do_leave w old = Some w'" "wrep w' (q(f := tl (q f))) (L(f := (q f \<noteq> [])))"
      "scheduled w' = scheduled w @ map (\<lambda>(c, x). (scheduler w c, Post, c, x)) (entry_of f (q f))"
      using do_leave_rep [OF assms(1), of f] assms(3) by blast
    have "nowhere w' (q(f := tl (q f))) r" if "nowhere w q r"
      by (rule nowhere_next [OF that, where f = f]) (use l(3) in \<open>auto simp: jobs_def dest: in_set_tl\<close>)
    then show ?thesis using f l by (intro exI [of _ True] exI [of _ w'] exI [of _ "q(f := tl (q f))"] exI [of _ "L(f := (q f \<noteq> []))"]) (simp add: do_transfer_def)
  qed
next
  case False
  then obtain c where c: "to = Some c" "old \<noteq> Some c" by auto
  show ?thesis
  proof (cases old)
    case None
    show ?thesis
    proof (cases "L c")
      case True
      then obtain w' where "transfer_into e w None c r returning None = Some (False, w')" "wrep w' (q(c := q c @ [r])) L"
        using transfer_into_locked(2) [OF assms(1) _ True] assms(2) c by blast
      then show ?thesis using c None True
        by (intro exI [of _ False] exI [of _ w'] exI [of _ "q(c := q c @ [r])"] exI [of _ L]) (simp add: do_transfer_def handed_def)
    next
      case False
      then obtain b w' where "transfer_into e w None c r returning None = Some (b, w')" "wrep w' q (L(c := True))"
        "jobs (scheduled w') = jobs (scheduled w) @ (if b then [] else [(c, r)])"
        using transfer_into_unlocked(2) [OF assms(1) _ False] assms(2) c by blast
      then show ?thesis using c None False
        by (intro exI [of _ b] exI [of _ w'] exI [of _ q] exI [of _ "L(c := True)"]) (simp add: do_transfer_def handed_def nowhere_def)
    qed
  next
    case (Some f)
    then obtain b w' q' L' where "do_transfer e w old (Some c) r returning = Some (b, w')" "wrep w' q' L'" "L' c"
      "b \<longrightarrow> \<not> L c" "\<not> b \<longrightarrow> handed w' q' c r" "b \<and> nowhere w q r \<longrightarrow> nowhere w' q' r"
      using context_switch_rep [OF assms(1) _ assms(3) c(2), of r e _ returning] assms(2) c(1) by auto
    then show ?thesis using c by (intro exI [of _ b] exI [of _ w'] exI [of _ q'] exI [of _ L']) simp
  qed
qed

section \<open>Properties\<close>

text \<open>
  \<open>co_await context()\<close> never fails for a running coroutine whose task is on top of its
  thread and whose context is locked.  Either the coroutine runs on, its task back on the
  stack, with the new context locked, which nobody held before; or it is suspended, its task
  is on no stack, and its runnable waits in the mailbox of the locked context or with the
  scheduler.  In both cases the task is bound to the new context.
\<close>

theorem co_await_context_switches:
  assumes "task_rep (theap s) ks" "ks i = t # ts" "get_task p s = Some t" "wrep (aworld s) q L"
    and "\<forall>f. context_of t s = Some f \<longrightarrow> L f" "\<forall>c. bound = Some c \<longrightarrow> mb_fresh (q c) r"
  shows "\<exists>sus s' q' L'. co_await_context i pre p bound r s = Some (sus, s') \<and> wrep (aworld s') q' L' \<and>
     context_of t s' = bound \<and> (\<forall>c. bound = Some c \<longrightarrow> L' c) \<and>
     (\<not> sus \<longrightarrow> task_rep (theap s') ks \<and> (\<forall>c. bound = Some c \<and> context_of t s \<noteq> bound \<longrightarrow> \<not> L c)) \<and>
     (sus \<longrightarrow> task_rep (theap s') (ks(i := ts)) \<and> rtask s' r = Some t \<and> rcont s' r = p \<and>
        (\<exists>c. bound = Some c \<and> handed (aworld s') q' c r))"
  by (rule co_await_context_rep [OF assms])

text \<open>A system with one coroutine 5 that runs its private task on thread 0 in no context.\<close>

definition asys1 :: "nat asys" where
  "asys1 = \<lparr>aworld = world0, theap = heap0\<lparr>task_at := (task_at heap0)(5 := new_task\<lparr>task_next := Below None\<rparr>), current := (current heap0)(0 := Some 5)\<rparr>,
     promises = (\<lambda>_. \<lparr>continuation = None, pstate = PNone, presult = Empty\<rparr>)(5 := \<lparr>continuation = Some 9, pstate = PPrivate, presult = Empty\<rparr>),
     rtask = (\<lambda>_. None), rcont = (\<lambda>_. 0), restore_task = (\<lambda>_. None), destroyed = (\<lambda>_. False)\<rparr>"

lemma asys1_state:
  "task_rep (theap asys1) ((\<lambda>_. [])(0 := [5]))" "get_task 5 asys1 = Some 5" "context_of 5 asys1 = None"
  "wrep (aworld asys1) (\<lambda>_. []) (\<lambda>_. False)"
proof -
  have "heap0\<lparr>task_at := (task_at heap0)(5 := new_task\<lparr>task_next := Below None\<rparr>), current := (current heap0)(0 := Some 5)\<rparr> =
    the (enter 0 5 heap0)" by (simp add: enter_def heap0_def new_task_def)
  then show "task_rep (theap asys1) ((\<lambda>_. [])(0 := [5]))"
    using enter_rep [OF heap0_rep, of 5 0] by (auto simp: asys1_def)
  show "wrep (aworld asys1) (\<lambda>_. []) (\<lambda>_. False)" using world0_rep by (simp add: asys1_def)
qed (simp_all add: asys1_def get_task_def context_of_def new_task_def)

theorem co_await_context_switches_witness:
  "\<exists>sus s'. co_await_context 0 (\<lambda>_. False) 5 (Some 3) 7 asys1 = Some (sus, s') \<and> context_of 5 s' = Some 3"
  using co_await_context_switches [OF asys1_state(1) _ asys1_state(2,4), of 0 "[]" "Some 3" 7 "\<lambda>_. False"] asys1_state(3)
  by (auto simp: mb_fresh_def stub_def)

text \<open>
  A coroutine that was suspended by a context switch goes on wherever its runnable is
  run: \<open>run\<close> on any thread \<open>j\<close> marks the task as scheduled and resumes the coroutine,
  \<open>await_resume\<close> puts its task on top of that thread, and the task is still bound to the
  context it switched to.
\<close>

theorem suspended_task_migrates:
  assumes "task_rep (theap s) ks" "ks i = t # ts" "get_task p s = Some t" "wrep (aworld s) q L"
    and "\<forall>f. context_of t s = Some f \<longrightarrow> L f" "\<forall>c. bound = Some c \<longrightarrow> mb_fresh (q c) r"
    and "co_await_context i pre p bound r s = Some (True, s')"
  shows "\<exists>s1 s2. run_runnable r s' = Some (p, s1) \<and> switch_await_resume j r s1 = Some s2 \<and>
    task_rep (theap s2) (ks(i := ts, j := t # (ks(i := ts)) j)) \<and> context_of t s2 = bound \<and>
    was_scheduled (task_at (theap s2) t)"
proof -
  have s': "task_rep (theap s') (ks(i := ts))" "rtask s' r = Some t" "rcont s' r = p" "context_of t s' = bound"
    using co_await_context_rep [OF assms(1-6), of pre] assms(7) by auto
  have "\<forall>j. t \<notin> set ((ks(i := ts)) j)" using task_leave_rep [OF assms(1,2)] by blast
  then obtain h where "enter j t (theap (set_scheduled t True s')) = Some h" "task_rep h (ks(i := ts, j := t # (ks(i := ts)) j))"
    using enter_rep [of "theap (set_scheduled t True s')" "ks(i := ts)" t j] s'(1) by auto
  moreover from this have "was_scheduled (task_at h t)" "task_context (task_at h t) = bound"
    using s'(4) by (auto simp: enter_def set_scheduled_def context_of_def split: if_splits)
  ultimately show ?thesis
    using s' by (auto simp: run_runnable_def switch_await_resume_def task_enter_def context_of_def)
qed

theorem suspended_task_migrates_witness:
  "\<exists>s' s1 s2. co_await_context 0 (\<lambda>_. False) 5 (Some 3) 7 asys1 = Some (True, s') \<and> run_runnable 7 s' = Some (5, s1) \<and>
    switch_await_resume 1 7 s1 = Some s2 \<and> current (theap s2) 1 = Some 5"
proof -
  obtain w where "do_enter env0 world0 (Some 3) 7 True = Some (False, w)"
    using do_enter_unlocked [OF world0_rep, where c = 3 and r = 7 and e = env0 and initial = True and b = False]
    by (auto simp: mb_fresh_def stub_def)
  then obtain s' where s': "co_await_context 0 (\<lambda>_. False) 5 (Some 3) 7 asys1 = Some (True, s')"
    by (auto simp: co_await_context_def await_transform_context_def preserve_caller_context_def get_task_def context_of_def
      switch_await_suspend_def task_leave_def leave_def set_context_def set_runnable_def context_enter_def env_def env0_def asys1_def heap0_def new_task_def Let_def below_def)
  obtain s1 s2 where "run_runnable 7 s' = Some (5, s1)" "switch_await_resume 1 7 s1 = Some s2"
    "task_rep (theap s2) ((\<lambda>_. [])(0 := [5], 0 := [], 1 := [5]))"
    using suspended_task_migrates [OF asys1_state(1) _ asys1_state(2,4) _ _ s', of "[]" 1] asys1_state(3)
    by (auto simp: mb_fresh_def stub_def)
  then show ?thesis using s' task_rep_current [of "theap s2" _ 1] by fastforce
qed

text \<open>The end of a coroutine in the task of its caller; \<open>back_to\<close> is the context to return to.\<close>

definition back_to :: "addr \<Rightarrow> ctx option option \<Rightarrow> 'a asys \<Rightarrow> ctx option" where
  "back_to t caller s = (case caller of None \<Rightarrow> context_of t s | Some d \<Rightarrow> d)"

lemma final_suspend_rep:
  assumes "task_rep (theap s) ks" "ks i = t # ts" "pstate (promises s p) = PInherited t caller"
    and "continuation (promises s p) = Some k" "wrep (aworld s) q L" "\<forall>f. context_of t s = Some f \<longrightarrow> L f"
    and "\<forall>c. caller = Some (Some c) \<longrightarrow> mb_fresh (q c) r" "nowhere (aworld s) q r"
  shows "\<exists>out s' q' L'. final_suspend i pre p r s = Some (out, s') \<and> wrep (aworld s') q' L' \<and>
     task_rep (theap s') (ks(i := ts)) \<and> promises s' = promises s \<and> restore_task s' = restore_task s \<and>
     context_of t s' = back_to t caller s \<and> (\<forall>c. back_to t caller s = Some c \<longrightarrow> L' c \<and> (out = SHandle k \<and> context_of t s \<noteq> Some c \<longrightarrow> \<not> L c)) \<and>
     (out = SHandle k \<and> nowhere (aworld s') q' r \<or>
      out = SNoop \<and> rtask s' r = Some t \<and> rcont s' r = k \<and> (\<exists>c. back_to t caller s = Some c \<and> handed (aworld s') q' c r))"
proof -
  obtain h where h: "task_leave i t s = Some (s\<lparr>theap := h\<rparr>)" "task_rep h (ks(i := ts))"
    "context_of t (s\<lparr>theap := h\<rparr>) = context_of t s" using task_leave_rep [OF assms(1,2), of t] by blast
  show ?thesis
  proof (cases caller)
    case None
    then have "final_suspend i pre p r s = Some (SHandle k, s\<lparr>theap := h\<rparr>)"
      using h(1) assms(3,4) by (simp add: final_suspend_def final_return_def)
    then show ?thesis using None h assms(5,6,8)
      by (intro exI [of _ "SHandle k"] exI [of _ "s\<lparr>theap := h\<rparr>"] exI [of _ q] exI [of _ L]) (simp add: back_to_def)
  next
    case (Some d)
    let ?s = "set_runnable r (Some t) k (set_context t d (s\<lparr>theap := h\<rparr>))"
    have "\<forall>c. d = Some c \<longrightarrow> mb_fresh (q c) r" using assms(7) Some by simp
    then obtain b w q' L' where w: "do_transfer (env i pre ?s) (aworld s) (context_of t s) d r True = Some (b, w)" "wrep w q' L'"
      "\<forall>c. d = Some c \<longrightarrow> L' c \<and> (b \<and> context_of t s \<noteq> d \<longrightarrow> \<not> L c)" "\<not> b \<longrightarrow> (\<exists>c. d = Some c \<and> handed w q' c r)"
      "b \<and> nowhere (aworld s) q r \<longrightarrow> nowhere w q' r"
      using transfer_rep [OF assms(5) _ assms(6), of d r "env i pre ?s" True] by blast
    have "final_suspend i pre p r s = Some (if b then SHandle k else SNoop, ?s\<lparr>aworld := w\<rparr>)"
      using h w(1) assms(3,4) Some by (simp add: final_suspend_def context_transfer_def final_return_def Let_def)
    moreover have "task_rep (theap (?s\<lparr>aworld := w\<rparr>)) (ks(i := ts))"
      using task_rep_set_context [of t d "s\<lparr>theap := h\<rparr>"] h(2) by simp
    ultimately show ?thesis using w assms(8) Some
      by (intro exI [of _ "if b then SHandle k else SNoop"] exI [of _ "?s\<lparr>aworld := w\<rparr>"] exI [of _ q'] exI [of _ L']) (simp add: back_to_def)
  qed
qed

text \<open>
  C10. When a coroutine that runs in the task of its caller finishes, its task leaves the
  thread and is bound to the context of the caller again.  The caller is resumed here exactly
  when the transfer to that context succeeded: then the context is locked, nobody else held it, and the
  runnable waits nowhere, so that the caller is not resumed a second time.  Otherwise nothing is
  left to run here and the caller, recorded in the runnable together with its task, waits in the
  mailbox of the context or with the scheduler.  The runnable of a coroutine that runs waits nowhere.
\<close>

theorem final_suspend_restores_caller:
  assumes "task_rep (theap s) ks" "ks i = t # ts" "pstate (promises s p) = PInherited t (Some caller)"
    and "continuation (promises s p) = Some k" "wrep (aworld s) q L" "\<forall>f. context_of t s = Some f \<longrightarrow> L f"
    and "\<forall>c. caller = Some c \<longrightarrow> mb_fresh (q c) r" "nowhere (aworld s) q r"
  shows "\<exists>out s' q' L'. final_suspend i pre p r s = Some (out, s') \<and> wrep (aworld s') q' L' \<and>
     task_rep (theap s') (ks(i := ts)) \<and> context_of t s' = caller \<and>
     (\<forall>c. caller = Some c \<longrightarrow> L' c \<and> (out = SHandle k \<and> context_of t s \<noteq> Some c \<longrightarrow> \<not> L c)) \<and>
     (out = SHandle k \<and> nowhere (aworld s') q' r \<or>
      out = SNoop \<and> rtask s' r = Some t \<and> rcont s' r = k \<and> (\<exists>c. caller = Some c \<and> handed (aworld s') q' c r))"
proof -
  have "\<forall>c. Some caller = Some (Some c) \<longrightarrow> mb_fresh (q c) r" "back_to t (Some caller) s = caller" using assms(7) by (simp_all add: back_to_def)
  then show ?thesis using final_suspend_rep [OF assms(1-6) _ assms(8), of pre] by fastforce
qed

lemma asys1_nowhere: "nowhere (aworld asys1) (\<lambda>_. []) r"
  by (simp add: nowhere_def handed_def asys1_def world0_def jobs_def)

theorem final_suspend_restores_caller_witness:
  "\<exists>out s'. final_suspend 0 (\<lambda>_. False) 6 7
      (asys1\<lparr>promises := (promises asys1)(6 := \<lparr>continuation = Some 5, pstate = PInherited 5 (Some (Some 3)), presult = Empty\<rparr>)\<rparr>) = Some (out, s') \<and>
    out \<in> {SHandle 5, SNoop} \<and> context_of 5 s' = Some 3"
  using final_suspend_restores_caller
    [of "asys1\<lparr>promises := (promises asys1)(6 := \<lparr>continuation = Some 5, pstate = PInherited 5 (Some (Some 3)), presult = Empty\<rparr>)\<rparr>"
      "(\<lambda>_. [])(0 := [5])" 0 5 "[]" 6 "Some 3" 5 "\<lambda>_. []" "\<lambda>_. False" 7 "\<lambda>_. False"] asys1_state asys1_nowhere
  by (auto simp: mb_fresh_def stub_def context_of_def)

text \<open>
  The coroutine \<open>p\<close> runs on thread \<open>i\<close> in the task \<open>t\<close> of the coroutine \<open>c\<close> that awaits it with the
  awaiter \<open>a\<close>; so far its promise holds the result \<open>x\<close>.
\<close>

definition in_call :: "tid \<Rightarrow> addr \<Rightarrow> addr \<Rightarrow> addr \<Rightarrow> ctx option option \<Rightarrow> handle \<Rightarrow> 'a result \<Rightarrow> (tid \<Rightarrow> addr list) \<Rightarrow> 'a asys \<Rightarrow> bool" where
  "in_call i p a t caller c x ks s \<longleftrightarrow> task_rep (theap s) ks \<and> ks i \<noteq> [] \<and> hd (ks i) = t \<and>
     pstate (promises s p) = PInherited t caller \<and> continuation (promises s p) = Some c \<and>
     presult (promises s p) = x \<and> restore_task s a = Some t"

lemma in_call_starts:
  assumes "task_rep (theap s) ks" "ks i = t # ts" "pstate (promises s p) = PNone"
  shows "\<exists>s1 s2 s3. inherit_task i p caller s = Some s1 \<and> async_await_suspend i a p c s1 = Some (SHandle p, s2) \<and>
    initial_resume i p s2 = Some s3 \<and> in_call i p a t caller c (presult (promises s p)) ks s3 \<and> theap s3 = theap s \<and> aworld s3 = aworld s"
proof -
  have c: "current (theap s) i = Some t" using task_rep_current [OF assms(1)] assms(2) by simp
  have n: "task_next (task_at (theap s) t) \<noteq> Inactive" using task_repD(4) [OF assms(1), of t] assms(2) by (metis list.set_intros(1))
  obtain h where h: "leave i t (theap s) = Some h" using leave_rep [OF assms(1,2)] by blast
  have e: "enter i t h = Some (theap s)" using enter_leave [OF h n] .
  let ?s1 = "set_pstate p (PInherited t caller) s"
  let ?s2 = "s\<lparr>promises := (promises s)(p := (promises s p)\<lparr>pstate := PInherited t caller, continuation := Some c\<rparr>), theap := h,
     restore_task := (restore_task s)(a := Some t)\<rparr>"
  have "inherit_task i p caller s = Some ?s1" using assms(3) c by (simp add: inherit_task_def)
  moreover have "async_await_suspend i a p c ?s1 = Some (SHandle p, ?s2)"
    using h by (simp add: async_await_suspend_def prepare_def task_leave_def set_restore_def set_pstate_def Let_def)
  moreover have "initial_resume i p ?s2 = Some (?s2\<lparr>theap := theap s\<rparr>)"
    using e by (simp add: initial_resume_def get_task_def task_enter_def)
  moreover have "in_call i p a t caller c (presult (promises s p)) ks (?s2\<lparr>theap := theap s\<rparr>)"
    using assms(1,2) by (simp add: in_call_def)
  ultimately show ?thesis by (intro exI [of _ ?s1] exI [of _ ?s2] exI [of _ "?s2\<lparr>theap := theap s\<rparr>"]) simp
qed

lemma async_await_resume_rep:
  assumes "task_rep (theap s) ks" "\<forall>j. t \<notin> set (ks j)" "restore_task s a = Some t"
  shows "\<exists>s'. async_await_resume i a p s = Some (get_value (presult (promises s p)), s') \<and> task_rep (theap s') (ks(i := t # ks i)) \<and>
    context_of t s' = context_of t s \<and> aworld s' = aworld s"
proof -
  obtain h where h: "task_enter i t s = Some (s\<lparr>theap := h\<rparr>)" "task_rep h (ks(i := t # ks i))" "context_of t (s\<lparr>theap := h\<rparr>) = context_of t s"
    using task_enter_rep [OF assms(1,2), of i t] by blast
  have "fst (take_value x) = get_value x" for x :: "'a result" by (cases x) (simp_all add: no_result_def)
  then show ?thesis using h assms(3) by (simp add: async_await_resume_def resumed_def context_of_def split: prod.split) (metis fst_conv)
qed

text \<open>The awaiting coroutine goes on with the outcome \<open>v\<close> on thread \<open>l\<close>: the stacks are then \<open>ks\<close> and its context is \<open>d\<close>.\<close>

definition goes_on_with :: "tid \<Rightarrow> addr \<Rightarrow> addr \<Rightarrow> addr \<Rightarrow> 'a option outcome \<Rightarrow> ctx option \<Rightarrow> (tid \<Rightarrow> addr list) \<Rightarrow> 'a asys \<Rightarrow> bool" where
  "goes_on_with l a p t v d ks s \<longleftrightarrow>
     (\<exists>s'. async_await_resume l a p s = Some (v, s') \<and> task_rep (theap s') ks \<and> context_of t s' = d \<and> aworld s' = aworld s)"

text \<open>
  C11. Awaiting an async coroutine is a function call.  The child \<open>p\<close> starts on the thread of the caller, in
  the caller's task, with tasks and contexts as they were.  Whatever it did until its end, which it
  may have reached in another context and on another thread \<open>j\<close>, by returning a value or by an exception:
  either the caller is resumed on thread \<open>j\<close> at once, its runnable waiting nowhere, or it waits for its context,
  and its runnable resumes it on any thread \<open>l\<close>.  In both cases the caller gets the value or
  the exception of the child, its task is on top of the thread that resumes it, and it is bound to the context that
  the call returns to: the one recorded by the call or by the first context switch of the child, else the
  one the task has.
\<close>

theorem async_call_returns:
  assumes "task_rep (theap s) ks" "ks i = t # ts" "pstate (promises s p) = PNone"
    and "in_call j p a t home c x ks' s4" "wrep (aworld s4) q L" "\<forall>f. context_of t s4 = Some f \<longrightarrow> L f"
    and "\<forall>d. home = Some (Some d) \<longrightarrow> mb_fresh (q d) r" "nowhere (aworld s4) q r"
  shows "(\<exists>s1 s2 s3. inherit_task i p caller s = Some s1 \<and> async_await_suspend i a p c s1 = Some (SHandle p, s2) \<and>
      initial_resume i p s2 = Some s3 \<and> in_call i p a t caller c (presult (promises s p)) ks s3 \<and> theap s3 = theap s \<and> aworld s3 = aworld s) \<and>
    (\<exists>out s5 q' L'. final_suspend j pre p r s4 = Some (out, s5) \<and> wrep (aworld s5) q' L' \<and> (\<forall>d. back_to t home s4 = Some d \<longrightarrow> L' d) \<and>
      (out = SHandle c \<and> nowhere (aworld s5) q' r \<and> goes_on_with j a p t (get_value x) (back_to t home s4) ks' s5 \<or>
       out = SNoop \<and> (\<exists>d. back_to t home s4 = Some d \<and> handed (aworld s5) q' d r) \<and>
         (\<exists>s6. run_runnable r s5 = Some (c, s6) \<and> (\<forall>l. goes_on_with l a p t (get_value x) (back_to t home s4)
           (ks'(j := tl (ks' j), l := t # (ks'(j := tl (ks' j))) l)) s6))))"
proof (intro conjI)
  show "\<exists>s1 s2 s3. inherit_task i p caller s = Some s1 \<and> async_await_suspend i a p c s1 = Some (SHandle p, s2) \<and>
      initial_resume i p s2 = Some s3 \<and> in_call i p a t caller c (presult (promises s p)) ks s3 \<and> theap s3 = theap s \<and> aworld s3 = aworld s"
    by (rule in_call_starts [OF assms(1-3)])
  have s4: "task_rep (theap s4) ks'" "ks' j = t # tl (ks' j)" "pstate (promises s4 p) = PInherited t home" "continuation (promises s4 p) = Some c"
    "presult (promises s4 p) = x" "restore_task s4 a = Some t" using assms(4) by (auto simp: in_call_def)
  let ?ks = "ks'(j := tl (ks' j))" and ?home = "back_to t home s4"
  obtain out s5 q' L' where s5: "final_suspend j pre p r s4 = Some (out, s5)" "wrep (aworld s5) q' L'" "task_rep (theap s5) ?ks"
    "promises s5 = promises s4" "restore_task s5 = restore_task s4" "context_of t s5 = ?home" "\<forall>d. ?home = Some d \<longrightarrow> L' d"
    "out = SHandle c \<and> nowhere (aworld s5) q' r \<or>
      out = SNoop \<and> rtask s5 r = Some t \<and> rcont s5 r = c \<and> (\<exists>d. ?home = Some d \<and> handed (aworld s5) q' d r)"
    using final_suspend_rep [OF s4(1-4) assms(5-8), of pre] by blast
  have n: "\<forall>l. t \<notin> set (?ks l)" using task_leave_rep [OF s4(1,2)] by blast
  have res: "goes_on_with l a p t (get_value x) ?home (?ks(l := t # ?ks l)) u" if u: "u = s5 \<or> u = set_scheduled t True s5" for u l
  proof -
    have "task_rep (theap u) ?ks" "restore_task u a = Some t" "presult (promises u p) = x" "context_of t u = ?home"
      using u s5(3-6) s4(5,6) by auto
    then show ?thesis using async_await_resume_rep [of u ?ks t a l p] n by (auto simp: goes_on_with_def)
  qed
  have "?ks(j := t # ?ks j) = ks'" using s4(2) by auto
  then have "goes_on_with j a p t (get_value x) ?home ks' s5" using res [of s5 j] by simp
  moreover have "run_runnable r s5 = Some (c, set_scheduled t True s5)" if "out = SNoop"
    using s5(8) that by (simp add: run_runnable_def)
  moreover have "\<forall>l. goes_on_with l a p t (get_value x) ?home (?ks(l := t # ?ks l)) (set_scheduled t True s5)" using res by blast
  ultimately show "\<exists>out s5 q' L'. final_suspend j pre p r s4 = Some (out, s5) \<and> wrep (aworld s5) q' L' \<and> (\<forall>d. ?home = Some d \<longrightarrow> L' d) \<and>
      (out = SHandle c \<and> nowhere (aworld s5) q' r \<and> goes_on_with j a p t (get_value x) ?home ks' s5 \<or>
       out = SNoop \<and> (\<exists>d. ?home = Some d \<and> handed (aworld s5) q' d r) \<and>
         (\<exists>s6. run_runnable r s5 = Some (c, s6) \<and> (\<forall>l. goes_on_with l a p t (get_value x) ?home (?ks(l := t # ?ks l)) s6)))"
    using s5(1,2,7,8) by blast
qed

text \<open>Coroutine 6, which 5 called in no context, has thrown an exception.\<close>

definition asys_thrown :: "nat asys" where
  "asys_thrown = asys1\<lparr>promises := (promises asys1)(6 := \<lparr>continuation = Some 5, pstate = PInherited 5 (Some None), presult = Exception (User_exn 4)\<rparr>),
     restore_task := (restore_task asys1)(20 := Some 5)\<rparr>"

theorem async_call_returns_witness:
  "(\<exists>s1 s2 s3. inherit_task 0 6 (Some None) asys1 = Some s1 \<and> async_await_suspend 0 20 6 5 s1 = Some (SHandle 6, s2) \<and> initial_resume 0 6 s2 = Some s3) \<and>
   (\<exists>s5 s6. final_suspend 0 (\<lambda>_. False) 6 7 asys_thrown = Some (SHandle 5, s5) \<and> async_await_resume 0 20 6 s5 = Some (Throw (User_exn 4), s6))"
proof -
  have "in_call 0 6 20 5 (Some None) 5 (Exception (User_exn 4)) ((\<lambda>_. [])(0 := [5])) asys_thrown" "wrep (aworld asys_thrown) (\<lambda>_. []) (\<lambda>_. False)"
    "\<forall>f. context_of 5 asys_thrown = Some f \<longrightarrow> False" "\<forall>d. Some None = Some (Some d) \<longrightarrow> mb_fresh [] 7" "nowhere (aworld asys_thrown) (\<lambda>_. []) 7"
    using asys1_state asys1_nowhere [of 7] by (simp_all add: in_call_def asys_thrown_def context_of_def)
  moreover have "pstate (promises asys1 6) = PNone" by (simp add: asys1_def)
  ultimately show ?thesis
    using async_call_returns [OF asys1_state(1), of 0 5 "[]" 6 0 20 "Some None" 5 "Exception (User_exn 4)" "(\<lambda>_. [])(0 := [5])" asys_thrown
        "\<lambda>_. []" "\<lambda>_. False" 7 "Some None" "\<lambda>_. False"]
    by (fastforce simp: back_to_def goes_on_with_def)
qed

lemma caller_context_promises:
  assumes "co_await_context i pre p bound r s = Some (sus, s')"
  obtains b s1 where "preserve_caller_context p s = Some (b, s1)" "promises s' = promises s1" "get_task p s \<noteq> None" "restore_task s' = restore_task s"
proof -
  let ?same = "\<lambda>u v :: 'a asys. promises v = promises u \<and> restore_task v = restore_task u"
  have t: "\<And>i t s u. task_leave i t s = Some u \<Longrightarrow> ?same s u"
    "\<And>i t s u. task_enter i t s = Some u \<Longrightarrow> ?same s u"
    by (auto simp: task_leave_def task_enter_def split: bind_splits)
  have sw: "\<And>ty u b v. switch_await_suspend i pre p bound ty r u = Some (b, v) \<Longrightarrow> ?same u v"
    by (auto simp: switch_await_suspend_def context_enter_def context_transfer_def Let_def
      split: if_splits option.splits bind_splits dest!: t(1))
  have rs: "\<And>u v. switch_await_resume i r u = Some v \<Longrightarrow> ?same u v"
    by (auto simp: switch_await_resume_def split: option.splits dest: t(2))
  obtain ty u where u: "await_transform_context p bound r s = Some (ty, u)" "?same u s'"
    using assms by (auto simp: co_await_context_def split: bind_splits if_splits dest!: sw rs)
  from u(1) obtain b s1 where "preserve_caller_context p s = Some (b, s1)" "promises u = promises s1" "restore_task u = restore_task s1" "get_task p s \<noteq> None"
    by (auto simp: await_transform_context_def context_leave_def Let_def split: bind_splits if_splits)
  moreover from this(1) have "restore_task s1 = restore_task s"
    by (auto simp: preserve_caller_context_def set_pstate_def split: pstate.splits option.splits)
  ultimately show ?thesis using that u(2) by simp
qed

text \<open>
  What a called coroutine does keeps the call in order: it sets the result, and a switch of
  contexts that goes on records the context that the call returns to.
\<close>

lemma in_call_result:
  assumes "in_call i p a t caller c x ks s"
  shows "in_call i p a t caller c (Value (Some v)) ks (return_value p v s)" "in_call i p a t caller c (Exception e) ks (unhandled_exception p e s)"
  using assms by (simp_all add: in_call_def return_value_def unhandled_exception_def set_value_def set_exception_def)

lemma in_call_switch:
  assumes "in_call i p a t caller c x ks s" "wrep (aworld s) q L" "\<forall>f. context_of t s = Some f \<longrightarrow> L f"
    and "\<forall>c. bound = Some c \<longrightarrow> mb_fresh (q c) r" "co_await_context i pre p bound r s = Some (False, s')"
  shows "in_call i p a t (Some (back_to t caller s)) c x ks s'" "context_of t s' = bound"
proof -
  have s: "task_rep (theap s) ks" "ks i = t # tl (ks i)" "get_task p s = Some t" using assms(1) by (auto simp: in_call_def get_task_def)
  have k: "task_rep (theap s') ks" "context_of t s' = bound" using co_await_context_rep [OF s assms(2-4), of pre] assms(5) by auto
  obtain b s1 where b: "preserve_caller_context p s = Some (b, s1)" "promises s' = promises s1" "restore_task s' = restore_task s"
    using caller_context_promises [OF assms(5)] by blast
  have "promises s1 p = (promises s p)\<lparr>pstate := PInherited t (Some (back_to t caller s))\<rparr>"
    using b(1) assms(1) by (cases caller) (auto simp: preserve_caller_context_def in_call_def set_pstate_def back_to_def)
  then show "in_call i p a t (Some (back_to t caller s)) c x ks s'" "context_of t s' = bound" using assms(1) k b by (simp_all add: in_call_def)
qed

text \<open>
  The caller context of a coroutine is fixed by its first context switch: no
  \<open>co_await context()\<close> changes what \<open>get_caller_context\<close> returns, so that
  \<open>co_await caller_context()\<close> and the end of the coroutine always lead back to the context
  in which it was called.
\<close>

theorem caller_context_kept:
  assumes "co_await_context i pre p bound r s = Some (sus, s')"
  shows "get_caller_context p s' = get_caller_context p s \<and>
    (pstate (promises s p) \<noteq> PPrivate \<longrightarrow> (\<exists>t c. pstate (promises s' p) = PInherited t (Some c) \<and> get_caller_context p s = Some c))"
proof -
  obtain b s1 where b: "preserve_caller_context p s = Some (b, s1)" "promises s' = promises s1" "get_task p s \<noteq> None"
    using caller_context_promises [OF assms] .
  have k: "get_caller_context p s' = Some c" if "pstate (promises s1 p) = PInherited t (Some c)" for t c
    using that b(2) by (simp add: get_caller_context_def)
  show ?thesis
  proof (cases "pstate (promises s p)")
    case (PInherited t c)
    then show ?thesis using b k by (cases c) (auto simp: preserve_caller_context_def get_caller_context_def set_pstate_def)
  qed (use b in \<open>auto simp: preserve_caller_context_def get_caller_context_def get_task_def\<close>)
qed

theorem caller_context_kept_witness:
  "\<exists>sus s'. co_await_context 0 (\<lambda>_. False) 5 (Some 3) 7 asys1 = Some (sus, s') \<and> get_caller_context 5 s' = Some None"
proof -
  obtain sus s' where s': "co_await_context 0 (\<lambda>_. False) 5 (Some 3) 7 asys1 = Some (sus, s')"
    using co_await_context_rep [OF asys1_state(1) _ asys1_state(2,4), of 0 "[]" "Some 3" 7 "\<lambda>_. False"] asys1_state(3)
    by (auto simp: mb_fresh_def stub_def)
  then show ?thesis using caller_context_kept [OF s'] by (auto simp: asys1_def get_caller_context_def)
qed

text \<open>
  C38. Both wrappers of foreign awaitables are exception safe: when \<open>await_suspend\<close> of the
  awaited object throws, the task is running on its thread again, bound to the context it had,
  and no context was released; when the frame of the wrapper cannot be allocated nothing has
  changed at all.
\<close>

theorem wrapped_await_exception_safe:
  assumes "task_rep (theap s) ks" "ks i = t # ts" "get_task p s = Some t"
    and "\<And>u. \<exists>u'. inner u = (SThrow, u') \<and> theap u' = theap u \<and> aworld u' = aworld u"
  shows "\<exists>s1 s2. same_await_suspend i p a k alloc inner s = Some (SThrow, s1) \<and> theap s1 = theap s \<and> aworld s1 = aworld s \<and>
    change_await_suspend i pre p to False r k alloc by_handle inner s = Some (SThrow, s2) \<and> theap s2 = theap s \<and> aworld s2 = aworld s \<and>
    (\<not> alloc \<longrightarrow> s1 = s \<and> s2 = s)"
proof -
  have c: "current (theap s) i = Some t" using task_rep_current [OF assms(1)] assms(2) by simp
  have n: "task_next (task_at (theap s) t) \<noteq> Inactive" using task_repD(4) [OF assms(1), of t] assms(2) by (metis list.set_intros(1))
  obtain h where h: "leave i t (theap s) = Some h" using leave_rep [OF assms(1,2)] by blast
  have e: "enter i t h = Some (theap s)" using enter_leave [OF h n] .
  have hc: "task_context (task_at h t) = context_of t s" using enter_leave_context(2) [OF h] by (simp add: context_of_def)
  have hh: "h\<lparr>task_at := (task_at h)(t := task_at h t\<lparr>task_context := context_of t s\<rparr>)\<rparr> = h"
    using hc by (cases "task_at h t") (simp add: fun_upd_idem)
  show ?thesis
  proof (cases alloc)
    case False
    then show ?thesis using c assms(3) by (simp add: same_await_suspend_def change_await_suspend_def)
  next
    case True
    let ?u = "set_restore a (Some t) (set_runnable k (Some t) p s\<lparr>theap := h\<rparr>)"
    let ?v = "set_context t to (set_runnable r (Some t) p (set_runnable k (Some t) p s\<lparr>theap := h\<rparr>))"
    obtain u' v' where i: "inner ?u = (SThrow, u')" "theap u' = theap ?u" "aworld u' = aworld ?u"
      "inner ?v = (SThrow, v')" "theap v' = theap ?v" "aworld v' = aworld ?v" using assms(4) by meson
    have "\<exists>s1. same_await_suspend i p a k alloc inner s = Some (SThrow, s1) \<and> theap s1 = theap s \<and> aworld s1 = aworld s"
      using c h e i assms(3) True by (simp add: same_await_suspend_def task_leave_def task_enter_def Let_def)
    moreover have "enter i t (theap (set_context t (context_of t s) v')) = Some (theap s)"
      using i(5) hh e by (simp add: set_context_def)
    then have "\<exists>s2. change_await_suspend i pre p to False r k alloc by_handle inner s = Some (SThrow, s2) \<and> theap s2 = theap s \<and> aworld s2 = aworld s"
      using c h i assms(3) True hc
      by (simp add: change_await_suspend_def task_leave_def task_enter_def Let_def change_guard_def context_of_def)
    ultimately show ?thesis using True by blast
  qed
qed

theorem wrapped_await_exception_safe_witness:
  "\<exists>s1 s2. same_await_suspend 0 5 20 8 True (\<lambda>u. (SThrow, u)) asys1 = Some (SThrow, s1) \<and> theap s1 = theap asys1 \<and>
    change_await_suspend 0 (\<lambda>_. False) 5 (Some 3) False 7 8 True False (\<lambda>u. (SThrow, u)) asys1 = Some (SThrow, s2) \<and> theap s2 = theap asys1"
  using wrapped_await_exception_safe [OF asys1_state(1) _ asys1_state(2), where i = 0 and ts = "[]" and inner = "\<lambda>u. (SThrow, u)"
    and a = 20 and k = 8 and alloc = True and pre = "\<lambda>_. False" and to = "Some 3" and r = 7 and by_handle = False]
  by auto

text \<open>
  \<open>change_context_wrapped_awaiter\<close> breaks when the awaited object is ready and the
  context differs: the guard that is meant for exceptions also runs after \<open>transfer_to\<close>.
  The contexts are switched, but the task is bound to the old context again and stays on the
  stack of this thread, even when the coroutine was handed over to another one; and then the
  runnable that was handed over has lost its task, so that running it fails.
\<close>

theorem change_context_ready_breaks:
  assumes "task_rep (theap s) ks" "ks i = t # ts" "get_task p s = Some t" "wrep (aworld s) q L"
    and "\<forall>f. context_of t s = Some f \<longrightarrow> L f" "mb_fresh (q c) r"
  shows "\<exists>out s' q' L'. change_await_suspend i pre p (Some c) True r k alloc False inner s = Some (out, s') \<and>
     wrep (aworld s') q' L' \<and> L' c \<and> task_rep (theap s') ks \<and> context_of t s' = context_of t s \<and>
     (out = SContinue \<or> out = SSuspend \<and> handed (aworld s') q' c r \<and> run_runnable r s' = None)"
proof -
  have cur: "current (theap s) i = Some t" using task_rep_current [OF assms(1)] assms(2) by simp
  obtain h where h: "task_leave i t s = Some (s\<lparr>theap := h\<rparr>)" "task_rep h (ks(i := ts))" "\<forall>j. t \<notin> set ((ks(i := ts)) j)"
    "context_of t (s\<lparr>theap := h\<rparr>) = context_of t s" using task_leave_rep [OF assms(1,2), of t] by blast
  let ?s = "set_context t (Some c) (set_runnable r (Some t) p (s\<lparr>theap := h\<rparr>))"
  obtain b w q' L' where w: "do_transfer (env i pre ?s) (aworld s) (context_of t s) (Some c) r True = Some (b, w)" "wrep w q' L'"
    "L' c" "\<not> b \<longrightarrow> handed w q' c r"
    using transfer_rep [OF assms(4) _ assms(5), of "Some c" r "env i pre ?s" True] assms(6) by auto
  let ?u = "set_context t (context_of t s) (?s\<lparr>aworld := w\<rparr>)"
  have "task_rep (theap ?u) (ks(i := ts))"
    using h(2) task_rep_set_context [of t "Some c" "set_runnable r (Some t) p (s\<lparr>theap := h\<rparr>)" "ks(i := ts)"] by simp
  from task_enter_rep [OF this h(3), of i t] obtain g where
    g: "task_enter i t ?u = Some (?u\<lparr>theap := g\<rparr>)" "task_rep g (ks(i := ts, i := t # (ks(i := ts)) i))"
       "context_of t (?u\<lparr>theap := g\<rparr>) = context_of t ?u" by blast
  have ks: "ks(i := ts, i := t # (ks(i := ts)) i) = ks" using assms(2) by auto
  let ?v = "?u\<lparr>theap := g, rtask := (rtask ?u)(r := None)\<rparr>"
  have "change_await_suspend i pre p (Some c) True r k alloc False inner s = Some (if b then SContinue else SSuspend, ?v)"
    using h w(1) g(1) cur assms(3)
    by (simp add: change_await_suspend_def transfer_to_def context_transfer_def change_guard_def Let_def)
  moreover have "context_of t ?v = context_of t (?u\<lparr>theap := g\<rparr>)" by (simp add: context_of_def)
  then have "context_of t ?v = context_of t s" using g(3) by simp
  ultimately show ?thesis using w g(2) ks
    by (intro exI [of _ "if b then SContinue else SSuspend"] exI [of _ ?v] exI [of _ q'] exI [of _ L']) (simp add: run_runnable_def)
qed

theorem change_context_ready_breaks_witness:
  "\<exists>out s'. change_await_suspend 0 (\<lambda>_. False) 5 (Some 3) True 7 8 True False (\<lambda>u. (SThrow, u)) asys1 = Some (out, s') \<and>
    out \<in> {SContinue, SSuspend} \<and> context_of 5 s' = None"
  using change_context_ready_breaks [OF asys1_state(1) _ asys1_state(2,4), where i = 0 and ts = "[]" and inner = "\<lambda>u. (SThrow, u)"
    and k = 8 and alloc = True and pre = "\<lambda>_. False" and c = 3 and r = 7] asys1_state(3)
  by (auto simp: mb_fresh_def stub_def)

text \<open>
  A detached coroutine runs in a task of its own on top of the stack of its thread; when
  it finishes, the stack is as it was, the context it is in is released, and the coroutine is
  destroyed, since nobody awaits it.
\<close>

theorem detached_coroutine_ends:
  assumes "task_rep (theap s) ks" "\<forall>j. p \<notin> set (ks j)" "pstate (promises s p) = PNone" "wrep (aworld s) q L"
  shows "\<exists>s1. async_detach i p s = Some s1 \<and> task_rep (theap s1) (ks(i := p # ks i)) \<and> get_task p s1 = Some p \<and>
    (\<forall>c. (\<forall>d. c = Some d \<longrightarrow> L d) \<longrightarrow>
       (\<exists>s2 q' L'. final_suspend i pre p r (set_context p c s1) = Some (SNoop, s2) \<and> task_rep (theap s2) ks \<and>
          destroyed s2 p \<and> context_of p s2 = None \<and> wrep (aworld s2) q' L'))"
proof -
  let ?h = "(theap s)\<lparr>task_at := (task_at (theap s))(p := new_task)\<rparr>"
  let ?s = "s\<lparr>promises := (promises s)(p := (promises s p)\<lparr>continuation := None, pstate := PPrivate\<rparr>), theap := ?h\<rparr>"
  have "task_next (task_at (theap s) p) = Inactive" using task_repD(4) [OF assms(1), of p] assms(2) by blast
  then have "task_rep ?h ks" using assms(1) task_rep_cong [of ?h "theap s" ks] by (simp add: new_task_def)
  from enter_rep [OF this assms(2), of i] obtain g where g: "enter i p ?h = Some g" "task_rep g (ks(i := p # ks i))" by blast
  let ?s1 = "?s\<lparr>theap := g\<rparr>"
  have d: "async_detach i p s = Some ?s1"
    using assms(3) g(1) by (simp add: async_detach_def prepare_def initial_resume_def get_task_def task_enter_def set_pstate_def)
  have "\<exists>s2 q' L'. final_suspend i pre p r (set_context p c ?s1) = Some (SNoop, s2) \<and> task_rep (theap s2) ks \<and>
          destroyed s2 p \<and> context_of p s2 = None \<and> wrep (aworld s2) q' L'" if c: "\<forall>d. c = Some d \<longrightarrow> L d" for c
  proof -
    let ?t = "set_context p c ?s1"
    have "task_rep (theap ?t) (ks(i := p # ks i))" using g(2) by simp
    from task_leave_rep [OF this, of i p "ks i" p] obtain h where h: "task_leave i p ?t = Some (?t\<lparr>theap := h\<rparr>)"
      "task_rep h (ks(i := p # ks i, i := ks i))" "context_of p (?t\<lparr>theap := h\<rparr>) = context_of p ?t" by auto
    let ?u = "set_context p None (?t\<lparr>theap := h\<rparr>)"
    obtain w q' L' where w: "context_leave c ?u = Some (?u\<lparr>aworld := w\<rparr>)" "wrep w q' L'"
      using context_leave_rep [of ?u q L c] assms(4) c by auto
    have "final_suspend i pre p r ?t = Some (SNoop, ?u\<lparr>aworld := w, destroyed := (destroyed ?u)(p := True)\<rparr>)"
      using h w(1) by (simp add: final_suspend_def final_return_def Let_def)
    moreover have "task_rep (theap ?u) ks" using h(2) task_rep_set_context [of p None "?t\<lparr>theap := h\<rparr>" ks] by simp
    ultimately show ?thesis using w(2)
      by (intro exI [of _ "?u\<lparr>aworld := w, destroyed := (destroyed ?u)(p := True)\<rparr>"] exI [of _ q'] exI [of _ L']) (simp add: context_of_def set_context_def)
  qed
  then show ?thesis using d g(2) by (auto simp: get_task_def)
qed

theorem detached_coroutine_ends_witness:
  "\<exists>s1 s2. async_detach 0 6 asys1 = Some s1 \<and> final_suspend 0 (\<lambda>_. False) 6 7 (set_context 6 None s1) = Some (SNoop, s2) \<and> destroyed s2 6"
  using detached_coroutine_ends [OF asys1_state(1) _ _ asys1_state(4), of 6 0 "\<lambda>_. False" 7] by (fastforce simp: asys1_def)

end
