(* ===== verification/Intrusive_Ptr.thy ===== *)
theory Intrusive_Ptr
  imports Prelude "HOL-Library.Word" "HOL-Library.Monad_Syntax"
begin

text \<open>
  Reference counting: \<open>intrusive_atomic_base\<close> and \<open>intrusive_ptr\<close> of
  \<open>coroactors/intrusive_ptr.h\<close>.

  A heap of objects with a 64-bit counter each, and the pointer held by every
  \<open>intrusive_ptr\<close> variable (\<open>None\<close> for null and for variables out of scope).  Touching the
  counter of a deleted object is \<open>None\<close>.  The counter may also count references without a
  variable: those \<open>detach()\<close> took away, which a constructor with \<open>add_ref = false\<close> adopts.
\<close>

type_synonym loc = nat
type_synonym obj = nat

record rc_heap =
  ptr :: "loc \<Rightarrow> obj option"
  refcount :: "obj \<Rightarrow> 64 word"
  deleted :: "obj set"

section \<open>Operations\<close>

definition add_ref :: "obj \<Rightarrow> rc_heap \<Rightarrow> rc_heap option" where
  "add_ref x s = (if x \<in> deleted s then None else Some (s\<lparr>refcount := (refcount s)(x := refcount s x + 1)\<rparr>))"

definition release :: "obj \<Rightarrow> rc_heap \<Rightarrow> rc_heap option" where
  "release x s = (if x \<in> deleted s then None
     else Some (s\<lparr>refcount := (refcount s)(x := refcount s x - 1),
                  deleted := (if refcount s x = 1 then insert x (deleted s) else deleted s)\<rparr>))"

definition if_ptr :: "(obj \<Rightarrow> rc_heap \<Rightarrow> rc_heap option) \<Rightarrow> obj option \<Rightarrow> rc_heap \<Rightarrow> rc_heap option" where
  "if_ptr f p s = (case p of None \<Rightarrow> Some s | Some x \<Rightarrow> f x s)"

definition set_ptr :: "loc \<Rightarrow> obj option \<Rightarrow> rc_heap \<Rightarrow> rc_heap" where
  "set_ptr l p s = s\<lparr>ptr := (ptr s)(l := p)\<rparr>"

definition construct :: "loc \<Rightarrow> obj option \<Rightarrow> bool \<Rightarrow> rc_heap \<Rightarrow> rc_heap option" where
  "construct l p add s = (if add then if_ptr add_ref p (set_ptr l p s) else Some (set_ptr l p s))"

definition destruct :: "loc \<Rightarrow> rc_heap \<Rightarrow> rc_heap option" where
  "destruct l s = if_ptr release (ptr s l) (set_ptr l None s)"

definition copy_construct :: "loc \<Rightarrow> loc \<Rightarrow> rc_heap \<Rightarrow> rc_heap option" where
  "copy_construct l r s = if_ptr add_ref (ptr s r) (set_ptr l (ptr s r) s)"

definition move_construct :: "loc \<Rightarrow> loc \<Rightarrow> rc_heap \<Rightarrow> rc_heap option" where
  "move_construct l r s = Some (set_ptr r None (set_ptr l (ptr s r) s))"

definition copy_assign :: "loc \<Rightarrow> loc \<Rightarrow> rc_heap \<Rightarrow> rc_heap option" where
  "copy_assign l r s = do {
     s' \<leftarrow> if_ptr add_ref (ptr s r) (set_ptr l (ptr s r) s);
     if_ptr release (ptr s l) s' }"

definition move_assign :: "loc \<Rightarrow> loc \<Rightarrow> rc_heap \<Rightarrow> rc_heap option" where
  "move_assign l r s =
     (if l \<noteq> r then if_ptr release (ptr s l) (set_ptr r None (set_ptr l (ptr s r) s)) else Some s)"

definition reset :: "loc \<Rightarrow> rc_heap \<Rightarrow> rc_heap option" where
  "reset l s = if_ptr release (ptr s l) (set_ptr l None s)"

definition reset_to :: "loc \<Rightarrow> obj option \<Rightarrow> bool \<Rightarrow> rc_heap \<Rightarrow> rc_heap option" where
  "reset_to l p add s = do {
     s' \<leftarrow> (if add then if_ptr add_ref p (set_ptr l p s) else Some (set_ptr l p s));
     if_ptr release (ptr s l) s' }"

definition detach_ptr :: "loc \<Rightarrow> rc_heap \<Rightarrow> obj option \<times> rc_heap" where
  "detach_ptr l s = (ptr s l, set_ptr l None s)"

definition swap_ptr :: "loc \<Rightarrow> loc \<Rightarrow> rc_heap \<Rightarrow> rc_heap" where
  "swap_ptr l r s = set_ptr r (ptr s l) (set_ptr l (ptr s r) s)"

section \<open>Programs\<close>

datatype ptr_op =
    Construct loc "obj option" bool
  | Destruct loc
  | CopyConstruct loc loc
  | MoveConstruct loc loc
  | CopyAssign loc loc
  | MoveAssign loc loc
  | Reset loc
  | ResetTo loc "obj option" bool
  | Detach loc
  | Swap loc loc

fun exec :: "ptr_op \<Rightarrow> rc_heap \<Rightarrow> rc_heap option" where
  "exec (Construct l p add) s = construct l p add s"
| "exec (Destruct l) s = destruct l s"
| "exec (CopyConstruct l r) s = copy_construct l r s"
| "exec (MoveConstruct l r) s = move_construct l r s"
| "exec (CopyAssign l r) s = copy_assign l r s"
| "exec (MoveAssign l r) s = move_assign l r s"
| "exec (Reset l) s = reset l s"
| "exec (ResetTo l p add) s = reset_to l p add s"
| "exec (Detach l) s = Some (snd (detach_ptr l s))"
| "exec (Swap l r) s = Some (swap_ptr l r s)"

text \<open>
  \<open>free_refs\<close> are the references without a variable after an operation.  \<open>legal\<close>: a new
  variable is constructed, a raw pointer handed to a constructor points to an object that is
  not deleted, an adopted reference exists, and the counter stays below \<open>2^64\<close>.
\<close>

fun free_refs :: "ptr_op \<Rightarrow> rc_heap \<Rightarrow> (obj \<Rightarrow> nat) \<Rightarrow> obj \<Rightarrow> nat" where
  "free_refs (Construct l (Some x) False) s raw = raw(x := raw x - 1)"
| "free_refs (ResetTo l (Some x) False) s raw = raw(x := raw x - 1)"
| "free_refs (Detach l) s raw = (case ptr s l of Some x \<Rightarrow> raw(x := raw x + 1) | None \<Rightarrow> raw)"
| "free_refs op s raw = raw"

definition refs :: "rc_heap \<Rightarrow> obj \<Rightarrow> nat" where
  "refs s x = card {l. ptr s l = Some x}"

definition usable :: "obj option \<Rightarrow> bool \<Rightarrow> rc_heap \<Rightarrow> (obj \<Rightarrow> nat) \<Rightarrow> bool" where
  "usable p add s raw = (case p of None \<Rightarrow> True
     | Some x \<Rightarrow> x \<notin> deleted s \<and> (if add then refs s x + raw x + 1 < 2 ^ 64 else raw x > 0))"

fun legal :: "ptr_op \<Rightarrow> rc_heap \<Rightarrow> (obj \<Rightarrow> nat) \<Rightarrow> bool" where
  "legal (Construct l p add) s raw = (ptr s l = None \<and> usable p add s raw)"
| "legal (CopyConstruct l r) s raw = (ptr s l = None \<and> usable (ptr s r) True s raw)"
| "legal (MoveConstruct l r) s raw = (ptr s l = None \<and> l \<noteq> r)"
| "legal (CopyAssign l r) s raw = usable (ptr s r) True s raw"
| "legal (ResetTo l p add) s raw = usable p add s raw"
| "legal op s raw = True"

definition rc_inv :: "rc_heap \<Rightarrow> (obj \<Rightarrow> nat) \<Rightarrow> bool" where
  "rc_inv s raw \<longleftrightarrow> finite {l. ptr s l \<noteq> None} \<and>
     (\<forall>x. refcount s x = of_nat (refs s x + raw x) \<and> refs s x + raw x < 2 ^ 64 \<and>
          (x \<in> deleted s \<longrightarrow> refs s x + raw x = 0))"

section \<open>Counting\<close>

lemma finite_refs: "finite {l. ptr s l \<noteq> None} \<Longrightarrow> finite {l. ptr s l = Some x}"
  by (rule finite_subset [rotated]) auto

lemma refs_set_ptr:
  assumes "finite {l. ptr s l \<noteq> None}"
  shows "refs (set_ptr l p s) x + of_bool (ptr s l = Some x) = refs s x + of_bool (p = Some x)"
proof -
  let ?A = "{k. k \<noteq> l \<and> ptr s k = Some x}"
  have f: "finite ?A" using finite_refs [OF assms, of x] by (rule rev_finite_subset) auto
  have "{k. ptr (set_ptr l p s) k = Some x} = (if p = Some x then insert l ?A else ?A)"
    "{k. ptr s k = Some x} = (if ptr s l = Some x then insert l ?A else ?A)"
    by (auto simp: set_ptr_def)
  then show ?thesis using f by (auto simp: refs_def)
qed

lemma finite_set_ptr: "finite {l. ptr s l \<noteq> None} \<Longrightarrow> finite {k. ptr (set_ptr l p s) k \<noteq> None}"
  by (rule finite_subset [of _ "insert l {l. ptr s l \<noteq> None}"]) (auto simp: set_ptr_def)

text \<open>
  Every operation is a sequence of pointer writes, increments and decrements.  \<open>counted s n\<close>:
  the counters equal \<open>n\<close>, and only unreferenced objects are deleted.
\<close>

definition counted :: "rc_heap \<Rightarrow> (obj \<Rightarrow> nat) \<Rightarrow> bool" where
  "counted s n \<longleftrightarrow> (\<forall>x. refcount s x = of_nat (n x) \<and> n x < 2 ^ 64 \<and> (x \<in> deleted s \<longrightarrow> n x = 0))"

lemma rc_inv_counted:
  "rc_inv s raw \<longleftrightarrow> finite {l. ptr s l \<noteq> None} \<and> counted s (\<lambda>x. refs s x + raw x)"
  by (auto simp: rc_inv_def counted_def)

lemma counted_set_ptr [simp]: "counted (set_ptr l p s) n = counted s n"
  by (simp add: counted_def set_ptr_def)

lemma counted_cong: "counted s n \<Longrightarrow> (\<And>x. n x = m x) \<Longrightarrow> counted s m"
  by (metis ext)

lemma add_ref_counted:
  assumes "counted s n" "x \<notin> deleted s" "n x + 1 < 2 ^ 64"
  shows "\<exists>s'. add_ref x s = Some s' \<and> counted s' (n(x := n x + 1)) \<and> ptr s' = ptr s \<and> deleted s' = deleted s"
  using assms by (auto simp: add_ref_def counted_def)

lemma release_counted:
  assumes "counted s n" "n x > 0"
  shows "\<exists>s'. release x s = Some s' \<and> counted s' (n(x := n x - 1)) \<and> ptr s' = ptr s \<and>
    deleted s' = (if n x = 1 then insert x (deleted s) else deleted s)"
proof -
  have x: "refcount s x = of_nat (n x)" "n x < 2 ^ 64" "x \<notin> deleted s" using assms by (auto simp: counted_def)
  have one: "refcount s x = 1 \<longleftrightarrow> n x = 1"
    using x word_of_nat_eq_iff [of "n x" 1, where ?'a = 64] by (simp add: take_bit_nat_eq_self)
  have "refcount s x - 1 = of_nat (n x - 1)" using x assms(2) by (simp add: of_nat_diff)
  moreover have "n x - 1 < 2 ^ 64" using x(2) by linarith
  ultimately show ?thesis using assms x one by (auto simp: release_def counted_def)
qed

text \<open>The operations in terms of the number of references \<open>n\<close>.\<close>

lemma add_ref_opt:
  assumes "counted s n" "\<And>x. p = Some x \<Longrightarrow> x \<notin> deleted s \<and> n x + 1 < 2 ^ 64"
  shows "\<exists>s'. if_ptr add_ref p s = Some s' \<and> counted s' (\<lambda>x. n x + of_bool (p = Some x)) \<and>
    ptr s' = ptr s \<and> deleted s' = deleted s"
proof (cases p)
  case None
  then show ?thesis using assms(1) by (simp add: if_ptr_def)
next
  case (Some x)
  obtain s' where "add_ref x s = Some s'" "counted s' (n(x := n x + 1))" "ptr s' = ptr s" "deleted s' = deleted s"
    using add_ref_counted [OF assms(1)] assms(2) Some by blast
  then show ?thesis using Some by (auto simp: if_ptr_def intro: counted_cong)
qed

lemma release_opt:
  assumes "counted s n" "\<And>x. p = Some x \<Longrightarrow> n x > 0"
  shows "\<exists>s'. if_ptr release p s = Some s' \<and> counted s' (\<lambda>x. n x - of_bool (p = Some x)) \<and> ptr s' = ptr s \<and>
    deleted s' = deleted s \<union> {x. p = Some x \<and> n x = 1}"
proof (cases p)
  case None
  then show ?thesis using assms(1) by (simp add: if_ptr_def)
next
  case (Some x)
  obtain s' where "release x s = Some s'" "counted s' (n(x := n x - 1))" "ptr s' = ptr s"
    "deleted s' = (if n x = 1 then insert x (deleted s) else deleted s)"
    using release_counted [OF assms(1)] assms(2) Some by blast
  then show ?thesis using Some by (auto simp: if_ptr_def intro: counted_cong)
qed

lemma refs_upd: "finite {l. ptr s l \<noteq> None} \<Longrightarrow>
   refs (set_ptr l p s) x = refs s x + of_bool (p = Some x) - of_bool (ptr s l = Some x)"
  using refs_set_ptr [of s l p x] by linarith

lemma refs_pos: "finite {l. ptr s l \<noteq> None} \<Longrightarrow> ptr s l = Some x \<Longrightarrow> refs s x > 0"
  using finite_refs by (fastforce simp: refs_def card_gt_0_iff)

lemma refs_ptr: "ptr s' = ptr s \<Longrightarrow> refs s' = refs s"
  by (simp add: refs_def fun_eq_iff)

text \<open>
  The common shape: the variable \<open>l\<close> takes the pointer \<open>p\<close>, with a new reference if
  \<open>add\<close>, and then the reference that \<open>l\<close> held is released.
\<close>

definition replace :: "loc \<Rightarrow> obj option \<Rightarrow> bool \<Rightarrow> rc_heap \<Rightarrow> rc_heap option" where
  "replace l p add s = do {
     s' \<leftarrow> (if add then if_ptr add_ref p (set_ptr l p s) else Some (set_ptr l p s));
     if_ptr release (ptr s l) s' }"

lemma replace_inv:
  assumes "rc_inv s raw" "usable p add s raw"
  shows "\<exists>s'. replace l p add s = Some s' \<and>
    rc_inv s' (if add then raw else (\<lambda>x. raw x - of_bool (p = Some x))) \<and>
    deleted s' = deleted s \<union> {x. ptr s l = Some x \<and> refs s x + raw x = 1 \<and> \<not> (add \<and> p = Some x)}"
proof -
  have f: "finite {l. ptr s l \<noteq> None}" and c: "counted s (\<lambda>x. refs s x + raw x)"
    using assms(1) by (auto simp: rc_inv_counted)
  let ?n = "\<lambda>x. refs s x + raw x + of_bool (add \<and> p = Some x)"
  obtain s1 where s1: "(if add then if_ptr add_ref p (set_ptr l p s) else Some (set_ptr l p s)) = Some s1"
    "counted s1 ?n" "ptr s1 = ptr (set_ptr l p s)" "deleted s1 = deleted s"
  proof (cases add)
    case True
    have "\<exists>s'. if_ptr add_ref p (set_ptr l p s) = Some s' \<and> counted s' (\<lambda>x. refs s x + raw x + of_bool (p = Some x)) \<and>
      ptr s' = ptr (set_ptr l p s) \<and> deleted s' = deleted (set_ptr l p s)"
      using c assms(2) True by (intro add_ref_opt) (auto simp: usable_def set_ptr_def counted_def)
    then show ?thesis using that True by (auto simp: set_ptr_def)
  next
    case False
    then show ?thesis using that [of "set_ptr l p s"] c by (simp add: set_ptr_def counted_def)
  qed
  have pos: "ptr s l = Some x \<Longrightarrow> ?n x > 0" for x using refs_pos [OF f] by fastforce
  obtain s' where s': "if_ptr release (ptr s l) s1 = Some s'" "counted s' (\<lambda>x. ?n x - of_bool (ptr s l = Some x))"
    "ptr s' = ptr s1" "deleted s' = deleted s1 \<union> {x. ptr s l = Some x \<and> ?n x = 1}"
    using release_opt [OF s1(2) pos] by blast
  let ?raw = "if add then raw else (\<lambda>x. raw x - of_bool (p = Some x))"
  have "refs s' x + ?raw x = ?n x - of_bool (ptr s l = Some x)" for x
    using refs_upd [OF f, of l p x] refs_ptr [of s' "set_ptr l p s"] s'(3) s1(3) assms(2) refs_pos [OF f, of l x]
    by (auto simp: usable_def)
  then have "counted s' (\<lambda>x. refs s' x + ?raw x)" using counted_cong [OF s'(2)] by simp
  moreover have "finite {k. ptr s' k \<noteq> None}" using finite_set_ptr [OF f] s'(3) s1(3) by simp
  moreover have "{x. ptr s l = Some x \<and> ?n x = 1} = {x. ptr s l = Some x \<and> refs s x + raw x = 1 \<and> \<not> (add \<and> p = Some x)}"
    using refs_pos [OF f, of l] by fastforce
  ultimately show ?thesis using s1(1,4) s'(1,4) by (auto simp: replace_def rc_inv_counted)
qed

lemma set_ptr_inv:
  assumes "rc_inv s raw" "finite {l. ptr s' l \<noteq> None}" "refcount s' = refcount s" "deleted s' = deleted s"
    "\<And>x. refs s' x + raw' x = refs s x + raw x"
  shows "rc_inv s' raw'"
  using assms by (simp add: rc_inv_def)

lemma swap_refs:
  assumes "finite {l. ptr s l \<noteq> None}"
  shows "refs (swap_ptr l r s) x = refs s x"
proof -
  have "ptr (set_ptr l (ptr s r) s) r = ptr s r" by (simp add: set_ptr_def)
  then show ?thesis
    using refs_set_ptr [OF finite_set_ptr [OF assms], of r "ptr s l" l "ptr s r" x] refs_set_ptr [OF assms, of l "ptr s r" x]
    by (simp add: swap_ptr_def)
qed

lemma move_as_replace:
  "l \<noteq> r \<Longrightarrow> if_ptr release (ptr s l) (set_ptr r None (set_ptr l (ptr s r) s)) =
    replace l (ptr s r) False (set_ptr r None s)"
  by (simp add: replace_def set_ptr_def fun_upd_twist)

text \<open>A move is a detach of the source followed by a replacement that adopts the reference.\<close>

lemma detach_inv:
  assumes "rc_inv s raw"
  shows "rc_inv (set_ptr r None s) (\<lambda>x. raw x + of_bool (ptr s r = Some x))"
proof (rule set_ptr_inv [OF assms])
  have f: "finite {l. ptr s l \<noteq> None}" using assms by (simp add: rc_inv_def)
  show "finite {l. ptr (set_ptr r None s) l \<noteq> None}" by (rule finite_set_ptr [OF f])
  show "refs (set_ptr r None s) x + (raw x + of_bool (ptr s r = Some x)) = refs s x + raw x" for x
    using refs_set_ptr [OF f, of r None x] by simp
qed (simp_all add: set_ptr_def)

lemma ptr_move_inv:
  assumes "rc_inv s raw" "l \<noteq> r"
  shows "\<exists>s'. replace l (ptr s r) False (set_ptr r None s) = Some s' \<and> rc_inv s' raw \<and>
    deleted s' = deleted s \<union> {x. ptr s l = Some x \<and> refs s x + raw x = 1}"
proof -
  let ?s = "set_ptr r None s" and ?raw = "\<lambda>x. raw x + of_bool (ptr s r = Some x)"
  note i = detach_inv [OF assms(1), of r]
  have u: "usable (ptr s r) False ?s ?raw"
    using assms(1) refs_pos [of s r] by (fastforce simp: usable_def rc_inv_def set_ptr_def split: option.splits)
  have r: "refs ?s x + ?raw x = refs s x + raw x" for x
    using refs_set_ptr [of s r None x] assms(1) by (simp add: rc_inv_def)
  have p: "ptr ?s l = ptr s l" "deleted ?s = deleted s" using assms(2) by (simp_all add: set_ptr_def)
  have "(\<lambda>x. ?raw x - of_bool (ptr s r = Some x)) = raw" by auto
  then show ?thesis using replace_inv [OF i u, of l] unfolding p r by simp
qed

section \<open>Every operation\<close>

text \<open>The objects whose last reference an operation drops.\<close>

fun dropped :: "ptr_op \<Rightarrow> rc_heap \<Rightarrow> obj option" where
  "dropped (Destruct l) s = ptr s l"
| "dropped (CopyAssign l r) s = (if ptr s l = ptr s r then None else ptr s l)"
| "dropped (MoveAssign l r) s = (if l = r then None else ptr s l)"
| "dropped (Reset l) s = ptr s l"
| "dropped (ResetTo l p add) s = (if add \<and> ptr s l = p then None else ptr s l)"
| "dropped op s = None"

definition step_ok :: "ptr_op \<Rightarrow> rc_heap \<Rightarrow> (obj \<Rightarrow> nat) \<Rightarrow> rc_heap \<Rightarrow> bool" where
  "step_ok op s raw s' \<longleftrightarrow> exec op s = Some s' \<and> rc_inv s' (free_refs op s raw) \<and>
     deleted s' = deleted s \<union> {x. dropped op s = Some x \<and> refs s x + raw x = 1}"

lemma replace_None: "ptr s l = None \<Longrightarrow> replace l p add s = construct l p add s"
  by (cases add) (auto simp: replace_def construct_def if_ptr_def)

lemma adopt_raw: "free_refs (Construct l p add) s raw = (if add then raw else (\<lambda>x. raw x - of_bool (p = Some x)))"
  "free_refs (ResetTo l p add) s raw = (if add then raw else (\<lambda>x. raw x - of_bool (p = Some x)))"
  by (cases p; cases add; auto)+

lemma exec_ok:
  assumes "rc_inv s raw" "legal op s raw"
  shows "\<exists>s'. step_ok op s raw s'"
proof (cases op)
  case (Construct l p add)
  then show ?thesis using replace_inv [OF assms(1), of p add l] assms(2) adopt_raw(1) [of l p add s raw]
    by (auto simp: step_ok_def replace_None [symmetric])
next
  case (Destruct l)
  then show ?thesis using replace_inv [OF assms(1), of None False l]
    by (auto simp: step_ok_def destruct_def replace_def usable_def)
next
  case (CopyConstruct l r)
  then show ?thesis using replace_inv [OF assms(1), of "ptr s r" True l] assms(2) replace_None [of s l "ptr s r" True]
    by (auto simp: step_ok_def copy_construct_def construct_def)
next
  case (MoveConstruct l r)
  then show ?thesis using ptr_move_inv [OF assms(1), of l r] move_as_replace [of l r s] assms(2)
    by (auto simp: step_ok_def move_construct_def if_ptr_def)
next
  case (CopyAssign l r)
  then show ?thesis using replace_inv [OF assms(1), of "ptr s r" True l] assms(2)
    by (auto simp: step_ok_def copy_assign_def replace_def)
next
  case (MoveAssign l r)
  then show ?thesis using ptr_move_inv [OF assms(1), of l r] move_as_replace [of l r s] assms(1)
    by (cases "l = r") (auto simp: step_ok_def move_assign_def)
next
  case (Reset l)
  then show ?thesis using replace_inv [OF assms(1), of None False l]
    by (auto simp: step_ok_def reset_def replace_def usable_def)
next
  case (ResetTo l p add)
  then show ?thesis using replace_inv [OF assms(1), of p add l] assms(2) adopt_raw(2) [of l p add s raw]
    by (auto simp: step_ok_def reset_to_def replace_def)
next
  case (Detach l)
  have "free_refs (Detach l) s raw = (\<lambda>x. raw x + of_bool (ptr s l = Some x))" by (auto split: option.splits)
  then show ?thesis using Detach detach_inv [OF assms(1), of l] by (auto simp: step_ok_def detach_ptr_def set_ptr_def)
next
  case (Swap l r)
  have f: "finite {l. ptr s l \<noteq> None}" using assms(1) by (simp add: rc_inv_def)
  have "rc_inv (swap_ptr l r s) raw"
    using finite_set_ptr [OF finite_set_ptr [OF f]] swap_refs [OF f]
    by (intro set_ptr_inv [OF assms(1)]) (auto simp: swap_ptr_def set_ptr_def)
  then show ?thesis using Swap by (auto simp: step_ok_def swap_ptr_def set_ptr_def)
qed

fun run_ops :: "ptr_op list \<Rightarrow> rc_heap \<Rightarrow> (obj \<Rightarrow> nat) \<Rightarrow> (rc_heap \<times> (obj \<Rightarrow> nat)) option" where
  "run_ops [] s raw = Some (s, raw)"
| "run_ops (op # ops) s raw = (case exec op s of None \<Rightarrow> None | Some s' \<Rightarrow> run_ops ops s' (free_refs op s raw))"

fun legal_ops :: "ptr_op list \<Rightarrow> rc_heap \<Rightarrow> (obj \<Rightarrow> nat) \<Rightarrow> bool" where
  "legal_ops [] s raw = True"
| "legal_ops (op # ops) s raw = (legal op s raw \<and> (case exec op s of None \<Rightarrow> True | Some s' \<Rightarrow> legal_ops ops s' (free_refs op s raw)))"

lemma run_ops_inv:
  "rc_inv s raw \<Longrightarrow> legal_ops ops s raw \<Longrightarrow> \<exists>s' raw'. run_ops ops s raw = Some (s', raw') \<and> rc_inv s' raw'"
proof (induction ops arbitrary: s raw)
  case Nil
  then show ?case by simp
next
  case (Cons op ops)
  then obtain s' where "exec op s = Some s'" "rc_inv s' (free_refs op s raw)"
    using exec_ok [of s raw op] by (auto simp: step_ok_def)
  then show ?case using Cons by simp
qed

section \<open>Properties\<close>

text \<open>
  C32. Whatever sequence of pointer operations a program makes, no operation touches the counter of
  a deleted object, the counter of every object is the number of pointers and detached
  references to it, and an object that is referenced is not deleted.
\<close>

theorem refcount_safe:
  assumes "rc_inv s raw" "legal_ops ops s raw"
  shows "\<exists>s' raw'. run_ops ops s raw = Some (s', raw') \<and>
    (\<forall>x. refcount s' x = of_nat (refs s' x + raw' x) \<and> (ptr s' l = Some x \<longrightarrow> x \<notin> deleted s'))"
proof -
  obtain s' raw' where s': "run_ops ops s raw = Some (s', raw')" "rc_inv s' raw'" using run_ops_inv [OF assms] by blast
  then have "ptr s' l = Some x \<Longrightarrow> x \<notin> deleted s'" for x using refs_pos [of s' l x] by (auto simp: rc_inv_def)
  then show ?thesis using s' by (auto simp: rc_inv_def)
qed

definition rc0 :: rc_heap where
  "rc0 = \<lparr>ptr = (\<lambda>_. None), refcount = (\<lambda>_. 0), deleted = {}\<rparr>"

lemma rc0_inv: "rc_inv rc0 (\<lambda>_. 0)"
  by (simp add: rc_inv_def rc0_def refs_def)

theorem refcount_safe_witness:
  "\<exists>s' raw'. run_ops [Construct 1 (Some 8) True, CopyConstruct 2 1, Destruct 1, Detach 2] rc0 (\<lambda>_. 0) = Some (s', raw') \<and>
    (\<forall>x. refcount s' x = of_nat (refs s' x + raw' x))"
proof -
  have "legal_ops [Construct 1 (Some 8) True, CopyConstruct 2 1, Destruct 1, Detach 2] rc0 (\<lambda>_. 0)"
    by (simp add: usable_def rc0_def construct_def if_ptr_def add_ref_def set_ptr_def copy_construct_def
        destruct_def release_def refs_def)
  then show ?thesis using refcount_safe [OF rc0_inv] by blast
qed

text \<open>
  An operation deletes exactly the object whose last reference it drops, and no other.
\<close>

theorem refcount_deletes_last:
  assumes "rc_inv s raw" "legal op s raw"
  shows "\<exists>s'. exec op s = Some s' \<and> deleted s' = deleted s \<union> {x. dropped op s = Some x \<and> refs s x + raw x = 1}"
  using exec_ok [OF assms] by (auto simp: step_ok_def)

lemma sole_owner:
  obtains s where "rc_inv s (\<lambda>_. 0)" "ptr s 1 = Some 8" "refs s 8 = 1" "deleted s = {}"
proof -
  have f: "finite {l. ptr rc0 l \<noteq> None}" by (simp add: rc0_def)
  obtain s where s: "replace 1 (Some 8) True rc0 = Some s" "rc_inv s (\<lambda>_. 0)" "deleted s = {}"
    using replace_inv [OF rc0_inv, of "Some 8" True 1] by (auto simp: usable_def rc0_def refs_def)
  then have p: "ptr s = ptr (set_ptr 1 (Some 8) rc0)"
    by (auto simp: replace_def if_ptr_def add_ref_def set_ptr_def rc0_def)
  then have "refs s 8 = 1" using refs_ptr [OF p] refs_upd [OF f, of 1 "Some 8" 8] by (simp add: rc0_def refs_def)
  then show ?thesis using that s(2,3) p by (simp add: set_ptr_def)
qed

theorem refcount_deletes_last_witness:
  "\<exists>s s'. exec (Destruct 1) s = Some s' \<and> deleted s = {} \<and> deleted s' = {8}"
proof -
  obtain s where s: "rc_inv s (\<lambda>_. 0)" "ptr s 1 = Some 8" "refs s 8 = 1" "deleted s = {}" by (rule sole_owner)
  then show ?thesis using refcount_deletes_last [OF s(1), of "Destruct 1"] by auto
qed

end
