(* ===== verification/Sleep_Until.thy ===== *)
theory Sleep_Until
  imports Async_Task Result
begin

text \<open>
  Timers: \<open>sleep_until_context\<close> and \<open>sleep_until_awaiter\<close> of
  \<open>coroactors/detail/actor_sleep_until.h\<close>, the timer interface of
  \<open>coroactors/actor_scheduler.h\<close>, and \<open>with_deadline_impl\<close> of
  \<open>coroactors/detail/actor_with_deadline.h\<close>.

  The scheduler is not modelled beyond its documentation: it calls the callback it was given
  at most once, with \<open>true\<close> at the deadline and \<open>false\<close> otherwise, from any thread and possibly
  before \<open>schedule\<close> returns.
\<close>

section \<open>The shared state of a sleeping coroutine\<close>

datatype sword = SlNull | SlSuccess | SlFailure | SlHandle handle

definition sleep_set_continuation :: "handle \<Rightarrow> sword \<Rightarrow> bool \<times> sword" where
  "sleep_set_continuation c v = (if v = SlNull then (True, SlHandle c) else (False, v))"

definition sleep_cancel :: "sword \<Rightarrow> sword" where
  "sleep_cancel v = SlNull"

text \<open>\<open>finish\<close>: the coroutine to resume; \<open>None\<close> when an assertion fails.\<close>

definition sleep_finish :: "bool \<Rightarrow> sword \<Rightarrow> (handle option \<times> sword) option" where
  "sleep_finish success v =
     (let v' = (if success then SlSuccess else SlFailure)
      in case v of
           SlNull \<Rightarrow> Some (None, v')
         | SlHandle c \<Rightarrow> Some (Some c, v')
         | _ \<Rightarrow> None)"

definition sleep_ready :: "sword \<Rightarrow> bool" where
  "sleep_ready v = (v \<noteq> SlNull)"

definition sleep_status :: "sword \<Rightarrow> bool option" where
  "sleep_status v = (case v of SlSuccess \<Rightarrow> Some True | SlFailure \<Rightarrow> Some False | _ \<Rightarrow> None)"

text \<open>\<open>actor_scheduler::schedule\<close> by default calls the callback with \<open>false\<close> at once.\<close>

definition schedule_default :: "(bool \<Rightarrow> 's \<Rightarrow> 's) \<Rightarrow> 's \<Rightarrow> 's" where
  "schedule_default c s = c False s"

text \<open>
  \<open>await_ready\<close> without a scheduler, where the answer is known, and with one, for a scheduler
  that changed the word to \<open>v\<close> by the time it is read.
\<close>

definition sleep_await_ready :: "bool \<Rightarrow> sword \<Rightarrow> (bool \<times> sword) option" where
  "sleep_await_ready has_scheduler v =
     (if has_scheduler then Some (sleep_ready v, v)
      else (case sleep_finish False SlNull of Some (None, v') \<Rightarrow> Some (True, v') | _ \<Rightarrow> None))"

section \<open>Interleavings\<close>

datatype timer_pc = TmPending | TmResume handle | TmDone
datatype sleeper_pc = ZReady | ZSuspend | ZSleeping | ZResumed | ZDone bool | ZGone

record sleep_sys =
  sword :: sword
  sco :: handle
  timer :: timer_pc
  sleeper :: sleeper_pc
  fired :: "bool option"
  swakes :: nat
  sfailed :: bool

definition sleep_init :: "sleep_sys \<Rightarrow> bool" where
  "sleep_init s \<longleftrightarrow> sword s = SlNull \<and> timer s = TmPending \<and> sleeper s = ZReady \<and> fired s = None \<and> swakes s = 0 \<and> \<not> sfailed s"

inductive sleep_step :: "sleep_sys \<Rightarrow> sleep_sys \<Rightarrow> bool" where
  z_ready: "sleeper s = ZReady \<Longrightarrow>
     sleep_step s (s\<lparr>sleeper := (if sleep_ready (sword s) then ZResumed else ZSuspend)\<rparr>)"
| z_suspend: "sleeper s = ZSuspend \<Longrightarrow> sleep_set_continuation (sco s) (sword s) = (b, v) \<Longrightarrow>
     sleep_step s (s\<lparr>sword := v, sleeper := (if b then ZSleeping else ZResumed)\<rparr>)"
| z_resume: "sleeper s = ZResumed \<Longrightarrow> sleep_status (sword s) = Some b \<Longrightarrow> sleep_step s (s\<lparr>sleeper := ZDone b\<rparr>)"
| z_resume_fails: "sleeper s = ZResumed \<Longrightarrow> sleep_status (sword s) = None \<Longrightarrow> sleep_step s (s\<lparr>sfailed := True\<rparr>)"
| z_destroy: "sleeper s = ZSleeping \<Longrightarrow> (\<forall>c. timer s \<noteq> TmResume c) \<Longrightarrow> sleep_step s (s\<lparr>sword := sleep_cancel (sword s), sleeper := ZGone\<rparr>)"
| t_fire: "timer s = TmPending \<Longrightarrow> sleep_finish success (sword s) = Some (c, v) \<Longrightarrow>
     sleep_step s (s\<lparr>sword := v, fired := Some success, timer := (case c of Some c \<Rightarrow> TmResume c | None \<Rightarrow> TmDone)\<rparr>)"
| t_fire_fails: "timer s = TmPending \<Longrightarrow> sleep_finish success (sword s) = None \<Longrightarrow> sleep_step s (s\<lparr>sfailed := True\<rparr>)"
| t_resume: "timer s = TmResume c \<Longrightarrow>
     sleep_step s (s\<lparr>timer := TmDone, sleeper := ZResumed, swakes := swakes s + 1,
       sfailed := (sfailed s \<or> sleeper s \<noteq> ZSleeping \<or> c \<noteq> sco s)\<rparr>)"

section \<open>Deadlines\<close>

text \<open>
  \<open>with_deadline_impl\<close>: the tokens of the program are stop states; \<open>stops\<close> tells which of them
  were requested to stop, \<open>links\<close> the callbacks that propagate a request from one state to
  another.  While the awaitable runs, requests to stop and the timer may occur.
\<close>

record stops =
  stopped_tokens :: "nat set"
  links :: "(nat \<times> nat) list"

datatype deadline_event = StopToken nat | TimerFires bool

text \<open>
  \<open>request_stop\<close> with the callbacks that it runs, as far as they propagate it.  A link leads to
  a new state, so that the links out of a state come before the link into it.
\<close>

definition token_stop :: "nat \<Rightarrow> stops \<Rightarrow> stops" where
  "token_stop n s = s\<lparr>stopped_tokens := stopped_tokens s \<union> foldr (\<lambda>(a, b) S. if a \<in> S then insert b S else S) (links s) {n}\<rparr>"

definition token_stopped :: "nat option \<Rightarrow> stops \<Rightarrow> bool" where
  "token_stopped t s = (case t of None \<Rightarrow> False | Some n \<Rightarrow> n \<in> stopped_tokens s)"

fun happens :: "nat \<Rightarrow> deadline_event \<Rightarrow> stops \<Rightarrow> stops" where
  "happens n (StopToken m) s = token_stop m s"
| "happens n (TimerFires True) s = token_stop n s"
| "happens n (TimerFires False) s = s"

text \<open>
  The source \<open>n\<close> is new.  \<open>body\<close> is the awaitable; \<open>events\<close> happen while it runs, newest first.
  \<open>late\<close>: the token is requested to stop after it was found not to be, before the callback is
  constructed.  The result tells which token the awaitable ran with, and the tokens stopped
  when it ended.
\<close>

definition with_deadline ::
  "tid \<Rightarrow> bool \<Rightarrow> nat \<Rightarrow> bool \<Rightarrow> deadline_event list \<Rightarrow> (task_heap \<Rightarrow> task_heap) \<Rightarrow> task_heap \<Rightarrow> stops \<Rightarrow>
   (nat option \<times> nat set \<times> task_heap \<times> stops) option" where
  "with_deadline i has_scheduler n late events body h s = (case current h i of
       None \<Rightarrow> None
     | Some t \<Rightarrow>
         (let old = token (task_at h t)
          in if has_scheduler \<and> \<not> token_stopped old s then
               (case old of
                  Some m \<Rightarrow>
                    (let s = (if late then token_stop n (token_stop m s) else s\<lparr>links := (m, n) # links s\<rparr>)
                     in if late then Some (old, stopped_tokens s, body h, s)
                        else let s = foldr (happens n) events s;
                                 h = snd (swap_token t old (body (snd (swap_token t (Some n) h))))
                             in Some (Some n, stopped_tokens s, h, token_stop n (s\<lparr>links := remove1 (m, n) (links s)\<rparr>)))
                | None \<Rightarrow>
                    (let s = foldr (happens n) events s;
                         h = snd (swap_token t old (body (snd (swap_token t (Some n) h))))
                     in Some (Some n, stopped_tokens s, h, token_stop n s)))
             else Some (old, stopped_tokens s, body h, s)))"

section \<open>Invariant\<close>

fun timer_ok :: "timer_pc \<Rightarrow> sleep_sys \<Rightarrow> bool" where
  "timer_ok TmPending s = (fired s = None \<and> swakes s = 0 \<and> sword s \<in> {SlNull, SlHandle (sco s)} \<and>
     sleeper s \<in> {ZReady, ZSuspend, ZSleeping, ZGone} \<and> (sleeper s = ZSleeping \<longleftrightarrow> sword s \<noteq> SlNull))"
| "timer_ok (TmResume c) s = (c = sco s \<and> sleeper s = ZSleeping \<and> swakes s = 0 \<and>
     fired s \<noteq> None \<and> sleep_status (sword s) = fired s)"
| "timer_ok TmDone s = (swakes s \<le> 1 \<and> sleeper s \<noteq> ZSleeping \<and> fired s \<noteq> None \<and> sleep_status (sword s) = fired s \<and>
     (\<forall>b. sleeper s = ZDone b \<longrightarrow> fired s = Some b))"

definition sleep_inv :: "sleep_sys \<Rightarrow> bool" where
  "sleep_inv s \<longleftrightarrow> \<not> sfailed s \<and> timer_ok (timer s) s"

lemma sleep_init_inv: "sleep_init s \<Longrightarrow> sleep_inv s"
  by (simp add: sleep_init_def sleep_inv_def)

lemma sleep_step_inv: "sleep_step s t \<Longrightarrow> sleep_inv s \<Longrightarrow> sleep_inv t"
proof (induction rule: sleep_step.induct)
  case (z_ready s) then show ?case by (cases "timer s") (auto simp: sleep_inv_def sleep_ready_def)
next
  case (z_suspend s b v) then show ?case
    by (cases "timer s") (auto simp: sleep_inv_def sleep_set_continuation_def sleep_status_def split: if_splits)
next
  case (z_resume s b) then show ?case by (cases "timer s") (auto simp: sleep_inv_def)
next
  case (z_resume_fails s) then show ?case by (cases "timer s") (auto simp: sleep_inv_def)
next
  case (z_destroy s) then show ?case by (cases "timer s") (auto simp: sleep_inv_def sleep_cancel_def)
next
  case (t_fire s success c v) then show ?case
    by (cases success) (auto simp: sleep_inv_def sleep_finish_def sleep_status_def Let_def)
next
  case (t_fire_fails s success) then show ?case by (auto simp: sleep_inv_def sleep_finish_def Let_def)
next
  case (t_resume s c) then show ?case by (auto simp: sleep_inv_def)
qed

interpretation sleep: inv_system sleep_init sleep_step sleep_inv
  by unfold_locales (auto intro: sleep_init_inv sleep_step_inv)

section \<open>Properties\<close>

text \<open>
  A sleeping coroutine and the timer that wakes it: no assertion fails and \<open>status\<close> does not
  throw; the timer resumes the coroutine at most once; the sleep returns what the timer was
  called with; and while the coroutine sleeps after the timer fired, its resumption is under
  way.
\<close>

theorem sleep_resumes_once:
  assumes "reach sleep_init sleep_step s"
  shows "\<not> sfailed s \<and> swakes s \<le> 1 \<and> (\<forall>b. sleeper s = ZDone b \<longrightarrow> fired s = Some b) \<and>
    (sleeper s = ZSleeping \<and> fired s \<noteq> None \<longrightarrow> timer s = TmResume (sco s))"
  using sleep.reach_inv [OF assms] by (cases "timer s") (auto simp: sleep_inv_def)

definition sleep0 :: sleep_sys where
  "sleep0 = \<lparr>sword = SlNull, sco = 8, timer = TmPending, sleeper = ZReady, fired = None, swakes = 0, sfailed = False\<rparr>"

theorem sleep_resumes_once_witness:
  "\<exists>s. reach sleep_init sleep_step s \<and> sleeper s = ZDone True \<and> fired s = Some True \<and> swakes s \<le> 1"
proof -
  let ?a = "sleep0\<lparr>sword := SlSuccess, fired := Some True, timer := TmDone\<rparr>"
  have "sleep_step sleep0 ?a" using t_fire [of sleep0 True None SlSuccess] by (simp add: sleep0_def sleep_finish_def)
  moreover have "sleep_step ?a (?a\<lparr>sleeper := ZResumed\<rparr>)" using z_ready [of ?a] by (simp add: sleep0_def sleep_ready_def)
  moreover have "sleep_step (?a\<lparr>sleeper := ZResumed\<rparr>) (?a\<lparr>sleeper := ZDone True\<rparr>)"
    using z_resume [of "?a\<lparr>sleeper := ZResumed\<rparr>" True] by (simp add: sleep0_def sleep_status_def)
  moreover have "sleep_init sleep0" by (simp add: sleep_init_def sleep0_def)
  ultimately have r: "reach sleep_init sleep_step (?a\<lparr>sleeper := ZDone True\<rparr>)" by (blast intro: reach_init reach_step)
  then show ?thesis using sleep_resumes_once [OF r] by (intro exI [of _ "?a\<lparr>sleeper := ZDone True\<rparr>"]) (simp add: sleep0_def)
qed

lemma foldr_links:
  "n \<notin> fst ` set ls \<Longrightarrow> foldr (\<lambda>(a, b) S. if a \<in> S then insert b S else S) ls {n} = {n :: nat}"
  by (induction ls) auto

lemma foldr_links_mono: "S \<subseteq> foldr (\<lambda>(a, b) S. if a \<in> S then insert b S else S) ls S"
  by (induction ls) auto

lemma token_stop_simps [simp]:
  "links (token_stop n s) = links s" "n \<in> stopped_tokens (token_stop n s)" "stopped_tokens s \<subseteq> stopped_tokens (token_stop m s)"
  using foldr_links_mono [of "{n}"] by (auto simp: token_stop_def)

lemma happens_links [simp]: "links (foldr (happens n) es s) = links s"
proof (induction es)
  case (Cons e es)
  have "links (happens n e t) = links t" for t by (cases "(n, e, t)" rule: happens.cases) auto
  then show ?case using Cons by simp
qed simp

lemma happens_mono: "stopped_tokens s \<subseteq> stopped_tokens (happens n e s)"
  by (cases "(n, e, s)" rule: happens.cases) auto

lemma events_stop:
  assumes "e \<in> set es" "\<And>t. links t = links s \<Longrightarrow> n \<in> stopped_tokens (happens n e t)"
  shows "n \<in> stopped_tokens (foldr (happens n) es s)"
  using assms(1)
proof (induction es)
  case (Cons d es)
  then show ?case using assms(2) [of "foldr (happens n) es s"] happens_mono [of "foldr (happens n) es s" n d] by auto
qed simp

lemma timer_events:
  assumes "\<forall>e \<in> set es. \<exists>b. e = TimerFires b" "n \<notin> fst ` set (links s)"
  shows "stopped_tokens (foldr (happens n) es s) \<union> {n} = stopped_tokens s \<union> {n}"
  using assms(1)
proof (induction es)
  case (Cons d es)
  then obtain b where "d = TimerFires b" by auto
  then show ?case using Cons foldr_links [OF assms(2)] by (cases b) (auto simp: token_stop_def)
qed simp

text \<open>
  \<open>with_deadline\<close> runs its awaitable with a token of its own.  While it runs, that token is
  requested to stop when the deadline is reached or the token of the caller is; the deadline
  alone stops no other token; afterwards the task has its token back and the own token is
  stopped, so that the timer is cancelled.
\<close>

theorem deadline_propagates:
  assumes "current h i = Some t" "token (task_at h t) = Some m" "m \<notin> stopped_tokens s" "n \<notin> fst ` set (links s)" "n \<noteq> m"
    and "\<And>g. token (task_at (body g) t) = token (task_at g t)"
  shows "\<exists>during h' s'. with_deadline i True n False events body h s = Some (Some n, during, h', s') \<and>
    token (task_at h' t) = Some m \<and> links s' = links s \<and> n \<in> stopped_tokens s' \<and>
    (TimerFires True \<in> set events \<or> StopToken m \<in> set events \<longrightarrow> n \<in> during) \<and>
    ((\<forall>e \<in> set events. \<exists>b. e = TimerFires b) \<longrightarrow> stopped_tokens s' = insert n (stopped_tokens s))"
proof -
  let ?s = "s\<lparr>links := (m, n) # links s\<rparr>"
  let ?e = "foldr (happens n) events ?s"
  let ?h = "snd (swap_token t (Some m) (body (snd (swap_token t (Some n) h))))"
  let ?f = "token_stop n (?e\<lparr>links := remove1 (m, n) (links ?e)\<rparr>)"
  have w: "with_deadline i True n False events body h s = Some (Some n, stopped_tokens ?e, ?h, ?f)"
    using assms(1-3) by (simp add: with_deadline_def token_stopped_def Let_def)
  have l: "links ?f = links s" by simp
  have "n \<in> stopped_tokens (happens n (StopToken m) u)" if "links u = links ?s" for u
  proof -
    have "m \<in> foldr (\<lambda>(a, b) S. if a \<in> S then insert b S else S) (links s) {m}" using foldr_links_mono [of "{m}"] by auto
    then show ?thesis using that by (simp add: token_stop_def)
  qed
  then have d: "TimerFires True \<in> set events \<or> StopToken m \<in> set events \<longrightarrow> n \<in> stopped_tokens ?e"
    using events_stop [of _ events ?s n] by fastforce
  have "stopped_tokens ?f = insert n (stopped_tokens s)" if "\<forall>e \<in> set events. \<exists>b. e = TimerFires b"
    using timer_events [OF that, of n ?s] foldr_links [OF assms(4)] assms(4,5) by (auto simp: token_stop_def)
  then show ?thesis using w l d
    by (intro exI [of _ "stopped_tokens ?e"] exI [of _ ?h] exI [of _ ?f]) (simp add: swap_token_def)
qed

theorem deadline_propagates_witness:
  "\<exists>during h' s'. with_deadline 0 True 7 False [TimerFires True] (\<lambda>g. g) (heap0\<lparr>current := (\<lambda>_. Some 5), task_at := (\<lambda>_. new_task\<lparr>token := Some 3\<rparr>)\<rparr>)
      \<lparr>stopped_tokens = {}, links = []\<rparr> = Some (Some 7, during, h', s') \<and> 7 \<in> during \<and> stopped_tokens s' = {7}"
  using deadline_propagates [of "heap0\<lparr>current := (\<lambda>_. Some 5), task_at := (\<lambda>_. new_task\<lparr>token := Some 3\<rparr>)\<rparr>" 0 5 3
    "\<lparr>stopped_tokens = {}, links = []\<rparr>" 7 "\<lambda>g. g" "[TimerFires True]"]
  by auto

end
