(* ===== verification/Actor_Scheduler.thy ===== *)
theory Actor_Scheduler
  imports Intrusive_Ptr Sleep_Until
begin

text \<open>
  \<open>actor_scheduler.h\<close> and \<open>asio_actor_scheduler.h\<close>: the scheduler of a thread, preemption, and
  timers.

  Asio is not modelled: the handlers given to it are recorded, and they may run or be dropped
  at any time after that.
\<close>

section \<open>The scheduler of a thread\<close>

text \<open>\<open>current_\<close> of every thread; \<open>None\<close> is the null pointer.\<close>

type_synonym scheduler_id = nat

definition set_current_ptr :: "tid \<Rightarrow> scheduler_id option \<Rightarrow> (tid \<Rightarrow> scheduler_id option) \<Rightarrow> tid \<Rightarrow> scheduler_id option" where
  "set_current_ptr i p cur = cur(i := p)"

definition current_ptr :: "tid \<Rightarrow> (tid \<Rightarrow> scheduler_id option) \<Rightarrow> scheduler_id option" where
  "current_ptr i cur = cur i"

definition current_scheduler :: "tid \<Rightarrow> (tid \<Rightarrow> scheduler_id option) \<Rightarrow> scheduler_id outcome" where
  "current_scheduler i cur = (case cur i of Some s \<Rightarrow> Ret s | None \<Rightarrow> Throw (Runtime_error ''current thread does not have an actor_scheduler''))"

section \<open>Preemption\<close>

text \<open>
  A thread with its clock and the value \<open>preempt_deadline\<close> points to.  What a runnable does is a
  list of actions: time passes, \<open>preempt()\<close> is called, another runnable is run from within.
\<close>

record asio_thread =
  preempt_deadline :: "int option"
  clock :: int
  answers :: "(int \<times> bool) list"

datatype action = Elapse nat | Ask | RunNested int "action list"

definition asio_preempt :: "asio_thread \<Rightarrow> bool" where
  "asio_preempt th = (case preempt_deadline th of Some d \<Rightarrow> clock th \<ge> d | None \<Rightarrow> True)"

definition run_with_preemption :: "(asio_thread \<Rightarrow> asio_thread) \<Rightarrow> int \<Rightarrow> asio_thread \<Rightarrow> asio_thread" where
  "run_with_preemption run preempt_duration th =
     (if preempt_deadline th = None then
        (let deadline = clock th + preempt_duration
         in (run (th\<lparr>preempt_deadline := Some deadline\<rparr>))\<lparr>preempt_deadline := None\<rparr>)
      else run th)"

fun act :: "action \<Rightarrow> asio_thread \<Rightarrow> asio_thread" and acts :: "action list \<Rightarrow> asio_thread \<Rightarrow> asio_thread" where
  "act (Elapse n) th = th\<lparr>clock := clock th + int n\<rparr>"
| "act Ask th = th\<lparr>answers := answers th @ [(clock th, asio_preempt th)]\<rparr>"
| "act (RunNested d as) th = run_with_preemption (acts as) d th"
| "acts [] th = th"
| "acts (a # as) th = acts as (act a th)"

text \<open>\<open>post\<close> and \<open>defer\<close> hand a handler to asio; the handler calls \<open>run_with_preemption\<close>.\<close>

datatype asio_handler = AsioPost "action list" int | AsioDefer "action list" int

definition asio_post :: "int \<Rightarrow> action list \<Rightarrow> asio_handler list \<Rightarrow> asio_handler list" where
  "asio_post preempt_duration r hs = hs @ [AsioPost r preempt_duration]"

definition asio_defer :: "int \<Rightarrow> action list \<Rightarrow> asio_handler list \<Rightarrow> asio_handler list" where
  "asio_defer preempt_duration r hs = hs @ [AsioDefer r preempt_duration]"

fun asio_handler_run :: "asio_handler \<Rightarrow> asio_thread \<Rightarrow> asio_thread" where
  "asio_handler_run (AsioPost r d) th = run_with_preemption (acts r) d th"
| "asio_handler_run (AsioDefer r d) th = run_with_preemption (acts r) d th"

lemma act_deadline:
  "preempt_deadline (act a th) = preempt_deadline th"
  "preempt_deadline (acts as th) = preempt_deadline th"
  by (induction a th and as th rule: act_acts.induct) (auto simp: run_with_preemption_def Let_def)

lemma act_answers:
  "preempt_deadline th = Some d \<Longrightarrow> \<exists>xs. answers (act a th) = answers th @ xs \<and> (\<forall>(t, b) \<in> set xs. b \<longleftrightarrow> t \<ge> d)"
  "preempt_deadline th = Some d \<Longrightarrow> \<exists>xs. answers (acts as th) = answers th @ xs \<and> (\<forall>(t, b) \<in> set xs. b \<longleftrightarrow> t \<ge> d)"
proof (induction a th and as th rule: act_acts.induct)
  case (5 a as th)
  obtain xs where xs: "answers (act a th) = answers th @ xs" "\<forall>(t, b) \<in> set xs. b \<longleftrightarrow> t \<ge> d" using 5 by auto
  obtain ys where "answers (acts as (act a th)) = answers (act a th) @ ys" "\<forall>(t, b) \<in> set ys. b \<longleftrightarrow> t \<ge> d"
    using 5 act_deadline(1) [of a th] by auto
  then show ?case using xs by (intro exI [of _ "xs @ ys"]) auto
qed (auto simp: run_with_preemption_def asio_preempt_def)

text \<open>
  The budget of a handler.  While a handler that asio runs in an idle thread executes,
  \<open>preempt()\<close> answers exactly whether the preemption duration has passed since the handler
  started; runnables that run from within it, whatever their own duration, neither extend nor end
  that budget; afterwards the thread is idle again and \<open>preempt()\<close> answers yes.
\<close>

theorem preempt_budget:
  assumes "preempt_deadline th = None"
  shows "(\<exists>xs. answers (run_with_preemption (acts as) d th) = answers th @ xs \<and> (\<forall>(t, b) \<in> set xs. b \<longleftrightarrow> t \<ge> clock th + d)) \<and>
    preempt_deadline (run_with_preemption (acts as) d th) = None \<and> asio_preempt (run_with_preemption (acts as) d th)"
  using assms act_answers(2) [of "th\<lparr>preempt_deadline := Some (clock th + d)\<rparr>" "clock th + d" as]
  by (simp add: run_with_preemption_def asio_preempt_def)

definition idle_thread :: asio_thread where
  "idle_thread = \<lparr>preempt_deadline = None, clock = 100, answers = []\<rparr>"

theorem preempt_budget_witness:
  "answers (run_with_preemption (acts [Ask, Elapse 7, RunNested 50 [Ask, Elapse 5, Ask], Ask]) 10 idle_thread) = [(100, False), (107, False), (112, True), (112, True)] \<and>
   asio_preempt (run_with_preemption (acts [Ask, Elapse 7, RunNested 50 [Ask, Elapse 5, Ask], Ask]) 10 idle_thread)"
  using preempt_budget [of idle_thread "[Ask, Elapse 7, RunNested 50 [Ask, Elapse 5, Ask], Ask]" 10]
  by (simp add: idle_thread_def run_with_preemption_def asio_preempt_def)

section \<open>Timers\<close>

text \<open>
  One call of \<open>schedule\<close> and the \<open>timer_t\<close> it makes, the object \<open>timer_obj\<close> of a heap of
  counted objects.  Three variables point to it: the local \<open>timer\<close> of \<open>schedule\<close>, the \<open>p\<close> of the
  handler given to \<open>async_wait\<close>, and the \<open>p\<close> of the \<open>cancel_t\<close> inside the timer.  The token is
  seen through two answers: whether a stop was requested and whether one is possible.
\<close>

abbreviation timer_obj :: obj where "timer_obj \<equiv> 9"
abbreviation local_ptr :: loc where "local_ptr \<equiv> 2"
abbreviation handler_ptr :: loc where "handler_ptr \<equiv> 3"
abbreviation cancel_ptr :: loc where "cancel_ptr \<equiv> 4"

datatype schedule_pc = ScStart | ScNew | ScWaiting | ScReturning | ScReturned
datatype wait_pc = WpNone | WpPending | WpCalled | WpDone | WpDropped

record asio_timer =
  rc :: rc_heap
  schedule_pc :: schedule_pc
  wait :: wait_pc
  stop_possible :: bool
  stop_requested :: bool
  registered :: bool
  cancels :: nat
  called :: "bool list"
  tfailed :: bool

text \<open>\<open>~timer_t\<close>, when the last reference goes: the members are destroyed, \<open>cancel\<close> among them.\<close>

definition timer_drop :: "loc \<Rightarrow> asio_timer \<Rightarrow> asio_timer option" where
  "timer_drop l s = (case destruct l (rc s) of
       None \<Rightarrow> None
     | Some h \<Rightarrow>
         if timer_obj \<in> deleted h \<and> timer_obj \<notin> deleted (rc s) then
           (case destruct cancel_ptr h of None \<Rightarrow> None | Some h \<Rightarrow> Some (s\<lparr>rc := h, registered := False\<rparr>))
         else Some (s\<lparr>rc := h\<rparr>))"

text \<open>\<open>cancel_t::operator()\<close>; the timer must exist.\<close>

definition timer_cancel :: "asio_timer \<Rightarrow> asio_timer option" where
  "timer_cancel s = (if ptr (rc s) cancel_ptr = Some timer_obj \<and> timer_obj \<notin> deleted (rc s) then Some (s\<lparr>cancels := cancels s + 1\<rparr>) else None)"

definition timer_schedule :: "asio_timer \<Rightarrow> asio_timer option" where
  "timer_schedule s =
     (if stop_requested s then Some (s\<lparr>called := called s @ [False], schedule_pc := ScReturned\<rparr>)
      else map_option (\<lambda>h. s\<lparr>rc := h, schedule_pc := ScNew\<rparr>) (construct local_ptr (Some timer_obj) True (rc s)))"

text \<open>\<open>start\<close>, its two parts: the handler may run in between.\<close>

definition timer_start_wait :: "asio_timer \<Rightarrow> asio_timer option" where
  "timer_start_wait s = map_option (\<lambda>h. s\<lparr>rc := h, wait := WpPending, schedule_pc := ScWaiting\<rparr>) (construct handler_ptr (Some timer_obj) True (rc s))"

definition timer_start_cancel :: "asio_timer \<Rightarrow> asio_timer option" where
  "timer_start_cancel s =
     (if stop_possible s then
        (case construct cancel_ptr (Some timer_obj) True (rc s) of
           None \<Rightarrow> None
         | Some h \<Rightarrow>
             (let s = s\<lparr>rc := h, schedule_pc := ScReturning\<rparr>
              in if stop_requested s then timer_cancel s else Some (s\<lparr>registered := True\<rparr>)))
      else Some (s\<lparr>schedule_pc := ScReturning\<rparr>))"

definition timer_return :: "asio_timer \<Rightarrow> asio_timer option" where
  "timer_return s = map_option (\<lambda>s. s\<lparr>schedule_pc := ScReturned\<rparr>) (timer_drop local_ptr s)"

text \<open>\<open>finish\<close>: asio calls the handler with an error code, of which only its being set counts.\<close>

definition timer_finish :: "bool \<Rightarrow> asio_timer \<Rightarrow> asio_timer option" where
  "timer_finish ec s =
     (if ptr (rc s) handler_ptr = Some timer_obj \<and> timer_obj \<notin> deleted (rc s)
      then Some (s\<lparr>called := called s @ [if ec then False else True], wait := WpCalled\<rparr>) else None)"

definition timer_handler_destroy :: "asio_timer \<Rightarrow> asio_timer option" where
  "timer_handler_destroy s = map_option (\<lambda>t. t\<lparr>wait := (if wait s = WpCalled then WpDone else WpDropped)\<rparr>) (timer_drop handler_ptr s)"

definition timer_stop :: "asio_timer \<Rightarrow> asio_timer option" where
  "timer_stop s = (let s = s\<lparr>stop_requested := True\<rparr> in if registered s then timer_cancel s else Some s)"

datatype timer_event = Schedule | StartWait | StartCancel | Return | WaitEnds bool | HandlerGone | StopRequest | SourcesGone

fun timer_exec :: "timer_event \<Rightarrow> asio_timer \<Rightarrow> asio_timer option" where
  "timer_exec Schedule s = timer_schedule s"
| "timer_exec StartWait s = timer_start_wait s"
| "timer_exec StartCancel s = timer_start_cancel s"
| "timer_exec Return s = timer_return s"
| "timer_exec (WaitEnds ec) s = timer_finish ec s"
| "timer_exec HandlerGone s = timer_handler_destroy s"
| "timer_exec StopRequest s = timer_stop s"
| "timer_exec SourcesGone s = Some (s\<lparr>stop_possible := False\<rparr>)"

text \<open>
  \<open>schedule\<close> runs in order.  Asio calls a handler at most once and then destroys it; it may
  also destroy it without calling it.  A token whose sources are gone cannot be stopped.
\<close>

fun timer_enabled :: "timer_event \<Rightarrow> asio_timer \<Rightarrow> bool" where
  "timer_enabled Schedule s = (schedule_pc s = ScStart)"
| "timer_enabled StartWait s = (schedule_pc s = ScNew)"
| "timer_enabled StartCancel s = (schedule_pc s = ScWaiting)"
| "timer_enabled Return s = (schedule_pc s = ScReturning)"
| "timer_enabled (WaitEnds ec) s = (wait s = WpPending)"
| "timer_enabled HandlerGone s = (wait s = WpPending \<or> wait s = WpCalled)"
| "timer_enabled StopRequest s = (stop_possible s \<and> \<not> stop_requested s)"
| "timer_enabled SourcesGone s = (\<not> stop_requested s)"

inductive timer_step :: "asio_timer \<Rightarrow> asio_timer \<Rightarrow> bool" where
  timer_runs: "timer_enabled e s \<Longrightarrow> timer_exec e s = Some t \<Longrightarrow> timer_step s t"
| timer_fails: "timer_enabled e s \<Longrightarrow> timer_exec e s = None \<Longrightarrow> timer_step s (s\<lparr>tfailed := True\<rparr>)"

definition timer_init :: "asio_timer \<Rightarrow> bool" where
  "timer_init s \<longleftrightarrow> rc s = rc0 \<and> schedule_pc s = ScStart \<and> wait s = WpNone \<and> \<not> registered s \<and> cancels s = 0 \<and> called s = [] \<and>
     \<not> tfailed s \<and> (stop_requested s \<longrightarrow> stop_possible s)"

section \<open>Who keeps the timer\<close>

definition timer_counted :: "asio_timer \<Rightarrow> bool" where
  "timer_counted s \<longleftrightarrow> (\<forall>l \<in> {local_ptr, handler_ptr, cancel_ptr}. ptr (rc s) l = None \<or> ptr (rc s) l = Some timer_obj) \<and>
     refcount (rc s) timer_obj = of_bool (ptr (rc s) local_ptr \<noteq> None) + of_bool (ptr (rc s) handler_ptr \<noteq> None) + of_bool (ptr (rc s) cancel_ptr \<noteq> None) \<and>
     (timer_obj \<in> deleted (rc s) \<longleftrightarrow> wait s \<noteq> WpNone \<and> refcount (rc s) timer_obj = 0)"

fun schedule_ok :: "schedule_pc \<Rightarrow> asio_timer \<Rightarrow> bool" where
  "schedule_ok ScStart s = (wait s = WpNone \<and> called s = [] \<and> ptr (rc s) local_ptr = None \<and> ptr (rc s) cancel_ptr = None)"
| "schedule_ok ScNew s = (wait s = WpNone \<and> called s = [] \<and> ptr (rc s) local_ptr = Some timer_obj \<and> ptr (rc s) cancel_ptr = None)"
| "schedule_ok ScWaiting s = (wait s \<noteq> WpNone \<and> ptr (rc s) local_ptr = Some timer_obj \<and> ptr (rc s) cancel_ptr = None)"
| "schedule_ok ScReturning s = (wait s \<noteq> WpNone \<and> ptr (rc s) local_ptr = Some timer_obj)"
| "schedule_ok ScReturned s = (ptr (rc s) local_ptr = None \<and> (wait s = WpNone \<longrightarrow> called s = [False] \<and> ptr (rc s) cancel_ptr = None))"

fun wait_ok :: "wait_pc \<Rightarrow> asio_timer \<Rightarrow> bool" where
  "wait_ok WpNone s = (ptr (rc s) handler_ptr = None)"
| "wait_ok WpPending s = (ptr (rc s) handler_ptr = Some timer_obj \<and> called s = [])"
| "wait_ok WpCalled s = (ptr (rc s) handler_ptr = Some timer_obj \<and> (\<exists>b. called s = [b]))"
| "wait_ok WpDone s = (ptr (rc s) handler_ptr = None \<and> (\<exists>b. called s = [b]))"
| "wait_ok WpDropped s = (ptr (rc s) handler_ptr = None \<and> called s = [])"

definition timer_inv :: "asio_timer \<Rightarrow> bool" where
  "timer_inv s \<longleftrightarrow> \<not> tfailed s \<and> timer_counted s \<and> schedule_ok (schedule_pc s) s \<and> wait_ok (wait s) s \<and>
     (registered s \<longrightarrow> ptr (rc s) cancel_ptr = Some timer_obj)"

lemmas rc_defs = construct_def destruct_def if_ptr_def add_ref_def release_def set_ptr_def

lemma timer_init_inv: "timer_init s \<Longrightarrow> timer_inv s"
  by (auto simp: timer_init_def timer_inv_def timer_counted_def rc0_def)

lemma timer_drop_local:
  assumes "timer_inv s" "schedule_pc s = ScReturning"
  shows "\<exists>t. timer_return s = Some t \<and> timer_inv t \<and> called t = called s"
  using assms by (cases "wait s"; cases "ptr (rc s) cancel_ptr")
    (auto simp: timer_inv_def timer_counted_def timer_return_def timer_drop_def rc_defs)

lemma timer_drop_handler:
  assumes "timer_inv s" "wait s = WpPending \<or> wait s = WpCalled"
  shows "\<exists>t. timer_handler_destroy s = Some t \<and> timer_inv t \<and> called t = called s"
proof -
  have h: "ptr (rc s) handler_ptr = Some timer_obj" "timer_counted s" "\<not> tfailed s" "schedule_pc s \<noteq> ScStart" "schedule_pc s \<noteq> ScNew"
    "wait_ok (wait s) s" "schedule_ok (schedule_pc s) s" "registered s \<longrightarrow> ptr (rc s) cancel_ptr = Some timer_obj"
    using assms by (auto simp: timer_inv_def)
  consider "ptr (rc s) local_ptr = None" | "ptr (rc s) local_ptr = Some timer_obj" using h(2) by (auto simp: timer_counted_def)
  then show ?thesis
  proof cases
    case 1
    then have "schedule_pc s = ScReturned" using h(4,5,7) by (cases "schedule_pc s") auto
    then show ?thesis using 1 h assms(2) by (cases "ptr (rc s) cancel_ptr"; elim disjE)
      (simp_all add: timer_inv_def timer_counted_def timer_handler_destroy_def timer_drop_def rc_defs)
  next
    case 2
    then show ?thesis using h assms(2) by (cases "ptr (rc s) cancel_ptr"; cases "schedule_pc s"; elim disjE)
      (simp_all add: timer_inv_def timer_counted_def timer_handler_destroy_def timer_drop_def rc_defs)
  qed
qed

lemma timer_schedule_inv:
  assumes "timer_inv s" "schedule_pc s = ScStart"
  shows "\<exists>t. timer_schedule s = Some t \<and> timer_inv t \<and> (called t = called s \<or> called s = [] \<and> called t = [False])"
proof (cases "stop_requested s")
  case True
  then show ?thesis using assms by (auto simp: timer_inv_def timer_counted_def timer_schedule_def)
next
  case False
  then show ?thesis using assms by (auto simp: timer_inv_def timer_counted_def timer_schedule_def rc_defs)
qed

lemma timer_start_wait_inv:
  assumes "timer_inv s" "schedule_pc s = ScNew"
  shows "\<exists>t. timer_start_wait s = Some t \<and> timer_inv t \<and> called t = called s"
  using assms by (auto simp: timer_inv_def timer_counted_def timer_start_wait_def rc_defs)

lemma timer_start_cancel_inv:
  assumes "timer_inv s" "schedule_pc s = ScWaiting"
  shows "\<exists>t. timer_start_cancel s = Some t \<and> timer_inv t \<and> called t = called s"
  using assms by (cases "wait s")
    (auto simp: timer_inv_def timer_counted_def timer_start_cancel_def timer_cancel_def Let_def rc_defs)

lemma timer_finish_inv:
  assumes "timer_inv s" "wait s = WpPending"
  shows "\<exists>t. timer_finish ec s = Some t \<and> timer_inv t \<and> called s = [] \<and> called t = [\<not> ec]"
  using assms by (cases "schedule_pc s"; cases "ptr (rc s) cancel_ptr")
    (auto simp: timer_inv_def timer_counted_def timer_finish_def)

lemma timer_stop_inv:
  assumes "timer_inv s"
  shows "\<exists>t. timer_stop s = Some t \<and> timer_inv t \<and> called t = called s"
  using assms by (cases "schedule_pc s"; cases "wait s")
    (auto simp: timer_inv_def timer_counted_def timer_stop_def timer_cancel_def Let_def)

lemma timer_exec_inv:
  assumes "timer_inv s" "timer_enabled e s"
  shows "\<exists>t. timer_exec e s = Some t \<and> timer_inv t \<and> (called t = called s \<or> called s = [] \<and> (\<exists>b. called t = [b]))"
proof (cases e)
  case SourcesGone
  have "timer_inv (s\<lparr>stop_possible := False\<rparr>)" using assms(1) by (cases "schedule_pc s"; cases "wait s") (auto simp: timer_inv_def timer_counted_def)
  then show ?thesis using SourcesGone by simp
qed (use assms timer_schedule_inv timer_start_wait_inv timer_start_cancel_inv timer_drop_local timer_finish_inv timer_drop_handler timer_stop_inv in fastforce)+

lemma timer_step_inv:
  assumes "timer_inv s" "timer_step s t"
  shows "timer_inv t \<and> (called t = called s \<or> called s = [] \<and> (\<exists>b. called t = [b]))"
  using assms(2) timer_exec_inv [OF assms(1)] by cases fastforce+

interpretation asio_timer: inv_system timer_init timer_step timer_inv
  by unfold_locales (auto intro: timer_init_inv dest: timer_step_inv)

section \<open>Properties of timers\<close>

text \<open>
  \<open>asio_actor_scheduler::schedule\<close> calls its callback at most once, and exactly once when
  asio does not drop the handler; with a token that was already stopped it calls it at once with
  \<open>false\<close>.  The timer lives as long as its handler is pending or runs, and cancelling never
  touches a deleted timer.
\<close>

theorem asio_schedule_calls_once:
  assumes "reach timer_init timer_step s"
  shows "\<not> tfailed s \<and> length (called s) \<le> 1 \<and>
    (schedule_pc s = ScReturned \<and> wait s \<in> {WpNone, WpDone} \<longrightarrow> length (called s) = 1) \<and>
    (wait s \<in> {WpPending, WpCalled} \<or> registered s \<longrightarrow> timer_obj \<notin> deleted (rc s))"
  using asio_timer.reach_inv [OF assms]
  by (cases "schedule_pc s"; cases "wait s"; cases "ptr (rc s) cancel_ptr") (auto simp: timer_inv_def timer_counted_def)

text \<open>After \<open>start\<close> nothing installs or removes the \<open>cancel_t\<close> of the timer.\<close>

definition timer_started :: "addr option \<Rightarrow> asio_timer \<Rightarrow> bool" where
  "timer_started c s \<longleftrightarrow> timer_inv s \<and> schedule_pc s \<in> {ScReturning, ScReturned} \<and> wait s \<noteq> WpNone \<and> ptr (rc s) cancel_ptr = c"

lemma timer_started_step:
  assumes "timer_started c s" "timer_step s t"
  shows "timer_started c t"
proof -
  have i: "timer_inv s" "timer_inv t" using assms timer_step_inv by (auto simp: timer_started_def)
  obtain e where e: "timer_enabled e s" "timer_exec e s = Some t"
    using assms(2)
  proof cases
    case (timer_fails e)
    then show ?thesis using timer_exec_inv [OF i(1), of e] by auto
  qed
  have c: "timer_obj \<in> deleted (rc s) \<longleftrightarrow> refcount (rc s) timer_obj = 0" "c = None \<or> c = Some timer_obj"
    "refcount (rc s) timer_obj = of_bool (ptr (rc s) local_ptr \<noteq> None) + of_bool (ptr (rc s) handler_ptr \<noteq> None) + of_bool (c \<noteq> None)"
    using assms(1) by (auto simp: timer_started_def timer_inv_def timer_counted_def)
  have p: "schedule_pc s = ScReturning \<Longrightarrow> ptr (rc s) local_ptr = Some timer_obj"
    "wait s = WpPending \<or> wait s = WpCalled \<Longrightarrow> ptr (rc s) handler_ptr = Some timer_obj"
    using i(1) by (auto simp: timer_inv_def)
  have "schedule_pc t \<in> {ScReturning, ScReturned} \<and> wait t \<noteq> WpNone \<and> ptr (rc t) cancel_ptr = c"
  proof (cases e)
    case Return
    then show ?thesis using e assms(1) c p by (cases c)
      (auto simp: timer_started_def timer_return_def timer_drop_def rc_defs split: if_splits)
  next
    case HandlerGone
    then show ?thesis using e assms(1) c p by (cases c)
      (auto simp: timer_started_def timer_handler_destroy_def timer_drop_def rc_defs split: if_splits)
  next
    case (WaitEnds ec)
    then show ?thesis using e assms(1) by (auto simp: timer_started_def timer_finish_def split: if_splits)
  next
    case StopRequest
    then show ?thesis using e assms(1) by (auto simp: timer_started_def timer_stop_def timer_cancel_def Let_def split: if_splits)
  qed (use e assms(1) in \<open>auto simp: timer_started_def\<close>)
  then show ?thesis using i(2) by (simp add: timer_started_def)
qed

lemma timer_started_start:
  assumes "timer_inv s" "schedule_pc s = ScWaiting" "timer_start_cancel s = Some t"
  shows "timer_started (if stop_possible s then Some timer_obj else None) t"
proof -
  have t: "timer_inv t" using timer_start_cancel_inv [OF assms(1,2)] assms(3) by auto
  have s: "wait s \<noteq> WpNone" "ptr (rc s) cancel_ptr = None" using assms(1,2) by (auto simp: timer_inv_def)
  have "schedule_pc t = ScReturning \<and> wait t = wait s \<and> ptr (rc t) cancel_ptr = (if stop_possible s then Some timer_obj else None)"
    using assms(3) s(2) by (auto simp: timer_start_cancel_def timer_cancel_def Let_def rc_defs split: if_splits)
  then show ?thesis using t s(1) by (simp add: timer_started_def)
qed

lemma timer_started_steps:
  assumes "timer_step\<^sup>*\<^sup>* t u" "timer_started c t"
  shows "timer_started c u"
  using assms by (induction rule: rtranclp_induct) (auto intro: timer_started_step)

text \<open>
  C39. A timer whose token can be stopped is never freed.  When the token that \<open>start\<close> is given can be stopped,
  the timer is not deleted, whatever happens afterwards; and when \<open>schedule\<close> has returned, asio
  has destroyed the handler and, say, the sources of the token are gone as well, the one reference left is that
  of the \<open>cancel_t\<close> inside the timer itself.  A timer whose token cannot be stopped is deleted as soon as
  \<open>schedule\<close> has returned and the handler is destroyed.
\<close>

theorem asio_timer_leaks:
  assumes "reach timer_init timer_step s" "schedule_pc s = ScWaiting" "timer_start_cancel s = Some t" "timer_step\<^sup>*\<^sup>* t u"
  shows "(stop_possible s \<longrightarrow> timer_obj \<notin> deleted (rc u) \<and>
      (schedule_pc u = ScReturned \<and> wait u \<in> {WpDone, WpDropped} \<longrightarrow>
        ptr (rc u) local_ptr = None \<and> ptr (rc u) handler_ptr = None \<and> ptr (rc u) cancel_ptr = Some timer_obj \<and> refcount (rc u) timer_obj = 1)) \<and>
    (\<not> stop_possible s \<and> schedule_pc u = ScReturned \<and> wait u \<in> {WpDone, WpDropped} \<longrightarrow> timer_obj \<in> deleted (rc u))"
proof -
  have "timer_started (if stop_possible s then Some timer_obj else None) u"
    by (rule timer_started_steps [OF assms(4) timer_started_start [OF asio_timer.reach_inv [OF assms(1)] assms(2,3)]])
  then show ?thesis by (auto simp: timer_started_def timer_inv_def timer_counted_def)
qed

section \<open>Sleeping on a scheduler\<close>

text \<open>
  A sleeping coroutine whose callback is what the scheduler calls: whenever a step of the
  scheduler calls the callback with \<open>b\<close>, \<open>finish(b)\<close> runs.
\<close>

inductive timed_step :: "('t \<Rightarrow> 't \<Rightarrow> bool) \<Rightarrow> ('t \<Rightarrow> bool list) \<Rightarrow> 't \<times> sleep_sys \<Rightarrow> 't \<times> sleep_sys \<Rightarrow> bool"
  for step :: "'t \<Rightarrow> 't \<Rightarrow> bool" and calls :: "'t \<Rightarrow> bool list" where
  td_quiet: "step t t' \<Longrightarrow> calls t' = calls t \<Longrightarrow> timed_step step calls (t, z) (t', z)"
| td_call: "step t t' \<Longrightarrow> calls t' = calls t @ [b] \<Longrightarrow> timer z = TmPending \<Longrightarrow> sleep_finish b (sword z) = Some (c, v) \<Longrightarrow>
     timed_step step calls (t, z) (t', z\<lparr>sword := v, fired := Some b, timer := (case c of Some c \<Rightarrow> TmResume c | None \<Rightarrow> TmDone)\<rparr>)"
| td_call_fails: "step t t' \<Longrightarrow> calls t' = calls t @ [b] \<Longrightarrow> timer z \<noteq> TmPending \<or> sleep_finish b (sword z) = None \<Longrightarrow>
     timed_step step calls (t, z) (t', z\<lparr>sfailed := True\<rparr>)"
| td_sleep: "sleep_step z z' \<Longrightarrow> fired z' = fired z \<Longrightarrow> timed_step step calls (t, z) (t, z')"

definition timed_init :: "('t \<Rightarrow> bool) \<Rightarrow> 't \<times> sleep_sys \<Rightarrow> bool" where
  "timed_init init p \<longleftrightarrow> init (fst p) \<and> sleep_init (snd p)"

text \<open>What the documentation of \<open>schedule\<close> promises of the callback.\<close>

locale timer_service =
  fixes init :: "'t \<Rightarrow> bool" and step :: "'t \<Rightarrow> 't \<Rightarrow> bool" and inv :: "'t \<Rightarrow> bool" and calls :: "'t \<Rightarrow> bool list"
  assumes init_calls: "init t \<Longrightarrow> inv t \<and> calls t = []"
    and step_calls: "inv t \<Longrightarrow> step t t' \<Longrightarrow> inv t' \<and> (calls t' = calls t \<or> calls t = [] \<and> (\<exists>b. calls t' = [b]))"
begin

definition timed_inv :: "'t \<times> sleep_sys \<Rightarrow> bool" where
  "timed_inv p \<longleftrightarrow> inv (fst p) \<and> sleep_inv (snd p) \<and> calls (fst p) = (case fired (snd p) of None \<Rightarrow> [] | Some b \<Rightarrow> [b]) \<and>
     (fired (snd p) = None \<longleftrightarrow> timer (snd p) = TmPending)"

lemma timed_init_inv: "timed_init init p \<Longrightarrow> timed_inv p"
  using init_calls sleep_init_inv by (simp add: timed_init_def timed_inv_def sleep_init_def)

lemma timed_step_inv:
  assumes "timed_step step calls p q" "timed_inv p"
  shows "timed_inv q"
  using assms
proof cases
  case (td_quiet t t' z)
  then show ?thesis using assms(2) step_calls by (auto simp: timed_inv_def)
next
  case (td_call t t' b z c v)
  have "sleep_inv (snd q)" using sleep_step_inv [OF t_fire [OF td_call(5,6)]] assms(2) td_call(1,2) by (simp add: timed_inv_def)
  then show ?thesis using assms(2) step_calls td_call by (auto simp: timed_inv_def split: option.splits)
next
  case (td_call_fails t t' b z)
  have "inv t" "calls t = (case fired z of None \<Rightarrow> [] | Some b \<Rightarrow> [b])" using assms(2) td_call_fails(1) by (auto simp: timed_inv_def)
  then have "calls t = []" using step_calls [OF _ td_call_fails(3)] td_call_fails(4) by auto
  then have "fired z = None" "timer z = TmPending" "sleep_inv z" using assms(2) td_call_fails(1) by (auto simp: timed_inv_def split: option.splits)
  then have "sleep_finish b (sword z) \<noteq> None" by (auto simp: sleep_inv_def sleep_finish_def Let_def)
  then show ?thesis using td_call_fails(5) \<open>timer z = TmPending\<close> by simp
next
  case (td_sleep z z' t)
  have i: "sleep_inv z" "sleep_inv z'" using sleep_step_inv [OF td_sleep(3)] assms(2) td_sleep(1) by (auto simp: timed_inv_def)
  then have "fired z = None \<longleftrightarrow> timer z = TmPending" "fired z' = None \<longleftrightarrow> timer z' = TmPending"
    by (cases "timer z"; auto simp: sleep_inv_def) (cases "timer z'"; use i(2) in \<open>auto simp: sleep_inv_def\<close>)
  then show ?thesis using assms(2) td_sleep i by (simp add: timed_inv_def)
qed

lemma timed_reach_inv: "reach (timed_init init) (timed_step step calls) p \<Longrightarrow> timed_inv p"
  by (induction rule: reach.induct) (auto intro: timed_init_inv timed_step_inv)

lemma sleep_on_service:
  assumes "reach (timed_init init) (timed_step step calls) (t, z)"
  shows "\<not> sfailed z \<and> swakes z \<le> 1 \<and> (\<forall>b. sleeper z = ZDone b \<longrightarrow> calls t = [b]) \<and>
    (sleeper z = ZSleeping \<and> calls t \<noteq> [] \<longrightarrow> timer z = TmResume (sco z))"
proof -
  have i: "sleep_inv z" "calls t = (case fired z of None \<Rightarrow> [] | Some b \<Rightarrow> [b])" using timed_reach_inv [OF assms] by (auto simp: timed_inv_def)
  then show ?thesis by (cases "timer z") (auto simp: sleep_inv_def)
qed

end

text \<open>The asio scheduler keeps the promise, and so does the scheduler that has no timers.\<close>

interpretation asio_service: timer_service timer_init timer_step timer_inv called
  by unfold_locales (use timer_init_inv in \<open>auto simp: timer_init_def dest: timer_step_inv\<close>)

definition default_step :: "bool list \<Rightarrow> bool list \<Rightarrow> bool" where
  "default_step cs cs' \<longleftrightarrow> cs = [] \<and> cs' = schedule_default (\<lambda>b cs. cs @ [b]) cs"

interpretation default_service: timer_service "\<lambda>cs. cs = []" default_step "\<lambda>cs. length cs \<le> 1" "\<lambda>cs. cs"
  by unfold_locales (auto simp: default_step_def schedule_default_def)

text \<open>
  C29. Sleeping on the asio scheduler.  Whatever the order of the deadline, requests to stop, the
  handlers of asio, the return of \<open>schedule\<close> and the suspension of the coroutine: no assertion
  fails, the coroutine is resumed at most once, a sleep returns what the scheduler called the
  callback with, and a coroutine still asleep after that call has its resumption under way.
\<close>

theorem asio_sleep_resumes_once:
  assumes "reach (timed_init timer_init) (timed_step timer_step called) (t, z)"
  shows "\<not> tfailed t \<and> \<not> sfailed z \<and> swakes z \<le> 1 \<and> (\<forall>b. sleeper z = ZDone b \<longrightarrow> called t = [b]) \<and>
    (sleeper z = ZSleeping \<and> called t \<noteq> [] \<longrightarrow> timer z = TmResume (sco z))"
proof -
  have "timer_inv t" using asio_service.timed_reach_inv [OF assms] by (simp add: asio_service.timed_inv_def)
  then show ?thesis using asio_service.sleep_on_service [OF assms] by (simp add: timer_inv_def)
qed

definition timer0 :: asio_timer where
  "timer0 = \<lparr>rc = rc0, schedule_pc = ScStart, wait = WpNone, stop_possible = True, stop_requested = False, registered = False,
     cancels = 0, called = [], tfailed = False\<rparr>"

fun timer_run :: "timer_event list \<Rightarrow> asio_timer \<Rightarrow> asio_timer option" where
  "timer_run [] s = Some s"
| "timer_run (e # es) s = (if timer_enabled e s then Option.bind (timer_exec e s) (timer_run es) else None)"

lemma timer_run_reach: "reach timer_init timer_step s \<Longrightarrow> timer_run es s = Some t \<Longrightarrow> reach timer_init timer_step t"
proof (induction es arbitrary: s)
  case (Cons e es)
  obtain u where u: "timer_enabled e s" "timer_exec e s = Some u" "timer_run es u = Some t"
    using Cons.prems(2) by (auto split: if_splits simp: bind_eq_Some_conv)
  show ?case by (rule Cons.IH [OF reach_step [OF Cons.prems(1) timer_runs [OF u(1,2)]] u(3)])
qed simp

lemma timer0_reach: "reach timer_init timer_step timer0"
  by (rule reach_init) (simp add: timer_init_def timer0_def)

lemmas timer_eval = timer0_def timer_schedule_def timer_start_wait_def timer_start_cancel_def timer_return_def timer_finish_def
  timer_handler_destroy_def timer_stop_def timer_drop_def timer_cancel_def rc_defs rc0_def Let_def

definition timer_leaked :: asio_timer where
  "timer_leaked = the (timer_run [Schedule, StartWait, StartCancel, Return, WaitEnds False, HandlerGone] timer0)"

lemma timer_leaked_run:
  "timer_run [Schedule, StartWait, StartCancel, Return, WaitEnds False, HandlerGone] timer0 = Some timer_leaked \<and>
   schedule_pc timer_leaked = ScReturned \<and> wait timer_leaked = WpDone \<and> ptr (rc timer_leaked) cancel_ptr = Some timer_obj \<and> called timer_leaked = [True]"
  by (simp add: timer_leaked_def timer_eval)

theorem asio_schedule_calls_once_witness: "length (called timer_leaked) = 1 \<and> \<not> tfailed timer_leaked"
  using asio_schedule_calls_once [OF timer_run_reach [OF timer0_reach conjunct1 [OF timer_leaked_run]]] timer_leaked_run by simp

definition timer_waiting :: asio_timer where
  "timer_waiting = the (timer_run [Schedule, StartWait] timer0)"

lemma timer_waiting_run:
  "timer_run [Schedule, StartWait] timer0 = Some timer_waiting \<and> schedule_pc timer_waiting = ScWaiting \<and> stop_possible timer_waiting"
  by (simp add: timer_waiting_def timer_eval)

theorem asio_timer_leaks_witness:
  "\<exists>t. timer_start_cancel timer_waiting = Some t \<and> {u. timer_step\<^sup>*\<^sup>* t u \<and> timer_obj \<in> deleted (rc u)} = {}"
proof -
  have "\<exists>t. timer_start_cancel timer_waiting = Some t" by (simp add: timer_waiting_def timer_eval)
  then obtain t where "timer_start_cancel timer_waiting = Some t" by blast
  then show ?thesis
    using asio_timer_leaks [OF timer_run_reach [OF timer0_reach conjunct1 [OF timer_waiting_run]]] timer_waiting_run by blast
qed

theorem asio_sleep_resumes_once_witness:
  "\<exists>t z. reach (timed_init timer_init) (timed_step timer_step called) (t, z) \<and> sleeper z = ZResumed \<and> called t = [False] \<and> swakes z \<le> 1"
proof -
  let ?t = "timer0\<lparr>stop_requested := True\<rparr>"
  let ?u = "?t\<lparr>called := [False], schedule_pc := ScReturned\<rparr>"
  let ?z = "sleep0\<lparr>sword := SlFailure, fired := Some False, timer := TmDone\<rparr>"
  have "timer_step ?t ?u" by (rule timer_runs [of Schedule]) (simp_all add: timer_eval)
  then have a: "timed_step timer_step called (?t, sleep0) (?u, ?z)"
    using td_call [of timer_step ?t ?u called False sleep0 None SlFailure] by (simp add: timer0_def sleep0_def sleep_finish_def)
  have "sleep_step ?z (?z\<lparr>sleeper := ZResumed\<rparr>)" using z_ready [of ?z] by (simp add: sleep0_def sleep_ready_def)
  then have b: "timed_step timer_step called (?u, ?z) (?u, ?z\<lparr>sleeper := ZResumed\<rparr>)" by (rule td_sleep) simp
  have "timed_init timer_init (?t, sleep0)" by (simp add: timed_init_def timer_init_def sleep_init_def timer0_def sleep0_def)
  then have r: "reach (timed_init timer_init) (timed_step timer_step called) (?u, ?z\<lparr>sleeper := ZResumed\<rparr>)"
    using a b by (blast intro: reach_init reach_step)
  then show ?thesis using asio_sleep_resumes_once [OF r] by (intro exI [of _ ?u] exI [of _ "?z\<lparr>sleeper := ZResumed\<rparr>"]) simp
qed

end
