(* ===== verification/Context_Api.thy ===== *)
theory Context_Api
  imports Async Actor_Scheduler
begin

text \<open>
  The class \<open>actor_context\<close> of \<open>actor_context_base.h\<close> and \<open>actor_context.h\<close> as an actor sees it:
  its scheduler, its timers, what can be awaited of it, and how it behaves on the asio
  scheduler.
\<close>

section \<open>Schedulers and timers of a context\<close>

definition context_scheduler :: "world \<Rightarrow> ctx option \<Rightarrow> sched outcome" where
  "context_scheduler w c = (case c of
       None \<Rightarrow> Throw (Invalid_argument ''empty context doesn't have a scheduler'')
     | Some c \<Rightarrow> Ret (scheduler w c))"

text \<open>The arguments of \<open>sleep_until_awaiter\<close>; points in time and durations are 64-bit counts of nanoseconds.\<close>

definition context_sleep_until :: "world \<Rightarrow> ctx option \<Rightarrow> int \<Rightarrow> sched option \<times> int" where
  "context_sleep_until w c deadline = (map_option (scheduler w) c, deadline)"

definition time_add :: "int \<Rightarrow> int \<Rightarrow> int outcome" where
  "time_add a b = (if - (2 ^ 63) \<le> a + b \<and> a + b < 2 ^ 63 then Ret (a + b) else Undefined)"

fun outcome_map :: "('a \<Rightarrow> 'b) \<Rightarrow> 'a outcome \<Rightarrow> 'b outcome" where
  "outcome_map f (Ret x) = Ret (f x)"
| "outcome_map f (Throw e) = Throw e"
| "outcome_map f Abort = Abort"
| "outcome_map f Undefined = Undefined"

definition context_sleep_for :: "world \<Rightarrow> ctx option \<Rightarrow> int \<Rightarrow> int \<Rightarrow> (sched option \<times> int) outcome" where
  "context_sleep_for w c now timeout = outcome_map (context_sleep_until w c) (time_add now timeout)"

text \<open>The scheduler and the deadline for \<open>with_deadline_impl\<close>.\<close>

definition context_with_deadline :: "world \<Rightarrow> ctx option \<Rightarrow> int \<Rightarrow> sched option \<times> int" where
  "context_with_deadline w c deadline = (map_option (scheduler w) c, deadline)"

definition context_with_timeout :: "world \<Rightarrow> ctx option \<Rightarrow> int \<Rightarrow> int \<Rightarrow> (sched option \<times> int) outcome" where
  "context_with_timeout w c now timeout = outcome_map (context_with_deadline w c) (time_add now timeout)"

text \<open>
  A timeout that does not carry the clock past its last point in time is the deadline
  \<open>now + timeout\<close>, which the 64-bit sum represents exactly; a longer one overflows, also the
  \<open>duration::max()\<close> that means no timeout elsewhere.
\<close>

theorem timeouts_are_deadlines:
  assumes "0 \<le> now" "now < 2 ^ 63" "0 \<le> timeout" "timeout < 2 ^ 63"
  shows "(context_sleep_for w c now timeout = Ret (context_sleep_until w c (now + timeout)) \<longleftrightarrow> timeout \<le> 2 ^ 63 - 1 - now) \<and>
    (context_with_timeout w c now timeout = Ret (context_with_deadline w c (now + timeout)) \<longleftrightarrow> timeout \<le> 2 ^ 63 - 1 - now) \<and>
    (timeout \<le> 2 ^ 63 - 1 - now \<longrightarrow> sint (word_of_int now + word_of_int timeout :: 64 word) = now + timeout) \<and>
    (0 < now \<longrightarrow> context_sleep_for w c now (2 ^ 63 - 1) = Undefined)"
proof -
  have "sint (word_of_int now + word_of_int timeout :: 64 word) = now + timeout" if "timeout \<le> 2 ^ 63 - 1 - now"
    using that assms int_word_sint [where 'a = 64, of "now + timeout"] by (simp flip: of_int_add)
  then show ?thesis using assms by (auto simp: context_sleep_for_def context_with_timeout_def time_add_def)
qed

section \<open>What can be awaited\<close>

text \<open>
  The placeholders that \<open>operator()\<close> of a context and of \<open>caller_context\<close> return, and the
  objects \<open>yield\<close> and \<open>preempt\<close>; \<open>'w\<close> are the awaitables.
\<close>

datatype 'w placeholder =
    BindContext "ctx option"
  | BindAwaitable 'w "ctx option"
  | CallerContext
  | CallerAwaitable 'w
  | Yield
  | Preempt

fun context_call :: "ctx option \<Rightarrow> 'w option \<Rightarrow> 'w placeholder" where
  "context_call c None = BindContext c"
| "context_call c (Some a) = BindAwaitable a c"

fun caller_context_call :: "'w option \<Rightarrow> 'w placeholder" where
  "caller_context_call None = CallerContext"
| "caller_context_call (Some a) = CallerAwaitable a"

text \<open>
  The overloads of \<open>await_transform\<close> that the placeholders select, for awaitables that are
  async coroutines (their promises \<open>'w = addr\<close>): suspended, or running on.
\<close>

definition resume_here :: "tid \<Rightarrow> runnable \<Rightarrow> bool \<times> 'a asys \<Rightarrow> (bool \<times> 'a asys) option" where
  "resume_here i r x = (if fst x then Some x else map_option (Pair False) (yield_await_resume i r (snd x)))"

fun co_await_placeholder ::
  "tid \<Rightarrow> (sched \<Rightarrow> bool) \<Rightarrow> addr \<Rightarrow> runnable \<Rightarrow> addr placeholder \<Rightarrow> 'a asys \<Rightarrow> (bool \<times> 'a asys) option" where
  "co_await_placeholder i pre p r (BindContext c) s = co_await_context i pre p c r s"
| "co_await_placeholder i pre p r CallerContext s = co_await_caller_context i pre p r s"
| "co_await_placeholder i pre p r Yield s = Option.bind (yield_await_suspend i pre p r s) (resume_here i r)"
| "co_await_placeholder i pre p r Preempt s = Option.bind (preempt_await_suspend i pre p r s) (resume_here i r)"
| "co_await_placeholder i pre p r (BindAwaitable a c) s =
     Option.bind (inherit_bound i p a c s) (\<lambda>s. map_option (Pair True \<circ> snd) (async_await_suspend i a a p s))"
| "co_await_placeholder i pre p r (CallerAwaitable a) s =
     Option.bind (inherit_caller i p a s) (\<lambda>s. map_option (Pair True \<circ> snd) (async_await_suspend i a a p s))"

section \<open>Preempting\<close>

lemma post_or_defer_rep:
  "wrep (post_or_defer e w c r) q L = wrep w q L" "jobs (scheduled (post_or_defer e w c r)) = jobs (scheduled w) @ [(c, r)]"
  by (simp_all add: post_or_defer_def)

text \<open>
  \<open>co_await actor_context::preempt\<close> in a context.  The coroutine is suspended and its task
  leaves the thread, but the context stays locked and its mailbox is as it was, so that no other
  runnable of the context runs; the scheduler got exactly the runnable of the coroutine.
  Whichever thread runs it puts the task on top of its stack again, bound to the same context.
\<close>

theorem preempt_keeps_context:
  assumes "task_rep (theap s) ks" "ks i = t # ts" "get_task p s = Some t" "context_of t s = Some c" "wrep (aworld s) q L"
  shows "\<exists>s' s1 s2. co_await_placeholder i pre p r Preempt s = Some (True, s') \<and> task_rep (theap s') (ks(i := ts)) \<and>
    wrep (aworld s') q L \<and> jobs (scheduled (aworld s')) = jobs (scheduled (aworld s)) @ [(c, r)] \<and>
    run_runnable r s' = Some (p, s1) \<and> yield_await_resume j r s1 = Some s2 \<and>
    task_rep (theap s2) (ks(i := ts, j := t # (ks(i := ts)) j)) \<and> context_of t s2 = Some c"
proof -
  obtain h where h: "task_leave i t s = Some (s\<lparr>theap := h\<rparr>)" "task_rep h (ks(i := ts))" "context_of t (s\<lparr>theap := h\<rparr>) = Some c"
    "\<forall>j. t \<notin> set ((ks(i := ts)) j)" using task_leave_rep [OF assms(1,2)] assms(4) by metis
  let ?s = "set_runnable r (Some t) p (s\<lparr>theap := h\<rparr>)"
  let ?w = "post_or_defer (env i pre ?s) (aworld s) c r"
  let ?s' = "?s\<lparr>aworld := ?w\<rparr>"
  have a: "preempt_await_suspend i pre p r s = Some (True, ?s')"
    using h(1,3) assms(3) by (simp add: preempt_await_suspend_def do_preempt_def Let_def)
  have b: "run_runnable r ?s' = Some (p, set_scheduled t True ?s')" by (simp add: run_runnable_def)
  have k: "task_rep (theap (set_scheduled t True ?s')) (ks(i := ts))" using h(2) by simp
  obtain h' where "task_enter j t (set_scheduled t True ?s') = Some (set_scheduled t True ?s'\<lparr>theap := h'\<rparr>)"
    "task_rep h' ((ks(i := ts))(j := t # (ks(i := ts)) j))" "context_of t (set_scheduled t True ?s'\<lparr>theap := h'\<rparr>) = context_of t (set_scheduled t True ?s')"
    using task_enter_rep [OF k h(4)] by metis
  moreover have "rtask (set_scheduled t True ?s') r = Some t" by simp
  ultimately have c: "\<exists>s2. yield_await_resume j r (set_scheduled t True ?s') = Some s2 \<and>
    task_rep (theap s2) (ks(i := ts, j := t # (ks(i := ts)) j)) \<and> context_of t s2 = Some c"
    using h(3) by (simp add: yield_await_resume_def)
  show ?thesis using a b c h(2) assms(5) by (simp add: resume_here_def post_or_defer_rep)
qed

section \<open>Actors on the asio scheduler\<close>

text \<open>What a thread that asio runs in answers to \<open>preempt\<close>.\<close>

definition asio_env :: "bool \<Rightarrow> asio_thread \<Rightarrow> thread_env" where
  "asio_env in_task th = \<lparr>running_task = in_task, preempts = (\<lambda>_. asio_preempt th)\<rparr>"

text \<open>
  A runnable that enters an unlocked context on the asio scheduler runs in the calling thread
  exactly when it is not the first of its task, no task runs in the thread, and the thread runs
  an asio handler whose preemption budget is not used up; in every other case the runnable is
  given to asio, once.  In both cases the context is locked for it.
\<close>

theorem asio_inline_within_budget:
  assumes "wrep w q L" "mb_fresh (q c) r" "\<not> L c"
  shows "\<exists>b w'. do_enter (asio_env in_task th) w (Some c) r initial = Some (b, w') \<and> wrep w' q (L(c := True)) \<and>
    (b \<longleftrightarrow> \<not> initial \<and> \<not> in_task \<and> (\<exists>d. preempt_deadline th = Some d \<and> clock th < d)) \<and>
    jobs (scheduled w') = jobs (scheduled w) @ (if b then [] else [(c, r)])"
proof -
  let ?b = "\<not> initial \<and> \<not> in_task \<and> \<not> asio_preempt th"
  have "?b \<longleftrightarrow> \<not> initial \<and> \<not> in_task \<and> (\<exists>d. preempt_deadline th = Some d \<and> clock th < d)"
    by (auto simp: asio_preempt_def split: option.splits)
  moreover obtain w' where "do_enter (asio_env in_task th) w (Some c) r initial = Some (?b, w')" "wrep w' q (L(c := True))"
    "scheduled w' = scheduled w @ (if ?b then [] else [(scheduler w c, if initial \<or> in_task then Post else Defer, c, r)])"
    using do_enter_unlocked [OF assms, of ?b initial "asio_env in_task th"] by (auto simp: asio_env_def)
  ultimately show ?thesis by (intro exI [of _ ?b] exI [of _ w']) (simp add: jobs_def)
qed

section \<open>Witnesses\<close>

theorem timeouts_are_deadlines_witness:
  "context_sleep_for world0 (Some 3) 5 7 = Ret (Some (scheduler world0 3), 12) \<and> context_sleep_for world0 (Some 3) 5 (2 ^ 63 - 1) = Undefined"
  using timeouts_are_deadlines [of 5 7 world0 "Some 3"] by (simp add: context_sleep_until_def)

theorem asio_inline_within_budget_witness:
  "\<exists>w'. do_enter (asio_env False (idle_thread\<lparr>preempt_deadline := Some 110\<rparr>)) world0 (Some 3) 4 False = Some (True, w')"
  using asio_inline_within_budget [OF world0_rep, where c = 3 and r = 4 and in_task = False and th = "idle_thread\<lparr>preempt_deadline := Some 110\<rparr>" and initial = False]
  by (auto simp: mb_fresh_def stub_def idle_thread_def)

theorem preempt_keeps_context_witness:
  "\<exists>s'. co_await_placeholder 0 (\<lambda>_. False) 5 7 Preempt (set_context 5 (Some 3) asys1) = Some (True, s') \<and> jobs (scheduled (aworld s')) = [(3, 7)]"
proof -
  let ?s = "set_context 5 (Some 3) asys1"
  have "task_rep (theap ?s) ((\<lambda>_. [])(0 := [5]))" using asys1_state(1) by (simp add: task_rep_set_context)
  moreover have "get_task 5 ?s = Some 5" "context_of 5 ?s = Some 3" "wrep (aworld ?s) (\<lambda>_. []) (\<lambda>_. False)"
    using asys1_state by simp_all
  ultimately show ?thesis using preempt_keeps_context [of ?s "(\<lambda>_. [])(0 := [5])" 0 5 "[]" 5 3]
    by (fastforce simp: asys1_def world0_def jobs_def)
qed

end
