(* ===== verification/Actor_System.thy ===== *)
theory Actor_System
  imports Context_Api
begin

text \<open>
  The whole system: coroutines that run in tasks on threads, suspend by switching contexts, by
  preempting, by yielding or by awaiting foreign objects, in the same context or in a bound one,
  and go on wherever their runnables are run.  The operations are those of \<open>Async\<close>
  (\<open>detail/async.h\<close>); every context switch in it is a step of \<open>Actor_Context\<close>.

  Two awaits are excluded because the code is wrong there, and isolation does not hold when
  they happen: \<open>co_await actor_context::yield\<close> while other runnables wait for the context
  (\<open>do_yield\<close> gives the runnable that yields to the scheduler although it is still queued, and drops
  the one it popped), and the await of a foreign object that is ready, in a bound context other than
  the current one (\<open>change_context_wrapped_awaiter\<close> runs its exception guard after the transfer).
\<close>

definition ctxs :: "ctx option \<Rightarrow> ctx list" where
  "ctxs c = (case c of None \<Rightarrow> [] | Some c \<Rightarrow> [c])"

lemma ctxs_simps [simp]: "ctxs None = []" "ctxs (Some c) = [c]"
  by (simp_all add: ctxs_def)

section \<open>The system\<close>

text \<open>
  \<open>live\<close>: the tasks that run, with their threads.  \<open>foreign\<close>: the runnables of coroutines
  suspended in objects of other libraries.  \<open>leaving\<close>: the contexts of threads between the
  suspension of a coroutine in such an object and \<open>context.leave\<close>, while which the coroutine
  may be resumed elsewhere.
\<close>

record 'a actor_sys =
  asy :: "'a asys"
  live :: "(tid \<times> addr) list"
  foreign :: "runnable list"
  leaving :: "ctx list"
  afailed :: bool

text \<open>
  \<open>same_context_wrapped_awaiter::await_suspend\<close> up to the return of the wrapped object, which has
  suspended the coroutine; the rest is \<open>context_leave\<close>.
\<close>

definition foreign_suspend :: "tid \<Rightarrow> addr \<Rightarrow> addr \<Rightarrow> runnable \<Rightarrow> 'a asys \<Rightarrow> 'a asys option" where
  "foreign_suspend i p a k s = do {
     t \<leftarrow> get_task p s;
     if current (theap s) i \<noteq> Some t then None
     else do {
       s \<leftarrow> task_leave i t (set_runnable k (Some t) p s);
       Some (set_restore a (Some t) s) } }"

lemma same_await_suspend_split:
  "get_task p s = Some t \<Longrightarrow> same_await_suspend i p a k True (\<lambda>s. (SSuspend, s)) s = do {
     s \<leftarrow> foreign_suspend i p a k s;
     s \<leftarrow> context_leave (context_of t s) s;
     Some (SSuspend, s) }"
  by (auto simp: same_await_suspend_def foreign_suspend_def Let_def split: bind_splits)

text \<open>
  The same object awaited in the bound context \<open>to\<close> (\<open>change_context_wrapped_awaiter\<close>): the task is bound to \<open>to\<close> before
  it suspends, and the rest is to leave the context it was in.
\<close>

definition bound_suspend :: "tid \<Rightarrow> addr \<Rightarrow> ctx option \<Rightarrow> runnable \<Rightarrow> runnable \<Rightarrow> 'a asys \<Rightarrow> (ctx option \<times> 'a asys) option" where
  "bound_suspend i p to r k s = do {
     t \<leftarrow> get_task p s;
     if current (theap s) i \<noteq> Some t then None
     else do {
       s \<leftarrow> task_leave i t (set_runnable k (Some t) p s);
       let s = set_runnable r (Some t) p s;
       Some (context_of t s, set_context t to s) } }"

lemma change_await_suspend_split:
  "change_await_suspend i pre p to False r k True by_handle (\<lambda>s. (SSuspend, s)) s = do {
     (old, s) \<leftarrow> bound_suspend i p to r k s;
     s \<leftarrow> context_leave old s;
     Some (SSuspend, s) }"
  by (auto simp: change_await_suspend_def bound_suspend_def Let_def split: bind_splits)

text \<open>
  Foreign objects that do not suspend the coroutine: their \<open>await_suspend\<close> tells it to go on or
  throws (\<open>out\<close>).  In a bound context the coroutine then switches, and may be suspended by that.
\<close>

definition foreign_now :: "tid \<Rightarrow> addr \<Rightarrow> addr \<Rightarrow> runnable \<Rightarrow> bool \<Rightarrow> susp \<Rightarrow> 'a asys \<Rightarrow> 'a asys option" where
  "foreign_now i p a k alloc out s = do {
     (out, s) \<leftarrow> same_await_suspend i p a k alloc (Pair out) s;
     if out = SThrow then Some s
     else do { (_, s) \<leftarrow> same_await_resume i a (Pair ()) s; Some s } }"

definition bound_now ::
  "tid \<Rightarrow> (sched \<Rightarrow> bool) \<Rightarrow> addr \<Rightarrow> ctx option \<Rightarrow> runnable \<Rightarrow> runnable \<Rightarrow> bool \<Rightarrow> bool \<Rightarrow> susp \<Rightarrow> 'a asys \<Rightarrow> (bool \<times> 'a asys) option" where
  "bound_now i pre p to r k alloc by_handle out s = do {
     s \<leftarrow> await_transform_bound p s;
     (out, s) \<leftarrow> change_await_suspend i pre p to False r k alloc by_handle (Pair out) s;
     if out = SThrow then Some (False, s)
     else if out = SNoop \<or> out = SSuspend then Some (True, s)
     else do { (_, s) \<leftarrow> change_await_resume i r (Pair ()) s; Some (False, s) } }"

text \<open>
  A call of the coroutine \<open>p\<close> in the task of its caller, from its creation to its first step, and
  its return to a caller that is still in its context.
\<close>

definition call_async :: "tid \<Rightarrow> addr \<Rightarrow> addr \<Rightarrow> handle \<Rightarrow> ctx option option \<Rightarrow> 'a asys \<Rightarrow> 'a asys option" where
  "call_async i p a c caller s = do {
     s \<leftarrow> inherit_task i p caller s;
     (_, s) \<leftarrow> async_await_suspend i a p c s;
     initial_resume i p s }"

definition return_async :: "tid \<Rightarrow> (sched \<Rightarrow> bool) \<Rightarrow> addr \<Rightarrow> runnable \<Rightarrow> addr \<Rightarrow> 'a asys \<Rightarrow> 'a asys option" where
  "return_async i pre p r a s = do {
     (_, s) \<leftarrow> final_suspend i pre p r s;
     resumed i a s }"

text \<open>
  Events.  \<open>Start\<close> starts a coroutine with a task of its own, \<open>Call\<close> one in the task of the caller.
  \<open>Await\<close> awaits a context, the context of the caller, \<open>preempt\<close> or \<open>yield\<close>.  \<open>Foreign\<close>, \<open>Leave\<close> and
  \<open>Resume\<close> are the await of a foreign object, the end of its suspension, and its resumption on
  any thread; \<open>Bind_Foreign\<close> is the await in a bound context, and \<open>Foreign_Now\<close> and \<open>Bind_Now\<close> are those of
  objects that do not suspend.  \<open>Dispatch\<close>: a scheduler runs a runnable on some thread; the awaiter that is resumed
  enters the task.  \<open>Return_Call\<close> and \<open>Finish\<close>: a coroutine that ran in the task of its caller
  ends, in the context of the caller or after it has changed contexts.  \<open>Finish_Task\<close>: the first
  coroutine of a task ends.  \<open>Values\<close>: results and the like, which change only promises, such as the await of a
  foreign object that is ready in the current context.
\<close>

datatype 'a actor_event =
    Start tid addr
  | Call tid addr addr addr addr handle "ctx option option"
  | Return_Call tid addr addr "sched \<Rightarrow> bool" runnable addr
  | Await tid addr addr "sched \<Rightarrow> bool" runnable "addr placeholder"
  | Foreign tid addr addr addr runnable
  | Foreign_Now tid addr addr addr runnable bool susp
  | Bind_Foreign tid addr addr "ctx option" runnable runnable
  | Bind_Now tid addr addr "sched \<Rightarrow> bool" "ctx option" runnable runnable bool bool susp
  | Leave ctx
  | Resume tid "sched \<Rightarrow> bool" runnable
  | Dispatch tid "sched \<times> how \<times> ctx \<times> runnable"
  | Finish tid addr addr "sched \<Rightarrow> bool" runnable
  | Finish_Task tid addr "sched \<Rightarrow> bool" runnable
  | Values "addr \<Rightarrow> 'a promise"

definition resume_on :: "tid \<Rightarrow> runnable \<Rightarrow> 'a actor_sys \<Rightarrow> 'a actor_sys option" where
  "resume_on j r s = do {
     t \<leftarrow> rtask (asy s) r;
     a \<leftarrow> switch_await_resume j r (asy s);
     Some (s\<lparr>asy := a, live := (j, t) # live s\<rparr>) }"

fun actor_exec :: "'a actor_event \<Rightarrow> 'a actor_sys \<Rightarrow> 'a actor_sys option" where
  "actor_exec (Start i p) s = map_option (\<lambda>a. s\<lparr>asy := a, live := (i, p) # live s\<rparr>) (async_detach i p (asy s))"
| "actor_exec (Call i t p child a c caller) s = map_option (\<lambda>b. s\<lparr>asy := b\<rparr>) (call_async i child a c caller (asy s))"
| "actor_exec (Return_Call i t p pre r a) s = map_option (\<lambda>b. s\<lparr>asy := b\<rparr>) (return_async i pre p r a (asy s))"
| "actor_exec (Await i t p pre r ph) s =
     map_option (\<lambda>(suspended, a). s\<lparr>asy := a, live := (if suspended then remove1 (i, t) (live s) else live s)\<rparr>)
       (co_await_placeholder i pre p r ph (asy s))"
| "actor_exec (Foreign i t p a k) s =
     map_option (\<lambda>b. s\<lparr>asy := b, live := remove1 (i, t) (live s), foreign := k # foreign s, leaving := ctxs (context_of t b) @ leaving s\<rparr>)
       (foreign_suspend i p a k (asy s))"
| "actor_exec (Foreign_Now i t p a k alloc out) s = map_option (\<lambda>b. s\<lparr>asy := b\<rparr>) (foreign_now i p a k alloc out (asy s))"
| "actor_exec (Bind_Foreign i t p to r k) s = do {
     b \<leftarrow> await_transform_bound p (asy s);
     (old, b) \<leftarrow> bound_suspend i p to r k b;
     Some (s\<lparr>asy := b, live := remove1 (i, t) (live s), foreign := k # foreign s, leaving := ctxs old @ leaving s\<rparr>) }"
| "actor_exec (Bind_Now i t p pre to r k alloc by_handle out) s =
     map_option (\<lambda>(suspended, a). s\<lparr>asy := a, live := (if suspended then remove1 (i, t) (live s) else live s)\<rparr>)
       (bound_now i pre p to r k alloc by_handle out (asy s))"
| "actor_exec (Leave c) s = map_option (\<lambda>a. s\<lparr>asy := a, leaving := remove1 c (leaving s)\<rparr>) (context_leave (Some c) (asy s))"
| "actor_exec (Resume j pre k) s = do {
     (out, a) \<leftarrow> restore_callback j pre k (asy s);
     let s = s\<lparr>asy := a, foreign := remove1 k (foreign s)\<rparr>;
     if out = SNoop then Some s else resume_on j k s }"
| "actor_exec (Dispatch j (sc, h, c, r)) s = do {
     let w = aworld (asy s);
     (_, a) \<leftarrow> run_runnable r ((asy s)\<lparr>aworld := w\<lparr>scheduled := remove1 (sc, h, c, r) (scheduled w)\<rparr>\<rparr>);
     resume_on j r (s\<lparr>asy := a\<rparr>) }"
| "actor_exec (Finish i t p pre r) s = do {
     (out, a) \<leftarrow> final_suspend i pre p r (asy s);
     let s = s\<lparr>asy := a, live := remove1 (i, t) (live s)\<rparr>;
     if out = SNoop then Some s else resume_on i r s }"
| "actor_exec (Finish_Task i p pre r) s =
     map_option (\<lambda>(out, a). s\<lparr>asy := a, live := remove1 (i, p) (live s)\<rparr>) (final_suspend i pre p r (asy s))"
| "actor_exec (Values ps) s = Some (s\<lparr>asy := (asy s)\<lparr>promises := ps\<rparr>\<rparr>)"

text \<open>
  What makes an event possible.  A coroutine acts when its task is on top of its thread; the
  runnable of an awaiter is new when the awaiter is, and so is the task of a new coroutine.
  \<open>yield_alone\<close>: nothing else waits for the context of a coroutine that yields.
\<close>

definition waits :: "world \<Rightarrow> ctx \<Rightarrow> runnable \<Rightarrow> bool" where
  "waits w c r \<longleftrightarrow> (\<exists>xs l. mb_rep (mailboxes w c) xs l \<and> r \<in> set xs) \<or> (c, r) \<in> set (jobs (scheduled w))"

definition new_runnable :: "runnable \<Rightarrow> 'a actor_sys \<Rightarrow> bool" where
  "new_runnable r s \<longleftrightarrow> r \<noteq> stub \<and> (\<forall>c. \<not> waits (aworld (asy s)) c r) \<and> r \<notin> set (foreign s)"

definition task_unused :: "addr \<Rightarrow> 'a actor_sys \<Rightarrow> bool" where
  "task_unused t s \<longleftrightarrow> t \<notin> snd ` set (live s) \<and> (\<forall>r. \<not> new_runnable r s \<longrightarrow> rtask (asy s) r \<noteq> Some t)"

definition acts_as :: "tid \<Rightarrow> addr \<Rightarrow> addr \<Rightarrow> 'a actor_sys \<Rightarrow> bool" where
  "acts_as i t p s \<longleftrightarrow> (i, t) \<in> set (live s) \<and> current (theap (asy s)) i = Some t \<and> get_task p (asy s) = Some t"

definition yield_alone :: "ctx option \<Rightarrow> world \<Rightarrow> bool" where
  "yield_alone c w \<longleftrightarrow> (\<forall>d. c = Some d \<longrightarrow> (\<exists>l. mb_rep (mailboxes w d) [] l))"

fun awaitable_now :: "addr placeholder \<Rightarrow> ctx option \<Rightarrow> world \<Rightarrow> bool" where
  "awaitable_now Yield c w = yield_alone c w"
| "awaitable_now (BindAwaitable a d) c w = False"
| "awaitable_now (CallerAwaitable a) c w = False"
| "awaitable_now _ c w = True"

fun actor_enabled :: "'a actor_event \<Rightarrow> 'a actor_sys \<Rightarrow> bool" where
  "actor_enabled (Start i p) s = (pstate (promises (asy s) p) = PNone \<and> task_unused p s)"
| "actor_enabled (Call i t p child a c caller) s = (acts_as i t p s \<and> pstate (promises (asy s) child) = PNone)"
| "actor_enabled (Return_Call i t p pre r a) s =
     (acts_as i t p s \<and> pstate (promises (asy s) p) = PInherited t None \<and> restore_task (asy s) a = Some t)"
| "actor_enabled (Await i t p pre r ph) s =
     (acts_as i t p s \<and> new_runnable r s \<and> awaitable_now ph (context_of t (asy s)) (aworld (asy s)))"
| "actor_enabled (Foreign i t p a k) s = (acts_as i t p s \<and> new_runnable k s)"
| "actor_enabled (Foreign_Now i t p a k alloc out) s = (acts_as i t p s \<and> new_runnable k s \<and> out \<in> {SContinue, SThrow})"
| "actor_enabled (Bind_Foreign i t p to r k) s = (acts_as i t p s \<and> new_runnable r s \<and> new_runnable k s)"
| "actor_enabled (Bind_Now i t p pre to r k alloc by_handle out) s =
     (acts_as i t p s \<and> new_runnable r s \<and> new_runnable k s \<and> out \<in> {SContinue, SThrow})"
| "actor_enabled (Leave c) s = (c \<in> set (leaving s))"
| "actor_enabled (Resume j pre k) s = (k \<in> set (foreign s))"
| "actor_enabled (Dispatch j x) s = (x \<in> set (scheduled (aworld (asy s))))"
| "actor_enabled (Finish i t p pre r) s =
     (acts_as i t p s \<and> new_runnable r s \<and> continuation (promises (asy s) p) \<noteq> None \<and> (\<exists>c. pstate (promises (asy s) p) = PInherited t (Some c)))"
| "actor_enabled (Finish_Task i p pre r) s = (acts_as i p p s \<and> pstate (promises (asy s) p) = PPrivate)"
| "actor_enabled (Values ps) s = True"

inductive actor_step :: "'a actor_sys \<Rightarrow> 'a actor_sys \<Rightarrow> bool" where
  actor_runs: "actor_enabled e s \<Longrightarrow> actor_exec e s = Some t \<Longrightarrow> actor_step s t"
| actor_fails: "actor_enabled e s \<Longrightarrow> actor_exec e s = None \<Longrightarrow> actor_step s (s\<lparr>afailed := True\<rparr>)"

definition actor_init :: "'a actor_sys \<Rightarrow> bool" where
  "actor_init s \<longleftrightarrow> mailboxes (aworld (asy s)) = (\<lambda>_. initially_unlocked) \<and> scheduled (aworld (asy s)) = [] \<and>
     (\<forall>i. current (theap (asy s)) i = None) \<and> (\<forall>t. task_next (task_at (theap (asy s)) t) = Inactive) \<and>
     live s = [] \<and> foreign s = [] \<and> leaving s = [] \<and> \<not> afailed s"

section \<open>Who holds a context and what waits for it\<close>

text \<open>
  \<open>holding w cs P\<close>: in the world \<open>w\<close> the contexts \<open>cs\<close> are held by threads, and \<open>P\<close> are the
  runnables that wait, in a mailbox or with a scheduler, each in one place.
\<close>

definition act_of :: "world \<Rightarrow> ctx list \<Rightarrow> actors" where
  "act_of w cs = \<lparr>aw = w, running = map (\<lambda>c. (c, 0)) cs\<rparr>"

definition held_inv :: "world \<Rightarrow> ctx list \<Rightarrow> bool" where
  "held_inv w cs \<longleftrightarrow> act_inv (act_of w cs)"

definition park :: "world \<Rightarrow> (ctx \<Rightarrow> runnable list) \<Rightarrow> (ctx \<times> runnable) set" where
  "park w q = {(c, r). r \<in> set (q c)} \<union> set (jobs (scheduled w))"

definition park_ok :: "world \<Rightarrow> (ctx \<Rightarrow> runnable list) \<Rightarrow> bool" where
  "park_ok w q \<longleftrightarrow> distinct (jobs (scheduled w)) \<and> (\<forall>c. distinct (q c)) \<and> (\<forall>c. \<forall>r \<in> set (q c). (c, r) \<notin> set (jobs (scheduled w)))"

definition holding :: "world \<Rightarrow> ctx list \<Rightarrow> (ctx \<times> runnable) set \<Rightarrow> bool" where
  "holding w cs P \<longleftrightarrow> held_inv w cs \<and> (\<exists>q L. wrep w q L \<and> park_ok w q \<and> park w q = P)"

lemma act_of_simps [simp]: "aw (act_of w cs) = w" "running (act_of w cs) = map (\<lambda>c. (c, 0)) cs"
  by (simp_all add: act_of_def)

lemma held_activations: "activations (act_of w cs) c = count_list (map fst (jobs (scheduled w))) c + count_list cs c"
  by (simp add: activations_jobs comp_def)

lemma held_step:
  assumes "held_inv w cs" "act_step (act_of w cs) t" "map fst (running t) = ds" "aw t = w'"
  shows "held_inv w' ds"
proof -
  have "act_inv t" using act_step_inv [OF _ assms(2)] assms(1) by (simp add: held_inv_def)
  moreover have "activations (act_of w' ds) = activations t" using assms(3,4) by (intro ext) (simp add: activations_jobs comp_def)
  ultimately show ?thesis using assms(4) by (simp add: held_inv_def act_inv_def)
qed

lemma held_mset:
  assumes "mset cs = mset ds"
  shows "held_inv w cs = held_inv w ds"
proof -
  have "activations (act_of w cs) = activations (act_of w ds)" using assms by (intro ext) (simp add: held_activations count_list_mset)
  then show ?thesis by (simp add: held_inv_def act_inv_def)
qed

lemma holding_mset:
  assumes "mset cs = mset ds"
  shows "holding w cs P = holding w ds P"
  by (simp only: holding_def held_mset [OF assms])

lemma held_locked:
  assumes "held_inv w (f # cs)" "wrep w q L"
  shows "L f"
proof -
  obtain q' L' where q': "wrep w q' L'" "\<And>c. activations (act_of w (f # cs)) c = (if L' c then 1 else 0)"
    using act_invE [of "act_of w (f # cs)"] assms(1) by (auto simp: held_inv_def)
  have "L' f" using q'(2) [of f] unfolding held_activations by (simp split: if_splits)
  moreover have "L f = L' f" using mb_rep_unique(2) assms(2) q'(1) unfolding wrep_def by blast
  ultimately show ?thesis by simp
qed

lemma fresh_idle:
  assumes "wrep w q L" "r \<noteq> stub" "\<forall>d. (d, r) \<notin> park w q"
  shows "idle w c r" "mb_fresh (q c) r"
proof -
  have n: "r \<notin> set (q c)" using assms(3) by (auto simp: park_def)
  then show "mb_fresh (q c) r" using assms(2) by (simp add: mb_fresh_def)
  have "xs = q c" if "mb_rep (mailboxes w c) xs l" for xs l using mb_rep_unique(1) [OF that] assms(1) by (auto simp: wrep_def)
  then show "idle w c r" using n assms(2) by (auto simp: idle_def)
qed

lemma park_enter:
  assumes "park_ok w q" "\<forall>d. (d, r) \<notin> park w q" "wrep w q L"
    and "if L c then wrep w' (q(c := q c @ [r])) L \<and> jobs (scheduled w') = jobs (scheduled w) \<and> \<not> b
      else wrep w' q (L(c := True)) \<and> jobs (scheduled w') = jobs (scheduled w) @ (if b then [] else [(c, r)])"
  shows "\<exists>q' L'. wrep w' q' L' \<and> park_ok w' q' \<and> park w' q' = (if b then park w q else insert (c, r) (park w q))"
proof (cases "L c")
  case True
  then show ?thesis using assms by (intro exI [of _ "q(c := q c @ [r])"] exI [of _ L]) (auto simp: park_def park_ok_def split: if_splits)
next
  case False
  then show ?thesis using assms by (intro exI [of _ q] exI [of _ "L(c := True)"]) (auto simp: park_def park_ok_def split: if_splits)
qed

lemma holding_enter:
  assumes "holding w cs P" "r \<noteq> stub" "\<forall>d. (d, r) \<notin> P"
  shows "\<exists>b w'. do_enter e w (Some c) r initial = Some (b, w') \<and>
    holding w' (if b then c # cs else cs) (if b then P else insert (c, r) P)"
proof -
  obtain q L where q: "wrep w q L" "park_ok w q" "park w q = P" "held_inv w cs" using assms(1) by (auto simp: holding_def)
  note f = fresh_idle [OF q(1) assms(2), of c] 
  have "\<exists>b w'. do_enter e w (Some c) r initial = Some (b, w')"
    using do_enter_locked [OF q(1), of c r e initial] do_enter_unlocked [OF q(1), of c r _ initial e] f assms(3) q(3) by blast
  then obtain b w' where d: "do_enter e w (Some c) r initial = Some (b, w')" by blast
  have "held_inv w' (if b then c # cs else cs)"
    by (rule held_step [OF q(4) a_enter [of _ c r e initial b w']]) (use f assms(3) q(3) d in \<open>auto simp: comp_def\<close>)
  moreover obtain q' L' where "wrep w' q' L'" "park_ok w' q'" "park w' q' = (if b then P else insert (c, r) P)"
    using park_enter [OF q(2) _ q(1) do_enter_jobs [OF q(1) _ d]] f assms(3) q(3) by auto
  ultimately show ?thesis using d unfolding holding_def by blast
qed

lemma park_leave:
  assumes "park_ok w q" "jobs (scheduled w') = jobs (scheduled w) @ entry_of c (q c)"
  shows "park_ok w' (q(c := tl (q c)))" "park w' (q(c := tl (q c))) = park w q"
proof -
  have "distinct (q c)" using assms(1) by (simp add: park_ok_def)
  then show "park_ok w' (q(c := tl (q c)))" "park w' (q(c := tl (q c))) = park w q"
    using assms by (cases "q c"; auto simp: park_ok_def park_def entry_of_def split: if_splits)+
qed

lemma holding_leave:
  assumes "holding w (c # cs) P"
  shows "\<exists>w'. do_leave w (Some c) = Some w' \<and> holding w' cs P"
proof -
  obtain q L where q: "wrep w q L" "park_ok w q" "park w q = P" "held_inv w (c # cs)" using assms by (auto simp: holding_def)
  obtain w' where d: "do_leave w (Some c) = Some w'" "wrep w' (q(c := tl (q c))) (L(c := (q c \<noteq> [])))"
    "scheduled w' = scheduled w @ map (\<lambda>(c, x). (scheduler w c, Post, c, x)) (entry_of c (q c))"
    using do_leave_rep [OF q(1) held_locked [OF q(4,1)]] by blast
  have "held_inv w' cs"
    by (rule held_step [OF q(4) a_leave [of _ "[]" c 0 "map (\<lambda>c. (c, 0)) cs" w']]) (use d in \<open>auto simp: comp_def\<close>)
  moreover have "park_ok w' (q(c := tl (q c)))" "park w' (q(c := tl (q c))) = P"
    using park_leave [OF q(2), of w' c] d(3) q(3) by simp_all
  ultimately show ?thesis using d(1,2) unfolding holding_def by blast
qed

lemma holding_transfer_in:
  assumes "holding w cs P" "r \<noteq> stub" "\<forall>d. (d, r) \<notin> P"
  shows "\<exists>b w'. do_transfer e w None (Some c) r ret = Some (b, w') \<and>
    holding w' (if b then c # cs else cs) (if b then P else insert (c, r) P)"
proof -
  obtain q L where q: "wrep w q L" "park_ok w q" "park w q = P" "held_inv w cs" using assms(1) by (auto simp: holding_def)
  note f = fresh_idle [OF q(1) assms(2), of c]
  obtain b w' where d: "do_transfer e w None (Some c) r ret = Some (b, w')"
    using transfer_rep [OF q(1), of "Some c" r None e ret] f assms(3) q(3) by auto
  have "held_inv w' (if b then c # cs else cs)"
    by (rule held_step [OF q(4) a_transfer_in [of _ c r e ret b w']]) (use f assms(3) q(3) d in \<open>auto simp: comp_def\<close>)
  moreover obtain q' L' where "wrep w' q' L'" "park_ok w' q'" "park w' q' = (if b then P else insert (c, r) P)"
    using park_enter [OF q(2) _ q(1) do_transfer_in_jobs [OF q(1) _ d]] f assms(3) q(3) by auto
  ultimately show ?thesis using d unfolding holding_def by blast
qed

lemma park_transfer:
  assumes "park_ok w q" "\<forall>d. (d, r) \<notin> park w q" "f \<noteq> c" "\<not> Lc \<longrightarrow> q c = []" "Lc \<longrightarrow> \<not> b"
    and "mset (jobs (scheduled w')) = mset (jobs (scheduled w) @ (if b \<or> Lc then [] else [(c, r)]) @ entry_of f (q f))"
  shows "park_ok w' (q(f := tl (q f), c := (if Lc then q c @ [r] else []))) \<and>
    park w' (q(f := tl (q f), c := (if Lc then q c @ [r] else []))) = (if b then park w q else insert (c, r) (park w q))"
proof -
  have df: "distinct (q f)" using assms(1) by (simp add: park_ok_def)
  have s: "set (jobs (scheduled w')) = set (jobs (scheduled w)) \<union> (if b \<or> Lc then {} else {(c, r)}) \<union> set (entry_of f (q f))"
    using mset_eq_setD [OF assms(6)] by auto
  have "distinct (jobs (scheduled w) @ (if b \<or> Lc then [] else [(c, r)]) @ entry_of f (q f))"
    using assms(1-3) by (cases "q f") (auto simp: park_ok_def park_def entry_of_def)
  then have d: "distinct (jobs (scheduled w'))" using mset_eq_imp_distinct_iff [OF assms(6)] by blast
  have "park_ok w' (q(f := tl (q f), c := (if Lc then q c @ [r] else [])))"
    using s d assms(1-4) df by (cases "q f") (auto simp: park_ok_def park_def entry_of_def)
  moreover have "park w' (q(f := tl (q f), c := (if Lc then q c @ [r] else []))) = (if b then park w q else insert (c, r) (park w q))"
  proof (rule set_eqI, clarify)
    fix d x
    have "(d, x) \<in> park w q \<longleftrightarrow> x \<in> set (q d) \<or> (d, x) \<in> set (jobs (scheduled w))" by (simp add: park_def)
    moreover have "(d, x) \<in> park w' (q(f := tl (q f), c := (if Lc then q c @ [r] else []))) \<longleftrightarrow>
      x \<in> set ((q(f := tl (q f), c := (if Lc then q c @ [r] else []))) d) \<or> (d, x) \<in> set (jobs (scheduled w'))" by (simp add: park_def)
    moreover have "x \<in> set (tl (q f)) \<or> (f, x) \<in> set (entry_of f (q f)) \<longleftrightarrow> x \<in> set (q f)" by (cases "q f") (auto simp: entry_of_def)
    moreover have "d \<noteq> f \<Longrightarrow> (d, x) \<notin> set (entry_of f (q f))" by (cases "q f") (auto simp: entry_of_def)
    ultimately show "(d, x) \<in> park w' (q(f := tl (q f), c := (if Lc then q c @ [r] else []))) \<longleftrightarrow>
      (d, x) \<in> (if b then park w q else insert (c, r) (park w q))"
      using s assms(3-5) by (cases "d = f"; cases "d = c"; cases b; cases Lc) (simp_all, blast+)
  qed
  ultimately show ?thesis by simp
qed

lemma holding_post:
  assumes "holding w (c # cs) P" "\<forall>d. (d, r) \<notin> P" "\<And>q L. wrep w q L \<Longrightarrow> wrep w' q L" "jobs (scheduled w') = jobs (scheduled w) @ [(c, r)]"
  shows "holding w' cs (insert (c, r) P)"
proof -
  obtain q L where q: "wrep w q L" "park_ok w q" "park w q = P" "held_inv w (c # cs)" using assms(1) by (auto simp: holding_def)
  have "activations (act_of w' cs) = activations (act_of w (c # cs))" using assms(4) by (intro ext) (simp add: held_activations)
  then have "held_inv w' cs" using q(4) assms(3) by (auto simp: held_inv_def act_inv_def)
  moreover have "park_ok w' q" using assms(2,4) q(2,3) by (auto simp: park_ok_def park_def)
  moreover have "park w' q = insert (c, r) P" using assms(4) q(3) by (auto simp: park_def)
  ultimately show ?thesis using q(1) assms(3) unfolding holding_def by blast
qed

text \<open>With nothing else in the mailbox, \<open>do_yield\<close> pushes and pops its own runnable and gives it to the scheduler.\<close>

lemma yield_alone_switch:
  assumes "holding w (c # cs) P" "r \<noteq> stub" "\<forall>d. (d, r) \<notin> P" "yield_alone (Some c) w"
  shows "\<exists>w'. do_yield e w (Some c) r = Some (False, w') \<and> holding w' cs (insert (c, r) P)"
proof -
  obtain q L where q: "wrep w q L" "park w q = P" "held_inv w (c # cs)" using assms(1) by (auto simp: holding_def)
  have l: "L c" by (rule held_locked [OF q(3,1)])
  have e: "q c = []" using assms(4) mb_rep_unique(1) q(1) unfolding yield_alone_def wrep_def by blast
  have f: "mb_fresh (q c) r" using fresh_idle(2) [OF q(1) assms(2), of c] assms(3) q(2) by simp
  obtain w1 where w1: "push_runnable w c r = Some (False, w1)" "wrep w1 (q(c := [r])) (L(c := True))" "scheduled w1 = scheduled w"
    using push_runnable_rep [OF q(1) f] l e by auto
  obtain w2 where w2: "next_runnable w1 c = Some (Some r, w2)" "wrep w2 (q(c := [])) (L(c := True))" "scheduled w2 = scheduled w"
    using next_runnable_rep [OF w1(2), of c] w1(3) by auto
  have "q(c := []) = q" "L(c := True) = L" using e l by (auto simp: fun_upd_idem)
  then have r2: "wrep w2 q L" using w2(2) by simp
  have "wrep (post_or_defer e w2 c r) q' L'" if "wrep w q' L'" for q' L'
  proof -
    have "q' = q" "L' = L" using mb_rep_unique that q(1) unfolding wrep_def fun_eq_iff by blast+
    then show ?thesis using r2 by (simp add: post_or_defer_rep)
  qed
  then have "holding (post_or_defer e w2 c r) cs (insert (c, r) P)"
    by (rule holding_post [OF assms(1,3)]) (simp_all add: post_or_defer_rep w2(3))
  moreover have "do_yield e w (Some c) r = Some (False, post_or_defer e w2 c r)" using w1(1) w2(1) by (simp add: do_yield_def)
  ultimately show ?thesis by blast
qed

lemma holding_transfer:
  assumes "holding w (f # cs) P" "r \<noteq> stub" "\<forall>d. (d, r) \<notin> P"
  shows "\<exists>b w'. do_transfer e w (Some f) (Some c) r ret = Some (b, w') \<and>
    holding w' (if b then c # cs else cs) (if b then P else insert (c, r) P)"
proof (cases "f = c")
  case True
  show ?thesis
  proof (cases ret)
    case True
    obtain pre w' where p: "maybe_preempt e w (Some c) r = (pre, w')" by fastforce
    have "holding w' cs (insert (c, r) P)" if pre
      using holding_post [OF assms(1)] maybe_preempt_jobs [OF p] that assms(3) \<open>f = c\<close> by simp
    moreover have "w' = w" if "\<not> pre" using p that by (auto simp: maybe_preempt_def split: if_splits)
    ultimately show ?thesis using p True \<open>f = c\<close> assms(1)
      by (intro exI [of _ "\<not> pre"] exI [of _ w']) (auto simp: do_transfer_def)
  next
    case False
    then show ?thesis using assms(1) True by (intro exI [of _ True] exI [of _ w]) (simp add: do_transfer_def)
  qed
next
  case False
  obtain q L where q: "wrep w q L" "park_ok w q" "park w q = P" "held_inv w (f # cs)" using assms(1) by (auto simp: holding_def)
  have i: "idle w c r" "mb_fresh (q c) r" using fresh_idle [OF q(1) assms(2), of c] assms(3) q(3) by simp_all
  obtain b w' where d: "do_transfer e w (Some f) (Some c) r ret = Some (b, w')"
    "wrep w' (q(f := tl (q f), c := (if L c then q c @ [r] else []))) (L(f := (q f \<noteq> []), c := True))"
    "mset (jobs (scheduled w')) = mset (jobs (scheduled w) @ (if b \<or> L c then [] else [(c, r)]) @ entry_of f (q f))" "L c \<longrightarrow> \<not> b"
    using do_transfer_rep [OF q(1) i(2) held_locked [OF q(4,1)] False, of e ret] by blast
  have "held_inv w' (if b then c # cs else cs)"
    by (rule held_step [OF q(4) a_transfer [of _ "[]" f 0 "map (\<lambda>c. (c, 0)) cs" c r e ret b w']]) (use i d(1) in \<open>auto simp: comp_def\<close>)
  moreover have "park_ok w' (q(f := tl (q f), c := (if L c then q c @ [r] else []))) \<and>
    park w' (q(f := tl (q f), c := (if L c then q c @ [r] else []))) = (if b then P else insert (c, r) P)"
    using park_transfer [OF q(2) _ False _ d(4,3)] assms(3) q(3) wrep_unlocked [OF q(1), of c] by blast
  ultimately show ?thesis using d(1,2) unfolding holding_def by blast
qed

text \<open>A switch between any two contexts or none.\<close>

lemma holding_switch:
  assumes "holding w (ctxs old @ cs) P" "r \<noteq> stub" "\<forall>d. (d, r) \<notin> P"
  shows "\<exists>b w'. do_transfer e w old new r ret = Some (b, w') \<and> (b \<longrightarrow> holding w' (ctxs new @ cs) P) \<and>
    (\<not> b \<longrightarrow> (\<exists>c. new = Some c \<and> holding w' cs (insert (c, r) P)))"
proof (cases old)
  case None
  show ?thesis
  proof (cases new)
    case None
    then show ?thesis using \<open>old = None\<close> assms(1) by (intro exI [of _ True] exI [of _ w]) (simp add: do_transfer_def maybe_preempt_def)
  next
    case (Some c)
    then show ?thesis using holding_transfer_in [OF _ assms(2,3), of w cs e c ret] assms(1) None by fastforce
  qed
next
  case (Some f)
  show ?thesis
  proof (cases new)
    case None
    obtain w' where "do_leave w (Some f) = Some w'" "holding w' cs P" using holding_leave [of w f cs P] assms(1) Some by auto
    then show ?thesis using Some None by (intro exI [of _ True] exI [of _ w']) (simp add: do_transfer_def)
  next
    case (Some c)
    then show ?thesis using holding_transfer [OF _ assms(2,3), of w f cs e c ret] assms(1) \<open>old = Some f\<close> by fastforce
  qed
qed

lemma holding_dispatch:
  assumes "holding w cs P" "scheduled w = us @ (sc, h, c, r) # vs"
  shows "holding (w\<lparr>scheduled := us @ vs\<rparr>) (c # cs) (P - {(c, r)}) \<and> (c, r) \<in> P"
proof -
  obtain q L where q: "wrep w q L" "park_ok w q" "park w q = P" "held_inv w cs" using assms(1) by (auto simp: holding_def)
  have "held_inv (w\<lparr>scheduled := us @ vs\<rparr>) (c # cs)"
    by (rule held_step [OF q(4) a_dispatch [of _ us sc h c r vs]]) (use assms(2) in \<open>auto simp: comp_def\<close>)
  moreover have "park_ok (w\<lparr>scheduled := us @ vs\<rparr>) q" using q(2) assms(2) by (auto simp: park_ok_def)
  moreover have "park (w\<lparr>scheduled := us @ vs\<rparr>) q = P - {(c, r)}" using q(2,3) assms(2) by (auto simp: park_ok_def park_def)
  moreover have "wrep (w\<lparr>scheduled := us @ vs\<rparr>) q L" using q(1) by (simp add: wrep_def)
  moreover have "(c, r) \<in> P" using q(3) assms(2) by (auto simp: park_def)
  ultimately show ?thesis unfolding holding_def by blast
qed

lemma holding_distinct:
  assumes "holding w cs P"
  shows "distinct cs"
proof -
  have le: "count_list cs c \<le> 1" for c using assms held_activations [of w cs c] by (auto simp: holding_def held_inv_def act_inv_def le_Suc_eq dest: spec [of _ c])
  have "count (mset cs) c = (if c \<in> set cs then 1 else 0)" for c
  proof -
    have "count (mset cs) c \<le> 1" using le [of c] by (simp add: count_list_mset)
    moreover have "count (mset cs) c \<ge> 1" if "c \<in> set cs" using that by (simp add: Suc_leI)
    ultimately show ?thesis by (simp add: le_antisym)
  qed
  then show ?thesis by (simp add: distinct_count_atmost_1)
qed

section \<open>Tasks\<close>

text \<open>
  \<open>tasks_ok\<close>: the running tasks are those on the stacks \<open>ks\<close>; a runnable that waits, in a
  mailbox or with a scheduler (\<open>P\<close>) or in a foreign object (\<open>F\<close>), belongs to a task that does not
  run, no two of them to the same task, and it waits for the context of that task.
\<close>

definition tasks_ok ::
  "(tid \<times> addr) list \<Rightarrow> (tid \<Rightarrow> addr list) \<Rightarrow> (ctx \<times> runnable) set \<Rightarrow> runnable list \<Rightarrow> (runnable \<Rightarrow> addr option) \<Rightarrow> (addr \<Rightarrow> ctx option) \<Rightarrow> bool" where
  "tasks_ok lv ks P F rt cx \<longleftrightarrow> distinct (map snd lv) \<and> (\<forall>i t. (i, t) \<in> set lv \<longleftrightarrow> t \<in> set (ks i)) \<and>
     (\<forall>c r. (c, r) \<in> P \<longrightarrow> (\<exists>t. rt r = Some t \<and> cx t = Some c)) \<and>
     (\<forall>r \<in> snd ` P \<union> set F. \<exists>t. rt r = Some t \<and> t \<notin> snd ` set lv) \<and> inj_on rt (snd ` P \<union> set F) \<and>
     snd ` P \<inter> set F = {} \<and> distinct F"

lemma tasks_okI:
  assumes "distinct (map snd lv)" "\<And>i t. (i, t) \<in> set lv \<longleftrightarrow> t \<in> set (ks i)" "\<And>c r. (c, r) \<in> P \<Longrightarrow> \<exists>t. rt r = Some t \<and> cx t = Some c"
    "\<And>r. r \<in> snd ` P \<union> set F \<Longrightarrow> \<exists>t. rt r = Some t \<and> t \<notin> snd ` set lv" "inj_on rt (snd ` P \<union> set F)" "snd ` P \<inter> set F = {}" "distinct F"
  shows "tasks_ok lv ks P F rt cx"
  using assms unfolding tasks_ok_def by blast

lemma tasks_okD:
  assumes "tasks_ok lv ks P F rt cx"
  shows "distinct (map snd lv)" "(i, t) \<in> set lv \<longleftrightarrow> t \<in> set (ks i)" "(c, r) \<in> P \<Longrightarrow> \<exists>t. rt r = Some t \<and> cx t = Some c"
    "k \<in> snd ` P \<union> set F \<Longrightarrow> \<exists>t. rt k = Some t \<and> t \<notin> snd ` set lv" "inj_on rt (snd ` P \<union> set F)" "snd ` P \<inter> set F = {}" "distinct F"
  using assms unfolding tasks_ok_def by blast+

lemma in_park: "(c, r) \<in> P \<Longrightarrow> r \<in> snd ` P \<union> set F"
  by force

lemma tasks_parked:
  assumes "tasks_ok lv ks P F rt cx" "(c, r) \<in> P"
  obtains u where "rt r = Some u" "cx u = Some c" "u \<notin> snd ` set lv"
proof -
  obtain u where "rt r = Some u" "cx u = Some c" using tasks_okD(3) [OF assms] by blast
  moreover obtain v where "rt r = Some v" "v \<notin> snd ` set lv" using tasks_okD(4) [OF assms(1) in_park [OF assms(2)]] by blast
  ultimately show thesis using that by simp
qed

text \<open>The acting task keeps running; its context may change and so may a new runnable.\<close>

lemma tasks_continue:
  assumes "tasks_ok lv ks P F rt cx" "t \<in> snd ` set lv" "r \<notin> snd ` P \<union> set F"
    and "\<And>u. u \<noteq> t \<Longrightarrow> cx' u = cx u" "\<And>x. x \<noteq> r \<Longrightarrow> rt' x = rt x"
  shows "tasks_ok lv ks P F rt' cx'"
proof (rule tasks_okI)
  have rt: "rt' x = rt x" if "x \<in> snd ` P \<union> set F" for x by (rule assms(5)) (use that assms(3) in blast)
  show "inj_on rt' (snd ` P \<union> set F)" using tasks_okD(5) [OF assms(1)] rt by (simp add: inj_on_def)
  show "\<exists>u. rt' x = Some u \<and> u \<notin> snd ` set lv" if "x \<in> snd ` P \<union> set F" for x
    using tasks_okD(4) [OF assms(1) that] rt [OF that] by simp
  show "\<exists>u. rt' x = Some u \<and> cx' u = Some c" if x: "(c, x) \<in> P" for c x
  proof -
    obtain u where "rt x = Some u" "cx u = Some c" "u \<notin> snd ` set lv" using tasks_parked [OF assms(1) x] .
    then show ?thesis using rt [OF in_park [OF x]] assms(4) [of u] assms(2) by (cases "u = t") auto
  qed
qed (use tasks_okD(1,2,6,7) [OF assms(1)] in blast)+

text \<open>The acting task leaves its thread and is on none.\<close>

lemma live_remove:
  assumes "tasks_ok lv ks P F rt cx" "(i, t) \<in> set lv" "ks i = t # ts" "task_rep h ks"
  shows "distinct (map snd (remove1 (i, t) lv))" "t \<notin> snd ` set (remove1 (i, t) lv)"
    "(j, u) \<in> set (remove1 (i, t) lv) \<longleftrightarrow> u \<in> set ((ks(i := ts)) j)"
proof -
  have d: "distinct lv" and inj: "inj_on snd (set lv)" using tasks_okD(1) [OF assms(1)] by (simp_all add: distinct_map)
  then have "x = (i, t)" if "x \<in> set lv" "snd x = t" for x using inj_onD [of snd "set lv" x "(i, t)"] that assms(2) by simp
  then show "t \<notin> snd ` set (remove1 (i, t) lv)" using d by (auto simp: set_remove1_eq)
  show "distinct (map snd (remove1 (i, t) lv))" using inj d by (simp add: distinct_map set_remove1_eq inj_on_diff)
  show "(j, u) \<in> set (remove1 (i, t) lv) \<longleftrightarrow> u \<in> set ((ks(i := ts)) j)"
    using tasks_okD(2) [OF assms(1), of j u] d assms(3) task_repD(2) [OF assms(4), of i] by (auto simp: set_remove1_eq)
qed

lemma tasks_end:
  assumes "tasks_ok lv ks P F rt cx" "(i, t) \<in> set lv" "ks i = t # ts" "task_rep h ks" "\<And>u. u \<noteq> t \<Longrightarrow> cx' u = cx u"
  shows "tasks_ok (remove1 (i, t) lv) (ks(i := ts)) P F rt cx'"
proof (rule tasks_okI)
  have t: "t \<in> snd ` set lv" using assms(2) by force
  show "\<exists>u. rt x = Some u \<and> u \<notin> snd ` set (remove1 (i, t) lv)" if "x \<in> snd ` P \<union> set F" for x
    using tasks_okD(4) [OF assms(1) that] set_remove1_subset [of "(i, t)" lv] by blast
  show "\<exists>u. rt x = Some u \<and> cx' u = Some d" if x: "(d, x) \<in> P" for d x
  proof -
    obtain u where u: "rt x = Some u" "cx u = Some d" "u \<notin> snd ` set lv" using tasks_parked [OF assms(1) x] .
    then have "u \<noteq> t" using t by blast
    then show ?thesis using u assms(5) [of u] by auto
  qed
qed (use live_remove [OF assms(1-4)] tasks_okD(5-7) [OF assms(1)] in blast)+

text \<open>The acting task leaves its thread; a new runnable of it waits.\<close>

lemma tasks_suspend:
  assumes "tasks_ok lv ks P F rt cx" "(i, t) \<in> set lv" "ks i = t # ts" "r \<notin> snd ` P \<union> set F"
    and "\<And>u. u \<noteq> t \<Longrightarrow> cx' u = cx u" "\<And>x. x \<noteq> r \<Longrightarrow> rt' x = rt x" "rt' r = Some t"
    and "P' = insert (c, r) P \<and> F' = F \<and> cx' t = Some c \<or> P' = P \<and> F' = r # F"
    and "task_rep h ks"
  shows "tasks_ok (remove1 (i, t) lv) (ks(i := ts)) P' F' rt' cx'"
proof (rule tasks_okI)
  let ?lv = "remove1 (i, t) lv"
  have U: "snd ` P' \<union> set F' = insert r (snd ` P \<union> set F)" using assms(8) by auto
  have rt: "rt' x = rt x" if "x \<in> snd ` P \<union> set F" for x by (rule assms(6)) (use that assms(4) in blast)
  note rm = live_remove [OF assms(1-3,9)]
  have sub: "snd ` set ?lv \<subseteq> snd ` set lv" using set_remove1_subset by fast
  have t: "t \<in> snd ` set lv" using assms(2) by force
  have p: "\<exists>u. rt x = Some u \<and> u \<notin> snd ` set lv \<and> u \<noteq> t" if "x \<in> snd ` P \<union> set F" for x
    using tasks_okD(4) [OF assms(1) that] t by blast
  show "distinct (map snd ?lv)" "\<And>j u. (j, u) \<in> set ?lv \<longleftrightarrow> u \<in> set ((ks(i := ts)) j)" by (rule rm)+
  show "\<exists>u. rt' x = Some u \<and> u \<notin> snd ` set ?lv" if "x \<in> snd ` P' \<union> set F'" for x
  proof (cases "x = r")
    case True
    then show ?thesis using assms(7) rm(2) by simp
  next
    case False
    then have x: "x \<in> snd ` P \<union> set F" using that U by blast
    then show ?thesis using p [OF x] rt [OF x] sub by auto
  qed
  show "inj_on rt' (snd ` P' \<union> set F')"
  proof -
    have ne: "rt' x \<noteq> rt' r" if x: "x \<in> snd ` P \<union> set F" for x using p [OF x] rt [OF x] assms(7) by auto
    have "inj_on rt' (snd ` P \<union> set F)" using tasks_okD(5) [OF assms(1)] rt by (simp add: inj_on_def)
    moreover have "rt' r \<notin> rt' ` (snd ` P \<union> set F - {r})"
    proof
      assume "rt' r \<in> rt' ` (snd ` P \<union> set F - {r})"
      then obtain x where x: "x \<in> snd ` P \<union> set F" "rt' r = rt' x" by blast
      then show False using ne [OF x(1)] by simp
    qed
    ultimately show ?thesis unfolding U inj_on_insert by simp
  qed
  show "\<exists>u. rt' x = Some u \<and> cx' u = Some d" if x: "(d, x) \<in> P'" for d x
  proof (cases "(d, x) \<in> P")
    case True
    obtain u where u: "rt x = Some u" "cx u = Some d" "u \<notin> snd ` set lv" using tasks_parked [OF assms(1) True] .
    then have "u \<noteq> t" using t by blast
    then show ?thesis using u rt [OF in_park [OF True]] assms(5) [of u] by auto
  next
    case False
    then show ?thesis using x assms(7,8) by auto
  qed
  show "snd ` P' \<inter> set F' = {}" "distinct F'"
    using assms(8) tasks_okD(6,7) [OF assms(1)] assms(4) by (elim disjE conjE; simp add: Int_insert_right)+
qed

text \<open>A waiting task is put on a thread.\<close>

lemma tasks_off:
  assumes "tasks_ok lv ks P F rt cx" "r \<in> snd ` P \<union> set F" "rt r = Some t"
  shows "t \<notin> snd ` set lv" "\<forall>j. t \<notin> set (ks j)"
proof -
  show n: "t \<notin> snd ` set lv" using tasks_okD(4) [OF assms(1,2)] assms(3) by auto
  show "\<forall>j. t \<notin> set (ks j)" using tasks_okD(2) [OF assms(1), of _ t] n by force
qed

lemma tasks_unpark:
  assumes "tasks_ok lv ks P F rt cx" "(c, r) \<in> P \<and> P' = P - {(c, r)} \<and> F' = F \<or> r \<in> set F \<and> P' = P \<and> F' = remove1 r F"
  shows "snd ` P' \<union> set F' = snd ` P \<union> set F - {r}" "P' \<subseteq> P" "distinct F'"
proof -
  have "d = c" if "(d, r) \<in> P" "(c, r) \<in> P" for d using tasks_okD(3) [OF assms(1) that(1)] tasks_okD(3) [OF assms(1) that(2)] by auto
  note same = this
  show "snd ` P' \<union> set F' = snd ` P \<union> set F - {r}"
    using assms(2)
  proof
    assume c: "(c, r) \<in> P \<and> P' = P - {(c, r)} \<and> F' = F"
    then have "r \<notin> set F" using tasks_okD(6) [OF assms(1)] by force
    moreover have "snd ` P' = snd ` P - {r}"
    proof (rule set_eqI)
      fix x
      have "x \<in> snd ` P' \<longleftrightarrow> (\<exists>d. (d, x) \<in> P \<and> (d, x) \<noteq> (c, r))" using c by force
      moreover have "x \<in> snd ` P \<longleftrightarrow> (\<exists>d. (d, x) \<in> P)" by force
      ultimately show "x \<in> snd ` P' \<longleftrightarrow> x \<in> snd ` P - {r}" using same c by blast
    qed
    ultimately show ?thesis using c by auto
  next
    assume f: "r \<in> set F \<and> P' = P \<and> F' = remove1 r F"
    then have "r \<notin> snd ` P" using tasks_okD(6) [OF assms(1)] by blast
    then show ?thesis using f tasks_okD(7) [OF assms(1)] by (auto simp: set_remove1_eq)
  qed
  show "P' \<subseteq> P" "distinct F'" using assms(2) tasks_okD(7) [OF assms(1)] by auto
qed

lemma tasks_resume:
  assumes "tasks_ok lv ks P F rt cx" "rt r = Some t"
    and "(c, r) \<in> P \<and> P' = P - {(c, r)} \<and> F' = F \<or> r \<in> set F \<and> P' = P \<and> F' = remove1 r F"
  shows "tasks_ok ((j, t) # lv) (ks(j := t # ks j)) P' F' rt cx"
proof (rule tasks_okI)
  note u = tasks_unpark [OF assms(1,3)]
  have r: "r \<in> snd ` P \<union> set F" using assms(3) by force
  note off = tasks_off [OF assms(1) r assms(2)]
  show "distinct (map snd ((j, t) # lv))" using tasks_okD(1) [OF assms(1)] off by simp
  show "(i, x) \<in> set ((j, t) # lv) \<longleftrightarrow> x \<in> set ((ks(j := t # ks j)) i)" for i x
    using tasks_okD(2) [OF assms(1), of i x] by auto
  show "\<exists>t. rt x = Some t \<and> cx t = Some d" if "(d, x) \<in> P'" for d x using tasks_okD(3) [OF assms(1)] u(2) that by blast
  show "inj_on rt (snd ` P' \<union> set F')" using tasks_okD(5) [OF assms(1)] unfolding u(1) by (rule inj_on_diff)
  show "snd ` P' \<inter> set F' = {}" using tasks_okD(6) [OF assms(1)] u(2) set_remove1_subset [of r F] assms(3) by blast
  show "\<exists>v. rt x = Some v \<and> v \<notin> snd ` set ((j, t) # lv)" if "x \<in> snd ` P' \<union> set F'" for x
  proof -
    have x: "x \<in> snd ` P \<union> set F" "x \<noteq> r" using that u(1) by auto
    then have "rt x \<noteq> Some t" using inj_onD [OF tasks_okD(5) [OF assms(1)], of x r] r assms(2) by auto
    then show ?thesis using tasks_okD(4) [OF assms(1) x(1)] by auto
  qed
qed (use tasks_unpark(3) [OF assms(1,3)] in blast)

lemma tasks_move:
  assumes "tasks_ok lv ks P F rt cx" "k \<in> set F" "rt k = Some t" "cx t = Some c"
  shows "tasks_ok lv ks (insert (c, k) P) (remove1 k F) rt cx"
proof (rule tasks_okI)
  have u: "snd ` insert (c, k) P \<union> set (remove1 k F) = snd ` P \<union> set F" using assms(2) tasks_okD(7) [OF assms(1)] by (auto simp: set_remove1_eq)
  show "inj_on rt (snd ` insert (c, k) P \<union> set (remove1 k F))" unfolding u by (rule tasks_okD(5) [OF assms(1)])
  show "\<exists>v. rt x = Some v \<and> v \<notin> snd ` set lv" if "x \<in> snd ` insert (c, k) P \<union> set (remove1 k F)" for x
    using tasks_okD(4) [OF assms(1)] that unfolding u by blast
  show "snd ` insert (c, k) P \<inter> set (remove1 k F) = {}" using tasks_okD(6,7) [OF assms(1)] by (auto simp: set_remove1_eq)
  show "\<exists>t. rt x = Some t \<and> cx t = Some d" if "(d, x) \<in> insert (c, k) P" for d x
    using tasks_okD(3) [OF assms(1)] that assms(3,4) by blast
qed (use tasks_okD(1,2,7) [OF assms(1)] in auto)

lemma tasks_start:
  assumes "tasks_ok lv ks P F rt cx" "p \<notin> snd ` set lv" "\<And>r. r \<in> snd ` P \<union> set F \<Longrightarrow> rt r \<noteq> Some p" "\<And>u. u \<noteq> p \<Longrightarrow> cx' u = cx u"
  shows "tasks_ok ((i, p) # lv) (ks(i := p # ks i)) P F rt cx'"
proof (rule tasks_okI)
  show "distinct (map snd ((i, p) # lv))" using tasks_okD(1) [OF assms(1)] assms(2) by simp
  show "(j, x) \<in> set ((i, p) # lv) \<longleftrightarrow> x \<in> set ((ks(i := p # ks i)) j)" for j x
    using tasks_okD(2) [OF assms(1), of j x] by auto
  show "\<exists>v. rt x = Some v \<and> v \<notin> snd ` set ((i, p) # lv)" if "x \<in> snd ` P \<union> set F" for x
    using tasks_okD(4) [OF assms(1) that] assms(3) [OF that] by auto
  show "\<exists>t. rt x = Some t \<and> cx' t = Some d" if x: "(d, x) \<in> P" for d x
  proof -
    obtain u where "rt x = Some u" "cx u = Some d" using tasks_okD(3) [OF assms(1) x] by blast
    then show ?thesis using assms(4) [of u] assms(3) [OF in_park [OF x]] by auto
  qed
qed (use tasks_okD(5-7) [OF assms(1)] in blast)+

section \<open>What the operations do\<close>

text \<open>\<open>only t r s s'\<close>: from \<open>s\<close> to \<open>s'\<close>, no task but \<open>t\<close> changed its context and no runnable but \<open>r\<close> its task.\<close>

definition only :: "addr \<Rightarrow> runnable \<Rightarrow> 'a asys \<Rightarrow> 'a asys \<Rightarrow> bool" where
  "only t r s s' \<longleftrightarrow> (\<forall>u. u \<noteq> t \<longrightarrow> context_of u s' = context_of u s) \<and> (\<forall>x. x \<noteq> r \<longrightarrow> rtask s' x = rtask s x)"

lemma task_leave_all:
  assumes "task_rep (theap s) ks" "ks i = t # ts"
  obtains h where "task_leave i t s = Some (s\<lparr>theap := h\<rparr>)" "task_rep h (ks(i := ts))" "\<forall>u. context_of u (s\<lparr>theap := h\<rparr>) = context_of u s"
    "\<forall>j. t \<notin> set ((ks(i := ts)) j)"
proof -
  obtain h where l: "leave i t (theap s) = Some h" and r: "task_rep h (ks(i := ts))" using leave_rep [OF assms] by blast
  have h: "task_leave i t s = Some (s\<lparr>theap := h\<rparr>)" "task_rep h (ks(i := ts))" "\<forall>j. t \<notin> set ((ks(i := ts)) j)"
    using l r task_leave_rep [OF assms, of t] by (simp add: task_leave_def, blast+)
  from l have "context_of u (s\<lparr>theap := h\<rparr>) = context_of u s" for u using enter_leave_context(2) by (simp add: context_of_def)
  then show thesis using that h by blast
qed

lemma task_enter_all:
  assumes "task_rep (theap s) ks" "\<forall>j. t \<notin> set (ks j)"
  obtains h where "task_enter i t s = Some (s\<lparr>theap := h\<rparr>)" "task_rep h (ks(i := t # ks i))" "\<forall>u. context_of u (s\<lparr>theap := h\<rparr>) = context_of u s"
proof -
  obtain h where l: "enter i t (theap s) = Some h" and r: "task_rep h (ks(i := t # ks i))" using enter_rep [OF assms] by blast
  have h: "task_enter i t s = Some (s\<lparr>theap := h\<rparr>)" "task_rep h (ks(i := t # ks i))" using l r by (simp_all add: task_enter_def)
  from l have "context_of u (s\<lparr>theap := h\<rparr>) = context_of u s" for u using enter_leave_context(1) by (simp add: context_of_def)
  then show thesis using that h by blast
qed

text \<open>The switch itself: to another context than the one before.\<close>

lemma switch_hold:
  assumes "task_rep (theap s) ks" "ks i = t # ts" "get_task p s = Some t" "ty \<noteq> Ready"
    and "holding (aworld s) (ctxs (context_of t s) @ cs) P" "r \<noteq> stub" "\<forall>d. (d, r) \<notin> P"
  shows "\<exists>sus s'. switch_await_suspend i pre p (Some c) ty r s = Some (sus, s') \<and> task_rep (theap s') (ks(i := ts)) \<and>
    context_of t s' = Some c \<and> rtask s' r = Some t \<and> only t r s s' \<and>
    holding (aworld s') (if sus then cs else c # cs) (if sus then insert (c, r) P else P)"
proof -
  let ?s = "set_context t (Some c) s"
  have k: "task_rep (theap ?s) ks" using assms(1) by simp
  obtain h where h: "task_leave i t ?s = Some (?s\<lparr>theap := h\<rparr>)" "task_rep h (ks(i := ts))"
    "\<forall>u. context_of u (?s\<lparr>theap := h\<rparr>) = context_of u ?s" "\<forall>j. t \<notin> set ((ks(i := ts)) j)" by (rule task_leave_all [OF k assms(2)])
  let ?u = "set_runnable r (Some t) p (?s\<lparr>theap := h\<rparr>)"
  let ?op = "case context_of t s of None \<Rightarrow> do_enter (env i pre ?u) (aworld s) (Some c) r (\<not> was_scheduled (task_at h t))
      | Some _ \<Rightarrow> do_transfer (env i pre ?u) (aworld s) (context_of t s) (Some c) r (ty = switch_type.Return)"
  obtain b w' where w: "?op = Some (b, w')" "holding w' (if b then c # cs else cs) (if b then P else insert (c, r) P)"
    using holding_enter [OF _ assms(6,7), of "aworld s" cs] holding_transfer [OF _ assms(6,7), of "aworld s" _ cs] assms(5)
    by (cases "context_of t s") (simp_all, blast+)
  have "switch_await_suspend i pre p (Some c) ty r s = Some (\<not> b, ?u\<lparr>aworld := w'\<rparr>)"
    using w(1) h(1,3) assms(3,4)
    by (cases "context_of t s") (simp_all add: switch_await_suspend_def context_enter_def context_transfer_def Let_def)
  moreover have "only t r s (?u\<lparr>aworld := w'\<rparr>)" using h(3) by (simp add: only_def)
  ultimately show ?thesis using w h(2,3)
    by (intro exI [of _ "\<not> b"] exI [of _ "?u\<lparr>aworld := w'\<rparr>"]) (simp split: if_splits)
qed

lemma co_await_context_hold:
  assumes "task_rep (theap s) ks" "ks i = t # ts" "get_task p s = Some t"
    and "holding (aworld s) (ctxs (context_of t s) @ cs) P" "r \<noteq> stub" "\<forall>d. (d, r) \<notin> P"
  shows "\<exists>sus s'. co_await_context i pre p bound r s = Some (sus, s') \<and> context_of t s' = bound \<and> only t r s s' \<and>
    (\<not> sus \<longrightarrow> task_rep (theap s') ks \<and> holding (aworld s') (ctxs bound @ cs) P) \<and>
    (sus \<longrightarrow> task_rep (theap s') (ks(i := ts)) \<and> rtask s' r = Some t \<and> (\<exists>c. bound = Some c \<and> holding (aworld s') cs (insert (c, r) P)))"
proof -
  obtain b st where p: "preserve_caller_context p s = Some (b, set_pstate p st s)" "get_task p (set_pstate p st s) = Some t"
    using preserve_caller_rep [OF assms(3)] by blast
  let ?s = "set_runnable r None 0 (set_pstate p st s)"
  show ?thesis
  proof (cases "bound = context_of t s \<or> bound = None")
    case True
    show ?thesis
    proof (cases "bound = context_of t s")
      case True
      then have "co_await_context i pre p bound r s = Some (False, ?s)"
        using p assms(3) by (simp add: co_await_context_def await_transform_context_def switch_await_resume_def Let_def)
      then show ?thesis using assms(1,4) True by (intro exI [of _ False] exI [of _ ?s]) (simp add: only_def)
    next
      case False
      then obtain f where n: "bound = None" "context_of t s = Some f" using True by (cases "context_of t s") auto
      obtain w where w: "do_leave (aworld s) (Some f) = Some w" "holding w cs P" using holding_leave [of "aworld s" f cs P] assms(4) n(2) by auto
      then have "co_await_context i pre p bound r s = Some (False, set_context t None (?s\<lparr>aworld := w\<rparr>))"
        using p assms(3) n by (simp add: co_await_context_def await_transform_context_def switch_await_resume_def context_leave_def Let_def)
      then show ?thesis using assms(1) n w(2)
        by (intro exI [of _ False] exI [of _ "set_context t None (?s\<lparr>aworld := w\<rparr>)"]) (simp add: only_def)
    qed
  next
    case False
    then obtain c where c: "bound = Some c" "context_of t s \<noteq> Some c" by (cases bound) auto
    let ?ty = "if b then Enter else switch_type.Return"
    have "?ty \<noteq> Ready" by simp
    then obtain sus s' where sw: "switch_await_suspend i pre p (Some c) ?ty r ?s = Some (sus, s')" "task_rep (theap s') (ks(i := ts))"
      "context_of t s' = Some c" "rtask s' r = Some t" "only t r ?s s'" "holding (aworld s') (if sus then cs else c # cs) (if sus then insert (c, r) P else P)"
      using switch_hold [of ?s ks i t ts p ?ty cs P r pre c] assms p(2) by auto
    have o: "only t r s s'" using sw(5) by (simp add: only_def)
    have co: "co_await_context i pre p bound r s = (if sus then Some (True, s')
        else do { s \<leftarrow> switch_await_resume i r s'; Some (False, s) })"
      using p c sw(1) assms(3) by (simp add: co_await_context_def await_transform_context_def Let_def)
    show ?thesis
    proof (cases sus)
      case True
      then show ?thesis using co sw c o by (intro exI [of _ True] exI [of _ s']) simp
    next
      case False
      have "\<forall>j. t \<notin> set ((ks(i := ts)) j)" using task_leave_rep [OF assms(1,2)] by blast
      then obtain h where h: "task_enter i t s' = Some (s'\<lparr>theap := h\<rparr>)" "task_rep h (ks(i := ts, i := t # (ks(i := ts)) i))"
        "\<forall>u. context_of u (s'\<lparr>theap := h\<rparr>) = context_of u s'" by (rule task_enter_all [OF sw(2)])
      have "ks(i := ts, i := t # (ks(i := ts)) i) = ks" using assms(2) by (auto simp: fun_upd_idem)
      then show ?thesis using co False sw h c o
        by (intro exI [of _ False] exI [of _ "s'\<lparr>theap := h\<rparr>"]) (simp add: switch_await_resume_def only_def)
    qed
  qed
qed

lemma preempt_hold:
  assumes "task_rep (theap s) ks" "ks i = t # ts" "get_task p s = Some t"
    and "holding (aworld s) (ctxs (context_of t s) @ cs) P" "\<forall>d. (d, r) \<notin> P"
  shows "\<exists>sus s'. co_await_placeholder i pre p r Preempt s = Some (sus, s') \<and> context_of t s' = context_of t s \<and> only t r s s' \<and>
    (\<not> sus \<longrightarrow> task_rep (theap s') ks \<and> holding (aworld s') (ctxs (context_of t s) @ cs) P) \<and>
    (sus \<longrightarrow> task_rep (theap s') (ks(i := ts)) \<and> rtask s' r = Some t \<and> (\<exists>c. context_of t s = Some c \<and> holding (aworld s') cs (insert (c, r) P)))"
proof -
  obtain h where h: "task_leave i t s = Some (s\<lparr>theap := h\<rparr>)" "task_rep h (ks(i := ts))"
    "\<forall>u. context_of u (s\<lparr>theap := h\<rparr>) = context_of u s" "\<forall>j. t \<notin> set ((ks(i := ts)) j)" by (rule task_leave_all [OF assms(1,2)])
  let ?s = "set_runnable r (Some t) p (s\<lparr>theap := h\<rparr>)"
  show ?thesis
  proof (cases "context_of t s")
    case (Some c)
    let ?w = "post_or_defer (env i pre ?s) (aworld s) c r"
    have "preempt_await_suspend i pre p r s = Some (True, ?s\<lparr>aworld := ?w\<rparr>)"
      using h(1,3) assms(3) Some by (simp add: preempt_await_suspend_def do_preempt_def Let_def)
    moreover have "holding ?w cs (insert (c, r) P)"
      using holding_post [of "aworld s" c cs P r ?w] assms(4,5) Some by (simp add: post_or_defer_rep)
    ultimately show ?thesis using h Some
      by (intro exI [of _ True] exI [of _ "?s\<lparr>aworld := ?w\<rparr>"]) (simp add: resume_here_def only_def)
  next
    case None
    have a: "preempt_await_suspend i pre p r s = Some (False, ?s)"
      using h(1,3) assms(3) None by (simp add: preempt_await_suspend_def do_preempt_def Let_def)
    have k: "task_rep (theap ?s) (ks(i := ts))" using h(2) by simp
    obtain g where g: "task_enter i t ?s = Some (?s\<lparr>theap := g\<rparr>)" "task_rep g (ks(i := ts, i := t # (ks(i := ts)) i))"
      "\<forall>u. context_of u (?s\<lparr>theap := g\<rparr>) = context_of u ?s" by (rule task_enter_all [OF k h(4)])
    have "ks(i := ts, i := t # (ks(i := ts)) i) = ks" using assms(2) by (auto simp: fun_upd_idem)
    then show ?thesis using a g h(3) None assms(4)
      by (intro exI [of _ False] exI [of _ "?s\<lparr>theap := g\<rparr>"]) (simp add: resume_here_def yield_await_resume_def only_def)
  qed
qed

lemma yield_hold:
  assumes "task_rep (theap s) ks" "ks i = t # ts" "get_task p s = Some t"
    and "holding (aworld s) (ctxs (context_of t s) @ cs) P" "r \<noteq> stub" "\<forall>d. (d, r) \<notin> P" "yield_alone (context_of t s) (aworld s)"
  shows "\<exists>sus s'. co_await_placeholder i pre p r Yield s = Some (sus, s') \<and> context_of t s' = context_of t s \<and> only t r s s' \<and>
    (\<not> sus \<longrightarrow> task_rep (theap s') ks \<and> holding (aworld s') (ctxs (context_of t s) @ cs) P) \<and>
    (sus \<longrightarrow> task_rep (theap s') (ks(i := ts)) \<and> rtask s' r = Some t \<and> (\<exists>c. context_of t s = Some c \<and> holding (aworld s') cs (insert (c, r) P)))"
proof -
  obtain h where h: "task_leave i t s = Some (s\<lparr>theap := h\<rparr>)" "task_rep h (ks(i := ts))"
    "\<forall>u. context_of u (s\<lparr>theap := h\<rparr>) = context_of u s" "\<forall>j. t \<notin> set ((ks(i := ts)) j)" by (rule task_leave_all [OF assms(1,2)])
  let ?s = "set_runnable r (Some t) p (s\<lparr>theap := h\<rparr>)"
  show ?thesis
  proof (cases "context_of t s")
    case (Some c)
    obtain w where w: "do_yield (env i pre ?s) (aworld s) (Some c) r = Some (False, w)" "holding w cs (insert (c, r) P)"
      using yield_alone_switch [of "aworld s" c cs P r "env i pre ?s"] assms(4-7) Some by auto
    then have "yield_await_suspend i pre p r s = Some (True, ?s\<lparr>aworld := w\<rparr>)"
      using h(1,3) assms(3) Some by (simp add: yield_await_suspend_def Let_def)
    then show ?thesis using h w(2) Some
      by (intro exI [of _ True] exI [of _ "?s\<lparr>aworld := w\<rparr>"]) (simp add: resume_here_def only_def)
  next
    case None
    have a: "yield_await_suspend i pre p r s = Some (False, ?s)"
      using h(1,3) assms(3) None by (simp add: yield_await_suspend_def do_yield_def Let_def)
    have k: "task_rep (theap ?s) (ks(i := ts))" using h(2) by simp
    obtain g where g: "task_enter i t ?s = Some (?s\<lparr>theap := g\<rparr>)" "task_rep g (ks(i := ts, i := t # (ks(i := ts)) i))"
      "\<forall>u. context_of u (?s\<lparr>theap := g\<rparr>) = context_of u ?s" by (rule task_enter_all [OF k h(4)])
    have "ks(i := ts, i := t # (ks(i := ts)) i) = ks" using assms(2) by (auto simp: fun_upd_idem)
    then show ?thesis using a g h(3) None assms(4)
      by (intro exI [of _ False] exI [of _ "?s\<lparr>theap := g\<rparr>"]) (simp add: resume_here_def yield_await_resume_def only_def)
  qed
qed

text \<open>The ways to await a context, in one statement.\<close>

lemma await_hold:
  assumes "task_rep (theap s) ks" "ks i = t # ts" "get_task p s = Some t" "awaitable_now ph (context_of t s) (aworld s)"
    and "holding (aworld s) (ctxs (context_of t s) @ cs) P" "r \<noteq> stub" "\<forall>d. (d, r) \<notin> P"
  shows "\<exists>sus s'. co_await_placeholder i pre p r ph s = Some (sus, s') \<and> only t r s s' \<and>
    (\<not> sus \<longrightarrow> task_rep (theap s') ks \<and> holding (aworld s') (ctxs (context_of t s') @ cs) P) \<and>
    (sus \<longrightarrow> task_rep (theap s') (ks(i := ts)) \<and> rtask s' r = Some t \<and> (\<exists>c. context_of t s' = Some c \<and> holding (aworld s') cs (insert (c, r) P)))"
proof -
  have co: "\<exists>sus s'. co_await_context i pre p bound r s = Some (sus, s') \<and> only t r s s' \<and>
    (\<not> sus \<longrightarrow> task_rep (theap s') ks \<and> holding (aworld s') (ctxs (context_of t s') @ cs) P) \<and>
    (sus \<longrightarrow> task_rep (theap s') (ks(i := ts)) \<and> rtask s' r = Some t \<and> (\<exists>c. context_of t s' = Some c \<and> holding (aworld s') cs (insert (c, r) P)))" for bound
  proof -
    obtain sus s' where x: "co_await_context i pre p bound r s = Some (sus, s')" "context_of t s' = bound" "only t r s s'"
      "\<not> sus \<longrightarrow> task_rep (theap s') ks \<and> holding (aworld s') (ctxs bound @ cs) P"
      "sus \<longrightarrow> task_rep (theap s') (ks(i := ts)) \<and> rtask s' r = Some t \<and> (\<exists>c. bound = Some c \<and> holding (aworld s') cs (insert (c, r) P))"
      using co_await_context_hold [OF assms(1-3,5-7), of pre bound] by blast
    then show ?thesis by (intro exI [of _ sus] exI [of _ s']) simp
  qed
  consider "ph = Preempt" | "ph = CallerContext" | bound where "ph = BindContext bound" | "ph = Yield" "yield_alone (context_of t s) (aworld s)"
    using assms(4) by (cases ph) auto
  then show ?thesis
  proof cases
    case 1
    obtain sus s' where x: "co_await_placeholder i pre p r Preempt s = Some (sus, s')" "context_of t s' = context_of t s" "only t r s s'"
      "\<not> sus \<longrightarrow> task_rep (theap s') ks \<and> holding (aworld s') (ctxs (context_of t s) @ cs) P"
      "sus \<longrightarrow> task_rep (theap s') (ks(i := ts)) \<and> rtask s' r = Some t \<and> (\<exists>c. context_of t s = Some c \<and> holding (aworld s') cs (insert (c, r) P))"
      using preempt_hold [OF assms(1-3,5,7), of pre] by blast
    then show ?thesis using 1 by (intro exI [of _ sus] exI [of _ s']) simp
  next
    case 2
    have "get_caller_context p s \<noteq> None" using assms(3) by (auto simp: get_task_def get_caller_context_def split: pstate.splits option.splits)
    then obtain c where "get_caller_context p s = Some c" by blast
    then show ?thesis using 2 co [of c] by (simp add: co_await_caller_context_def)
  next
    case 3
    then show ?thesis using co [of bound] by simp
  next
    case 4
    obtain sus s' where x: "co_await_placeholder i pre p r Yield s = Some (sus, s')" "context_of t s' = context_of t s" "only t r s s'"
      "\<not> sus \<longrightarrow> task_rep (theap s') ks \<and> holding (aworld s') (ctxs (context_of t s) @ cs) P"
      "sus \<longrightarrow> task_rep (theap s') (ks(i := ts)) \<and> rtask s' r = Some t \<and> (\<exists>c. context_of t s = Some c \<and> holding (aworld s') cs (insert (c, r) P))"
      using yield_hold [OF assms(1-3,5-7) 4(2), of pre] by blast
    then show ?thesis using 4(1) by (intro exI [of _ sus] exI [of _ s']) simp
  qed
qed

lemma foreign_hold:
  assumes "task_rep (theap s) ks" "ks i = t # ts" "get_task p s = Some t"
  shows "\<exists>s'. foreign_suspend i p a k s = Some s' \<and> task_rep (theap s') (ks(i := ts)) \<and> rtask s' k = Some t \<and> only t k s s' \<and>
    context_of t s' = context_of t s \<and> aworld s' = aworld s"
proof -
  have k: "task_rep (theap (set_runnable k (Some t) p s)) ks" using assms(1) by simp
  obtain h where h: "task_leave i t (set_runnable k (Some t) p s) = Some (set_runnable k (Some t) p s\<lparr>theap := h\<rparr>)" "task_rep h (ks(i := ts))"
    "\<forall>u. context_of u (set_runnable k (Some t) p s\<lparr>theap := h\<rparr>) = context_of u (set_runnable k (Some t) p s)" "\<forall>j. t \<notin> set ((ks(i := ts)) j)"
    by (rule task_leave_all [OF k assms(2)])
  moreover have "current (theap s) i = Some t" using task_rep_current [OF assms(1), of i] assms(2) by simp
  ultimately show ?thesis using assms(3)
    by (intro exI [of _ "set_restore a (Some t) (set_runnable k (Some t) p s\<lparr>theap := h\<rparr>)"]) (simp add: foreign_suspend_def only_def)
qed

lemma foreign_now_hold:
  assumes "task_rep (theap s) ks" "ks i = t # ts" "get_task p s = Some t" "out \<in> {SContinue, SThrow}"
  shows "\<exists>s' x. foreign_now i p a k alloc out s = Some s' \<and> theap s' = theap s \<and> aworld s' = aworld s \<and> rtask s' = (rtask s)(k := x)"
proof -
  have c: "current (theap s) i = Some t" using task_rep_current [OF assms(1)] assms(2) by simp
  have n: "task_next (task_at (theap s) t) \<noteq> Inactive" using task_repD(4) [OF assms(1), of t] assms(2) by (metis list.set_intros(1))
  obtain h where h: "leave i t (theap s) = Some h" using leave_rep [OF assms(1,2)] by blast
  have "enter i t h = Some (theap s)" using enter_leave [OF h n] .
  note e = this
  show ?thesis
  proof (cases alloc)
    case True
    then show ?thesis using c h e assms(3,4)
      by (auto simp: foreign_now_def same_await_suspend_def same_await_resume_def task_leave_def task_enter_def set_restore_def set_runnable_def
        Let_def intro!: exI [of _ "Some t"])
  next
    case False
    then have "foreign_now i p a k alloc out s = Some s" using c assms(3) by (simp add: foreign_now_def same_await_suspend_def)
    then show ?thesis by (intro exI [of _ s] exI [of _ "rtask s k"]) simp
  qed
qed

text \<open>In a bound context two runnables belong to the task: that of the callback and that of the switch.\<close>

definition touched :: "runnable \<Rightarrow> addr option \<Rightarrow> 'a asys \<Rightarrow> 'a asys" where
  "touched r x s = s\<lparr>rtask := (rtask s)(r := x)\<rparr>"

lemma touched_simps [simp]:
  "theap (touched r x s) = theap s" "aworld (touched r x s) = aworld s" "rtask (touched r x s) = (rtask s)(r := x)"
  "context_of u (touched r x s) = context_of u s" "get_task p (touched r x s) = get_task p s"
  by (simp_all add: touched_def context_of_def get_task_def)

lemma bound_hold:
  assumes "task_rep (theap s) ks" "ks i = t # ts" "get_task p s = Some t"
  shows "\<exists>s0 s'. await_transform_bound p s = Some s0 \<and> bound_suspend i p to r k s0 = Some (context_of t s, s') \<and>
    task_rep (theap s') (ks(i := ts)) \<and> rtask s' k = Some t \<and> only t k (touched r (Some t) s) s' \<and> aworld s' = aworld s"
proof -
  obtain b st where p: "preserve_caller_context p s = Some (b, set_pstate p st s)" "get_task p (set_pstate p st s) = Some t"
    using preserve_caller_rep [OF assms(3)] by blast
  let ?s = "set_pstate p st s"
  let ?k = "set_runnable k (Some t) p ?s"
  have k: "task_rep (theap ?k) ks" using assms(1) by simp
  obtain h where h: "task_leave i t ?k = Some (?k\<lparr>theap := h\<rparr>)" "task_rep h (ks(i := ts))"
    "\<forall>u. context_of u (?k\<lparr>theap := h\<rparr>) = context_of u ?k" "\<forall>j. t \<notin> set ((ks(i := ts)) j)" by (rule task_leave_all [OF k assms(2)])
  let ?s' = "set_context t to (set_runnable r (Some t) p (?k\<lparr>theap := h\<rparr>))"
  have "current (theap s) i = Some t" using task_rep_current [OF assms(1), of i] assms(2) by simp
  then have "bound_suspend i p to r k ?s = Some (context_of t s, ?s')" using p(2) h(1,3) by (simp add: bound_suspend_def Let_def)
  moreover have "task_rep (theap ?s') (ks(i := ts))"
    using task_rep_set_context [of t to "set_runnable r (Some t) p (?k\<lparr>theap := h\<rparr>)"] h(2) by simp
  moreover have "only t k (touched r (Some t) s) ?s'" using h(3) by (simp add: only_def)
  ultimately show ?thesis using p(1)
    by (intro exI [of _ ?s] exI [of _ ?s']) (simp add: await_transform_bound_def)
qed

lemma bound_now_hold:
  assumes "task_rep (theap s) ks" "ks i = t # ts" "get_task p s = Some t" "out \<in> {SContinue, SThrow}"
    and "holding (aworld s) (ctxs (context_of t s) @ cs) P" "r \<noteq> stub" "\<forall>d. (d, r) \<notin> P"
  shows "\<exists>sus x s'. bound_now i pre p to r k alloc by_handle out s = Some (sus, s') \<and> only t r (touched k x s) s' \<and>
    (\<not> sus \<longrightarrow> task_rep (theap s') ks \<and> holding (aworld s') (ctxs (context_of t s') @ cs) P) \<and>
    (sus \<longrightarrow> task_rep (theap s') (ks(i := ts)) \<and> rtask s' r = Some t \<and> (\<exists>c. context_of t s' = Some c \<and> holding (aworld s') cs (insert (c, r) P)))"
proof -
  obtain b st where p: "preserve_caller_context p s = Some (b, set_pstate p st s)" "get_task p (set_pstate p st s) = Some t"
    using preserve_caller_rep [OF assms(3)] by blast
  let ?s = "set_pstate p st s"
  have tr: "await_transform_bound p s = Some ?s" using p(1) by (simp add: await_transform_bound_def)
  have c: "current (theap s) i = Some t" using task_rep_current [OF assms(1), of i] assms(2) by simp
  let ?k = "set_runnable k (Some t) p ?s"
  have k: "task_rep (theap ?k) ks" using assms(1) by simp
  obtain h where h: "task_leave i t ?k = Some (?k\<lparr>theap := h\<rparr>)" "task_rep h (ks(i := ts))"
    "\<forall>u. context_of u (?k\<lparr>theap := h\<rparr>) = context_of u ?k" "\<forall>j. t \<notin> set ((ks(i := ts)) j)" by (rule task_leave_all [OF k assms(2)])
  let ?r = "set_runnable r (Some t) p (?k\<lparr>theap := h\<rparr>)"
  let ?c = "set_context t to ?r"
  have rk: "task_rep (theap (set_context t d ?r)) (ks(i := ts))" for d using task_rep_set_context [of t d ?r] h(2) by simp
  have same: "ks(i := ts, i := t # (ks(i := ts)) i) = ks" using assms(2) by (auto simp: fun_upd_idem)
  consider "\<not> alloc" | "alloc" "out = SThrow" | "alloc" "out = SContinue" using assms(4) by blast
  then show ?thesis
  proof cases
    case 1
    then have "bound_now i pre p to r k alloc by_handle out s = Some (False, ?s)"
      using tr p(2) c by (simp add: bound_now_def change_await_suspend_def)
    then show ?thesis using assms(1,5)
      by (intro exI [of _ False] exI [of _ "rtask s k"] exI [of _ ?s]) (simp add: only_def)
  next
    case 2
    obtain g where g: "task_enter i t (set_context t (context_of t s) ?c) = Some (set_context t (context_of t s) ?c\<lparr>theap := g\<rparr>)"
      "task_rep g (ks(i := ts, i := t # (ks(i := ts)) i))"
      "\<forall>u. context_of u (set_context t (context_of t s) ?c\<lparr>theap := g\<rparr>) = context_of u (set_context t (context_of t s) ?c)"
      by (rule task_enter_all [of "set_context t (context_of t s) ?c" "ks(i := ts)" t i]) (use rk [of to] h(4) in simp_all)
    let ?g = "set_context t (context_of t s) ?c\<lparr>theap := g\<rparr>"
    let ?s' = "?g\<lparr>rtask := (rtask ?g)(r := None)\<rparr>"
    have "bound_now i pre p to r k alloc by_handle out s = Some (False, ?s')"
      using 2 tr p(2) c h(1,3) g(1) by (simp add: bound_now_def change_await_suspend_def change_guard_def Let_def)
    moreover have "context_of u ?s' = context_of u s" for u
    proof -
      have "context_of u ?s' = context_of u ?g" by (simp add: context_of_def)
      then show ?thesis using g(3) h(3) by simp
    qed
    ultimately show ?thesis using g(2) same assms(5)
      by (intro exI [of _ False] exI [of _ "Some t"] exI [of _ ?s']) (simp add: only_def)
  next
    case 3
    obtain b' w where w: "do_transfer (env i pre ?c) (aworld s) (context_of t s) to r True = Some (b', w)"
      "b' \<longrightarrow> holding w (ctxs to @ cs) P" "\<not> b' \<longrightarrow> (\<exists>d. to = Some d \<and> holding w cs (insert (d, r) P))"
      using holding_switch [OF assms(5-7)] by blast
    let ?w = "?c\<lparr>aworld := w\<rparr>"
    let ?out = "if by_handle then (if b' then SHandle p else SNoop) else (if b' then SContinue else SSuspend)"
    have ch: "change_await_suspend i pre p to False r k alloc by_handle (Pair out) ?s = Some (?out, ?w)"
      using 3 p(2) c h(1,3) w(1) by (simp add: change_await_suspend_def transfer_to_def context_transfer_def Let_def)
    show ?thesis
    proof (cases b')
      case False
      then have "bound_now i pre p to r k alloc by_handle out s = Some (True, ?w)" using tr ch by (simp add: bound_now_def)
      then show ?thesis using w(3) False rk [of to] h(3)
        by (intro exI [of _ True] exI [of _ "Some t"] exI [of _ ?w]) (simp add: only_def)
    next
      case True
      obtain g where g: "task_enter i t ?w = Some (?w\<lparr>theap := g\<rparr>)" "task_rep g (ks(i := ts, i := t # (ks(i := ts)) i))"
        "\<forall>u. context_of u (?w\<lparr>theap := g\<rparr>) = context_of u ?w"
        by (rule task_enter_all [of ?w "ks(i := ts)" t i]) (use rk [of to] h(4) in simp_all)
      have "bound_now i pre p to r k alloc by_handle out s = Some (False, ?w\<lparr>theap := g\<rparr>)"
        using tr ch True g(1) by (cases by_handle) (simp_all add: bound_now_def change_await_resume_def switch_await_resume_def)
      then show ?thesis using w(2) True g(2,3) h(3) same
        by (intro exI [of _ False] exI [of _ "Some t"] exI [of _ "?w\<lparr>theap := g\<rparr>"]) (simp add: only_def)
    qed
  qed
qed

lemma restore_hold:
  assumes "holding (aworld s) cs P" "rtask s k = Some t" "k \<noteq> stub" "\<forall>d. (d, k) \<notin> P"
  shows "\<exists>out s'. restore_callback j pre k s = Some (out, s') \<and> (\<forall>ks. task_rep (theap s') ks = task_rep (theap s) ks) \<and> rtask s' = rtask s \<and>
    (\<forall>u. context_of u s' = context_of u s) \<and>
    (out = SNoop \<longrightarrow> (\<exists>c. context_of t s = Some c \<and> holding (aworld s') cs (insert (c, k) P))) \<and>
    (out \<noteq> SNoop \<longrightarrow> holding (aworld s') (ctxs (context_of t s) @ cs) P)"
proof (cases "context_of t s")
  case None
  then have "restore_callback j pre k s = Some (SHandle (rcont s k), set_scheduled t False s)"
    using assms(2) by (simp add: restore_callback_def context_enter_def do_enter_def)
  then show ?thesis using None assms(1) by (intro exI [of _ "SHandle (rcont s k)"] exI [of _ "set_scheduled t False s"]) simp
next
  case (Some c)
  obtain b w' where w: "do_enter (env j pre s) (aworld s) (Some c) k False = Some (b, w')"
    "holding w' (if b then c # cs else cs) (if b then P else insert (c, k) P)" using holding_enter [OF assms(1,3,4)] by blast
  let ?s = "s\<lparr>aworld := w'\<rparr>"
  have "restore_callback j pre k s = Some (if b then (SHandle (rcont s k), set_scheduled t False ?s) else (SNoop, ?s))"
    using assms(2) w(1) Some by (simp add: restore_callback_def context_enter_def)
  then show ?thesis using w(2) Some
    by (cases b; intro exI [of _ "if b then SHandle (rcont s k) else SNoop"] exI [of _ "if b then set_scheduled t False ?s else ?s"]) simp_all
qed

lemma finish_hold:
  assumes "task_rep (theap s) ks" "ks i = t # ts" "pstate (promises s p) = PInherited t (Some caller)" "continuation (promises s p) \<noteq> None"
    and "holding (aworld s) (ctxs (context_of t s) @ cs) P" "r \<noteq> stub" "\<forall>d. (d, r) \<notin> P"
  shows "\<exists>out s'. final_suspend i pre p r s = Some (out, s') \<and> task_rep (theap s') (ks(i := ts)) \<and> only t r s s' \<and> rtask s' r = Some t \<and>
    (out \<noteq> SNoop \<longrightarrow> holding (aworld s') (ctxs (context_of t s') @ cs) P) \<and>
    (out = SNoop \<longrightarrow> (\<exists>c. context_of t s' = Some c \<and> holding (aworld s') cs (insert (c, r) P)))"
proof -
  obtain k where k: "continuation (promises s p) = Some k" using assms(4) by blast
  obtain h where h: "task_leave i t s = Some (s\<lparr>theap := h\<rparr>)" "task_rep h (ks(i := ts))"
    "\<forall>u. context_of u (s\<lparr>theap := h\<rparr>) = context_of u s" "\<forall>j. t \<notin> set ((ks(i := ts)) j)" by (rule task_leave_all [OF assms(1,2)])
  let ?s = "set_runnable r (Some t) k (set_context t caller (s\<lparr>theap := h\<rparr>))"
  obtain b w where w: "do_transfer (env i pre ?s) (aworld s) (context_of t s) caller r True = Some (b, w)"
    "b \<longrightarrow> holding w (ctxs caller @ cs) P" "\<not> b \<longrightarrow> (\<exists>c. caller = Some c \<and> holding w cs (insert (c, r) P))"
    using holding_switch [OF assms(5-7)] by blast
  have "final_suspend i pre p r s = Some (if b then SHandle k else SNoop, ?s\<lparr>aworld := w\<rparr>)"
    using h(1,3) w(1) assms(3) k by (simp add: final_suspend_def context_transfer_def final_return_def Let_def)
  moreover have "task_rep (theap (?s\<lparr>aworld := w\<rparr>)) (ks(i := ts))"
    using task_rep_set_context [of t caller "s\<lparr>theap := h\<rparr>"] h(2) by simp
  moreover have "only t r s (?s\<lparr>aworld := w\<rparr>)" using h(3) by (simp add: only_def)
  ultimately show ?thesis using w(2,3)
    by (intro exI [of _ "if b then SHandle k else SNoop"] exI [of _ "?s\<lparr>aworld := w\<rparr>"]) simp
qed

lemma finish_task_hold:
  assumes "task_rep (theap s) ks" "ks i = p # ts" "pstate (promises s p) = PPrivate" "holding (aworld s) (ctxs (context_of p s) @ cs) P"
  shows "\<exists>out s'. final_suspend i pre p r s = Some (out, s') \<and> task_rep (theap s') (ks(i := ts)) \<and> only p r s s' \<and> holding (aworld s') cs P \<and> rtask s' = rtask s"
proof -
  obtain h where h: "task_leave i p s = Some (s\<lparr>theap := h\<rparr>)" "task_rep h (ks(i := ts))"
    "\<forall>u. context_of u (s\<lparr>theap := h\<rparr>) = context_of u s" "\<forall>j. p \<notin> set ((ks(i := ts)) j)" by (rule task_leave_all [OF assms(1,2)])
  let ?s = "set_context p None (s\<lparr>theap := h\<rparr>)"
  obtain w where w: "do_leave (aworld s) (context_of p s) = Some w" "holding w cs P"
    using holding_leave [of "aworld s" _ cs P] assms(4) by (cases "context_of p s") (simp add: do_leave_def, fastforce)
  let ?r = "final_return p (?s\<lparr>aworld := w\<rparr>)"
  have "final_suspend i pre p r s = Some ?r" using h(1,3) w(1) assms(3) by (simp add: final_suspend_def context_leave_def Let_def)
  moreover have "theap (snd ?r) = theap ?s" "aworld (snd ?r) = w" "rtask (snd ?r) = rtask s" by (simp_all add: final_return_def split: option.splits)
  moreover have "task_rep (theap ?s) (ks(i := ts))" using task_rep_set_context [of p None "s\<lparr>theap := h\<rparr>"] h(2) by simp
  moreover have "context_of u (snd ?r) = context_of u ?s" for u using calculation(2) by (simp add: context_of_def)
  then have "only p r s (snd ?r)" using h(3) calculation(4) by (simp add: only_def)
  ultimately show ?thesis using w(2) by (intro exI [of _ "fst ?r"] exI [of _ "snd ?r"]) simp
qed

lemma start_hold:
  assumes "task_rep (theap s) ks" "pstate (promises s p) = PNone" "\<forall>j. p \<notin> set (ks j)"
  shows "\<exists>s'. async_detach i p s = Some s' \<and> task_rep (theap s') (ks(i := p # ks i)) \<and> only p r s s' \<and> context_of p s' = None \<and>
    rtask s' = rtask s \<and> aworld s' = aworld s"
proof -
  let ?ps = "(promises s)(p := (promises s p)\<lparr>continuation := None, pstate := PPrivate\<rparr>)"
  let ?s = "s\<lparr>promises := ?ps, theap := (theap s)\<lparr>task_at := (task_at (theap s))(p := new_task)\<rparr>\<rparr>"
  have n: "task_next (task_at (theap s) p) = Inactive" using task_repD(4) [OF assms(1), of p] assms(3) by blast
  have "task_rep (theap ?s) ks = task_rep (theap s) ks" by (rule task_rep_cong) (simp_all add: n new_task_def)
  then have k: "task_rep (theap ?s) ks" using assms(1) by simp
  obtain h where h: "task_enter i p ?s = Some (?s\<lparr>theap := h\<rparr>)" "task_rep h (ks(i := p # ks i))"
    "\<forall>u. context_of u (?s\<lparr>theap := h\<rparr>) = context_of u ?s" by (rule task_enter_all [OF k assms(3)])
  have "async_detach i p s = Some (?s\<lparr>theap := h\<rparr>)"
    using assms(2) h(1) by (simp add: async_detach_def prepare_def initial_resume_def get_task_def set_pstate_def Let_def)
  then show ?thesis using h by (intro exI [of _ "?s\<lparr>theap := h\<rparr>"]) (simp add: only_def, simp add: context_of_def new_task_def)
qed

lemma call_hold:
  assumes "task_rep (theap s) ks" "ks i = t # ts" "pstate (promises s p) = PNone"
  shows "\<exists>s'. call_async i p a c caller s = Some s' \<and> theap s' = theap s \<and> aworld s' = aworld s \<and> rtask s' = rtask s"
proof -
  have c: "current (theap s) i = Some t" using task_rep_current [OF assms(1)] assms(2) by simp
  have n: "task_next (task_at (theap s) t) \<noteq> Inactive" using task_repD(4) [OF assms(1), of t] assms(2) by (metis list.set_intros(1))
  obtain h where h: "leave i t (theap s) = Some h" using leave_rep [OF assms(1,2)] by blast
  have "enter i t h = Some (theap s)" using enter_leave [OF h n] .
  then show ?thesis using c h assms(3)
    by (simp add: call_async_def inherit_task_def async_await_suspend_def prepare_def initial_resume_def get_task_def task_leave_def task_enter_def
      set_restore_def set_pstate_def Let_def)
qed

lemma return_hold:
  assumes "task_rep (theap s) ks" "ks i = t # ts" "pstate (promises s p) = PInherited t None" "restore_task s a = Some t"
  shows "\<exists>s'. return_async i pre p r a s = Some s' \<and> theap s' = theap s \<and> aworld s' = aworld s \<and> rtask s' = rtask s"
proof -
  have n: "task_next (task_at (theap s) t) \<noteq> Inactive" using task_repD(4) [OF assms(1), of t] assms(2) by (metis list.set_intros(1))
  obtain h where h: "leave i t (theap s) = Some h" using leave_rep [OF assms(1,2)] by blast
  have "enter i t h = Some (theap s)" using enter_leave [OF h n] .
  then show ?thesis using h assms(3,4)
    by (simp add: return_async_def final_suspend_def final_return_def resumed_def task_leave_def task_enter_def split: option.splits)
qed

text \<open>
  A coroutine suspended in a foreign object enters, when it is resumed, the task of its runnable:
  \<open>restore_task\<close> of its awaiter is that task.
\<close>

lemma foreign_resume_same:
  assumes "foreign_suspend i p a k s = Some s'"
  shows "restore_task s' a = rtask s' k \<and>
    (restore_task u a = rtask u k \<longrightarrow> same_await_resume j a (Pair v) u = map_option (Pair v) (switch_await_resume j k u))"
proof -
  have "restore_task s' a = rtask s' k"
    using assms by (auto simp: foreign_suspend_def task_leave_def set_restore_def set_runnable_def split: bind_splits if_splits)
  then show ?thesis by (auto simp: same_await_resume_def switch_await_resume_def map_option_case split: option.splits bind_splits)
qed

text \<open>In a bound context it enters the task of the runnable of the switch, which is the same task.\<close>

lemma bound_resume_same:
  assumes "bound_suspend i p to r k s = Some (old, s')"
  shows "rtask s' r = rtask s' k \<and>
    (rtask u r = rtask u k \<longrightarrow> change_await_resume j r (Pair v) u = map_option (Pair v) (switch_await_resume j k u))"
proof -
  have "rtask s' r = rtask s' k"
    using assms by (auto simp: bound_suspend_def task_leave_def set_context_def set_runnable_def Let_def split: bind_splits if_splits)
  then show ?thesis by (auto simp: change_await_resume_def switch_await_resume_def map_option_case split: option.splits bind_splits)
qed

end
