(* ===== verification/Actor_Isolation.thy ===== *)
theory Actor_Isolation
  imports Actor_System
begin

text \<open>
  Isolation of actors, over the whole system of \<open>Actor_System\<close>: the invariant of the contexts
  held and the runnables that wait, and what it says of the coroutines.  The system leaves out the two
  awaits in which the code breaks the invariant; see there.
\<close>

section \<open>The invariant\<close>

definition held_by :: "(addr \<Rightarrow> ctx option) \<Rightarrow> (tid \<times> addr) list \<Rightarrow> ctx list" where
  "held_by cx lv = concat (map (\<lambda>(i, t). ctxs (cx t)) lv)"

lemma held_by_simps [simp]: "held_by cx [] = []" "held_by cx ((i, t) # lv) = ctxs (cx t) @ held_by cx lv"
  by (simp_all add: held_by_def)

lemma held_by_remove: "(i, t) \<in> set lv \<Longrightarrow> mset (held_by cx lv) = mset (ctxs (cx t) @ held_by cx (remove1 (i, t) lv))"
  by (induction lv) auto

lemma held_by_cong: "(\<And>u. u \<in> snd ` set lv \<Longrightarrow> cx' u = cx u) \<Longrightarrow> held_by cx' lv = held_by cx lv"
  by (induction lv) auto

definition actor_ok :: "'a actor_sys \<Rightarrow> (tid \<Rightarrow> addr list) \<Rightarrow> (ctx \<times> runnable) set \<Rightarrow> bool" where
  "actor_ok s ks P \<longleftrightarrow> \<not> afailed s \<and> task_rep (theap (asy s)) ks \<and>
     holding (aworld (asy s)) (held_by (\<lambda>t. context_of t (asy s)) (live s) @ leaving s) P \<and>
     tasks_ok (live s) ks P (foreign s) (rtask (asy s)) (\<lambda>t. context_of t (asy s)) \<and> stub \<notin> set (foreign s)"

definition actor_inv :: "'a actor_sys \<Rightarrow> bool" where
  "actor_inv s \<longleftrightarrow> (\<exists>ks P. actor_ok s ks P)"

lemma actor_okD:
  assumes "actor_ok s ks P"
  shows "\<not> afailed s" "task_rep (theap (asy s)) ks"
    "holding (aworld (asy s)) (held_by (\<lambda>t. context_of t (asy s)) (live s) @ leaving s) P"
    "tasks_ok (live s) ks P (foreign s) (rtask (asy s)) (\<lambda>t. context_of t (asy s))" "stub \<notin> set (foreign s)"
  using assms unfolding actor_ok_def by blast+

lemma waits_iff:
  assumes "holding w cs P"
  shows "waits w c r \<longleftrightarrow> (c, r) \<in> P"
proof -
  obtain q L where q: "wrep w q L" "park w q = P" using assms by (auto simp: holding_def)
  have "(\<exists>xs l. mb_rep (mailboxes w c) xs l \<and> r \<in> set xs) \<longleftrightarrow> r \<in> set (q c)"
    using mb_rep_unique(1) [of "mailboxes w c" _ _ "q c" "L c"] q(1) unfolding wrep_def by blast
  then show ?thesis using q(2) by (auto simp: waits_def park_def)
qed

lemma new_runnableD:
  assumes "actor_ok s ks P" "new_runnable r s"
  shows "r \<noteq> stub" "\<forall>d. (d, r) \<notin> P" "r \<notin> snd ` P \<union> set (foreign s)"
  using assms(2) waits_iff [OF actor_okD(3) [OF assms(1)]] by (auto simp: new_runnable_def)

lemma not_new_runnable:
  assumes "actor_ok s ks P" "r \<in> snd ` P \<union> set (foreign s)"
  shows "\<not> new_runnable r s"
  using new_runnableD(3) [OF assms(1), of r] assms(2) by blast

text \<open>The contexts held by the others, when the task \<open>t\<close> acts.\<close>

abbreviation others :: "tid \<Rightarrow> addr \<Rightarrow> 'a actor_sys \<Rightarrow> ctx list" where
  "others i t s \<equiv> held_by (\<lambda>u. context_of u (asy s)) (remove1 (i, t) (live s)) @ leaving s"

lemma acting:
  assumes "actor_ok s ks P" "acts_as i t p s"
  obtains ts where "ks i = t # ts" "(i, t) \<in> set (live s)" "get_task p (asy s) = Some t"
    "holding (aworld (asy s)) (ctxs (context_of t (asy s)) @ others i t s) P" "t \<notin> snd ` set (remove1 (i, t) (live s))"
proof -
  note ok = actor_okD [OF assms(1)]
  have a: "(i, t) \<in> set (live s)" "current (theap (asy s)) i = Some t" "get_task p (asy s) = Some t" using assms(2) by (simp_all add: acts_as_def)
  obtain ts where ts: "ks i = t # ts" using a(2) task_rep_current [OF ok(2), of i] by (cases "ks i") auto
  have "mset (held_by (\<lambda>t. context_of t (asy s)) (live s) @ leaving s) = mset (ctxs (context_of t (asy s)) @ others i t s)"
    using held_by_remove [OF a(1)] by simp
  then have "holding (aworld (asy s)) (ctxs (context_of t (asy s)) @ others i t s) P"
    using holding_mset ok(3) by blast
  then show thesis using that ts a live_remove(2) [OF ok(4) a(1) ts ok(2)] by blast
qed

lemma held_only:
  assumes "only t r a a'" "t \<notin> snd ` set lv"
  shows "held_by (\<lambda>u. context_of u a') lv = held_by (\<lambda>u. context_of u a) lv"
  by (rule held_by_cong) (use assms in \<open>auto simp: only_def\<close>)

lemma onlyD: "only t r a a' \<Longrightarrow> u \<noteq> t \<Longrightarrow> context_of u a' = context_of u a" "only t r a a' \<Longrightarrow> x \<noteq> r \<Longrightarrow> rtask a' x = rtask a x"
  by (simp_all add: only_def)

section \<open>Every event keeps it\<close>

lemma start_ok:
  assumes "actor_ok s ks P" "actor_enabled (Start i p) s"
  shows "\<exists>s' ks' P'. actor_exec (Start i p) s = Some s' \<and> actor_ok s' ks' P'"
proof -
  note ok = actor_okD [OF assms(1)]
  have n: "p \<notin> snd ` set (live s)" "\<And>r. r \<in> snd ` P \<union> set (foreign s) \<Longrightarrow> rtask (asy s) r \<noteq> Some p" "pstate (promises (asy s) p) = PNone"
    using assms(2) not_new_runnable [OF assms(1)] by (auto simp: task_unused_def)
  have "\<forall>j. p \<notin> set (ks j)" using tasks_okD(2) [OF ok(4), of _ p] n(1) by force
  then obtain a where a: "async_detach i p (asy s) = Some a" "task_rep (theap a) (ks(i := p # ks i))" "only p 0 (asy s) a"
    "context_of p a = None" "rtask a = rtask (asy s)" "aworld a = aworld (asy s)" using start_hold [OF ok(2) n(3), of i 0] by blast
  let ?s = "s\<lparr>asy := a, live := (i, p) # live s\<rparr>"
  have "tasks_ok ((i, p) # live s) (ks(i := p # ks i)) P (foreign s) (rtask (asy s)) (\<lambda>t. context_of t a)"
    by (rule tasks_start [OF ok(4) n(1,2)]) (use onlyD [OF a(3)] in auto)
  then have "actor_ok ?s (ks(i := p # ks i)) P" using ok(1,3,5) a held_only [OF a(3) n(1)] by (simp add: actor_ok_def)
  then show ?thesis using a(1) by auto
qed

lemma same_ok:
  assumes "actor_ok s ks P" "theap b = theap (asy s)" "aworld b = aworld (asy s)" "rtask b = rtask (asy s)"
  shows "actor_ok (s\<lparr>asy := b\<rparr>) ks P"
proof -
  have "(\<lambda>t. context_of t b) = (\<lambda>t. context_of t (asy s))" using assms(2) by (simp add: context_of_def)
  then show ?thesis using actor_okD [OF assms(1)] assms(2-4) by (simp add: actor_ok_def)
qed

lemma call_ok:
  assumes "actor_ok s ks P" "actor_enabled (Call i t p child a c caller) s"
  shows "\<exists>s' ks' P'. actor_exec (Call i t p child a c caller) s = Some s' \<and> actor_ok s' ks' P'"
proof -
  have e: "acts_as i t p s" "pstate (promises (asy s) child) = PNone" using assms(2) by auto
  obtain ts where "ks i = t # ts" by (rule acting [OF assms(1) e(1)])
  then obtain b where b: "call_async i child a c caller (asy s) = Some b" "theap b = theap (asy s)" "aworld b = aworld (asy s)" "rtask b = rtask (asy s)"
    using call_hold [OF actor_okD(2) [OF assms(1)] _ e(2)] by blast
  then show ?thesis using same_ok [OF assms(1) b(2-4)] by auto
qed

lemma return_ok:
  assumes "actor_ok s ks P" "actor_enabled (Return_Call i t p pre r a) s"
  shows "\<exists>s' ks' P'. actor_exec (Return_Call i t p pre r a) s = Some s' \<and> actor_ok s' ks' P'"
proof -
  have e: "acts_as i t p s" "pstate (promises (asy s) p) = PInherited t None" "restore_task (asy s) a = Some t" using assms(2) by auto
  obtain ts where "ks i = t # ts" by (rule acting [OF assms(1) e(1)])
  then obtain b where b: "return_async i pre p r a (asy s) = Some b" "theap b = theap (asy s)" "aworld b = aworld (asy s)" "rtask b = rtask (asy s)"
    using return_hold [OF actor_okD(2) [OF assms(1)] _ e(2,3)] by blast
  then show ?thesis using same_ok [OF assms(1) b(2-4)] by auto
qed

text \<open>A switch of contexts by which the acting coroutine goes on or is suspended.\<close>

lemma switched_ok:
  assumes "actor_ok s ks P" "acts_as i t p s" "new_runnable r s" "ks i = t # ts" "only t r (asy s) a"
    and "\<not> sus \<longrightarrow> task_rep (theap a) ks \<and> holding (aworld a) (ctxs (context_of t a) @ others i t s) P"
    and "sus \<longrightarrow> task_rep (theap a) (ks(i := ts)) \<and> rtask a r = Some t \<and> (\<exists>c. context_of t a = Some c \<and> holding (aworld a) (others i t s) (insert (c, r) P))"
  shows "\<exists>ks' P'. actor_ok (s\<lparr>asy := a, live := (if sus then remove1 (i, t) (live s) else live s)\<rparr>) ks' P'"
proof -
  note ok = actor_okD [OF assms(1)] and r = new_runnableD [OF assms(1,3)]
  have ts: "(i, t) \<in> set (live s)" "t \<notin> snd ` set (remove1 (i, t) (live s))" using acting [OF assms(1,2)] by blast+
  note o = held_only [OF assms(5) ts(2)]
  show ?thesis
  proof (cases sus)
    case True
    then obtain c where c: "context_of t a = Some c" "holding (aworld a) (others i t s) (insert (c, r) P)"
      "task_rep (theap a) (ks(i := ts))" "rtask a r = Some t" using assms(7) by blast
    have "tasks_ok (remove1 (i, t) (live s)) (ks(i := ts)) (insert (c, r) P) (foreign s) (rtask a) (\<lambda>t. context_of t a)"
      by (rule tasks_suspend [where c = c, OF ok(4) ts(1) assms(4) r(3) onlyD(1) [OF assms(5)] onlyD(2) [OF assms(5)] c(4) _ ok(2)]) (use c(1) in auto)
    then have "actor_ok (s\<lparr>asy := a, live := remove1 (i, t) (live s)\<rparr>) (ks(i := ts)) (insert (c, r) P)"
      using ok(1,5) c o by (simp add: actor_ok_def)
    then show ?thesis using True by auto
  next
    case False
    have "mset (held_by (\<lambda>t. context_of t a) (live s) @ leaving s) = mset (ctxs (context_of t a) @ others i t s)"
      using held_by_remove [OF ts(1), of "\<lambda>t. context_of t a"] o by simp
    then have h: "holding (aworld a) (held_by (\<lambda>t. context_of t a) (live s) @ leaving s) P" using holding_mset assms(6) False by blast
    have "t \<in> snd ` set (live s)" using ts(1) by force
    from tasks_continue [OF ok(4) this r(3) onlyD(1) [OF assms(5)] onlyD(2) [OF assms(5)]]
    have "tasks_ok (live s) ks P (foreign s) (rtask a) (\<lambda>t. context_of t a)" by simp
    then have "actor_ok (s\<lparr>asy := a, live := live s\<rparr>) ks P" using ok(1,5) assms(6) False h by (simp add: actor_ok_def)
    then show ?thesis using False by auto
  qed
qed

lemma await_ok:
  assumes "actor_ok s ks P" "actor_enabled (Await i t p pre r ph) s"
  shows "\<exists>s' ks' P'. actor_exec (Await i t p pre r ph) s = Some s' \<and> actor_ok s' ks' P'"
proof -
  have e: "acts_as i t p s" "new_runnable r s" "awaitable_now ph (context_of t (asy s)) (aworld (asy s))" using assms(2) by auto
  note r = new_runnableD [OF assms(1) e(2)]
  obtain ts where ts: "ks i = t # ts" "get_task p (asy s) = Some t"
    "holding (aworld (asy s)) (ctxs (context_of t (asy s)) @ others i t s) P" by (rule acting [OF assms(1) e(1)])
  obtain sus a where a: "co_await_placeholder i pre p r ph (asy s) = Some (sus, a)" "only t r (asy s) a"
    "\<not> sus \<longrightarrow> task_rep (theap a) ks \<and> holding (aworld a) (ctxs (context_of t a) @ others i t s) P"
    "sus \<longrightarrow> task_rep (theap a) (ks(i := ts)) \<and> rtask a r = Some t \<and> (\<exists>c. context_of t a = Some c \<and> holding (aworld a) (others i t s) (insert (c, r) P))"
    using await_hold [OF actor_okD(2) [OF assms(1)] ts(1,2) e(3) ts(3) r(1,2), of pre] by blast
  show ?thesis using switched_ok [OF assms(1) e(1,2) ts(1) a(2-4)] a(1) by auto
qed

text \<open>A runnable that belongs to nobody yet gets or loses its task.\<close>

lemma touched_ok:
  assumes "actor_ok s ks P" "acts_as i t p s" "new_runnable k s"
  shows "actor_ok (s\<lparr>asy := touched k x (asy s)\<rparr>) ks P" "acts_as i t p (s\<lparr>asy := touched k x (asy s)\<rparr>)"
    "new_runnable r (s\<lparr>asy := touched k x (asy s)\<rparr>) = new_runnable r s"
proof -
  note ok = actor_okD [OF assms(1)] and r = new_runnableD [OF assms(1,3)]
  have "t \<in> snd ` set (live s)" using assms(2) by (force simp: acts_as_def)
  then have "tasks_ok (live s) ks P (foreign s) ((rtask (asy s))(k := x)) (\<lambda>t. context_of t (asy s))"
    by (rule tasks_continue [OF ok(4) _ r(3)]) auto
  then show "actor_ok (s\<lparr>asy := touched k x (asy s)\<rparr>) ks P" using ok by (simp add: actor_ok_def)
  show "acts_as i t p (s\<lparr>asy := touched k x (asy s)\<rparr>)" using assms(2) by (simp add: acts_as_def)
  show "new_runnable r (s\<lparr>asy := touched k x (asy s)\<rparr>) = new_runnable r s" by (simp add: new_runnable_def)
qed

text \<open>The acting coroutine is suspended in a foreign object, and its thread is about to leave the context it had.\<close>

lemma away_ok:
  assumes "actor_ok s ks P" "acts_as i t p s" "new_runnable k s" "ks i = t # ts" "only t k (asy s) a"
    and "task_rep (theap a) (ks(i := ts))" "rtask a k = Some t" "aworld a = aworld (asy s)"
  shows "actor_ok (s\<lparr>asy := a, live := remove1 (i, t) (live s), foreign := k # foreign s, leaving := ctxs (context_of t (asy s)) @ leaving s\<rparr>) (ks(i := ts)) P"
proof -
  note ok = actor_okD [OF assms(1)] and r = new_runnableD [OF assms(1,3)]
  have ts: "(i, t) \<in> set (live s)" "t \<notin> snd ` set (remove1 (i, t) (live s))"
    "holding (aworld (asy s)) (ctxs (context_of t (asy s)) @ others i t s) P" using acting [OF assms(1,2)] by blast+
  have "tasks_ok (remove1 (i, t) (live s)) (ks(i := ts)) P (k # foreign s) (rtask a) (\<lambda>t. context_of t a)"
    by (rule tasks_suspend [OF ok(4) ts(1) assms(4) r(3) onlyD(1) [OF assms(5)] onlyD(2) [OF assms(5)] assms(7) _ ok(2)]) auto
  moreover have "mset (ctxs (context_of t (asy s)) @ others i t s) =
      mset (held_by (\<lambda>u. context_of u a) (remove1 (i, t) (live s)) @ ctxs (context_of t (asy s)) @ leaving s)"
    using held_only [OF assms(5) ts(2)] by simp
  then have "holding (aworld a) (held_by (\<lambda>u. context_of u a) (remove1 (i, t) (live s)) @ ctxs (context_of t (asy s)) @ leaving s) P"
    using holding_mset ts(3) assms(8) by metis
  ultimately show ?thesis using ok(1,5) assms(6) r(1) by (simp add: actor_ok_def)
qed

lemma foreign_ok:
  assumes "actor_ok s ks P" "actor_enabled (Foreign i t p b k) s"
  shows "\<exists>s' ks' P'. actor_exec (Foreign i t p b k) s = Some s' \<and> actor_ok s' ks' P'"
proof -
  have e: "acts_as i t p s" "new_runnable k s" using assms(2) by auto
  obtain ts where ts: "ks i = t # ts" "get_task p (asy s) = Some t" by (rule acting [OF assms(1) e(1)])
  obtain a where a: "foreign_suspend i p b k (asy s) = Some a" "task_rep (theap a) (ks(i := ts))" "rtask a k = Some t" "only t k (asy s) a"
    "context_of t a = context_of t (asy s)" "aworld a = aworld (asy s)" using foreign_hold [OF actor_okD(2) [OF assms(1)] ts, of b k] by blast
  show ?thesis using away_ok [OF assms(1) e ts(1) a(4,2,3,6)] a(1,5) by auto
qed

lemma foreign_now_ok:
  assumes "actor_ok s ks P" "actor_enabled (Foreign_Now i t p b k alloc out) s"
  shows "\<exists>s' ks' P'. actor_exec (Foreign_Now i t p b k alloc out) s = Some s' \<and> actor_ok s' ks' P'"
proof -
  have e: "acts_as i t p s" "new_runnable k s" "out \<in> {SContinue, SThrow}" using assms(2) by auto
  obtain ts where ts: "ks i = t # ts" "get_task p (asy s) = Some t" by (rule acting [OF assms(1) e(1)])
  obtain a x where a: "foreign_now i p b k alloc out (asy s) = Some a" "theap a = theap (asy s)" "aworld a = aworld (asy s)" "rtask a = (rtask (asy s))(k := x)"
    using foreign_now_hold [OF actor_okD(2) [OF assms(1)] ts e(3), of b k alloc] by blast
  have "actor_ok (s\<lparr>asy := touched k x (asy s), asy := a\<rparr>) ks P"
    by (rule same_ok [OF touched_ok(1) [OF assms(1) e(1,2), of x]]) (use a in simp_all)
  then show ?thesis using a(1) by auto
qed

lemma bind_foreign_ok:
  assumes "actor_ok s ks P" "actor_enabled (Bind_Foreign i t p to r k) s"
  shows "\<exists>s' ks' P'. actor_exec (Bind_Foreign i t p to r k) s = Some s' \<and> actor_ok s' ks' P'"
proof -
  have e: "acts_as i t p s" "new_runnable r s" "new_runnable k s" using assms(2) by auto
  obtain ts where ts: "ks i = t # ts" "get_task p (asy s) = Some t" by (rule acting [OF assms(1) e(1)])
  obtain s0 a where a: "await_transform_bound p (asy s) = Some s0" "bound_suspend i p to r k s0 = Some (context_of t (asy s), a)"
    "task_rep (theap a) (ks(i := ts))" "rtask a k = Some t" "only t k (touched r (Some t) (asy s)) a" "aworld a = aworld (asy s)"
    using bound_hold [OF actor_okD(2) [OF assms(1)] ts, of to r k] by blast
  note t = touched_ok [OF assms(1) e(1,2), where x = "Some t"]
  have k: "new_runnable k (s\<lparr>asy := touched r (Some t) (asy s)\<rparr>)" using t(3) e(3) by blast
  have "actor_ok (s\<lparr>asy := a, live := remove1 (i, t) (live s), foreign := k # foreign s, leaving := ctxs (context_of t (asy s)) @ leaving s\<rparr>) (ks(i := ts)) P"
    using away_ok [OF t(1,2) k ts(1), of a] a(3-6) by simp
  then show ?thesis using a(1,2) by auto
qed

lemma bind_now_ok:
  assumes "actor_ok s ks P" "actor_enabled (Bind_Now i t p pre to r k alloc by_handle out) s"
  shows "\<exists>s' ks' P'. actor_exec (Bind_Now i t p pre to r k alloc by_handle out) s = Some s' \<and> actor_ok s' ks' P'"
proof -
  have e: "acts_as i t p s" "new_runnable r s" "new_runnable k s" "out \<in> {SContinue, SThrow}" using assms(2) by auto
  note r = new_runnableD [OF assms(1) e(2)]
  obtain ts where ts: "ks i = t # ts" "get_task p (asy s) = Some t"
    "holding (aworld (asy s)) (ctxs (context_of t (asy s)) @ others i t s) P" by (rule acting [OF assms(1) e(1)])
  obtain sus x a where a: "bound_now i pre p to r k alloc by_handle out (asy s) = Some (sus, a)" "only t r (touched k x (asy s)) a"
    "\<not> sus \<longrightarrow> task_rep (theap a) ks \<and> holding (aworld a) (ctxs (context_of t a) @ others i t s) P"
    "sus \<longrightarrow> task_rep (theap a) (ks(i := ts)) \<and> rtask a r = Some t \<and> (\<exists>c. context_of t a = Some c \<and> holding (aworld a) (others i t s) (insert (c, r) P))"
    using bound_now_hold [OF actor_okD(2) [OF assms(1)] ts(1,2) e(4) ts(3) r(1,2), of pre to k alloc by_handle] by blast
  note t = touched_ok [OF assms(1) e(1,3), where x = x]
  have n: "new_runnable r (s\<lparr>asy := touched k x (asy s)\<rparr>)" using t(3) e(2) by blast
  have "\<exists>ks' P'. actor_ok (s\<lparr>asy := a, live := (if sus then remove1 (i, t) (live s) else live s)\<rparr>) ks' P'"
    using switched_ok [OF t(1,2) n ts(1), of a sus] a(2-4) by (cases sus) simp_all
  then show ?thesis using a(1) by auto
qed

lemma leave_ok:
  assumes "actor_ok s ks P" "actor_enabled (Leave c) s"
  shows "\<exists>s' ks' P'. actor_exec (Leave c) s = Some s' \<and> actor_ok s' ks' P'"
proof -
  note ok = actor_okD [OF assms(1)]
  let ?h = "held_by (\<lambda>t. context_of t (asy s)) (live s)"
  have "mset (?h @ leaving s) = mset (c # ?h @ remove1 c (leaving s))" using assms(2) by simp
  then obtain w where w: "do_leave (aworld (asy s)) (Some c) = Some w" "holding w (?h @ remove1 c (leaving s)) P"
    using holding_leave holding_mset ok(3) by blast
  let ?a = "(asy s)\<lparr>aworld := w\<rparr>"
  have "(\<lambda>t. context_of t ?a) = (\<lambda>t. context_of t (asy s))" by (simp add: context_of_def)
  then have "actor_ok (s\<lparr>asy := ?a, leaving := remove1 c (leaving s)\<rparr>) ks P" using ok w(2) by (simp add: actor_ok_def)
  then show ?thesis using w(1) by (auto simp: context_leave_def)
qed

text \<open>The rest of the events put a task that waited on a thread.\<close>

lemma resume_on_ok:
  assumes "\<not> afailed s" "task_rep (theap (asy s)) ks" "rtask (asy s) r = Some t" "\<forall>j. t \<notin> set (ks j)" "stub \<notin> set (foreign s)"
    and "holding (aworld (asy s)) (ctxs (context_of t (asy s)) @ held_by (\<lambda>t. context_of t (asy s)) (live s) @ leaving s) P"
    and "tasks_ok ((j, t) # live s) (ks(j := t # ks j)) P (foreign s) (rtask (asy s)) (\<lambda>t. context_of t (asy s))"
  shows "\<exists>s' ks'. resume_on j r s = Some s' \<and> actor_ok s' ks' P"
proof -
  obtain h where h: "task_enter j t (asy s) = Some ((asy s)\<lparr>theap := h\<rparr>)" "task_rep h (ks(j := t # ks j))"
    "\<forall>u. context_of u ((asy s)\<lparr>theap := h\<rparr>) = context_of u (asy s)" by (rule task_enter_all [OF assms(2,4)])
  let ?s = "s\<lparr>asy := (asy s)\<lparr>theap := h\<rparr>, live := (j, t) # live s\<rparr>"
  have "actor_ok ?s (ks(j := t # ks j)) P" using assms(1,5-7) h by (simp add: actor_ok_def)
  moreover have "resume_on j r s = Some ?s" using assms(3) h(1) by (simp add: resume_on_def switch_await_resume_def)
  ultimately show ?thesis by blast
qed

lemma resume_ok:
  assumes "actor_ok s ks P" "actor_enabled (Resume j pre k) s"
  shows "\<exists>s' ks' P'. actor_exec (Resume j pre k) s = Some s' \<and> actor_ok s' ks' P'"
proof -
  note ok = actor_okD [OF assms(1)]
  have k: "k \<in> set (foreign s)" "k \<in> snd ` P \<union> set (foreign s)" "k \<noteq> stub" using assms(2) ok(5) by auto
  have nP: "\<forall>d. (d, k) \<notin> P" using tasks_okD(6) [OF ok(4)] k(1) by force
  obtain t where t: "rtask (asy s) k = Some t" using tasks_okD(4) [OF ok(4) k(2)] by blast
  obtain out a where a: "restore_callback j pre k (asy s) = Some (out, a)" "\<forall>ks. task_rep (theap a) ks = task_rep (theap (asy s)) ks" "rtask a = rtask (asy s)"
    "\<forall>u. context_of u a = context_of u (asy s)"
    "out = SNoop \<longrightarrow> (\<exists>c. context_of t (asy s) = Some c \<and> holding (aworld a) (held_by (\<lambda>t. context_of t (asy s)) (live s) @ leaving s) (insert (c, k) P))"
    "out \<noteq> SNoop \<longrightarrow> holding (aworld a) (ctxs (context_of t (asy s)) @ held_by (\<lambda>t. context_of t (asy s)) (live s) @ leaving s) P"
    using restore_hold [OF ok(3) t k(3) nP, of j pre] by blast
  let ?s = "s\<lparr>asy := a, foreign := remove1 k (foreign s)\<rparr>"
  have st: "stub \<notin> set (remove1 k (foreign s))" using ok(5) set_remove1_subset by fast
  show ?thesis
  proof (cases "out = SNoop")
    case True
    then obtain c where c: "context_of t (asy s) = Some c"
      "holding (aworld a) (held_by (\<lambda>t. context_of t (asy s)) (live s) @ leaving s) (insert (c, k) P)" using a(5) by blast
    have "actor_ok ?s ks (insert (c, k) P)"
      using tasks_move [OF ok(4) k(1) t c(1)] c(2) ok(1,2) a(2-4) st by (simp add: actor_ok_def)
    then show ?thesis using a(1) True by auto
  next
    case False
    have "tasks_ok ((j, t) # live s) (ks(j := t # ks j)) P (remove1 k (foreign s)) (rtask (asy s)) (\<lambda>t. context_of t (asy s))"
      by (rule tasks_resume [OF ok(4) t]) (use k(1) in blast)
    then obtain s' ks' where "resume_on j k ?s = Some s'" "actor_ok s' ks' P"
      using resume_on_ok [of ?s ks k t P j] ok(1,2) a(2-4,6) t st False tasks_off(2) [OF ok(4) k(2) t] by auto
    then show ?thesis using a(1) False by auto
  qed
qed

lemma dispatch_ok:
  assumes "actor_ok s ks P" "actor_enabled (Dispatch j (sc, h, c, r)) s"
  shows "\<exists>s' ks' P'. actor_exec (Dispatch j (sc, h, c, r)) s = Some s' \<and> actor_ok s' ks' P'"
proof -
  note ok = actor_okD [OF assms(1)]
  let ?w = "aworld (asy s)"
  obtain us vs where u: "scheduled ?w = us @ (sc, h, c, r) # vs" "(sc, h, c, r) \<notin> set us"
    using assms(2) split_list_first [of "(sc, h, c, r)" "scheduled ?w"] by auto
  then have rm: "remove1 (sc, h, c, r) (scheduled ?w) = us @ vs" by (simp add: remove1_append)
  let ?h = "held_by (\<lambda>t. context_of t (asy s)) (live s)"
  have d: "holding (?w\<lparr>scheduled := us @ vs\<rparr>) (c # ?h @ leaving s) (P - {(c, r)})" "(c, r) \<in> P"
    using holding_dispatch [OF ok(3) u(1)] by simp_all
  obtain t where t: "rtask (asy s) r = Some t" "context_of t (asy s) = Some c" "t \<notin> snd ` set (live s)" by (rule tasks_parked [OF ok(4) d(2)])
  let ?a = "set_scheduled t True ((asy s)\<lparr>aworld := ?w\<lparr>scheduled := us @ vs\<rparr>\<rparr>)"
  have cx: "context_of v ?a = context_of v (asy s)" for v by (simp add: context_of_def set_scheduled_def)
  have "tasks_ok ((j, t) # live s) (ks(j := t # ks j)) (P - {(c, r)}) (foreign s) (rtask (asy s)) (\<lambda>t. context_of t (asy s))"
    by (rule tasks_resume [OF ok(4) t(1)]) (use d(2) in blast)
  then obtain s' ks' where "resume_on j r (s\<lparr>asy := ?a\<rparr>) = Some s'" "actor_ok s' ks' (P - {(c, r)})"
    using resume_on_ok [of "s\<lparr>asy := ?a\<rparr>" ks r t "P - {(c, r)}" j] ok(1,2,5) cx t d(1) tasks_off(2) [OF ok(4) in_park [OF d(2)] t(1)] by auto
  then show ?thesis using t(1) rm by (auto simp: run_runnable_def Let_def)
qed

lemma finish_ok:
  assumes "actor_ok s ks P" "actor_enabled (Finish i t p pre r) s"
  shows "\<exists>s' ks' P'. actor_exec (Finish i t p pre r) s = Some s' \<and> actor_ok s' ks' P'"
proof -
  note ok = actor_okD [OF assms(1)]
  obtain caller where e: "acts_as i t p s" "new_runnable r s" "continuation (promises (asy s) p) \<noteq> None" "pstate (promises (asy s) p) = PInherited t (Some caller)"
    using assms(2) by auto
  note r = new_runnableD [OF assms(1) e(2)]
  obtain ts where ts: "ks i = t # ts" "(i, t) \<in> set (live s)" "get_task p (asy s) = Some t"
    "holding (aworld (asy s)) (ctxs (context_of t (asy s)) @ others i t s) P" "t \<notin> snd ` set (remove1 (i, t) (live s))"
    by (rule acting [OF assms(1) e(1)])
  obtain out a where a: "final_suspend i pre p r (asy s) = Some (out, a)" "task_rep (theap a) (ks(i := ts))" "only t r (asy s) a" "rtask a r = Some t"
    "out \<noteq> SNoop \<longrightarrow> holding (aworld a) (ctxs (context_of t a) @ others i t s) P"
    "out = SNoop \<longrightarrow> (\<exists>c. context_of t a = Some c \<and> holding (aworld a) (others i t s) (insert (c, r) P))"
    using finish_hold [OF ok(2) ts(1) e(4,3) ts(4) r(1,2), of pre] by blast
  let ?s = "s\<lparr>asy := a, live := remove1 (i, t) (live s)\<rparr>"
  note o = held_only [OF a(3) ts(5)]
  note sus = tasks_suspend [OF ok(4) ts(2,1) r(3) onlyD(1) [OF a(3)] onlyD(2) [OF a(3)] a(4) _ ok(2)]
  show ?thesis
  proof (cases "out = SNoop")
    case True
    then obtain c where c: "context_of t a = Some c" "holding (aworld a) (others i t s) (insert (c, r) P)" using a(6) by blast
    have "tasks_ok (remove1 (i, t) (live s)) (ks(i := ts)) (insert (c, r) P) (foreign s) (rtask a) (\<lambda>t. context_of t a)"
      by (rule sus [where c = c]) (use c(1) in auto)
    then have "actor_ok ?s (ks(i := ts)) (insert (c, r) P)" using ok(1,5) c(2) o a(2) by (simp add: actor_ok_def)
    then show ?thesis using a(1) True by auto
  next
    case False
    have f: "tasks_ok (remove1 (i, t) (live s)) (ks(i := ts)) P (r # foreign s) (rtask a) (\<lambda>t. context_of t a)" by (rule sus) auto
    have "tasks_ok ((i, t) # remove1 (i, t) (live s)) ((ks(i := ts))(i := t # (ks(i := ts)) i)) P (foreign s) (rtask a) (\<lambda>t. context_of t a)"
      by (rule tasks_resume [OF f a(4)]) simp
    moreover have "\<forall>j. t \<notin> set ((ks(i := ts)) j)" using tasks_off(2) [OF f _ a(4)] by simp
    ultimately obtain s' ks' where "resume_on i r ?s = Some s'" "actor_ok s' ks' P"
      using resume_on_ok [of ?s "ks(i := ts)" r t P i] ok(1,5) a(2,4,5) o False by auto
    then show ?thesis using a(1) False by auto
  qed
qed

lemma finish_task_ok:
  assumes "actor_ok s ks P" "actor_enabled (Finish_Task i p pre r) s"
  shows "\<exists>s' ks' P'. actor_exec (Finish_Task i p pre r) s = Some s' \<and> actor_ok s' ks' P'"
proof -
  note ok = actor_okD [OF assms(1)]
  have e: "acts_as i p p s" "pstate (promises (asy s) p) = PPrivate" using assms(2) by auto
  obtain ts where ts: "ks i = p # ts" "(i, p) \<in> set (live s)" "get_task p (asy s) = Some p"
    "holding (aworld (asy s)) (ctxs (context_of p (asy s)) @ others i p s) P" "p \<notin> snd ` set (remove1 (i, p) (live s))"
    by (rule acting [OF assms(1) e(1)])
  obtain out a where a: "final_suspend i pre p r (asy s) = Some (out, a)" "task_rep (theap a) (ks(i := ts))" "only p r (asy s) a"
    "holding (aworld a) (others i p s) P" "rtask a = rtask (asy s)" using finish_task_hold [OF ok(2) ts(1) e(2) ts(4)] by blast
  have "tasks_ok (remove1 (i, p) (live s)) (ks(i := ts)) P (foreign s) (rtask a) (\<lambda>t. context_of t a)"
    unfolding a(5) by (rule tasks_end [OF ok(4) ts(2,1) ok(2)]) (use onlyD(1) [OF a(3)] in auto)
  then have "actor_ok (s\<lparr>asy := a, live := remove1 (i, p) (live s)\<rparr>) (ks(i := ts)) P"
    using ok(1,5) a(2,4) held_only [OF a(3) ts(5)] by (simp add: actor_ok_def)
  then show ?thesis using a(1) by auto
qed

text \<open>No event fails, and every event keeps the invariant.\<close>

lemma actor_exec_ok:
  assumes "actor_inv s" "actor_enabled e s"
  shows "\<exists>s'. actor_exec e s = Some s' \<and> actor_inv s'"
proof -
  obtain ks P where ok: "actor_ok s ks P" using assms(1) by (auto simp: actor_inv_def)
  have "\<exists>s' ks' P'. actor_exec e s = Some s' \<and> actor_ok s' ks' P'"
  proof (cases e)
    case (Start i p)
    show ?thesis unfolding Start by (rule start_ok [OF ok assms(2) [unfolded Start]])
  next
    case (Call i t p child a c caller)
    show ?thesis unfolding Call by (rule call_ok [OF ok assms(2) [unfolded Call]])
  next
    case (Return_Call i t p pre r a)
    show ?thesis unfolding Return_Call by (rule return_ok [OF ok assms(2) [unfolded Return_Call]])
  next
    case (Await i t p pre r ph)
    show ?thesis unfolding Await by (rule await_ok [OF ok assms(2) [unfolded Await]])
  next
    case (Foreign i t p b k)
    show ?thesis unfolding Foreign by (rule foreign_ok [OF ok assms(2) [unfolded Foreign]])
  next
    case (Foreign_Now i t p b k alloc out)
    show ?thesis unfolding Foreign_Now by (rule foreign_now_ok [OF ok assms(2) [unfolded Foreign_Now]])
  next
    case (Bind_Foreign i t p to r k)
    show ?thesis unfolding Bind_Foreign by (rule bind_foreign_ok [OF ok assms(2) [unfolded Bind_Foreign]])
  next
    case (Bind_Now i t p pre to r k alloc by_handle out)
    show ?thesis unfolding Bind_Now by (rule bind_now_ok [OF ok assms(2) [unfolded Bind_Now]])
  next
    case (Leave c)
    show ?thesis unfolding Leave by (rule leave_ok [OF ok assms(2) [unfolded Leave]])
  next
    case (Resume j pre k)
    show ?thesis unfolding Resume by (rule resume_ok [OF ok assms(2) [unfolded Resume]])
  next
    case (Finish i t p pre r)
    show ?thesis unfolding Finish by (rule finish_ok [OF ok assms(2) [unfolded Finish]])
  next
    case (Finish_Task i p pre r)
    show ?thesis unfolding Finish_Task by (rule finish_task_ok [OF ok assms(2) [unfolded Finish_Task]])
  next
    case (Dispatch j x)
    obtain sc h c r where x: "x = (sc, h, c, r)" by (cases x)
    show ?thesis unfolding Dispatch x by (rule dispatch_ok [OF ok assms(2) [unfolded Dispatch x]])
  next
    case (Values ps)
    have "actor_ok (s\<lparr>asy := (asy s)\<lparr>promises := ps\<rparr>\<rparr>) ks P" by (rule same_ok [OF ok]) simp_all
    then show ?thesis unfolding Values by auto
  qed
  then show ?thesis by (auto simp: actor_inv_def)
qed

lemma actor_inv_init:
  assumes "actor_init s"
  shows "actor_inv s"
proof -
  have i: "mailboxes (aworld (asy s)) = (\<lambda>_. initially_unlocked)" "scheduled (aworld (asy s)) = []" "\<And>i. current (theap (asy s)) i = None"
    "\<And>t. task_next (task_at (theap (asy s)) t) = Inactive" "live s = []" "foreign s = []" "leaving s = []" "\<not> afailed s"
    using assms by (simp_all add: actor_init_def)
  have r: "wrep (aworld (asy s)) (\<lambda>_. []) (\<lambda>_. False)" using i(1) by (simp add: wrep_def initially_rep)
  have "act_inv (act_of (aworld (asy s)) [])" by (rule act_invI [of _ "\<lambda>_. []" "\<lambda>_. False"]) (use r i(2) in \<open>simp_all add: held_activations\<close>)
  moreover have "park_ok (aworld (asy s)) (\<lambda>_. [])" "park (aworld (asy s)) (\<lambda>_. []) = {}" using i(2) by (simp_all add: park_ok_def park_def)
  ultimately have "holding (aworld (asy s)) [] {}" using r unfolding holding_def held_inv_def by blast
  moreover have "task_rep (theap (asy s)) (\<lambda>_. [])" using i(3,4) by (simp add: task_rep_def)
  ultimately have "actor_ok s (\<lambda>_. []) {}" using i(5-8) by (simp add: actor_ok_def tasks_ok_def)
  then show ?thesis by (auto simp: actor_inv_def)
qed

lemma actor_step_inv:
  assumes "actor_inv s" "actor_step s t"
  shows "actor_inv t"
  using assms(2) by cases (use actor_exec_ok [OF assms(1)] in fastforce)+

interpretation actor: inv_system actor_init actor_step actor_inv
  by unfold_locales (auto intro: actor_inv_init actor_step_inv)

section \<open>Properties\<close>

lemma holding_count:
  assumes "holding w cs P"
  shows "count_list (map fst (jobs (scheduled w))) c + count_list cs c \<le> 1"
    "(c, r) \<in> P \<Longrightarrow> count_list (map fst (jobs (scheduled w))) c + count_list cs c = 1"
proof -
  obtain q L where q: "wrep w q L" "\<And>c. activations (act_of w cs) c = (if L c then 1 else 0)"
    using act_invE [of "act_of w cs"] assms by (auto simp: holding_def held_inv_def)
  show "count_list (map fst (jobs (scheduled w))) c + count_list cs c \<le> 1" using q(2) [of c] unfolding held_activations by (simp split: if_splits)
  assume "(c, r) \<in> P"
  then have "waits w c r" using waits_iff [OF assms] by simp
  then consider "r \<in> set (q c)" | "(c, r) \<in> set (jobs (scheduled w))" using mb_rep_unique(1) q(1) unfolding waits_def wrep_def by blast
  then have "L c"
  proof cases
    case 1
    then show ?thesis using wrep_unlocked [OF q(1), of c] by force
  next
    case 2
    then have "c \<in> set (map fst (jobs (scheduled w)))" by force
    then have "count_list (map fst (jobs (scheduled w))) c \<noteq> 0" by (simp add: count_list_0_iff)
    then show ?thesis using q(2) [of c] unfolding held_activations by (simp split: if_splits)
  qed
  then show "count_list (map fst (jobs (scheduled w))) c + count_list cs c = 1" using q(2) [of c] unfolding held_activations by simp
qed

lemma holding_no_job:
  assumes "holding w cs P" "c \<in> set cs"
  shows "c \<notin> fst ` set (jobs (scheduled w))"
proof -
  have "count_list cs c \<noteq> 0" using assms(2) by (simp add: count_list_0_iff)
  then have "count_list (map fst (jobs (scheduled w))) c = 0" using holding_count(1) [OF assms(1), of c] by simp
  then show ?thesis by (simp add: count_list_0_iff)
qed

lemma in_held_by: "(i, t) \<in> set lv \<Longrightarrow> cx t = Some c \<Longrightarrow> c \<in> set (held_by cx lv)"
  by (induction lv) auto

lemma held_by_once:
  assumes "distinct (held_by cx lv)" "(i, t) \<in> set lv" "(j, u) \<in> set lv" "cx t = Some c" "cx u = Some c"
  shows "(j, u) = (i, t)"
proof (rule ccontr)
  assume "(j, u) \<noteq> (i, t)"
  then have "(j, u) \<in> set (remove1 (i, t) lv)" using assms(3) by simp
  then have "c \<in> set (held_by cx (remove1 (i, t) lv))" using in_held_by assms(5) by fast
  moreover have "distinct (c # held_by cx (remove1 (i, t) lv))"
    using mset_eq_imp_distinct_iff [OF held_by_remove [OF assms(2), of cx]] assms(1,4) by simp
  ultimately show False by simp
qed

text \<open>
  C1. Actors are isolated.  Coroutines are started, call each other, switch contexts, preempt and yield, are
  suspended in objects of other libraries, in the same or in a bound context, are resumed on any threads and
  finish, in any order.  Then no check of the code fails, and no two
  coroutines bound to the same context run at the same time: while a task bound to a context is
  on a thread, no other is on any, no thread is about to leave the context and no scheduler has a
  job of it.  Two awaits are excluded, in which the code is wrong and the statement does not hold: a
  \<open>yield\<close> while other runnables wait for the context (\<open>yield_alone\<close>; \<open>do_yield_drops_runnable\<close> in \<open>Actor_Context\<close>), and
  the await of a foreign object that is already ready in a bound context other than the current one
  (\<open>change_context_ready_breaks\<close> in \<open>Async\<close>).
\<close>

theorem actor_isolation:
  assumes "reach actor_init actor_step s"
  shows "\<not> afailed s \<and> ((i, t) \<in> set (live s) \<and> context_of t (asy s) = Some c \<longrightarrow>
    c \<notin> set (leaving s) \<and> c \<notin> fst ` set (jobs (scheduled (aworld (asy s)))) \<and>
    (\<forall>j u. (j, u) \<in> set (live s) \<and> context_of u (asy s) = Some c \<longrightarrow> j = i \<and> u = t))"
proof -
  let ?h = "held_by (\<lambda>t. context_of t (asy s)) (live s)"
  obtain ks P where ok: "actor_ok s ks P" using actor.reach_inv [OF assms] by (auto simp: actor_inv_def)
  note h = actor_okD(3) [OF ok]
  have d: "distinct (?h @ leaving s)" by (rule holding_distinct [OF h])
  have "c \<notin> set (leaving s) \<and> c \<notin> fst ` set (jobs (scheduled (aworld (asy s))))"
    if "(i, t) \<in> set (live s)" "context_of t (asy s) = Some c"
    using in_held_by [of i t "live s" "\<lambda>t. context_of t (asy s)" c] that d holding_no_job [OF h, of c] by auto
  moreover have "j = i \<and> u = t" if "(i, t) \<in> set (live s)" "context_of t (asy s) = Some c" "(j, u) \<in> set (live s)" "context_of u (asy s) = Some c" for j u
    using held_by_once [of "\<lambda>t. context_of t (asy s)" "live s" i t j u c] that d by simp
  ultimately show ?thesis using actor_okD(1) [OF ok] by blast
qed

text \<open>
  C2. No coroutine is lost.  When a runnable waits for a context, its task is on no thread and is
  bound to that context, no other runnable waits for the same task, and exactly one party will
  run the context next: one task on a thread, one thread about to leave it, or one job given to
  the scheduler of the context.  This holds for the same executions as the isolation of actors above: without a
  \<open>yield\<close> while other runnables wait, after which the runnable would wait in two places, and
  without the await of a ready foreign object in another bound context, after which the task would be bound to
  the wrong context.
\<close>

theorem waiting_actor_served:
  assumes "reach actor_init actor_step s" "waits (aworld (asy s)) c r"
  shows "\<exists>t. rtask (asy s) r = Some t \<and> context_of t (asy s) = Some c \<and> t \<notin> snd ` set (live s) \<and>
    (\<forall>d x. waits (aworld (asy s)) d x \<and> rtask (asy s) x = Some t \<longrightarrow> d = c \<and> x = r) \<and>
    count_list (map fst (jobs (scheduled (aworld (asy s))))) c + count_list (held_by (\<lambda>t. context_of t (asy s)) (live s)) c + count_list (leaving s) c = 1"
proof -
  obtain ks P where ok: "actor_ok s ks P" using actor.reach_inv [OF assms(1)] by (auto simp: actor_inv_def)
  note t = actor_okD(4) [OF ok] and w = waits_iff [OF actor_okD(3) [OF ok]]
  have P: "(c, r) \<in> P" using assms(2) w by simp
  obtain u where u: "rtask (asy s) r = Some u" "context_of u (asy s) = Some c" "u \<notin> snd ` set (live s)" by (rule tasks_parked [OF t P])
  have "d = c \<and> x = r" if x: "(d, x) \<in> P" "rtask (asy s) x = Some u" for d x
    using tasks_okD(3) [OF t x(1)] x(2) u(1,2) inj_onD [OF tasks_okD(5) [OF t] _ in_park [OF x(1)] in_park [OF P]] by auto
  moreover have "count_list (map fst (jobs (scheduled (aworld (asy s))))) c + count_list (held_by (\<lambda>t. context_of t (asy s)) (live s)) c + count_list (leaving s) c = 1"
    using holding_count(2) [OF actor_okD(3) [OF ok] P] by simp
  ultimately show ?thesis using u w by (intro exI [of _ u]) (simp, blast)
qed

text \<open>A run: a coroutine starts on thread 1, awaits context 3, and is run on thread 2.\<close>

definition actors1 :: "nat actor_sys" where
  "actors1 = \<lparr>asy = \<lparr>aworld = world0, theap = heap0, promises = (\<lambda>_. \<lparr>continuation = None, pstate = PNone, presult = Empty\<rparr>),
       rtask = (\<lambda>_. None), rcont = (\<lambda>_. 0), restore_task = (\<lambda>_. None), destroyed = (\<lambda>_. False)\<rparr>,
     live = [], foreign = [], leaving = [], afailed = False\<rparr>"

lemma actors1_run:
  obtains s1 s2 :: "nat actor_sys" where "reach actor_init actor_step s1" "waits (aworld (asy s1)) 3 7"
    "reach actor_init actor_step s2" "(2, 5) \<in> set (live s2)" "context_of 5 (asy s2) = Some 3"
proof -
  have r0: "reach actor_init actor_step actors1"
    by (rule reach_init) (simp add: actor_init_def actors1_def world0_def heap0_def new_task_def)
  have "actor_enabled (Start 1 5) actors1" by (simp add: actors1_def task_unused_def)
  moreover from this obtain a where a: "actor_exec (Start 1 5) actors1 = Some a" "actor_inv a"
    using actor_exec_ok [OF actor.reach_inv [OF r0]] by blast
  ultimately have ra: "reach actor_init actor_step a" using reach_step [OF r0 actor_runs] by blast
  have aw: "aworld (asy a) = world0" "live a = [(1, 5)]" "foreign a = []" "current (theap (asy a)) 1 = Some 5" "get_task 5 (asy a) = Some 5"
    "pstate (promises (asy a) 5) = PPrivate" "context_of 5 (asy a) = None" "task_at (theap (asy a)) 5 = new_task\<lparr>task_next := Below None\<rparr>"
    using a(1) by (auto simp: actors1_def async_detach_def prepare_def initial_resume_def get_task_def set_pstate_def task_enter_def enter_def heap0_def
      new_task_def context_of_def Let_def)
  have "\<not> waits world0 c x" for c x
    using mb_rep_unique(1) [OF _ initially_rep(2)] by (force simp: waits_def world0_def jobs_def)
  then have "actor_enabled (Await 1 5 5 (\<lambda>_. False) 7 (BindContext (Some 3))) a" using aw by (simp add: acts_as_def new_runnable_def stub_def)
  moreover from this obtain b where b: "actor_exec (Await 1 5 5 (\<lambda>_. False) 7 (BindContext (Some 3))) a = Some b" "actor_inv b"
    using actor_exec_ok [OF a(2)] by blast
  ultimately have rb: "reach actor_init actor_step b" using reach_step [OF ra actor_runs] by blast
  obtain w where w: "do_enter \<lparr>running_task = False, preempts = (\<lambda>_. False)\<rparr> world0 (Some 3) 7 True = Some (False, w)" "scheduled w = [(0, Post, 3, 7)]"
    using do_enter_unlocked [OF world0_rep, where c = 3 and r = 7 and e = "\<lparr>running_task = False, preempts = (\<lambda>_. False)\<rparr>" and initial = True and b = False]
    by (auto simp: mb_fresh_def stub_def world0_def)
  have sb: "scheduled (aworld (asy b)) = [(0, Post, 3, 7)]" "rtask (asy b) 7 = Some 5" "context_of 5 (asy b) = Some 3"
    using b(1) w aw by (auto simp: co_await_context_def await_transform_context_def preserve_caller_context_def get_task_def context_of_def
      switch_await_suspend_def task_leave_def leave_def set_context_def set_runnable_def set_pstate_def context_enter_def env_def new_task_def Let_def below_def)
  have wb: "waits (aworld (asy b)) 3 7" using sb(1) by (simp add: waits_def jobs_def)
  have "actor_enabled (Dispatch 2 (0, Post, 3, 7)) b" using sb(1) by simp
  moreover from this obtain c where c: "actor_exec (Dispatch 2 (0, Post, 3, 7)) b = Some c" using actor_exec_ok [OF b(2)] by blast
  ultimately have rc: "reach actor_init actor_step c" using reach_step [OF rb actor_runs] by blast
  have "(2, 5) \<in> set (live c)" "context_of 5 (asy c) = Some 3"
    using c sb by (auto simp: run_runnable_def resume_on_def switch_await_resume_def task_enter_def enter_def set_scheduled_def context_of_def Let_def
      split: if_splits)
  then show thesis using that rb wb rc by blast
qed

theorem actor_isolation_witness:
  "\<exists>s. reach actor_init actor_step (s :: nat actor_sys) \<and> (2, 5) \<in> set (live s) \<and> context_of 5 (asy s) = Some 3 \<and> \<not> afailed s \<and>
    3 \<notin> fst ` set (jobs (scheduled (aworld (asy s))))"
proof -
  obtain s1 s2 :: "nat actor_sys" where "reach actor_init actor_step s1" "waits (aworld (asy s1)) 3 7"
    "reach actor_init actor_step s2" "(2, 5) \<in> set (live s2)" "context_of 5 (asy s2) = Some 3" by (rule actors1_run)
  then show ?thesis using actor_isolation [of s2 2 5 3] by blast
qed

theorem waiting_actor_served_witness:
  "\<exists>s t. reach actor_init actor_step (s :: nat actor_sys) \<and> waits (aworld (asy s)) 3 7 \<and> rtask (asy s) 7 = Some t \<and> context_of t (asy s) = Some 3"
proof -
  obtain s1 s2 :: "nat actor_sys" where "reach actor_init actor_step s1" "waits (aworld (asy s1)) 3 7"
    "reach actor_init actor_step s2" "(2, 5) \<in> set (live s2)" "context_of 5 (asy s2) = Some 3" by (rule actors1_run)
  then show ?thesis using waiting_actor_served [of s1 3 7] by blast
qed

end
