(* ===== verification/Spec2Isabelle.thy ===== *)
theory Spec2Isabelle
  imports Mailbox_Check Continuation_Handle Continuation_Check With_Task_Group Semaphore Stop_Source Asio_Awaitable Blocking_Queue_Waiters Coroutine_Handles Context_Switching Actor_Isolation
begin

text \<open>
  Verification of coroactors, a header-only C++20 library of actors on coroutines.

  \<^bold>\<open>The program.\<close>  An actor isolates its state by an \<^emph>\<open>actor context\<close>: a mailbox of
  runnables that also is a lock.  Whoever pushes into an unlocked mailbox becomes its owner
  and runs its runnables; everybody else only pushes.  \<^emph>\<open>Async coroutines\<close> run in
  \<^emph>\<open>tasks\<close>, which carry a stop token, an actor context and task-local values, and are
  mounted on the thread that runs them.  A coroutine that awaits leaves its task and its
  context and takes both again, possibly on another thread, when it is resumed.  Results of
  foreign operations come in through \<^emph>\<open>continuations\<close>, those of concurrent tasks through
  \<^emph>\<open>task groups\<close>, and cancellation through \<^emph>\<open>stop tokens\<close>.

  \<^bold>\<open>Theories and sources\<close> (paths relative to \<open>src/coroactors\<close>).
  \<^item> \<open>Prelude\<close>: addresses, handles, threads; reachability; the contract \<open>inv_system\<close> that
    every interleaving model interprets; linked lists as \<open>path\<close>.
  \<^item> \<open>Link_Chain\<close>, \<open>Mailbox_Contract\<close>: chains of nodes with missing links, and the
    locked-queue contract that both mailboxes provide.
  \<^item> \<open>Intrusive_Mailbox\<close>: \<open>detail/intrusive_mailbox.h\<close>; \<open>mb_step\<close> interleaves the atomic
    accesses of any number of pushers and of the lock holder.
  \<^item> \<open>Mailbox\<close>: \<open>detail/mailbox.h\<close>, with allocated and freed nodes.
  \<^item> \<open>Actor_Context\<close>: \<open>detail/async_context.h\<close>, \<open>detail/actor_context_base.h\<close>;
    \<open>act_step\<close> interleaves whole context switches, \<open>do_yield\<close> included.
  \<^item> \<open>Context_Switching\<close>: these switches except \<open>do_yield\<close>, one atomic access at a time; \<open>switch_step\<close> interleaves
    threads inside them, and each mailbox is simulated by \<open>mb_step\<close> of \<open>Intrusive_Mailbox\<close>.
  \<^item> \<open>Result\<close>: \<open>result.h\<close>.
  \<^item> \<open>Continuation\<close>: \<open>detail/with_continuation.h\<close>, \<open>with_continuation.h\<close>; \<open>cont_step\<close>.
  \<^item> \<open>Continuation_Handle\<close>: the class \<open>continuation\<close> of \<open>with_continuation.h\<close> as an owner, for
    programs on continuation objects that do not resume one after an explicit \<open>destroy()\<close> that came before the await.
  \<^item> \<open>Mailbox_Check\<close>, \<open>Continuation_Check\<close>: the test programs \<open>check_mailbox.cpp\<close> and
    \<open>check_with_continuation.cpp\<close> of \<open>src/tools/checks-relacy\<close>; \<open>check_step\<close>, \<open>k_step\<close>.
  \<^item> \<open>Task_Group\<close>: the sink and the awaiters of \<open>detail/task_group.h\<close>, \<open>task_group.h\<close>; \<open>tg_step\<close>
    interleaves the tasks that end, the coroutine that awaits them with \<open>next()\<close>, \<open>next_result()\<close> or \<open>when_ready()\<close>, and
    the stop callback of the latter.
  \<^item> \<open>With_Task_Group\<close>: the tasks of a group, \<open>task_group\<close> and \<open>with_task_group.h\<close>, for callbacks
    that add tasks, await them in each of the three ways, catch or pass on exceptions and request a stop, with tasks that end in any
    order; a stop request does not race with the end of a task inside \<open>when_ready()\<close>, which \<open>Task_Group\<close> covers.
  \<^item> \<open>Scope_Contract\<close>, \<open>Async_Task\<close>: scopes that are opened and closed; the stacks of tasks and
    task locals of \<open>detail/async_task.h\<close>, \<open>detail/task_local.h\<close>, \<open>task_local.h\<close>,
    \<open>with_stop_token.h\<close>.
  \<^item> \<open>Async\<close>: the promise and the awaiters of \<open>detail/async.h\<close>, \<open>async.h\<close>, which combine the
    tasks with the context switches.
  \<^item> \<open>Intrusive_Ptr\<close>: \<open>intrusive_ptr.h\<close> with its 64-bit reference count.
  \<^item> \<open>Semaphore\<close>: \<open>detail/atomic_semaphore.h\<close>; \<open>sem_step\<close>.
  \<^item> \<open>Stop_Token\<close>: \<open>stop_state\<close> of \<open>detail/stop_token_polyfill.h\<close>; \<open>lock_step\<close> for the lock
    bit of the 32-bit state word and \<open>cb_step\<close> for the callbacks.
  \<^item> \<open>Stop_Source\<close>: the handles \<open>stop_source\<close>, \<open>stop_token\<close>, \<open>stop_callback\<close> on a stop state,
    and the number of sources in its word.
  \<^item> \<open>Asio_Awaitable\<close>: \<open>detail/asio_awaitable.h\<close>, the word of markers and handle that completion,
    cancellation and suspension share; \<open>asio_step\<close>.
  \<^item> \<open>Sleep_Until\<close>: \<open>detail/actor_sleep_until.h\<close> and \<open>detail/actor_with_deadline.h\<close>;
    \<open>sleep_step\<close>.
  \<^item> \<open>Actor_Scheduler\<close>: \<open>actor_scheduler.h\<close> and \<open>asio_actor_scheduler.h\<close>; \<open>timer_step\<close> for a
    timer with its references, \<open>timed_step\<close> for a coroutine that sleeps on a scheduler.  The
    contract \<open>timer_service\<close> is what sleeping needs of \<open>schedule\<close>.
  \<^item> \<open>Context_Api\<close>: \<open>actor_context_base.h\<close> and \<open>actor_context.h\<close>, what an actor calls and awaits,
    on top of \<open>Async\<close> and \<open>Actor_Scheduler\<close>.
  \<^item> \<open>Actor_System\<close>, \<open>Actor_Isolation\<close>: the whole system of coroutines, tasks, threads, contexts and
    schedulers; \<open>actor_step\<close> interleaves the operations of \<open>Async\<close> of any number of coroutines,
    and its invariant combines those of \<open>Async_Task\<close> and \<open>Actor_Context\<close>.
  \<^item> \<open>Blocking_Queue\<close>, \<open>Blocking_Queue_Nodes\<close>, \<open>Blocking_Queue_Waiters\<close>:
    \<open>detail/blocking_queue.h\<close>, its model, the invariant of its nodes, and its waiters;
    \<open>bq_step\<close>.
  \<^item> \<open>Coroutine_Handles\<close>: the owners of coroutine frames, \<open>coro.h\<close>, \<open>async.h\<close>,
    \<open>packaged_awaitable.h\<close>, and \<open>detach_awaitable.h\<close>, \<open>with_resume_callback.h\<close>,
    \<open>detail/scope_guard.h\<close>.  The contract \<open>unique_handle\<close> is what a move-only owner promises.

  \<^bold>\<open>Correspondence.\<close>  A class is a record, an atomic word that holds pointers or markers a
  datatype or a machine word, an operation one definition.  A loop around a compare-exchange is
  one definition per turn, with the value read before (\<open>cur\<close>) and a flag for spurious
  failure; the step relation repeats it.  A failed assertion, \<open>std::terminate\<close> or a
  use of a deleted object is \<open>None\<close> or a \<open>failed\<close> flag, and theorems show that it does not
  happen.  Nodes, coroutines and threads are numbers.  What the library calls but does not
  contain (the clock that ends spinning, the behaviour of a foreign awaited object, when asio runs
  or drops a handler) is an argument or a non-deterministic choice.  What a scheduler answers to
  \<open>preempt\<close> is an argument of the context switches, which \<open>Context_Api\<close> instantiates with the
  answer of the asio scheduler.

  \<^bold>\<open>What is shown.\<close>  Isolation of actors: when coroutines are started, switch contexts, are
  suspended and resumed in any order, no two that are bound to the same context run at the same time, and every
  one that waits is served.  Two awaits are excluded, for which the code is wrong and this does not hold: \<open>yield\<close>
  while other runnables wait for the context, and the await of a ready foreign object in a bound context other than the
  current one.  For the contexts isolation also holds when threads are interleaved between
  any two atomic accesses of a switch.  Mutual exclusion, FIFO order and absence of lost
  wake-ups for the mailboxes, the contexts, continuations, task groups, the semaphore (while its value does not wrap), the
  blocking queue, asio operations, timers and the stop state in every interleaving.  No assertion fails in these models but
  for four that can, and the theorems say when: that on the cancellation flag in \<open>await_ready\<close> of a task group, that in
  \<open>set_continuation\<close> of asio operations, that of \<open>try_unlock_no_item\<close> in the blocking queue, and that in \<open>finish\<close> of a continuation
  that was destroyed before the coroutine awaited.  Functional
  behaviour of the sequential parts, with the mailboxes refining a locked queue, the task
  operations refining stacks and the asio scheduler refining the timer interface; unique
  ownership of coroutine frames and of continuations in every program that moves and destroys their handles;
  the assertions of the test programs for the race detector, and the absence of data races in one of
  them, for any number of threads; defects
  of the code where it does not do what it means to.

  \<^bold>\<open>Bounds.\<close>  No model uses fuel: loops over linked lists are partial functions whose
  termination is proved on lists, compare-exchange loops are steps, and \<open>pop_impl\<close> is shown to
  end after seven accesses.  Words are as wide as in the code where they count or carry flags: 64 bits
  for reference counts and the counters of a task group, 32 for the state of a stop token and the signed value of the semaphore.  Where a count
  would have to wrap for the code to go wrong a hypothesis bounds it: with \<open>2^29\<close> permits the 32-bit value of the semaphore, which counts in fours, wraps.

  \<^bold>\<open>Not modelled.\<close>  Memory orders (interleavings are sequentially consistent), frame
  allocation, the concepts and type traits of \<open>detail/awaiters.h\<close>, \<open>detail/tag_invoke.h\<close> and
  \<open>detail/with_task_group.h\<close>, which act at compile time, asio itself, and the programs that use
  the library: tests, benchmarks, examples and the remaining tool, which looks for effects of relaxed
  memory orders.
\<close>

end
